(* ===== verification/Prelude.thy ===== *)
theory Prelude
  imports Main "HOL-Library.Multiset" "HOL-Library.While_Combinator"
begin

text \<open>
  Shared vocabulary of the development.

  \<^item> \<open>size_t\<close> values are natural numbers below \<open>2 ^ 64\<close>; where the code can leave that
    range (\<open>timing_wheel_hierarchical.h\<close> subtracts tick counts, both wheels cast signed
    tick counts) the wrap-around is written out with \<open>sz_add\<close>, \<open>sz_sub\<close>, \<open>sz_mul\<close> and
    \<open>to_size_t\<close>.
  \<^item> \<open>cxx_div\<close> is the C++ quotient of signed integers, rounding towards zero, which
    \<open>std::chrono\<close> uses to divide durations.
  \<^item> \<open>fn\<close> is \<open>std::function\<close>: \<open>None\<close> is the empty function object, which is what a default
    constructed or moved-from slot of a vector holds.
  \<^item> the generic facts on lists and multisets that several components use.
\<close>

subsection \<open>Machine integers\<close>

type_synonym size_t = nat

abbreviation size_max1 :: nat where
  "size_max1 \<equiv> 18446744073709551616"

abbreviation size_half :: nat where
  "size_half \<equiv> 9223372036854775808"

definition sz_add :: "size_t \<Rightarrow> size_t \<Rightarrow> size_t" where
  "sz_add a b = (a + b) mod size_max1"

definition sz_sub :: "size_t \<Rightarrow> size_t \<Rightarrow> size_t" where
  "sz_sub a b = nat ((int a - int b) mod int size_max1)"

definition sz_mul :: "size_t \<Rightarrow> size_t \<Rightarrow> size_t" where
  "sz_mul a b = (a * b) mod size_max1"

definition to_size_t :: "int \<Rightarrow> size_t" where
  "to_size_t x = nat (x mod int size_max1)"

definition cxx_div :: "int \<Rightarrow> int \<Rightarrow> int" where
  "cxx_div n d =
     (let q = nat \<bar>n\<bar> div nat \<bar>d\<bar>
      in if n < 0 \<longleftrightarrow> d < 0 then int q else - int q)"

text \<open>What \<open>std::chrono::system_clock\<close> can represent: a signed 64-bit count of nanoseconds.\<close>

definition clock_range :: "int \<Rightarrow> bool" where
  "clock_range t \<longleftrightarrow> - int size_half \<le> t \<and> t < int size_half"

lemma sz_add_small [simp]: "a + b < size_max1 \<Longrightarrow> sz_add a b = a + b"
  by (simp add: sz_add_def)

lemma sz_mul_small [simp]: "a * b < size_max1 \<Longrightarrow> sz_mul a b = a * b"
  by (simp add: sz_mul_def)

lemma sz_sub_small [simp]: "b \<le> a \<Longrightarrow> a < size_max1 \<Longrightarrow> sz_sub a b = a - b"
  by (simp add: sz_sub_def nat_diff_distrib)

lemma sz_sub_wraps:
  assumes "a < b" "b \<le> size_max1"
  shows "sz_sub a b = size_max1 - (b - a)"
proof -
  have "(int a - int b) mod int size_max1 = (int a - int b + int size_max1) mod int size_max1"
    by simp
  also have "\<dots> = int a - int b + int size_max1"
    using assms by (intro mod_pos_pos_trivial) auto
  finally have "(int a - int b) mod int size_max1 = int a - int b + int size_max1" .
  with assms show ?thesis by (simp add: sz_sub_def)
qed

lemma sz_lt [simp]: "sz_add a b < size_max1" "sz_mul a b < size_max1" "to_size_t x < size_max1"
    "sz_sub a b < size_max1"
  by (simp_all add: sz_add_def sz_mul_def to_size_t_def sz_sub_def nat_less_iff)

lemma to_size_t_small [simp]: "0 \<le> x \<Longrightarrow> x < int size_max1 \<Longrightarrow> to_size_t x = nat x"
  by (simp add: to_size_t_def)

lemma cxx_div_nonneg: "0 \<le> a \<Longrightarrow> 0 < b \<Longrightarrow> cxx_div a b = a div b"
  by (simp add: cxx_div_def nat_div_distrib[symmetric] pos_imp_zdiv_nonneg_iff)

subsection \<open>Sums and products\<close>

lemma prod_list_pos: "\<forall>x \<in> set xs. 0 < x \<Longrightarrow> 0 < prod_list (xs :: nat list)"
  by (induction xs) auto

lemma sum_split2:
  fixes g :: "nat \<Rightarrow> 'a::comm_monoid_add"
  assumes "i < n" "j < n" "i \<noteq> j"
  shows "(\<Sum>k<n. g k) = g i + g j + (\<Sum>k\<in>{..<n} - {i, j}. g k)"
proof -
  have "(\<Sum>k<n. g k) = g i + (\<Sum>k\<in>{..<n} - {i}. g k)"
    using assms by (simp add: sum.remove)
  also have "(\<Sum>k\<in>{..<n} - {i}. g k) = g j + (\<Sum>k\<in>{..<n} - {i} - {j}. g k)"
    using assms by (intro sum.remove) auto
  also have "{..<n} - {i} - {j} = {..<n} - {i, j}" by auto
  finally show ?thesis by (simp add: add.assoc)
qed

lemma mem_sum_mset: "finite A \<Longrightarrow> x \<in># (\<Sum>i\<in>A. g i) \<longleftrightarrow> (\<exists>i\<in>A. x \<in># g i)"
  by (induction A rule: finite_induct) auto

lemma mset_exchange:
  fixes S :: "'a multiset"
  assumes "S' + F = S + W" "W + A = F + B"
  shows "S' + A = S + B"
proof -
  have "(S' + A) + F = (S' + F) + A" by (simp add: ac_simps)
  also have "\<dots> = S + (W + A)" by (simp only: assms(1) add.assoc)
  also have "\<dots> = S + (F + B)" by (simp only: assms(2))
  also have "\<dots> = (S + B) + F" by (simp only: ac_simps)
  finally show ?thesis by simp
qed

lemma count_update:
  "i < length xs \<Longrightarrow> length (filter P (xs[i := x])) + of_bool (P (xs ! i)) = length (filter P xs) + of_bool (P x)"
proof (induction xs arbitrary: i)
  case (Cons y ys)
  then show ?case using Cons.IH[of "i - 1"] by (cases i) auto
qed simp

lemma count_all: "length (filter P xs) = length xs \<longleftrightarrow> (\<forall>x \<in> set xs. P x)"
  by (metis filter_True length_filter_less less_irrefl)

lemma sum_index_update:
  fixes f :: "nat \<Rightarrow> 'a \<Rightarrow> 'b multiset"
  assumes "i < length xs"
  shows "(\<Sum>j<length xs. f j (xs[i := x] ! j)) + f i (xs ! i) = (\<Sum>j<length xs. f j (xs ! j)) + f i x"
proof -
  have "(\<Sum>j<length xs. f j (xs[i := x] ! j)) = f i x + (\<Sum>j\<in>{..<length xs} - {i}. f j (xs ! j))"
    using assms by (simp add: sum.remove[of _ i])
  moreover have "(\<Sum>j<length xs. f j (xs ! j)) = f i (xs ! i) + (\<Sum>j\<in>{..<length xs} - {i}. f j (xs ! j))"
    using assms by (simp add: sum.remove[of _ i])
  ultimately show ?thesis by (simp add: union_ac)
qed

lemmas sum_mset_update = sum_index_update[where f = "\<lambda>j. f" for f]

subsection \<open>Function objects\<close>

type_synonym 'j fn = "'j option"

subsection \<open>Ring indices\<close>

text \<open>
  In a ring of \<open>n\<close> slots the distance from \<open>h\<close> to \<open>t\<close> is \<open>(t + n - h) mod n\<close>.
\<close>

definition ring_dist :: "nat \<Rightarrow> nat \<Rightarrow> nat \<Rightarrow> nat" where
  "ring_dist n h t = (t + n - h) mod n"

lemma ring_dist_cases:
  "h < n \<Longrightarrow> t < n \<Longrightarrow> ring_dist n h t = (if h \<le> t then t - h else t + n - h)"
  by (auto simp: ring_dist_def mod_if)

lemma ring_dist_less: "h < n \<Longrightarrow> t < n \<Longrightarrow> ring_dist n h t < n"
  by (simp add: ring_dist_def)

lemma ring_dist_add: "h < n \<Longrightarrow> t < n \<Longrightarrow> (h + ring_dist n h t) mod n = t"
  by (auto simp: ring_dist_cases)

lemma ring_dist_0_iff: "h < n \<Longrightarrow> t < n \<Longrightarrow> ring_dist n h t = 0 \<longleftrightarrow> h = t"
  by (auto simp: ring_dist_cases)

lemma ring_dist_Suc_tail:
  "h < n \<Longrightarrow> t < n \<Longrightarrow> (t + 1) mod n \<noteq> h \<Longrightarrow> ring_dist n h ((t + 1) mod n) = ring_dist n h t + 1"
  by (cases "t + 1 = n") (auto simp: ring_dist_cases)

lemma ring_dist_Suc_head:
  "h < n \<Longrightarrow> t < n \<Longrightarrow> h \<noteq> t \<Longrightarrow> ring_dist n ((h + 1) mod n) t = ring_dist n h t - 1"
  by (cases "h + 1 = n") (auto simp: ring_dist_cases)

lemma ring_index_inj_le:
  assumes "i \<le> j" "j < n" "(h + i) mod n = (h + j) mod (n::nat)"
  shows "i = j"
proof -
  have "n dvd (h + j) - (h + i)"
    using assms by (metis add_left_mono mod_eq_dvd_iff_nat)
  then have "n dvd j - i" by simp
  with assms show ?thesis by (metis dvd_imp_le less_imp_diff_less linorder_not_le zero_less_diff le_antisym not_less)
qed

lemma ring_index_inj:
  "i < n \<Longrightarrow> j < n \<Longrightarrow> (h + i) mod n = (h + j) mod n \<longleftrightarrow> i = (j::nat)"
  using ring_index_inj_le[of i j n h] ring_index_inj_le[of j i n h] by (cases "i \<le> j") auto

end
