(* ===== verification/Fifo_Spec.thy ===== *)
theory Fifo_Spec
  imports Prelude
begin

text \<open>
  The contract a first-in first-out queue offers to the scheduler: an abstraction function
  \<open>contents\<close> into lists, an invariant, and the laws of the three operations. The clients
  (\<open>JobWorker\<close>, \<open>WorkerPool\<close>) only use the facts proved here; \<open>Job_Queue\<close> shows that the
  ring buffer of \<open>job_queue.cpp\<close> meets the contract.

  A history is a list of \<open>queue_op\<close>; \<open>spec_history\<close> answers it on plain lists, and
  \<open>run_history\<close> on an implementation.
\<close>

datatype 'a queue_op = Enqueue 'a | Dequeue

fun spec_history :: "'a queue_op list \<Rightarrow> 'a list \<Rightarrow> 'a option list \<times> 'a list" where
  "spec_history [] xs = ([], xs)"
| "spec_history (Enqueue x # ops) xs = spec_history ops (xs @ [x])"
| "spec_history (Dequeue # ops) xs =
     (case xs of
        [] \<Rightarrow> (let (outs, ys) = spec_history ops [] in (None # outs, ys))
      | x # rest \<Rightarrow> (let (outs, ys) = spec_history ops rest in (Some x # outs, ys)))"

fun run_history ::
  "('a \<Rightarrow> 'q \<Rightarrow> 'q) \<Rightarrow> ('q \<Rightarrow> 'a option \<times> 'q) \<Rightarrow> 'a queue_op list \<Rightarrow> 'q \<Rightarrow> 'a option list \<times> 'q"
where
  "run_history enq deq [] q = ([], q)"
| "run_history enq deq (Enqueue x # ops) q = run_history enq deq ops (enq x q)"
| "run_history enq deq (Dequeue # ops) q =
     (let (r, q1) = deq q; (outs, q2) = run_history enq deq ops q1 in (r # outs, q2))"

locale fifo =
  fixes enq :: "'a \<Rightarrow> 'q \<Rightarrow> 'q"
    and deq :: "'q \<Rightarrow> 'a option \<times> 'q"
    and len :: "'q \<Rightarrow> nat"
    and contents :: "'q \<Rightarrow> 'a list"
    and inv :: "'q \<Rightarrow> bool"
  assumes enq_inv: "inv q \<Longrightarrow> inv (enq x q)"
    and enq_contents: "inv q \<Longrightarrow> contents (enq x q) = contents q @ [x]"
    and deq_inv: "inv q \<Longrightarrow> inv (snd (deq q))"
    and deq_Nil: "inv q \<Longrightarrow> contents q = [] \<Longrightarrow> deq q = (None, q)"
    and deq_result: "inv q \<Longrightarrow> contents q = x # xs \<Longrightarrow> fst (deq q) = Some x"
    and deq_rest: "inv q \<Longrightarrow> contents q = x # xs \<Longrightarrow> contents (snd (deq q)) = xs"
    and len_contents: "inv q \<Longrightarrow> len q = length (contents q)"
begin

lemmas laws = enq_inv enq_contents deq_inv deq_Nil deq_result deq_rest len_contents

lemma enq_all_inv: "inv q \<Longrightarrow> inv (fold enq xs q)"
  by (induction xs arbitrary: q) (auto simp: enq_inv)

lemma enq_all_contents: "inv q \<Longrightarrow> contents (fold enq xs q) = contents q @ xs"
  by (induction xs arbitrary: q) (auto simp: enq_inv enq_contents)

lemma deq_None_iff: "inv q \<Longrightarrow> fst (deq q) = None \<longleftrightarrow> contents q = []"
  by (cases "contents q") (auto simp: deq_Nil deq_result)

lemma deq_contents: "inv q \<Longrightarrow> contents q = (case fst (deq q) of None \<Rightarrow> [] | Some x \<Rightarrow> [x]) @ contents (snd (deq q))"
  by (cases "contents q") (auto simp: deq_Nil deq_result deq_rest)

lemma deq_NoneD: "inv q \<Longrightarrow> deq q = (None, q') \<Longrightarrow> contents q = [] \<and> q' = q"
  using deq_None_iff[of q] deq_Nil[of q] by auto

lemma deq_SomeD: "inv q \<Longrightarrow> deq q = (Some x, q') \<Longrightarrow> contents q = x # contents q' \<and> inv q'"
  using deq_contents[of q] deq_inv[of q] by auto

lemma history_refines:
  assumes "inv q"
  shows "fst (run_history enq deq ops q) = fst (spec_history ops (contents q))
       \<and> contents (snd (run_history enq deq ops q)) = snd (spec_history ops (contents q))
       \<and> inv (snd (run_history enq deq ops q))"
  using assms
proof (induction ops arbitrary: q)
  case Nil
  then show ?case by simp
next
  case (Cons p ops)
  show ?case
  proof (cases p)
    case (Enqueue x)
    with Cons.IH[of "enq x q"] Cons.prems show ?thesis by (simp add: enq_inv enq_contents)
  next
    case Dequeue
    with Cons.IH[of "snd (deq q)"] Cons.prems show ?thesis
      by (cases "contents q")
        (auto simp: deq_Nil deq_result deq_rest deq_inv split_def Let_def prod_eq_iff split: list.splits)
  qed
qed

end

end
