(* ===== verification/Job_Queue.thy ===== *)
theory Job_Queue
  imports Fifo_Spec
begin

text \<open>
  \<open>src/scheduler/include/scheduler/job_queue.h\<close> and \<open>src/scheduler/src/job_queue.cpp\<close>: a
  growing ring buffer of \<open>std::function\<close> objects. Each operation holds the spin lock for
  its whole body (\<open>Spin_Lock\<close> proves mutual exclusion), so an operation is one step here.
  Indices are below the length of a vector of 32-byte objects, hence below \<open>2 ^ 59\<close>, so
  \<open>tail + 1\<close> and \<open>2 * size\<close> cannot wrap and are plain naturals; \<open>jq_inv\<close> shows that
  \<open>fetch_sub\<close> is only reached with a positive count.

  A moved-from slot is \<open>None\<close>, the empty function object. \<open>jq_list\<close> reads the ring as the
  list of queued functions, and the interpretation at the end shows that the ring is a
  first-in first-out queue in the sense of \<open>Fifo_Spec\<close>.
\<close>

subsection \<open>State and operations\<close>

record 'j job_queue =
  queue :: "'j fn list"
  head :: nat
  tail :: nat
  current_size :: nat

definition default_size :: nat where
  "default_size = 1024"

definition jq_new :: "nat \<Rightarrow> 'j job_queue" where
  "jq_new base_size = \<lparr>queue = replicate base_size None, head = 0, tail = 0, current_size = 0\<rparr>"

definition jq_default :: "'j job_queue" where
  "jq_default = jq_new default_size"

text \<open>The move constructor: the new object, and the source with its vector moved out.\<close>

definition jq_move :: "'j job_queue \<Rightarrow> 'j job_queue \<times> 'j job_queue" where
  "jq_move other =
     (\<lparr>queue = queue other, head = head other, tail = tail other,
       current_size = current_size other\<rparr>,
      other\<lparr>queue := []\<rparr>)"

text \<open>Move assignment overwrites every field of the target.\<close>

definition jq_move_assign :: "'j job_queue \<Rightarrow> 'j job_queue \<Rightarrow> 'j job_queue \<times> 'j job_queue" where
  "jq_move_assign this other =
     (this\<lparr>queue := queue other, head := head other, tail := tail other,
       current_size := current_size other\<rparr>,
      other\<lparr>queue := []\<rparr>)"

definition jq_size :: "'j job_queue \<Rightarrow> nat" where
  "jq_size q = current_size q"

definition move_slot :: "nat \<Rightarrow> nat \<Rightarrow> 'j fn list \<Rightarrow> 'j fn list" where
  "move_slot src dst b = b[dst := b ! src, src := None]"

definition resize_step ::
  "nat \<Rightarrow> nat \<Rightarrow> 'j fn list \<times> nat \<times> nat \<Rightarrow> 'j fn list \<times> nat \<times> nat" where
  "resize_step old_size new_size = (\<lambda>(b, entry, new_tail).
     ((if entry mod old_size \<noteq> entry mod new_size
       then move_slot (entry mod old_size) (entry mod new_size) b else b),
      entry + 1, new_tail + 1))"

definition resize_guard :: "nat \<Rightarrow> nat \<Rightarrow> 'j fn list \<times> nat \<times> nat \<Rightarrow> bool" where
  "resize_guard old_size old_tail = (\<lambda>(b, entry, new_tail). entry mod old_size \<noteq> old_tail)"

definition resize_loop ::
  "nat \<Rightarrow> nat \<Rightarrow> nat \<Rightarrow> 'j fn list \<times> nat \<times> nat \<Rightarrow> 'j fn list \<times> nat \<times> nat" where
  "resize_loop old_size new_size old_tail =
     while (resize_guard old_size old_tail) (resize_step old_size new_size)"

definition jq_resize :: "'j job_queue \<Rightarrow> 'j job_queue" where
  "jq_resize q =
     (let old_size = length (queue q);
          new_size = length (queue q) * 2;
          (b, entry, new_tail) =
            resize_loop old_size new_size (tail q)
              (queue q @ replicate (new_size - old_size) None, head q, head q)
      in q\<lparr>queue := b, tail := new_tail mod new_size\<rparr>)"

definition jq_enqueue :: "'j fn \<Rightarrow> 'j job_queue \<Rightarrow> 'j job_queue" where
  "jq_enqueue item q =
     (let is_full = ((tail q + 1) mod length (queue q) = head q);
          q1 = (if is_full then jq_resize q else q)
      in q1\<lparr>queue := (queue q1)[tail q1 := item],
            tail := (tail q1 + 1) mod length (queue q1),
            current_size := current_size q1 + 1\<rparr>)"

definition jq_dequeue :: "'j job_queue \<Rightarrow> 'j fn option \<times> 'j job_queue" where
  "jq_dequeue q =
     (if jq_size q = 0 then (None, q)
      else if head q = tail q then (None, q)
      else (Some (queue q ! head q),
            q\<lparr>queue := (queue q)[head q := None],
              head := (head q + 1) mod length (queue q),
              current_size := current_size q - 1\<rparr>))"

subsection \<open>The abstract list and the invariant\<close>

definition jq_count :: "'j job_queue \<Rightarrow> nat" where
  "jq_count q = ring_dist (length (queue q)) (head q) (tail q)"

definition jq_list :: "'j job_queue \<Rightarrow> 'j fn list" where
  "jq_list q = map (\<lambda>i. queue q ! ((head q + i) mod length (queue q))) [0..<jq_count q]"

definition jq_inv :: "'j job_queue \<Rightarrow> bool" where
  "jq_inv q \<longleftrightarrow> head q < length (queue q) \<and> tail q < length (queue q)
     \<and> current_size q = jq_count q"

subsection \<open>Growing the ring\<close>

text \<open>
  The invariant of the resize loop after \<open>k\<close> of the \<open>ring_dist n h t\<close> queued entries: the
  first \<open>k\<close> stand where the doubled ring expects them, the others are still where the old
  ring had them.
\<close>

definition resize_inv ::
  "nat \<Rightarrow> nat \<Rightarrow> nat \<Rightarrow> 'j fn list \<Rightarrow> nat \<Rightarrow> 'j fn list \<times> nat \<times> nat \<Rightarrow> bool" where
  "resize_inv n h t b0 k = (\<lambda>(b, entry, new_tail).
     k \<le> ring_dist n h t \<and> entry = h + k \<and> new_tail = h + k \<and> length b = 2 * n
     \<and> (\<forall>i<k. b ! ((h + i) mod (2 * n)) = b0 ! ((h + i) mod n))
     \<and> (\<forall>i. k \<le> i \<and> i < ring_dist n h t \<longrightarrow> b ! ((h + i) mod n) = b0 ! ((h + i) mod n)))"

lemma resize_guard_iff:
  assumes "h < n" "t < n" "resize_inv n h t b0 k s"
  shows "resize_guard n t s \<longleftrightarrow> k < ring_dist n h t"
proof -
  obtain b e nt where s: "s = (b, e, nt)" by (cases s)
  have k: "k \<le> ring_dist n h t" and e: "e = h + k" using assms(3) by (auto simp: s resize_inv_def)
  have "(h + k) mod n = t \<longleftrightarrow> k = ring_dist n h t"
    using ring_index_inj[of k n "ring_dist n h t" h] ring_dist_add[OF assms(1,2)]
      ring_dist_less[OF assms(1,2)] k by simp
  with k show ?thesis by (auto simp: s e resize_guard_def)
qed

lemma resize_step_inv:
  assumes h: "h < n" and t: "t < n" and inv: "resize_inv n h t b0 k s" and k: "k < ring_dist n h t"
  shows "resize_inv n h t b0 (Suc k) (resize_step n (2 * n) s)"
proof -
  obtain b e nt where s: "s = (b, e, nt)" by (cases s)
  let ?c = "ring_dist n h t"
  have c: "?c < n" by (rule ring_dist_less[OF h t])
  have e: "e = h + k" and nt: "nt = h + k" and len: "length b = 2 * n"
    and moved: "\<And>i. i < k \<Longrightarrow> b ! ((h + i) mod (2 * n)) = b0 ! ((h + i) mod n)"
    and todo: "\<And>i. k \<le> i \<Longrightarrow> i < ?c \<Longrightarrow> b ! ((h + i) mod n) = b0 ! ((h + i) mod n)"
    using inv by (auto simp: s resize_inv_def)
  have small: "\<And>i. i \<le> k \<Longrightarrow> (h + i) mod (2 * n) = h + i" using h k c by simp
  show ?thesis
  proof (cases "e < n")
    case True
    then have "resize_step n (2 * n) s = (b, Suc e, Suc nt)"
      by (simp add: s resize_step_def)
    moreover have "b ! ((h + k) mod (2 * n)) = b0 ! ((h + k) mod n)"
      using True todo[of k] k small[of k] by (simp add: e)
    ultimately show ?thesis
      using k e nt len moved todo by (auto simp: resize_inv_def less_Suc_eq)
  next
    case False
    have emod: "e mod n = e - n" "e mod (2 * n) = e" and e2: "e < 2 * n"
      using False h k c by (auto simp: e le_mod_geq)
    let ?b = "b[e := b ! (e - n), e - n := None]"
    have step: "resize_step n (2 * n) s = (?b, Suc e, Suc nt)"
      using False h by (auto simp: s resize_step_def emod move_slot_def)
    have old: "?b ! ((h + i) mod (2 * n)) = b0 ! ((h + i) mod n)" if "i < k" for i
    proof -
      have "h + i \<noteq> e" "h + i \<noteq> e - n" using that False k c by (auto simp: e)
      with moved[OF that] small[of i] that show ?thesis by simp
    qed
    have new: "?b ! ((h + k) mod (2 * n)) = b0 ! ((h + k) mod n)"
      using todo[of k] k small[of k] False e2 len emod h by (simp add: e)
    have rest: "?b ! ((h + i) mod n) = b0 ! ((h + i) mod n)" if "Suc k \<le> i" "i < ?c" for i
    proof -
      have "(h + i) mod n < n" using h by simp
      moreover have "(h + i) mod n \<noteq> (h + k) mod n"
        using ring_index_inj[of i n k h] that c by simp
      ultimately show ?thesis using todo[of i] that False emod by (simp add: e)
    qed
    show ?thesis
      unfolding step using k e nt len old new rest by (auto simp: resize_inv_def less_Suc_eq)
  qed
qed

lemma resize_init_inv:
  assumes "h < n" "t < n" "length b0 = n"
  shows "resize_inv n h t b0 0 (b0 @ replicate n None, h, h)"
  using assms by (auto simp: resize_inv_def nth_append)

lemma resize_returns:
  assumes h: "h < n" and t: "t < n" and len: "length b0 = n"
  shows "\<exists>s. while_option (resize_guard n t) (resize_step n (2 * n)) (b0 @ replicate n None, h, h) = Some s"
proof (rule measure_while_option_Some
    [where P = "\<lambda>s. \<exists>k. resize_inv n h t b0 k s" and f = "\<lambda>s. h + ring_dist n h t - fst (snd s)"])
  show "\<exists>k. resize_inv n h t b0 k (b0 @ replicate n None, h, h)"
    using resize_init_inv[OF assms] by blast
next
  fix s :: "'a fn list \<times> nat \<times> nat"
  assume "\<exists>k. resize_inv n h t b0 k s" and guard: "resize_guard n t s"
  then obtain k where k: "resize_inv n h t b0 k s" by blast
  have less: "k < ring_dist n h t" using resize_guard_iff[OF h t k] guard by simp
  have next_inv: "resize_inv n h t b0 (Suc k) (resize_step n (2 * n) s)"
    by (rule resize_step_inv[OF h t k less])
  have "fst (snd s) = h + k" "fst (snd (resize_step n (2 * n) s)) = h + Suc k"
    using k next_inv by (auto simp: resize_inv_def split: prod.splits)
  with next_inv less
  show "(\<exists>k. resize_inv n h t b0 k (resize_step n (2 * n) s)) \<and>
      h + ring_dist n h t - fst (snd (resize_step n (2 * n) s)) < h + ring_dist n h t - fst (snd s)"
    by auto
qed

lemma resize_loop_result:
  assumes h: "h < n" and t: "t < n" and len: "length b0 = n"
  shows "resize_inv n h t b0 (ring_dist n h t)
           (resize_loop n (2 * n) t (b0 @ replicate n None, h, h))"
proof -
  obtain s where s: "while_option (resize_guard n t) (resize_step n (2 * n)) (b0 @ replicate n None, h, h) = Some s"
    using resize_returns[OF assms] by blast
  have "\<exists>k. resize_inv n h t b0 k s"
    by (rule while_option_rule[where P = "\<lambda>s. \<exists>k. resize_inv n h t b0 k s", OF _ s])
      (use resize_guard_iff[OF h t] resize_step_inv[OF h t] resize_init_inv[OF assms] in blast)+
  then obtain k where k: "resize_inv n h t b0 k s" by blast
  have "k = ring_dist n h t"
    using while_option_stop[OF s] resize_guard_iff[OF h t k] k by (auto simp: resize_inv_def)
  with k s show ?thesis by (simp add: resize_loop_def while_def)
qed

subsection \<open>The ring is a queue\<close>

lemma jq_listI:
  assumes "length xs = jq_count q"
    and "\<And>i. i < jq_count q \<Longrightarrow> queue q ! ((head q + i) mod length (queue q)) = xs ! i"
  shows "jq_list q = xs"
  using assms by (auto simp: jq_list_def intro!: nth_equalityI)

lemma length_jq_list [simp]: "length (jq_list q) = jq_count q"
  by (simp add: jq_list_def)

lemma jq_list_nth:
  "i < jq_count q \<Longrightarrow> jq_list q ! i = queue q ! ((head q + i) mod length (queue q))"
  by (simp add: jq_list_def)

lemma jq_new_inv: "0 < n \<Longrightarrow> jq_inv (jq_new n)"
  by (simp add: jq_inv_def jq_new_def jq_count_def ring_dist_def)

lemma jq_new_list: "0 < n \<Longrightarrow> jq_list (jq_new n) = []"
  by (simp add: jq_list_def jq_new_def jq_count_def ring_dist_def)

lemma jq_resize_fields:
  assumes "jq_inv q"
  shows "head (jq_resize q) = head q" "current_size (jq_resize q) = current_size q"
    "length (queue (jq_resize q)) = 2 * length (queue q)"
    "tail (jq_resize q) = (head q + jq_count q) mod (2 * length (queue q))"
    "\<And>i. i < jq_count q \<Longrightarrow>
       queue (jq_resize q) ! ((head q + i) mod (2 * length (queue q))) = jq_list q ! i"
  using resize_loop_result[of "head q" "length (queue q)" "tail q" "queue q"] assms
  by (auto simp: jq_resize_def jq_inv_def resize_inv_def jq_count_def jq_list_nth Let_def mult.commute
      split: prod.splits)

lemma jq_resize_count:
  assumes "jq_inv q"
  shows "jq_count (jq_resize q) = jq_count q"
proof -
  have c: "jq_count q < length (queue q)" and h: "head q < length (queue q)"
    using assms by (auto simp: jq_inv_def jq_count_def intro: ring_dist_less)
  then have "head q + jq_count q < 2 * length (queue q)" by simp
  with c h show ?thesis
    by (simp add: jq_count_def[of "jq_resize q"] jq_resize_fields[OF assms] ring_dist_cases)
qed

lemma jq_resize_inv:
  assumes "jq_inv q"
  shows "jq_inv (jq_resize q)"
proof -
  have "head q < length (queue q)" "0 < length (queue q)" using assms by (auto simp: jq_inv_def)
  then show ?thesis
    using assms by (simp add: jq_inv_def jq_resize_fields jq_resize_count)
qed

lemma jq_resize_list: "jq_inv q \<Longrightarrow> jq_list (jq_resize q) = jq_list q"
  by (rule jq_listI) (simp_all add: jq_resize_count jq_resize_fields)

lemma jq_full_count:
  assumes "jq_inv q"
  shows "(tail q + 1) mod length (queue q) = head q \<longleftrightarrow> jq_count q + 1 = length (queue q)"
  using assms by (auto simp: jq_inv_def jq_count_def ring_dist_cases mod_Suc split: if_splits)

lemma jq_resize_not_full:
  assumes "jq_inv q"
  shows "(tail (jq_resize q) + 1) mod length (queue (jq_resize q)) \<noteq> head (jq_resize q)"
proof -
  have "jq_count q < length (queue q)"
    using assms by (auto simp: jq_inv_def jq_count_def intro: ring_dist_less)
  then show ?thesis
    using jq_full_count[OF jq_resize_inv[OF assms]] by (simp add: jq_resize_count jq_resize_fields assms)
qed

text \<open>Writing at \<open>tail\<close> when there is room.\<close>

definition jq_put :: "'j fn \<Rightarrow> 'j job_queue \<Rightarrow> 'j job_queue" where
  "jq_put item q = q\<lparr>queue := (queue q)[tail q := item],
     tail := (tail q + 1) mod length (queue q), current_size := current_size q + 1\<rparr>"

lemma jq_enqueue_put:
  "jq_enqueue item q =
     jq_put item (if (tail q + 1) mod length (queue q) = head q then jq_resize q else q)"
  by (simp add: jq_enqueue_def jq_put_def Let_def)

lemma jq_put_correct:
  assumes inv: "jq_inv q" and room: "(tail q + 1) mod length (queue q) \<noteq> head q"
  shows "jq_inv (jq_put item q) \<and> jq_list (jq_put item q) = jq_list q @ [item]"
proof -
  let ?n = "length (queue q)"
  have h: "head q < ?n" and t: "tail q < ?n" and pos_n: "0 < ?n" using inv by (auto simp: jq_inv_def)
  have count: "jq_count (jq_put item q) = jq_count q + 1"
    using ring_dist_Suc_tail[OF h t room] by (simp add: jq_count_def jq_put_def)
  have c: "jq_count q < ?n" using ring_dist_less[OF h t] by (simp add: jq_count_def)
  have pos: "(head q + jq_count q) mod ?n = tail q"
    using ring_dist_add[OF h t] by (simp add: jq_count_def)
  have "jq_inv (jq_put item q)"
    using inv h count pos_n by (auto simp: jq_inv_def jq_put_def)
  moreover have "jq_list (jq_put item q) = jq_list q @ [item]"
  proof (rule jq_listI)
    fix i assume i: "i < jq_count (jq_put item q)"
    show "queue (jq_put item q) ! ((head (jq_put item q) + i) mod length (queue (jq_put item q)))
        = (jq_list q @ [item]) ! i"
    proof (cases "i = jq_count q")
      case True
      then show ?thesis using pos t by (simp add: jq_put_def nth_append)
    next
      case False
      with i count have less: "i < jq_count q" by simp
      then have "(head q + i) mod ?n \<noteq> tail q"
        using ring_index_inj[of i ?n "jq_count q" "head q"] c pos by simp
      with less show ?thesis by (simp add: jq_put_def nth_append jq_list_nth)
    qed
  qed (simp add: count)
  ultimately show ?thesis by blast
qed

lemma jq_enqueue_correct:
  assumes "jq_inv q"
  shows "jq_inv (jq_enqueue item q) \<and> jq_list (jq_enqueue item q) = jq_list q @ [item]"
  using assms jq_put_correct[OF jq_resize_inv[OF assms] jq_resize_not_full[OF assms]]
    jq_put_correct[OF assms]
  by (simp add: jq_enqueue_put jq_resize_list)

lemma jq_empty_iff:
  "jq_inv q \<Longrightarrow> jq_list q = [] \<longleftrightarrow> head q = tail q"
  "jq_inv q \<Longrightarrow> jq_list q = [] \<longleftrightarrow> jq_size q = 0"
  by (auto simp: jq_inv_def jq_size_def jq_count_def ring_dist_0_iff
      simp flip: length_0_conv)

lemma jq_dequeue_Nil: "jq_inv q \<Longrightarrow> jq_list q = [] \<Longrightarrow> jq_dequeue q = (None, q)"
  by (simp add: jq_dequeue_def jq_empty_iff)

lemma jq_dequeue_Cons:
  assumes inv: "jq_inv q" and q: "jq_list q = x # xs"
  shows "fst (jq_dequeue q) = Some x" "jq_list (snd (jq_dequeue q)) = xs" "jq_inv (snd (jq_dequeue q))"
proof -
  let ?n = "length (queue q)" and ?q = "snd (jq_dequeue q)"
  have h: "head q < ?n" and t: "tail q < ?n" and pos_n: "0 < ?n" using inv by (auto simp: jq_inv_def)
  have ne: "head q \<noteq> tail q" "jq_size q \<noteq> 0"
    using jq_empty_iff[OF inv] q by auto
  have count: "jq_count q = Suc (length xs)" using q by (metis length_Cons length_jq_list)
  have x: "queue q ! head q = x"
    using jq_list_nth[of 0 q] q h by (simp add: count)
  show "fst (jq_dequeue q) = Some x" using ne x by (simp add: jq_dequeue_def)
  have deq: "?q = q\<lparr>queue := (queue q)[head q := None], head := (head q + 1) mod ?n,
      current_size := current_size q - 1\<rparr>"
    using ne by (simp add: jq_dequeue_def)
  have count': "jq_count ?q = length xs"
    using ring_dist_Suc_head[OF h t ne(1)] count by (simp add: deq jq_count_def)
  show "jq_inv ?q"
    using inv h pos_n count count' by (simp add: jq_inv_def deq)
  show "jq_list ?q = xs"
  proof (rule jq_listI)
    fix i assume "i < jq_count ?q"
    then have i: "Suc i < jq_count q" "i < length xs" using count count' by auto
    have "Suc i < ?n" using i(1) ring_dist_less[OF h t] by (simp add: jq_count_def)
    then have "(head q + Suc i) mod ?n \<noteq> head q"
      using ring_index_inj[of "Suc i" ?n 0 "head q"] h pos_n by simp
    then have "queue ?q ! ((head ?q + i) mod length (queue ?q)) = queue q ! ((head q + Suc i) mod ?n)"
      by (simp add: deq mod_Suc_eq mod_add_left_eq flip: add_Suc)
    also have "\<dots> = xs ! i"
      using jq_list_nth[OF i(1)] q by simp
    finally show "queue ?q ! ((head ?q + i) mod length (queue ?q)) = xs ! i" .
  qed (simp add: count')
qed

interpretation jq: fifo jq_enqueue jq_dequeue jq_size jq_list jq_inv
proof unfold_locales
  fix q :: "'a job_queue" assume "jq_inv q"
  then show "jq_inv (snd (jq_dequeue q))"
    by (cases "jq_list q") (simp_all add: jq_dequeue_Nil jq_dequeue_Cons)
next
  fix q :: "'a job_queue" assume "jq_inv q"
  then show "jq_size q = length (jq_list q)" by (simp add: jq_inv_def jq_size_def)
qed (auto simp: jq_enqueue_correct jq_dequeue_Nil jq_dequeue_Cons)

subsection \<open>Properties\<close>

text \<open>
  C6: The ring buffer is a first-in first-out queue: every history of enqueues and dequeues
  gives the answers of the plain list specification and ends with its contents, through any
  number of resizes.
\<close>

theorem job_queue_refines_fifo:
  assumes "jq_inv q"
  shows "fst (run_history jq_enqueue jq_dequeue ops q) = fst (spec_history ops (jq_list q))
    \<and> jq_list (snd (run_history jq_enqueue jq_dequeue ops q)) = snd (spec_history ops (jq_list q))
    \<and> jq_inv (snd (run_history jq_enqueue jq_dequeue ops q))"
  by (rule jq.history_refines[OF assms])

theorem job_queue_refines_fifo_witness:
  "fst (run_history jq_enqueue jq_dequeue
      [Enqueue (Some 1), Dequeue, Enqueue (Some 2), Enqueue (Some 3), Enqueue (Some 4), Dequeue, Dequeue, Dequeue, Dequeue]
      (jq_new 2 :: nat job_queue))
    = [Some (Some 1), Some (Some 2), Some (Some 3), Some (Some 4), None]"
  by (subst job_queue_refines_fifo[THEN conjunct1]) (simp_all add: jq_new_inv jq_new_list)

text \<open>
  The loop that moves the entries of a full ring terminates: it returns from every
  well-formed queue.
\<close>

theorem job_queue_resize_terminates:
  assumes "jq_inv q"
  shows "\<exists>s. while_option (resize_guard (length (queue q)) (tail q))
      (resize_step (length (queue q)) (2 * length (queue q)))
      (queue q @ replicate (length (queue q)) None, head q, head q) = Some s"
  using assms by (intro resize_returns) (auto simp: jq_inv_def)

theorem job_queue_resize_terminates_witness:
  "let q = jq_enqueue (Some (1::nat)) (jq_new 2)
   in \<exists>s. while_option (resize_guard (length (queue q)) (tail q))
        (resize_step (length (queue q)) (2 * length (queue q)))
        (queue q @ replicate (length (queue q)) None, head q, head q) = Some s"
  unfolding Let_def by (rule job_queue_resize_terminates) (simp add: jq.enq_inv jq_new_inv)

text \<open>
  The loop with which a resize moves the entries terminates on every well-formed queue, and
  the resize doubles the ring, keeps the queued functions and their order, and leaves room for
  the enqueue that asked for it.
\<close>

theorem job_queue_resize_keeps_jobs:
  assumes "jq_inv q"
  shows "(\<exists>s. while_option (resize_guard (length (queue q)) (tail q))
        (resize_step (length (queue q)) (2 * length (queue q)))
        (queue q @ replicate (length (queue q)) None, head q, head q) = Some s)
    \<and> jq_list (jq_resize q) = jq_list q \<and> length (queue (jq_resize q)) = 2 * length (queue q)
    \<and> jq_inv (jq_resize q) \<and> (tail (jq_resize q) + 1) mod length (queue (jq_resize q)) \<noteq> head (jq_resize q)"
  using job_queue_resize_terminates[OF assms] jq_resize_list[OF assms] jq_resize_fields(3)[OF assms]
    jq_resize_inv[OF assms] jq_resize_not_full[OF assms]
  by blast

theorem job_queue_resize_keeps_jobs_witness:
  "jq_list (jq_resize (jq_enqueue (Some (1::nat)) (jq_new 2))) = [Some 1]"
  by (simp add: job_queue_resize_keeps_jobs jq.enq_inv jq.enq_contents jq_new_inv jq_new_list)

end
