(* ===== verification/Worker_Pool.thy ===== *)
theory Worker_Pool
  imports Job_Queue
begin

text \<open>
  \<open>scheduling_context.h\<close>, \<open>worker.h\<close>, \<open>worker.cpp\<close>, \<open>worker_pool.h\<close> and
  \<open>worker_pool.cpp\<close> of \<open>src/scheduler\<close>: the workers, each with a queue of its own, the
  global queue, and how an idle worker looks for work. What a job does when it runs is not
  the pool's business; the pool hands out function objects.

  The random start of the stealing loop (\<open>std::random_device\<close>, \<open>std::mt19937\<close>) is an
  argument.
\<close>

subsection \<open>Contexts and workers\<close>

record sched_context =
  worker_id :: "nat option"

definition ctx_empty :: sched_context where
  "ctx_empty = \<lparr>worker_id = None\<rparr>"

definition ctx_worker :: "nat \<Rightarrow> sched_context" where
  "ctx_worker i = \<lparr>worker_id = Some i\<rparr>"

definition ctx_eq :: "sched_context \<Rightarrow> sched_context \<Rightarrow> bool" where
  "ctx_eq a b \<longleftrightarrow> worker_id a = worker_id b"

record 'j worker =
  worker_context :: sched_context
  worker_jobs :: "'j job_queue"
  worker_thread :: bool

definition worker_new :: "sched_context \<Rightarrow> 'j worker" where
  "worker_new ctx = \<lparr>worker_context = ctx, worker_jobs = jq_default, worker_thread = False\<rparr>"

definition worker_start :: "'j worker \<Rightarrow> bool \<times> 'j worker" where
  "worker_start w = (if worker_thread w then (False, w) else (True, w\<lparr>worker_thread := True\<rparr>))"

definition worker_steal_job :: "'j worker \<Rightarrow> 'j fn option \<times> 'j worker" where
  "worker_steal_job w = (let (r, q) = jq_dequeue (worker_jobs w) in (r, w\<lparr>worker_jobs := q\<rparr>))"

definition worker_queue_jobs :: "'j fn list \<Rightarrow> 'j worker \<Rightarrow> 'j worker" where
  "worker_queue_jobs jobs w = w\<lparr>worker_jobs := fold jq_enqueue jobs (worker_jobs w)\<rparr>"

definition worker_queue_job :: "'j fn \<Rightarrow> 'j worker \<Rightarrow> 'j worker" where
  "worker_queue_job job w = worker_queue_jobs [job] w"

text \<open>The implicit move constructor, used by \<open>emplace_back\<close>.\<close>

definition worker_move :: "'j worker \<Rightarrow> 'j worker" where
  "worker_move w = w\<lparr>worker_jobs := fst (jq_move (worker_jobs w))\<rparr>"

subsection \<open>The pool\<close>

record 'j worker_pool =
  global_queue :: "'j job_queue"
  workers :: "'j worker list"

fun add_workers :: "nat list \<Rightarrow> 'j worker list \<Rightarrow> 'j worker list" where
  "add_workers [] ws = ws"
| "add_workers (i # is) ws = add_workers is (ws @ [worker_move (worker_new (ctx_worker i))])"

text \<open>The start loop; the flag tells whether the assertion in it held for every worker.\<close>

fun start_workers :: "'j worker list \<Rightarrow> bool \<times> 'j worker list" where
  "start_workers [] = (True, [])"
| "start_workers (w # ws) =
     (let (could_start, w1) = worker_start w; (rest, ws1) = start_workers ws
      in (could_start \<and> rest, w1 # ws1))"

definition pool_new :: "nat \<Rightarrow> bool \<times> 'j worker_pool" where
  "pool_new n_workers =
     (let (all_started, ws) = start_workers (add_workers [0..<n_workers] [])
      in (all_started, \<lparr>global_queue = jq_default, workers = ws\<rparr>))"

definition pool_queue_jobs :: "sched_context \<Rightarrow> 'j fn list \<Rightarrow> 'j worker_pool \<Rightarrow> 'j worker_pool" where
  "pool_queue_jobs ctx jobs p =
     (case worker_id ctx of
        Some i \<Rightarrow> p\<lparr>workers := (workers p)[i := worker_queue_jobs jobs (workers p ! i)]\<rparr>
      | None \<Rightarrow> p\<lparr>global_queue := fold jq_enqueue jobs (global_queue p)\<rparr>)"

definition pool_queue_job :: "sched_context \<Rightarrow> 'j fn \<Rightarrow> 'j worker_pool \<Rightarrow> 'j worker_pool" where
  "pool_queue_job ctx job p = pool_queue_jobs ctx [job] p"

definition steal_at :: "nat \<Rightarrow> 'j worker_pool \<Rightarrow> 'j fn option \<times> 'j worker_pool" where
  "steal_at i p =
     (let (r, w) = worker_steal_job (workers p ! i) in (r, p\<lparr>workers := (workers p)[i := w]\<rparr>))"

definition dequeue_global :: "'j worker_pool \<Rightarrow> 'j fn option \<times> 'j worker_pool" where
  "dequeue_global p = (let (r, q) = jq_dequeue (global_queue p) in (r, p\<lparr>global_queue := q\<rparr>))"

fun steal_loop :: "nat list \<Rightarrow> 'j worker_pool \<Rightarrow> 'j fn option \<times> 'j worker_pool" where
  "steal_loop [] p = (None, p)"
| "steal_loop (i # is) p =
     (case steal_at i p of (Some job, p1) \<Rightarrow> (Some job, p1) | (None, p1) \<Rightarrow> steal_loop is p1)"

definition find_new_work :: "nat \<Rightarrow> 'j worker_pool \<Rightarrow> 'j fn option \<times> 'j worker_pool" where
  "find_new_work random_worker p =
     (case dequeue_global p of
        (Some job, p1) \<Rightarrow> (Some job, p1)
      | (None, p1) \<Rightarrow>
          let num_workers = length (workers p1)
          in steal_loop (map (\<lambda>i. (random_worker + i) mod num_workers) [0..<num_workers]) p1)"

text \<open>
  One turn of a worker's loop up to the call of the job: its own queue first, then
  \<open>steal_work\<close>, which the pool binds to \<open>find_new_work\<close>.
\<close>

definition worker_next :: "nat \<Rightarrow> nat \<Rightarrow> 'j worker_pool \<Rightarrow> 'j fn option \<times> 'j worker_pool" where
  "worker_next i random_worker p =
     (case steal_at i p of
        (Some job, p1) \<Rightarrow> (Some job, p1)
      | (None, p1) \<Rightarrow> find_new_work random_worker p1)"

subsection \<open>Queued jobs and the pool invariant\<close>

definition worker_list :: "'j worker \<Rightarrow> 'j fn list" where
  "worker_list w = jq_list (worker_jobs w)"

definition pool_jobs :: "'j worker_pool \<Rightarrow> 'j fn multiset" where
  "pool_jobs p = mset (jq_list (global_queue p)) + (\<Sum>i<length (workers p). mset (worker_list (workers p ! i)))"

definition pool_inv :: "'j worker_pool \<Rightarrow> bool" where
  "pool_inv p \<longleftrightarrow> jq_inv (global_queue p)
     \<and> (\<forall>i < length (workers p). jq_inv (worker_jobs (workers p ! i))
          \<and> worker_context (workers p ! i) = ctx_worker i \<and> worker_thread (workers p ! i))"

text \<open>Contexts the pool can be asked with: the empty one, or that of one of its workers.\<close>

definition ctx_ok :: "'j worker_pool \<Rightarrow> sched_context \<Rightarrow> bool" where
  "ctx_ok p ctx \<longleftrightarrow> (case worker_id ctx of None \<Rightarrow> True | Some i \<Rightarrow> i < length (workers p))"

lemma pool_jobs_update:
  assumes i: "i < length (workers p)"
    and w: "mset (worker_list w) + A = mset (worker_list (workers p ! i)) + B"
  shows "pool_jobs (p\<lparr>workers := (workers p)[i := w]\<rparr>) + A = pool_jobs p + B"
proof -
  let ?f = "\<lambda>w. mset (worker_list w)"
  have "(\<Sum>j<length (workers p). ?f ((workers p)[i := w] ! j)) + A = (\<Sum>j<length (workers p). ?f (workers p ! j)) + B"
    by (rule mset_exchange[OF sum_mset_update[OF i, of ?f w] w])
  then show ?thesis by (simp add: pool_jobs_def union_assoc)
qed

lemma pool_inv_update:
  assumes "pool_inv p" "i < length (workers p)" "jq_inv (worker_jobs w)"
    "worker_context w = worker_context (workers p ! i)" "worker_thread w = worker_thread (workers p ! i)"
  shows "pool_inv (p\<lparr>workers := (workers p)[i := w]\<rparr>)"
  using assms by (auto simp: pool_inv_def nth_list_update)

subsection \<open>Each queue operation moves the jobs it says\<close>

lemma length_steal_at [simp]: "length (workers (snd (steal_at i p))) = length (workers p)"
  by (simp add: steal_at_def split_def Let_def)

lemma steal_at_global [simp]: "global_queue (snd (steal_at i p)) = global_queue p"
  by (simp add: steal_at_def split_def Let_def)

lemma dequeue_global_workers [simp]: "workers (snd (dequeue_global p)) = workers p"
  by (simp add: dequeue_global_def split_def Let_def)

lemma pool_invD:
  assumes "pool_inv p"
  shows "jq_inv (global_queue p)" "i < length (workers p) \<Longrightarrow> jq_inv (worker_jobs (workers p ! i))"
  using assms by (auto simp: pool_inv_def)

lemma worker_list_Some:
  "jq_inv (worker_jobs w) \<Longrightarrow> worker_steal_job w = (Some j, w') \<Longrightarrow>
     worker_list w = j # worker_list w' \<and> jq_inv (worker_jobs w')
     \<and> worker_context w' = worker_context w \<and> worker_thread w' = worker_thread w"
  by (cases "jq_dequeue (worker_jobs w)")
    (auto simp: worker_steal_job_def worker_list_def dest: jq.deq_SomeD)

lemma worker_list_None:
  "jq_inv (worker_jobs w) \<Longrightarrow> worker_steal_job w = (None, w') \<Longrightarrow> worker_list w = [] \<and> w' = w"
  by (cases "jq_dequeue (worker_jobs w)")
    (auto simp: worker_steal_job_def worker_list_def dest: jq.deq_NoneD)

lemma steal_at_Some:
  assumes inv: "pool_inv p" and i: "i < length (workers p)" and st: "steal_at i p = (Some j, p')"
  shows "pool_inv p'" "pool_jobs p = add_mset j (pool_jobs p')"
    "worker_list (workers p ! i) = j # worker_list (workers p' ! i)"
    "length (workers p') = length (workers p)"
proof -
  obtain w' where w: "worker_steal_job (workers p ! i) = (Some j, w')"
    and p': "p' = p\<lparr>workers := (workers p)[i := w']\<rparr>"
    using st by (auto simp: steal_at_def Let_def split: prod.splits)
  note wl = worker_list_Some[OF pool_invD(2)[OF inv i] w]
  show "pool_inv p'" using inv i wl by (simp add: p' pool_inv_update)
  have "pool_jobs p' + {#j#} = pool_jobs p + {#}"
    unfolding p' using wl by (intro pool_jobs_update[OF i]) simp
  then show "pool_jobs p = add_mset j (pool_jobs p')" by simp
  show "worker_list (workers p ! i) = j # worker_list (workers p' ! i)"
    "length (workers p') = length (workers p)" using wl i by (simp_all add: p')
qed

lemma steal_at_None:
  assumes inv: "pool_inv p" and i: "i < length (workers p)" and st: "steal_at i p = (None, p')"
  shows "p' = p" "worker_list (workers p ! i) = []"
proof -
  obtain w' where w: "worker_steal_job (workers p ! i) = (None, w')"
    and p': "p' = p\<lparr>workers := (workers p)[i := w']\<rparr>"
    using st by (auto simp: steal_at_def Let_def split: prod.splits)
  note wl = worker_list_None[OF pool_invD(2)[OF inv i] w]
  show "p' = p" "worker_list (workers p ! i) = []" using wl by (simp_all add: p')
qed

lemma dequeue_global_Some:
  assumes inv: "pool_inv p" and st: "dequeue_global p = (Some j, p')"
  shows "pool_inv p'" "pool_jobs p = add_mset j (pool_jobs p')"
    "jq_list (global_queue p) = j # jq_list (global_queue p')" "workers p' = workers p"
proof -
  obtain q where q: "jq_dequeue (global_queue p) = (Some j, q)" and p': "p' = p\<lparr>global_queue := q\<rparr>"
    using st by (auto simp: dequeue_global_def Let_def split: prod.splits)
  note l = jq.deq_SomeD[OF pool_invD(1)[OF inv] q]
  show "pool_inv p'" using inv l by (simp add: p' pool_inv_def)
  show "pool_jobs p = add_mset j (pool_jobs p')" using l by (simp add: p' pool_jobs_def)
  show "jq_list (global_queue p) = j # jq_list (global_queue p')" "workers p' = workers p"
    using l by (simp_all add: p')
qed

lemma dequeue_global_None:
  assumes inv: "pool_inv p" and st: "dequeue_global p = (None, p')"
  shows "p' = p" "jq_list (global_queue p) = []"
proof -
  obtain q where q: "jq_dequeue (global_queue p) = (None, q)" and p': "p' = p\<lparr>global_queue := q\<rparr>"
    using st by (auto simp: dequeue_global_def Let_def split: prod.splits)
  note l = jq.deq_NoneD[OF pool_invD(1)[OF inv] q]
  show "p' = p" "jq_list (global_queue p) = []" using l by (simp_all add: p')
qed

lemma steal_loop_correct:
  assumes "pool_inv p" "\<forall>i \<in> set is. i < length (workers p)" "steal_loop is p = (r, p')"
  shows "case r of
      None \<Rightarrow> p' = p \<and> (\<forall>i \<in> set is. worker_list (workers p ! i) = [])
    | Some j \<Rightarrow> pool_inv p' \<and> pool_jobs p = add_mset j (pool_jobs p')
        \<and> length (workers p') = length (workers p) \<and> global_queue p' = global_queue p"
  using assms
proof (induction "is")
  case Nil
  then show ?case by auto
next
  case (Cons i "is")
  have i: "i < length (workers p)" using Cons.prems by simp
  show ?case
  proof (cases "steal_at i p")
    case (Pair s p1)
    show ?thesis
    proof (cases s)
      case None
      with Pair have st: "steal_at i p = (None, p1)" by simp
      note none = steal_at_None[OF Cons.prems(1) i st]
      show ?thesis
        using Cons.IH[OF Cons.prems(1)] Cons.prems(2,3) none st by (auto split: option.splits)
    next
      case (Some j)
      with Pair have st: "steal_at i p = (Some j, p1)" by simp
      note some = steal_at_Some[OF Cons.prems(1) i st]
      have "r = Some j \<and> p' = p1" using Cons.prems(3) st by auto
      then show ?thesis using some steal_at_global[of i p] st by simp
    qed
  qed
qed

lemma ring_scan_covers:
  "set (map (\<lambda>i. (r + i) mod n) [0..<n]) = {..<n::nat}"
proof -
  have "inj_on (\<lambda>i. (r + i) mod n) {..<n}"
    using ring_index_inj by (intro inj_onI) blast
  moreover have "(\<lambda>i. (r + i) mod n) ` {..<n} \<subseteq> {..<n}" by (cases "n = 0") auto
  ultimately have "(\<lambda>i. (r + i) mod n) ` {..<n} = {..<n}"
    by (intro endo_inj_surj) auto
  then show ?thesis by (simp add: lessThan_atLeast0)
qed

lemma pool_jobs_empty:
  assumes "jq_list (global_queue p) = []" "\<forall>i < length (workers p). worker_list (workers p ! i) = []"
  shows "pool_jobs p = {#}"
  using assms by (simp add: pool_jobs_def)

lemma find_new_work_correct:
  assumes inv: "pool_inv p" and f: "find_new_work r p = (res, p')"
  shows "case res of
      None \<Rightarrow> p' = p \<and> pool_jobs p = {#}
    | Some j \<Rightarrow> pool_inv p' \<and> pool_jobs p = add_mset j (pool_jobs p') \<and> length (workers p') = length (workers p)"
proof (cases "dequeue_global p")
  case (Pair g p1)
  let ?n = "length (workers p)"
  let ?ids = "map (\<lambda>i. (r + i) mod ?n) [0..<?n]"
  show ?thesis
  proof (cases g)
    case None
    with Pair have st: "dequeue_global p = (None, p1)" by simp
    note none = dequeue_global_None[OF inv st]
    have loop: "steal_loop ?ids p = (res, p')"
      using f st none by (simp add: find_new_work_def Let_def)
    have ids: "\<forall>i \<in> set ?ids. i < ?n" using ring_scan_covers[of r ?n] by simp
    show ?thesis
      using steal_loop_correct[OF inv ids loop] ring_scan_covers[of r ?n] none(2)
      by (auto split: option.splits intro!: pool_jobs_empty)
  next
    case (Some j)
    with Pair have st: "dequeue_global p = (Some j, p1)" by simp
    note some = dequeue_global_Some[OF inv st]
    have "res = Some j \<and> p' = p1" using f st by (simp add: find_new_work_def)
    then show ?thesis using some by simp
  qed
qed

lemma worker_next_correct:
  assumes inv: "pool_inv p" and i: "i < length (workers p)" and n: "worker_next i r p = (res, p')"
  shows "case res of
      None \<Rightarrow> p' = p \<and> pool_jobs p = {#}
    | Some j \<Rightarrow> pool_inv p' \<and> pool_jobs p = add_mset j (pool_jobs p') \<and> length (workers p') = length (workers p)"
proof (cases "steal_at i p")
  case (Pair s p1)
  show ?thesis
  proof (cases s)
    case None
    with Pair have st: "steal_at i p = (None, p1)" by simp
    have "find_new_work r p = (res, p')"
      using n st steal_at_None(1)[OF inv i st] by (simp add: worker_next_def)
    then show ?thesis by (rule find_new_work_correct[OF inv])
  next
    case (Some j)
    with Pair have st: "steal_at i p = (Some j, p1)" by simp
    have "res = Some j \<and> p' = p1" using n st by (simp add: worker_next_def)
    then show ?thesis using steal_at_Some[OF inv i st] by simp
  qed
qed

lemma worker_next_priority:
  assumes inv: "pool_inv p" and i: "i < length (workers p)"
  shows "worker_list (workers p ! i) = j # js \<Longrightarrow> fst (worker_next i r p) = Some j"
    and "worker_list (workers p ! i) = [] \<Longrightarrow> jq_list (global_queue p) = j # js \<Longrightarrow>
      fst (worker_next i r p) = Some j"
proof -
  show "fst (worker_next i r p) = Some j" if own: "worker_list (workers p ! i) = j # js"
    using steal_at_Some(3)[OF inv i] steal_at_None(2)[OF inv i] own
    by (cases "steal_at i p"; cases "fst (steal_at i p)") (fastforce simp: worker_next_def)+
  show "fst (worker_next i r p) = Some j"
    if own: "worker_list (workers p ! i) = []" and g: "jq_list (global_queue p) = j # js"
  proof -
    obtain p1 where st: "steal_at i p = (None, p1)"
      using steal_at_Some(3)[OF inv i] own by (cases "steal_at i p"; cases "fst (steal_at i p)") fastforce+
    have p1: "p1 = p" by (rule steal_at_None(1)[OF inv i st])
    obtain g' p2 where d: "dequeue_global p = (g', p2)" by (cases "dequeue_global p")
    have "g' = Some j"
      using d g dequeue_global_Some(3)[OF inv, of _ p2] dequeue_global_None(2)[OF inv, of p2] by (cases g') auto
    then show ?thesis using st p1 d by (simp add: worker_next_def find_new_work_def)
  qed
qed

lemma pool_queue_jobs_correct:
  assumes inv: "pool_inv p" and ctx: "ctx_ok p ctx"
  shows "pool_inv (pool_queue_jobs ctx jobs p)"
    and "pool_jobs (pool_queue_jobs ctx jobs p) = pool_jobs p + mset jobs"
    and "length (workers (pool_queue_jobs ctx jobs p)) = length (workers p)"
proof -
  have "pool_inv (pool_queue_jobs ctx jobs p)
      \<and> pool_jobs (pool_queue_jobs ctx jobs p) = pool_jobs p + mset jobs
      \<and> length (workers (pool_queue_jobs ctx jobs p)) = length (workers p)"
  proof (cases "worker_id ctx")
    case None
    then show ?thesis
      using inv jq.enq_all_inv[OF pool_invD(1)[OF inv]] jq.enq_all_contents[OF pool_invD(1)[OF inv]]
      by (simp add: pool_queue_jobs_def pool_inv_def pool_jobs_def union_ac)
  next
    case (Some i)
    then have i: "i < length (workers p)" using ctx by (simp add: ctx_ok_def)
    let ?w = "worker_queue_jobs jobs (workers p ! i)"
    have "jq_inv (worker_jobs ?w)" "worker_list ?w = worker_list (workers p ! i) @ jobs"
      using jq.enq_all_inv[OF pool_invD(2)[OF inv i]] jq.enq_all_contents[OF pool_invD(2)[OF inv i]]
      by (simp_all add: worker_queue_jobs_def worker_list_def)
    moreover have "worker_context ?w = worker_context (workers p ! i)" "worker_thread ?w = worker_thread (workers p ! i)"
      by (simp_all add: worker_queue_jobs_def)
    ultimately have "pool_inv (p\<lparr>workers := (workers p)[i := ?w]\<rparr>)"
      and "mset (worker_list ?w) + {#} = mset (worker_list (workers p ! i)) + mset jobs"
      using inv i by (simp_all add: pool_inv_update)
    moreover from this(2) have "pool_jobs (p\<lparr>workers := (workers p)[i := ?w]\<rparr>) + {#} = pool_jobs p + mset jobs"
      by (rule pool_jobs_update[OF i])
    ultimately show ?thesis using Some by (simp add: pool_queue_jobs_def)
  qed
  then show "pool_inv (pool_queue_jobs ctx jobs p)"
    and "pool_jobs (pool_queue_jobs ctx jobs p) = pool_jobs p + mset jobs"
    and "length (workers (pool_queue_jobs ctx jobs p)) = length (workers p)" by auto
qed

subsection \<open>A worker on its own\<close>

text \<open>Turns of one worker, with the starts its stealing loops draw, and the jobs it takes.\<close>

fun worker_turns :: "nat \<Rightarrow> nat list \<Rightarrow> 'j worker_pool \<Rightarrow> 'j fn list \<times> 'j worker_pool" where
  "worker_turns i [] p = ([], p)"
| "worker_turns i (rnd # rnds) p =
     (case worker_next i rnd p of
        (None, p1) \<Rightarrow> worker_turns i rnds p1
      | (Some j, p1) \<Rightarrow> let (js, p2) = worker_turns i rnds p1 in (j # js, p2))"

lemma worker_turns_correct:
  assumes "pool_inv p" "i < length (workers p)"
  shows "pool_jobs p = mset (fst (worker_turns i rnds p)) + pool_jobs (snd (worker_turns i rnds p))
    \<and> length (fst (worker_turns i rnds p)) = min (length rnds) (size (pool_jobs p))
    \<and> pool_inv (snd (worker_turns i rnds p))"
  using assms
proof (induction rnds arbitrary: p)
  case (Cons rnd rnds)
  obtain res p1 where n: "worker_next i rnd p = (res, p1)" by (cases "worker_next i rnd p")
  note c = worker_next_correct[OF Cons.prems n]
  show ?case
  proof (cases res)
    case None
    then have e: "p1 = p" "pool_jobs p = {#}" using c by auto
    have t: "worker_turns i (rnd # rnds) p = worker_turns i rnds p" by (simp add: n None e(1))
    have "min (length (rnd # rnds)) (size (pool_jobs p)) = min (length rnds) (size (pool_jobs p))" by (simp add: e(2))
    with Cons.IH[OF Cons.prems] show ?thesis unfolding t by (elim conjE) (intro conjI; simp only:)
  next
    case (Some j)
    then have p1: "pool_inv p1" "pool_jobs p = add_mset j (pool_jobs p1)" "length (workers p1) = length (workers p)"
      using c by auto
    have i: "i < length (workers p1)" using Cons.prems(2) p1(3) by simp
    have t: "fst (worker_turns i (rnd # rnds) p) = j # fst (worker_turns i rnds p1)"
      "snd (worker_turns i (rnd # rnds) p) = snd (worker_turns i rnds p1)"
      by (simp_all add: n Some split_def Let_def)
    from Cons.IH[OF p1(1) i] show ?thesis unfolding t p1(2) by (elim conjE) (intro conjI, simp_all)
  qed
qed simp

subsection \<open>Construction\<close>

lemma add_workers_eq:
  "add_workers is ws = ws @ map (\<lambda>i. worker_move (worker_new (ctx_worker i))) is"
  by (induction "is" arbitrary: ws) auto

lemma start_workers_eq:
  "\<forall>w \<in> set ws. \<not> worker_thread w \<Longrightarrow> start_workers ws = (True, map (\<lambda>w. w\<lparr>worker_thread := True\<rparr>) ws)"
  by (induction ws) (auto simp: worker_start_def)

lemma jq_default_correct: "jq_inv jq_default" "jq_list jq_default = []"
  by (simp_all add: jq_default_def default_size_def jq_new_inv jq_new_list)

lemma jq_move_fst: "fst (jq_move q) = q"
  by (simp add: jq_move_def)

lemma pool_new_correct:
  "fst (pool_new n :: bool \<times> 'j worker_pool)" "pool_inv (snd (pool_new n) :: 'j worker_pool)"
  "pool_jobs (snd (pool_new n) :: 'j worker_pool) = {#}"
  "length (workers (snd (pool_new n) :: 'j worker_pool)) = n"
proof -
  let ?w = "\<lambda>i. (worker_new (ctx_worker i))\<lparr>worker_thread := True\<rparr> :: 'j worker"
  have "pool_new n = (True, \<lparr>global_queue = jq_default, workers = map ?w [0..<n]\<rparr>)"
    by (simp add: pool_new_def add_workers_eq start_workers_eq worker_move_def worker_new_def jq_move_fst o_def)
  then show "fst (pool_new n :: bool \<times> 'j worker_pool)" "pool_inv (snd (pool_new n) :: 'j worker_pool)"
    "pool_jobs (snd (pool_new n) :: 'j worker_pool) = {#}"
    "length (workers (snd (pool_new n) :: 'j worker_pool)) = n"
    by (auto simp: pool_inv_def pool_jobs_def jq_default_correct worker_new_def worker_list_def)
qed

subsection \<open>Properties\<close>

definition sample_pool :: "nat worker_pool" where
  "sample_pool = pool_queue_jobs (ctx_worker 1) [Some 5] (pool_queue_jobs ctx_empty [Some 7] (snd (pool_new 2)))"

lemma sample_pool_correct:
  "pool_inv sample_pool" "length (workers sample_pool) = 2" "pool_jobs sample_pool = {#Some 5, Some 7#}"
proof -
  let ?p = "pool_queue_jobs ctx_empty [Some 7] (snd (pool_new 2)) :: nat worker_pool"
  have e: "ctx_ok (snd (pool_new 2) :: nat worker_pool) ctx_empty" by (simp add: ctx_ok_def ctx_empty_def)
  note p = pool_queue_jobs_correct[OF pool_new_correct(2) e, of "[Some 7]"]
  have w: "ctx_ok ?p (ctx_worker 1)" using p(3) by (simp add: ctx_ok_def ctx_worker_def pool_new_correct)
  note q = pool_queue_jobs_correct[OF p(1) w, of "[Some 5]"]
  show "pool_inv sample_pool" "length (workers sample_pool) = 2" "pool_jobs sample_pool = {#Some 5, Some 7#}"
    using q p(2,3) by (simp_all add: sample_pool_def pool_new_correct)
qed

lemma sample_pool_own: "worker_list (workers sample_pool ! 1) = [Some 5]"
  by (simp add: sample_pool_def pool_new_def add_workers_eq start_workers_eq worker_move_def worker_new_def jq_move_fst
      pool_queue_jobs_def ctx_worker_def ctx_empty_def worker_queue_jobs_def worker_list_def worker_start_def
      jq.enq_contents jq_default_correct upt_rec numeral_2_eq_2)

text \<open>
  C20: A worker that looks for a job undisturbed takes exactly one job out of the pool, and comes
  back empty-handed only when no queue of the pool holds a job: not its own, not the global one,
  not any other worker's, wherever the random start of the stealing loop falls. It takes the
  oldest job of its own queue, and if that is empty the oldest of the global one.
\<close>

theorem worker_finds_work:
  assumes "pool_inv p" and "i < length (workers p)" and "worker_next i rnd p = (res, p')"
  shows "(res = None \<longleftrightarrow> pool_jobs p = {#}) \<and> pool_inv p'
    \<and> pool_jobs p = (case res of None \<Rightarrow> {#} | Some j \<Rightarrow> {#j#}) + pool_jobs p'
    \<and> (\<forall>j js. worker_list (workers p ! i) @ jq_list (global_queue p) = j # js \<longrightarrow> res = Some j)"
proof -
  have "res = Some j" if "worker_list (workers p ! i) @ jq_list (global_queue p) = j # js" for j js
  proof (cases "worker_list (workers p ! i)")
    case Nil
    with worker_next_priority(2)[OF assms(1,2) Nil, of j js rnd] that assms(3) show ?thesis by simp
  next
    case (Cons k ks)
    with worker_next_priority(1)[OF assms(1,2) Cons, of rnd] that assms(3) show ?thesis by simp
  qed
  then show ?thesis using worker_next_correct[OF assms] assms(1) by (cases res) auto
qed

theorem worker_finds_work_witness:
  "fst (worker_next 1 0 sample_pool) = Some (Some 5) \<and> pool_inv (snd (worker_next 1 0 sample_pool))"
  using worker_finds_work[OF sample_pool_correct(1), of 1 0 "fst (worker_next 1 0 sample_pool)" "snd (worker_next 1 0 sample_pool)"]
    sample_pool_correct(2) sample_pool_own by simp

text \<open>
  A single worker that keeps looking, with nobody else at work, runs every job in the pool,
  wherever it is queued, each exactly once: every turn takes one until none is left.
\<close>

theorem worker_drains_pool:
  assumes "pool_inv p" and "i < length (workers p)" and "size (pool_jobs p) \<le> length rnds"
  shows "mset (fst (worker_turns i rnds p)) = pool_jobs p \<and> pool_jobs (snd (worker_turns i rnds p)) = {#}"
proof -
  define js q where "js = fst (worker_turns i rnds p)" and "q = snd (worker_turns i rnds p)"
  note c = worker_turns_correct[OF assms(1,2), of rnds]
  have t: "pool_jobs p = mset js + pool_jobs q" unfolding js_def q_def by (rule conjunct1[OF c])
  have l: "length js = size (pool_jobs p)" using conjunct1[OF conjunct2[OF c]] assms(3) by (simp add: js_def)
  have "size (pool_jobs p) = length js + size (pool_jobs q)" unfolding t by simp
  then have "pool_jobs q = {#}" using l by simp
  then show ?thesis unfolding js_def[symmetric] q_def[symmetric] t by simp
qed

theorem worker_drains_pool_witness: "mset (fst (worker_turns 0 [1, 0] sample_pool)) = {#Some 5, Some 7#}"
  using worker_drains_pool[OF sample_pool_correct(1), of 0 "[1, 0]"] sample_pool_correct(2,3) by simp

text \<open>
  Queueing adds exactly the jobs given, in order, to the queue the context names: the
  worker's own for a worker's context, the global one for the empty context; no other queue
  changes.
\<close>

theorem pool_queue_places_jobs:
  assumes "pool_inv p" and "ctx_ok p ctx"
  shows "pool_jobs (pool_queue_jobs ctx jobs p) = pool_jobs p + mset jobs
    \<and> pool_inv (pool_queue_jobs ctx jobs p)
    \<and> jq_list (global_queue (pool_queue_jobs ctx jobs p)) =
        jq_list (global_queue p) @ (if worker_id ctx = None then jobs else [])
    \<and> (\<forall>i < length (workers p). worker_list (workers (pool_queue_jobs ctx jobs p) ! i) =
        worker_list (workers p ! i) @ (if worker_id ctx = Some i then jobs else []))"
proof -
  have "jq_list (global_queue (pool_queue_jobs ctx jobs p)) =
        jq_list (global_queue p) @ (if worker_id ctx = None then jobs else [])
    \<and> (\<forall>i < length (workers p). worker_list (workers (pool_queue_jobs ctx jobs p) ! i) =
        worker_list (workers p ! i) @ (if worker_id ctx = Some i then jobs else []))"
    using jq.enq_all_contents[OF pool_invD(1)[OF assms(1)]] jq.enq_all_contents[OF pool_invD(2)[OF assms(1)]] assms(2)
    by (cases "worker_id ctx")
      (auto simp: pool_queue_jobs_def worker_list_def worker_queue_jobs_def nth_list_update ctx_ok_def)
  then show ?thesis using pool_queue_jobs_correct[OF assms] by simp
qed

theorem pool_queue_places_jobs_witness:
  "worker_list (workers (pool_queue_jobs (ctx_worker 1) [Some 6] sample_pool) ! 1) = [Some 5, Some 6]"
  using pool_queue_places_jobs[OF sample_pool_correct(1), of "ctx_worker 1" "[Some 6]"] sample_pool_correct(2) sample_pool_own
  by (simp add: ctx_ok_def ctx_worker_def)

end
