(* ===== verification/Pool_Machine.thy ===== *)
theory Pool_Machine
  imports Worker_Pool
begin

text \<open>
  The worker threads of \<open>worker.cpp\<close> as a state machine. Every queue operation holds the spin
  lock of its queue, so it is one atomic step; between two queue operations any other thread
  may run, so \<open>find_new_work\<close> is a sequence of steps here and not one. A worker is at its own
  queue, at the global queue, scanning for a job to steal (with the start it drew and the
  number of queues it has tried), or running a job. A \<open>submit\<close> step is any thread (a client,
  the poll thread, or a job that is running) queueing jobs.

  \<open>dequeue\<close> reads the counter of the queue without the lock, with relaxed ordering, and gives up
  when it reads zero; a reader may see an old count, so a worker may also pass by a queue that
  is not empty (the \<open>stale\<close> steps).

  The machine records the jobs submitted and the jobs whose run is complete.
\<close>

datatype 'j worker_pc =
    AtOwn
  | AtGlobal
  | Stealing nat nat
  | Running "'j fn"

record 'j pool_machine =
  pm_pool :: "'j worker_pool"
  pm_pcs :: "'j worker_pc list"
  pm_submitted :: "'j fn multiset"
  pm_executed :: "'j fn list"

definition pm_init :: "nat \<Rightarrow> 'j pool_machine" where
  "pm_init n = \<lparr>pm_pool = snd (pool_new n), pm_pcs = replicate n AtOwn, pm_submitted = {#}, pm_executed = []\<rparr>"

inductive pool_step :: "'j pool_machine \<Rightarrow> 'j pool_machine \<Rightarrow> bool" where
  submit: "ctx_ok (pm_pool s) ctx \<Longrightarrow>
     pool_step s (s\<lparr>pm_pool := pool_queue_jobs ctx jobs (pm_pool s),
                    pm_submitted := pm_submitted s + mset jobs\<rparr>)"
| own_hit: "w < length (pm_pcs s) \<Longrightarrow> pm_pcs s ! w = AtOwn \<Longrightarrow> steal_at w (pm_pool s) = (Some j, p) \<Longrightarrow>
     pool_step s (s\<lparr>pm_pool := p, pm_pcs := (pm_pcs s)[w := Running j]\<rparr>)"
| own_miss: "w < length (pm_pcs s) \<Longrightarrow> pm_pcs s ! w = AtOwn \<Longrightarrow> steal_at w (pm_pool s) = (None, p) \<Longrightarrow>
     pool_step s (s\<lparr>pm_pool := p, pm_pcs := (pm_pcs s)[w := AtGlobal]\<rparr>)"
| global_hit: "w < length (pm_pcs s) \<Longrightarrow> pm_pcs s ! w = AtGlobal \<Longrightarrow> dequeue_global (pm_pool s) = (Some j, p) \<Longrightarrow>
     pool_step s (s\<lparr>pm_pool := p, pm_pcs := (pm_pcs s)[w := Running j]\<rparr>)"
| global_miss: "w < length (pm_pcs s) \<Longrightarrow> pm_pcs s ! w = AtGlobal \<Longrightarrow> dequeue_global (pm_pool s) = (None, p) \<Longrightarrow>
     r < length (workers p) \<Longrightarrow>
     pool_step s (s\<lparr>pm_pool := p, pm_pcs := (pm_pcs s)[w := Stealing r 0]\<rparr>)"
| steal_hit: "w < length (pm_pcs s) \<Longrightarrow> pm_pcs s ! w = Stealing r i \<Longrightarrow> i < length (workers (pm_pool s)) \<Longrightarrow>
     steal_at ((r + i) mod length (workers (pm_pool s))) (pm_pool s) = (Some j, p) \<Longrightarrow>
     pool_step s (s\<lparr>pm_pool := p, pm_pcs := (pm_pcs s)[w := Running j]\<rparr>)"
| steal_miss: "w < length (pm_pcs s) \<Longrightarrow> pm_pcs s ! w = Stealing r i \<Longrightarrow> i < length (workers (pm_pool s)) \<Longrightarrow>
     steal_at ((r + i) mod length (workers (pm_pool s))) (pm_pool s) = (None, p) \<Longrightarrow>
     pool_step s (s\<lparr>pm_pool := p, pm_pcs := (pm_pcs s)[w := Stealing r (i + 1)]\<rparr>)"
| own_stale: "w < length (pm_pcs s) \<Longrightarrow> pm_pcs s ! w = AtOwn \<Longrightarrow>
     pool_step s (s\<lparr>pm_pcs := (pm_pcs s)[w := AtGlobal]\<rparr>)"
| global_stale: "w < length (pm_pcs s) \<Longrightarrow> pm_pcs s ! w = AtGlobal \<Longrightarrow> r < length (workers (pm_pool s)) \<Longrightarrow>
     pool_step s (s\<lparr>pm_pcs := (pm_pcs s)[w := Stealing r 0]\<rparr>)"
| steal_stale: "w < length (pm_pcs s) \<Longrightarrow> pm_pcs s ! w = Stealing r i \<Longrightarrow> i < length (workers (pm_pool s)) \<Longrightarrow>
     pool_step s (s\<lparr>pm_pcs := (pm_pcs s)[w := Stealing r (i + 1)]\<rparr>)"
| steal_end: "w < length (pm_pcs s) \<Longrightarrow> pm_pcs s ! w = Stealing r i \<Longrightarrow> i = length (workers (pm_pool s)) \<Longrightarrow>
     pool_step s (s\<lparr>pm_pcs := (pm_pcs s)[w := AtOwn]\<rparr>)"
| run_end: "w < length (pm_pcs s) \<Longrightarrow> pm_pcs s ! w = Running j \<Longrightarrow>
     pool_step s (s\<lparr>pm_pcs := (pm_pcs s)[w := AtOwn], pm_executed := pm_executed s @ [j]\<rparr>)"

inductive pool_reachable :: "nat \<Rightarrow> 'j pool_machine \<Rightarrow> bool" where
  start: "pool_reachable n (pm_init n)"
| step: "pool_reachable n s \<Longrightarrow> pool_step s t \<Longrightarrow> pool_reachable n t"

inductive_cases pool_stepE: "pool_step s t"

subsection \<open>No job is lost, none runs twice\<close>

fun in_hand :: "'j worker_pc \<Rightarrow> 'j fn multiset" where
  "in_hand (Running j) = {#j#}"
| "in_hand pc = {#}"

definition pm_hands :: "'j pool_machine \<Rightarrow> 'j fn multiset" where
  "pm_hands s = (\<Sum>w<length (pm_pcs s). in_hand (pm_pcs s ! w))"

definition pm_inv :: "nat \<Rightarrow> 'j pool_machine \<Rightarrow> bool" where
  "pm_inv n s \<longleftrightarrow> pool_inv (pm_pool s) \<and> length (workers (pm_pool s)) = n \<and> length (pm_pcs s) = n
     \<and> pm_submitted s = pool_jobs (pm_pool s) + pm_hands s + mset (pm_executed s)"

lemma hands_update:
  assumes "w < length (pm_pcs s)"
  shows "pm_hands (s\<lparr>pm_pcs := (pm_pcs s)[w := pc]\<rparr>) + in_hand (pm_pcs s ! w) = pm_hands s + in_hand pc"
  using sum_mset_update[OF assms, of in_hand pc] by (simp add: pm_hands_def)

lemma pm_hands_frame [simp]:
  "pm_hands (s\<lparr>pm_pool := p\<rparr>) = pm_hands s"
  "pm_hands (s\<lparr>pm_pool := p, pm_pcs := pcs\<rparr>) = pm_hands (s\<lparr>pm_pcs := pcs\<rparr>)"
  "pm_hands (s\<lparr>pm_pool := p, pm_submitted := A\<rparr>) = pm_hands s"
  "pm_hands (s\<lparr>pm_pcs := pcs, pm_executed := xs\<rparr>) = pm_hands (s\<lparr>pm_pcs := pcs\<rparr>)"
  by (simp_all add: pm_hands_def)

text \<open>The two shapes of a queue step: a job goes from a queue into a hand, or nothing moves.\<close>

lemma pm_inv_take:
  assumes inv: "pm_inv n s" and w: "w < length (pm_pcs s)" "in_hand (pm_pcs s ! w) = {#}"
    and p: "pool_inv p" "pool_jobs (pm_pool s) = add_mset j (pool_jobs p)" "length (workers p) = n"
  shows "pm_inv n (s\<lparr>pm_pool := p, pm_pcs := (pm_pcs s)[w := Running j]\<rparr>)"
  using inv p hands_update[OF w(1), of "Running j"] w(2) by (simp add: pm_inv_def)

lemma pm_inv_move:
  assumes inv: "pm_inv n s" and w: "w < length (pm_pcs s)" "in_hand (pm_pcs s ! w) = {#}" "in_hand pc = {#}"
  shows "pm_inv n (s\<lparr>pm_pool := pm_pool s, pm_pcs := (pm_pcs s)[w := pc]\<rparr>)"
  using inv hands_update[OF w(1), of pc] w(2,3) by (simp add: pm_inv_def)

lemma pm_inv_init: "pm_inv n (pm_init n)"
  by (simp add: pm_inv_def pm_init_def pm_hands_def pool_new_correct)

lemma pool_step_inv:
  assumes "pool_step s t" "pm_inv n s"
  shows "pm_inv n t"
  using assms
proof (induction rule: pool_step.induct)
  case (submit s ctx jobs)
  then show ?case
    using pool_queue_jobs_correct[of "pm_pool s" ctx jobs] by (simp add: pm_inv_def union_ac)
next
  case (own_hit w s j p)
  then have "pool_inv (pm_pool s)" "w < length (workers (pm_pool s))" by (auto simp: pm_inv_def)
  from steal_at_Some[OF this own_hit(3)] own_hit show ?case by (intro pm_inv_take) (auto simp: pm_inv_def)
next
  case (own_miss w s p)
  then have "pool_inv (pm_pool s)" "w < length (workers (pm_pool s))" by (auto simp: pm_inv_def)
  from steal_at_None(1)[OF this own_miss(3)] own_miss pm_inv_move[of n s w AtGlobal] show ?case by simp
next
  case (global_hit w s j p)
  then have "pool_inv (pm_pool s)" by (simp add: pm_inv_def)
  from dequeue_global_Some[OF this global_hit(3)] global_hit show ?case by (intro pm_inv_take) (auto simp: pm_inv_def)
next
  case (global_miss w s p r)
  then have "pool_inv (pm_pool s)" by (simp add: pm_inv_def)
  from dequeue_global_None(1)[OF this global_miss(3)] global_miss pm_inv_move[of n s w "Stealing r 0"] show ?case by simp
next
  case (steal_hit w s r i j p)
  then have "pool_inv (pm_pool s)" "(r + i) mod length (workers (pm_pool s)) < length (workers (pm_pool s))"
    by (auto simp: pm_inv_def)
  from steal_at_Some[OF this steal_hit(4)] steal_hit show ?case by (intro pm_inv_take) (auto simp: pm_inv_def)
next
  case (steal_miss w s r i p)
  then have "pool_inv (pm_pool s)" "(r + i) mod length (workers (pm_pool s)) < length (workers (pm_pool s))"
    by (auto simp: pm_inv_def)
  from steal_at_None(1)[OF this steal_miss(4)] steal_miss pm_inv_move[of n s w "Stealing r (i + 1)"] show ?case by simp
next
  case (own_stale w s)
  then show ?case using pm_inv_move[of n s w AtGlobal] by simp
next
  case (global_stale w s r)
  then show ?case using pm_inv_move[of n s w "Stealing r 0"] by simp
next
  case (steal_stale w s r i)
  then show ?case using pm_inv_move[of n s w "Stealing r (i + 1)"] by simp
next
  case (steal_end w s r i)
  then show ?case using pm_inv_move[of n s w AtOwn] by simp
next
  case (run_end w s j)
  then show ?case using hands_update[OF run_end(1), of AtOwn] by (simp add: pm_inv_def)
qed

lemma pool_reachable_inv: "pool_reachable n s \<Longrightarrow> pm_inv n s"
  by (induction rule: pool_reachable.induct) (auto intro: pm_inv_init pool_step_inv)

subsection \<open>Properties\<close>

text \<open>
  C3: In every interleaving of the workers and of the threads that queue jobs, each job
  submitted is in exactly one place: in a queue, in the hands of the one worker that runs it,
  or executed. No job is lost and none runs twice.
\<close>

theorem no_job_lost_or_repeated:
  assumes "pool_reachable n s"
  shows "pm_submitted s = pool_jobs (pm_pool s) + pm_hands s + mset (pm_executed s)
    \<and> pool_inv (pm_pool s) \<and> length (workers (pm_pool s)) = n"
  using pool_reachable_inv[OF assms] by (simp add: pm_inv_def)

theorem no_job_lost_or_repeated_witness:
  "pool_jobs (pm_pool ((pm_init 2 :: nat pool_machine)\<lparr>pm_pool := pool_queue_jobs ctx_empty [Some 7] (pm_pool (pm_init 2)),
      pm_submitted := {#Some 7#}\<rparr>)) = {#Some 7#}"
proof -
  let ?s = "(pm_init 2 :: nat pool_machine)\<lparr>pm_pool := pool_queue_jobs ctx_empty [Some 7] (pm_pool (pm_init 2)),
      pm_submitted := {#Some 7#}\<rparr>"
  have "ctx_ok (pm_pool (pm_init 2 :: nat pool_machine)) ctx_empty" by (simp add: ctx_ok_def ctx_empty_def)
  from pool_step.submit[OF this, of "[Some 7]"] have "pool_step (pm_init 2) ?s" by (simp add: pm_init_def)
  with pool_reachable.start have "pool_reachable 2 ?s" by (rule pool_reachable.step)
  from no_job_lost_or_repeated[OF this] show ?thesis by (simp add: pm_init_def pm_hands_def)
qed

end
