(* ===== verification/Pool_Shutdown.thy ===== *)
theory Pool_Shutdown
  imports Pool_Machine
begin

text \<open>
  How the scheduler stops. \<open>~Scheduler\<close> is implicit: the members are destroyed in the reverse
  order of their declarations, so first \<open>poll_thread\<close> (\<open>scheduler.h\<close>), a \<open>std::jthread\<close>, whose
  destructor requests a stop and joins; then \<open>worker_pool\<close>, that is, \<open>workers\<close> before \<open>global_queue\<close>
  (\<open>worker_pool.h\<close>). The elements of the vector are destroyed one after the other, in an order
  that the standard leaves open (\<open>order\<close>, an argument); a worker's \<open>worker_thread\<close> goes before
  its \<open>job_queue\<close> (\<open>worker.h\<close>): request a stop, join, then free the queue and the jobs in it.

  A worker looks at its stop token at the top of the loop of \<open>JobWorker::start\<close> only; from there on
  it goes through the phases of \<open>Pool_Machine\<close> with an access to one queue at a time. An access to
  a queue that is gone is undefined behaviour, so the machine records it as a fault and halts.
  While a job runs it may queue jobs, with the context it was given or the empty one. Clients
  queue jobs until the destructor begins; that they do not afterwards is up to them.
\<close>

subsection \<open>Threads and queues\<close>

datatype 'j thread_pc = AtTop | In "'j worker_pc" | Exited

datatype poll_pc = PollTop | Polling | PollExited

datatype queue_id = QueueOf nat | GlobalQueue

datatype thread_id = WorkerThread nat | PollThread

text \<open>The number in a phase of the destructor is a position in the order of destruction.\<close>

datatype dtor_pc =
    Serving
  | JoiningPoll
  | NextWorker nat
  | JoiningWorker nat
  | FreeingQueue nat
  | FreeingGlobal
  | Destroyed

record 'j sched_life =
  sl_pool :: "'j worker_pool"
  sl_threads :: "'j thread_pc list"
  sl_stops :: "bool list"
  sl_poll :: poll_pc
  sl_poll_stop :: bool
  sl_dtor :: dtor_pc
  sl_freed :: "queue_id list"
  sl_fault :: "(thread_id \<times> queue_id) option"
  sl_late :: "nat list"
  sl_submitted :: "'j fn multiset"
  sl_executed :: "'j fn list"
  sl_dropped :: "'j fn list"

text \<open>
  The constructor: the workers are made and started, then the poll thread. \<open>sl_late\<close> counts the
  jobs each worker began after its stop was requested; \<open>sl_dropped\<close> are the jobs destroyed with
  their queue.
\<close>

definition scheduler_new :: "nat \<Rightarrow> 'j sched_life" where
  "scheduler_new n_workers =
     \<lparr>sl_pool = snd (pool_new n_workers), sl_threads = replicate n_workers AtTop,
      sl_stops = replicate n_workers False, sl_poll = PollTop, sl_poll_stop = False,
      sl_dtor = Serving, sl_freed = [], sl_fault = None, sl_late = replicate n_workers 0,
      sl_submitted = {#}, sl_executed = [], sl_dropped = []\<rparr>"

subsection \<open>The loop of a worker\<close>

text \<open>The queue that the next access is to.\<close>

fun next_queue :: "nat \<Rightarrow> nat \<Rightarrow> 'j worker_pc \<Rightarrow> queue_id option" where
  "next_queue n w AtOwn = Some (QueueOf w)"
| "next_queue n w AtGlobal = Some GlobalQueue"
| "next_queue n w (Stealing r i) = (if i < n then Some (QueueOf ((r + i) mod n)) else None)"
| "next_queue n w (Running j) = None"

definition dequeue_at :: "queue_id \<Rightarrow> 'j worker_pool \<Rightarrow> 'j fn option \<times> 'j worker_pool" where
  "dequeue_at q p = (case q of QueueOf i \<Rightarrow> steal_at i p | GlobalQueue \<Rightarrow> dequeue_global p)"

text \<open>Where a worker goes after an access without a job, with the start it draws for stealing.\<close>

fun after_miss :: "nat \<Rightarrow> 'j worker_pc \<Rightarrow> 'j worker_pc" where
  "after_miss r AtOwn = AtGlobal"
| "after_miss r AtGlobal = Stealing r 0"
| "after_miss r (Stealing s i) = Stealing s (i + 1)"
| "after_miss r (Running j) = Running j"

definition set_thread :: "nat \<Rightarrow> 'j thread_pc \<Rightarrow> 'j sched_life \<Rightarrow> 'j sched_life" where
  "set_thread w pc s = s\<lparr>sl_threads := (sl_threads s)[w := pc]\<rparr>"

definition take_job :: "nat \<Rightarrow> 'j fn \<Rightarrow> 'j sched_life \<Rightarrow> 'j sched_life" where
  "take_job w j s = set_thread w (In (Running j))
     (s\<lparr>sl_late := (if sl_stops s ! w then (sl_late s)[w := sl_late s ! w + 1] else sl_late s)\<rparr>)"

text \<open>
  An access to a queue. A \<open>stale\<close> one reads an old count of zero and leaves the queue alone, but
  it reads the counter.
\<close>

definition access_queue :: "nat \<Rightarrow> nat \<Rightarrow> bool \<Rightarrow> 'j worker_pc \<Rightarrow> queue_id \<Rightarrow> 'j sched_life \<Rightarrow> 'j sched_life" where
  "access_queue w r stale pc q s =
     (if q \<in> set (sl_freed s) then s\<lparr>sl_fault := Some (WorkerThread w, q)\<rparr>
      else if stale then set_thread w (In (after_miss r pc)) s
      else case dequeue_at q (sl_pool s) of
             (Some j, p) \<Rightarrow> take_job w j (s\<lparr>sl_pool := p\<rparr>)
           | (None, p) \<Rightarrow> set_thread w (In (after_miss r pc)) (s\<lparr>sl_pool := p\<rparr>))"

definition worker_loop :: "nat \<Rightarrow> nat \<Rightarrow> bool \<Rightarrow> 'j sched_life \<Rightarrow> 'j sched_life option" where
  "worker_loop w r stale s =
     (case sl_threads s ! w of
        Exited \<Rightarrow> None
      | AtTop \<Rightarrow> Some (set_thread w (if sl_stops s ! w then Exited else In AtOwn) s)
      | In pc \<Rightarrow>
          (case next_queue (length (workers (sl_pool s))) w pc of
             Some q \<Rightarrow> Some (access_queue w r stale pc q s)
           | None \<Rightarrow>
               (case pc of
                  Running j \<Rightarrow> Some (set_thread w AtTop (s\<lparr>sl_executed := sl_executed s @ [j]\<rparr>))
                | _ \<Rightarrow> Some (set_thread w AtTop s))))"

subsection \<open>Queueing and polling\<close>

definition queue_of :: "sched_context \<Rightarrow> queue_id" where
  "queue_of ctx = (case worker_id ctx of Some i \<Rightarrow> QueueOf i | None \<Rightarrow> GlobalQueue)"

definition queue_from :: "thread_id \<Rightarrow> sched_context \<Rightarrow> 'j fn list \<Rightarrow> 'j sched_life \<Rightarrow> 'j sched_life" where
  "queue_from t ctx jobs s =
     (if queue_of ctx \<in> set (sl_freed s) then s\<lparr>sl_fault := Some (t, queue_of ctx)\<rparr>
      else s\<lparr>sl_pool := pool_queue_jobs ctx jobs (sl_pool s), sl_submitted := sl_submitted s + mset jobs\<rparr>)"

text \<open>The poll thread: \<open>None\<close> is the end of the \<open>for\<close> loop, a list what one ready source returned.\<close>

definition poll_turn :: "'j fn list option \<Rightarrow> 'j sched_life \<Rightarrow> 'j sched_life option" where
  "poll_turn polled s =
     (case sl_poll s of
        PollExited \<Rightarrow> None
      | PollTop \<Rightarrow> Some (s\<lparr>sl_poll := (if sl_poll_stop s then PollExited else Polling)\<rparr>)
      | Polling \<Rightarrow>
          (case polled of
             Some jobs \<Rightarrow> Some (queue_from PollThread ctx_empty jobs s)
           | None \<Rightarrow> Some (s\<lparr>sl_poll := PollTop\<rparr>)))"

subsection \<open>The destructor\<close>

definition free_queue :: "nat \<Rightarrow> 'j sched_life \<Rightarrow> 'j sched_life" where
  "free_queue w s =
     s\<lparr>sl_pool := sl_pool s\<lparr>workers := (workers (sl_pool s))[w := (workers (sl_pool s) ! w)\<lparr>worker_jobs := jq_default\<rparr>]\<rparr>,
       sl_freed := QueueOf w # sl_freed s,
       sl_dropped := sl_dropped s @ worker_list (workers (sl_pool s) ! w)\<rparr>"

definition free_global :: "'j sched_life \<Rightarrow> 'j sched_life" where
  "free_global s =
     s\<lparr>sl_pool := sl_pool s\<lparr>global_queue := jq_default\<rparr>, sl_freed := GlobalQueue # sl_freed s,
       sl_dropped := sl_dropped s @ jq_list (global_queue (sl_pool s))\<rparr>"

definition scheduler_destroy :: "nat list \<Rightarrow> 'j sched_life \<Rightarrow> 'j sched_life option" where
  "scheduler_destroy order s =
     (case sl_dtor s of
        Serving \<Rightarrow> Some (s\<lparr>sl_poll_stop := True, sl_dtor := JoiningPoll\<rparr>)
      | JoiningPoll \<Rightarrow> if sl_poll s = PollExited then Some (s\<lparr>sl_dtor := NextWorker 0\<rparr>) else None
      | NextWorker k \<Rightarrow>
          if k < length order
          then Some (s\<lparr>sl_stops := (sl_stops s)[order ! k := True], sl_dtor := JoiningWorker k\<rparr>)
          else Some (s\<lparr>sl_dtor := FreeingGlobal\<rparr>)
      | JoiningWorker k \<Rightarrow>
          if sl_threads s ! (order ! k) = Exited then Some (s\<lparr>sl_dtor := FreeingQueue k\<rparr>) else None
      | FreeingQueue k \<Rightarrow> Some ((free_queue (order ! k) s)\<lparr>sl_dtor := NextWorker (k + 1)\<rparr>)
      | FreeingGlobal \<Rightarrow> Some ((free_global s)\<lparr>sl_dtor := Destroyed\<rparr>)
      | Destroyed \<Rightarrow> None)"

subsection \<open>Runs\<close>

inductive life_step :: "nat list \<Rightarrow> 'j sched_life \<Rightarrow> 'j sched_life \<Rightarrow> bool" for order :: "nat list" where
  client: "sl_fault s = None \<Longrightarrow> sl_dtor s = Serving \<Longrightarrow> ctx_ok (sl_pool s) ctx \<Longrightarrow>
     life_step order s (s\<lparr>sl_pool := pool_queue_jobs ctx jobs (sl_pool s), sl_submitted := sl_submitted s + mset jobs\<rparr>)"
| from_job: "sl_fault s = None \<Longrightarrow> w < length (sl_threads s) \<Longrightarrow> sl_threads s ! w = In (Running j) \<Longrightarrow>
     ctx = ctx_worker w \<or> ctx = ctx_empty \<Longrightarrow> life_step order s (queue_from (WorkerThread w) ctx jobs s)"
| worker: "sl_fault s = None \<Longrightarrow> w < length (sl_threads s) \<Longrightarrow> r < length (sl_threads s) \<Longrightarrow>
     worker_loop w r stale s = Some t \<Longrightarrow> life_step order s t"
| poll: "sl_fault s = None \<Longrightarrow> poll_turn polled s = Some t \<Longrightarrow> life_step order s t"
| destroy: "sl_fault s = None \<Longrightarrow> scheduler_destroy order s = Some t \<Longrightarrow> life_step order s t"

definition life_reachable :: "nat \<Rightarrow> nat list \<Rightarrow> 'j sched_life \<Rightarrow> bool" where
  "life_reachable n order s \<longleftrightarrow> (life_step order)\<^sup>*\<^sup>* (scheduler_new n) s"

definition dtor_order :: "nat \<Rightarrow> nat list \<Rightarrow> bool" where
  "dtor_order n order \<longleftrightarrow> distinct order \<and> set order = {..<n}"

inductive_cases life_stepE: "life_step order s t"

subsection \<open>What a turn of a worker can be\<close>

lemma worker_loop_cases:
  assumes "worker_loop w r stale s = Some t"
  obtains (stop) "sl_threads s ! w = AtTop" "sl_stops s ! w" "t = set_thread w Exited s"
  | (go) "sl_threads s ! w = AtTop" "\<not> sl_stops s ! w" "t = set_thread w (In AtOwn) s"
  | (fault) pc q where "sl_threads s ! w = In pc" "next_queue (length (workers (sl_pool s))) w pc = Some q"
      "q \<in> set (sl_freed s)" "t = s\<lparr>sl_fault := Some (WorkerThread w, q)\<rparr>"
  | (stale) pc q where "sl_threads s ! w = In pc" "next_queue (length (workers (sl_pool s))) w pc = Some q"
      "q \<notin> set (sl_freed s)" "t = set_thread w (In (after_miss r pc)) s"
  | (miss) pc q p where "sl_threads s ! w = In pc" "next_queue (length (workers (sl_pool s))) w pc = Some q"
      "q \<notin> set (sl_freed s)" "dequeue_at q (sl_pool s) = (None, p)"
      "t = set_thread w (In (after_miss r pc)) (s\<lparr>sl_pool := p\<rparr>)"
  | (hit) pc q j p where "sl_threads s ! w = In pc" "next_queue (length (workers (sl_pool s))) w pc = Some q"
      "q \<notin> set (sl_freed s)" "dequeue_at q (sl_pool s) = (Some j, p)" "t = take_job w j (s\<lparr>sl_pool := p\<rparr>)"
  | (ran) j where "sl_threads s ! w = In (Running j)"
      "t = set_thread w AtTop (s\<lparr>sl_executed := sl_executed s @ [j]\<rparr>)"
  | (scanned) r' i where "sl_threads s ! w = In (Stealing r' i)" "\<not> i < length (workers (sl_pool s))"
      "t = set_thread w AtTop s"
proof (cases "sl_threads s ! w")
  case AtTop
  then show thesis using assms stop go by (cases "sl_stops s ! w") (simp_all add: worker_loop_def)
next
  case (In pc)
  show thesis
  proof (cases "next_queue (length (workers (sl_pool s))) w pc")
    case None
    then show thesis using assms In ran scanned by (cases pc) (auto simp: worker_loop_def split: if_splits)
  next
    case (Some q)
    have t: "t = access_queue w r stale pc q s" using assms In Some by (simp add: worker_loop_def)
    show thesis
    proof (cases "q \<in> set (sl_freed s)")
      case True
      then show thesis using fault[OF In Some] t by (simp add: access_queue_def)
    next
      case False
      show thesis
      proof (cases stale)
        case True
        then show thesis using stale[OF In Some False] t False by (simp add: access_queue_def)
      next
        case fresh: False
        obtain x p where d: "dequeue_at q (sl_pool s) = (x, p)" by (cases "dequeue_at q (sl_pool s)")
        show thesis
        proof (cases x)
          case None
          then show thesis using miss[OF In Some False] d t False fresh by (simp add: access_queue_def)
        next
          case (Some j)
          then show thesis using hit[OF In \<open>next_queue _ _ _ = Some q\<close> False] d t False fresh by (simp add: access_queue_def)
        qed
      qed
    qed
  qed
next
  case Exited
  then show thesis using assms by (simp add: worker_loop_def)
qed

lemma next_queue_miss:
  "next_queue n w pc = Some q \<Longrightarrow> in_hand pc = {#} \<and> in_hand (after_miss r pc) = {#} \<and> after_miss r pc \<noteq> Running j"
  by (cases pc) auto

lemma next_queue_bound: "next_queue n w pc = Some (QueueOf v) \<Longrightarrow> w < n \<Longrightarrow> v < n"
  by (cases pc) (auto split: if_splits)

subsection \<open>The control state\<close>

text \<open>How many workers, in the order of destruction, have been asked to stop, joined and freed.\<close>

fun asked :: "nat \<Rightarrow> dtor_pc \<Rightarrow> nat" where
  "asked n (NextWorker k) = k"
| "asked n (JoiningWorker k) = k + 1"
| "asked n (FreeingQueue k) = k + 1"
| "asked n FreeingGlobal = n"
| "asked n Destroyed = n"
| "asked n _ = 0"

fun joined :: "nat \<Rightarrow> dtor_pc \<Rightarrow> nat" where
  "joined n (JoiningWorker k) = k"
| "joined n d = asked n d"

fun freed :: "nat \<Rightarrow> dtor_pc \<Rightarrow> nat" where
  "freed n (FreeingQueue k) = k"
| "freed n d = joined n d"

text \<open>The jobs a worker can have begun since it was asked to stop.\<close>

fun late_bound :: "bool \<Rightarrow> 'j thread_pc \<Rightarrow> nat" where
  "late_bound False pc = 0"
| "late_bound True (In (Running j)) = 1"
| "late_bound True (In pc) = 0"
| "late_bound True pc = 1"

definition life_threads :: "nat \<Rightarrow> 'j sched_life \<Rightarrow> bool" where
  "life_threads n s \<longleftrightarrow>
     length (sl_threads s) = n \<and> length (sl_stops s) = n \<and> length (sl_late s) = n
     \<and> (\<forall>w<n. (sl_threads s ! w = Exited \<longrightarrow> sl_stops s ! w)
          \<and> sl_late s ! w \<le> late_bound (sl_stops s ! w) (sl_threads s ! w)
          \<and> (\<forall>r i. sl_threads s ! w = In (Stealing r i) \<longrightarrow> i \<le> n))"

definition life_dtor :: "nat \<Rightarrow> nat list \<Rightarrow> 'j sched_life \<Rightarrow> bool" where
  "life_dtor n order s \<longleftrightarrow>
     asked n (sl_dtor s) \<le> n
     \<and> (\<forall>w<n. sl_stops s ! w \<longleftrightarrow> w \<in> set (take (asked n (sl_dtor s)) order))
     \<and> (\<forall>w \<in> set (take (joined n (sl_dtor s)) order). sl_threads s ! w = Exited)
     \<and> set (sl_freed s) = QueueOf ` set (take (freed n (sl_dtor s)) order)
          \<union> (if sl_dtor s = Destroyed then {GlobalQueue} else {})
     \<and> (sl_poll_stop s \<longleftrightarrow> sl_dtor s \<noteq> Serving)
     \<and> (sl_dtor s \<noteq> Serving \<and> sl_dtor s \<noteq> JoiningPoll \<longrightarrow> sl_poll s = PollExited)
     \<and> (sl_poll s = PollExited \<longrightarrow> sl_poll_stop s)"

definition life_ctl :: "nat \<Rightarrow> nat list \<Rightarrow> 'j sched_life \<Rightarrow> bool" where
  "life_ctl n order s \<longleftrightarrow> life_threads n s \<and> life_dtor n order s"

lemma life_threads_cong:
  assumes "life_threads n s" "sl_threads t = sl_threads s" "sl_stops t = sl_stops s" "sl_late t = sl_late s"
  shows "life_threads n t"
  using assms(1) unfolding life_threads_def assms(2-) .

lemma life_dtor_cong:
  assumes "life_dtor n order s" "sl_threads t = sl_threads s" "sl_stops t = sl_stops s" "sl_freed t = sl_freed s"
    "sl_dtor t = sl_dtor s" "sl_poll t = sl_poll s" "sl_poll_stop t = sl_poll_stop s"
  shows "life_dtor n order t"
  using assms(1) unfolding life_dtor_def assms(2-) .

lemma life_threadsD:
  assumes "life_ctl n order s"
  shows "length (sl_threads s) = n" "length (sl_stops s) = n" "length (sl_late s) = n"
    "w < n \<Longrightarrow> sl_threads s ! w = Exited \<Longrightarrow> sl_stops s ! w"
    "w < n \<Longrightarrow> sl_late s ! w \<le> late_bound (sl_stops s ! w) (sl_threads s ! w)"
    "w < n \<Longrightarrow> sl_threads s ! w = In (Stealing r i) \<Longrightarrow> i \<le> n"
  using assms unfolding life_ctl_def life_threads_def by blast+

lemma life_dtorD:
  assumes "life_ctl n order s"
  shows "asked n (sl_dtor s) \<le> n"
    "w \<in> set (take (joined n (sl_dtor s)) order) \<Longrightarrow> sl_threads s ! w = Exited"
    "set (sl_freed s) = QueueOf ` set (take (freed n (sl_dtor s)) order)
       \<union> (if sl_dtor s = Destroyed then {GlobalQueue} else {})"
    "sl_dtor s \<noteq> Serving \<Longrightarrow> sl_dtor s \<noteq> JoiningPoll \<Longrightarrow> sl_poll s = PollExited"
  using assms unfolding life_ctl_def life_dtor_def by blast+

text \<open>A fault is a worker stealing from a queue that is gone; the worker is another one.\<close>

definition life_fault :: "nat \<Rightarrow> 'j sched_life \<Rightarrow> bool" where
  "life_fault n s \<longleftrightarrow>
     (case sl_fault s of
        None \<Rightarrow> True
      | Some (t, q) \<Rightarrow> \<exists>w v r i. t = WorkerThread w \<and> q = QueueOf v \<and> w < n \<and> v < n \<and> w \<noteq> v \<and> q \<in> set (sl_freed s)
          \<and> sl_threads s ! w = In (Stealing r i) \<and> sl_threads s ! v = Exited)"

lemma life_ctl_new: "life_ctl n order (scheduler_new n)"
  by (simp add: life_ctl_def life_threads_def life_dtor_def scheduler_new_def)

text \<open>A worker's step, as seen by the control state: its place, and its count of late jobs.\<close>

lemma life_ctl_thread:
  assumes inv: "life_ctl n order s" and w: "w < n" "sl_threads s ! w \<noteq> Exited"
    and pc: "pc = Exited \<Longrightarrow> sl_stops s ! w" "late \<le> late_bound (sl_stops s ! w) pc"
      "\<And>r i. pc = In (Stealing r i) \<Longrightarrow> i \<le> n"
    and t: "sl_threads t = (sl_threads s)[w := pc]" "sl_late t = (sl_late s)[w := late]" "sl_stops t = sl_stops s"
      "sl_freed t = sl_freed s" "sl_dtor t = sl_dtor s" "sl_poll t = sl_poll s" "sl_poll_stop t = sl_poll_stop s"
  shows "life_ctl n order t"
proof -
  have "w \<notin> set (take (joined n (sl_dtor s)) order)" using w(2) life_dtorD(2)[OF inv] by blast
  then have "(sl_threads s)[w := pc] ! v = sl_threads s ! v" if "v \<in> set (take (joined n (sl_dtor s)) order)" for v
    using that by (metis nth_list_update_neq)
  then have "life_dtor n order t"
    using inv unfolding life_ctl_def life_dtor_def t by (elim conjE) (intro conjI ballI; simp)
  moreover have "life_threads n t"
    using inv pc w(1) unfolding life_ctl_def life_threads_def t by (auto simp: nth_list_update)
  ultimately show ?thesis by (simp add: life_ctl_def)
qed

lemma life_ctl_move:
  assumes "life_ctl n order s" "w < n" "sl_threads s ! w \<noteq> Exited"
    and "pc = Exited \<Longrightarrow> sl_stops s ! w" "sl_late s ! w \<le> late_bound (sl_stops s ! w) pc"
      "\<And>r i. pc = In (Stealing r i) \<Longrightarrow> i \<le> n"
    and "sl_threads t = (sl_threads s)[w := pc]" "sl_late t = sl_late s" "sl_stops t = sl_stops s"
      "sl_freed t = sl_freed s" "sl_dtor t = sl_dtor s" "sl_poll t = sl_poll s" "sl_poll_stop t = sl_poll_stop s"
  shows "life_ctl n order t"
  using life_ctl_thread[of n order s w pc "sl_late s ! w" t] assms by simp

lemma worker_loop_ctl:
  assumes inv: "life_ctl n order s" and len: "length (workers (sl_pool s)) = n"
    and w: "w < n" and run: "worker_loop w r stale s = Some t"
  shows "life_ctl n order t"
proof -
  have late: "sl_late s ! w \<le> late_bound (sl_stops s ! w) (sl_threads s ! w)"
    by (rule life_threadsD(5)[OF inv w])
  show ?thesis
    using run
  proof (cases rule: worker_loop_cases)
    case stop
    show ?thesis
      by (rule life_ctl_move[OF inv w, where pc = Exited])
        (use late stop in \<open>simp_all add: set_thread_def\<close>)
  next
    case go
    show ?thesis
      by (rule life_ctl_move[OF inv w, where pc = "In AtOwn"])
        (use late go in \<open>simp_all add: set_thread_def\<close>)
  next
    case (fault pc q)
    then show ?thesis
      using inv by (auto simp: life_ctl_def elim: life_threads_cong life_dtor_cong)
  next
    case (stale pc q)
    have "sl_late s ! w = 0" using late stale(1,2) len by (cases "sl_stops s ! w"; cases pc) auto
    then show ?thesis
      by - (rule life_ctl_move[OF inv w, where pc = "In (after_miss r pc)"],
        use stale len in \<open>auto simp: set_thread_def elim!: next_queue.elims split: if_splits\<close>)
  next
    case (miss pc q p)
    have "sl_late s ! w = 0" using late miss(1,2) len by (cases "sl_stops s ! w"; cases pc) auto
    then show ?thesis
      by - (rule life_ctl_move[OF inv w, where pc = "In (after_miss r pc)"],
        use miss len in \<open>auto simp: set_thread_def elim!: next_queue.elims split: if_splits\<close>)
  next
    case (hit pc q j p)
    have "sl_late s ! w = 0" using late hit(1,2) len by (cases "sl_stops s ! w"; cases pc) auto
    then have "sl_late s = (sl_late s)[w := 0]" by (metis list_update_id)
    with \<open>sl_late s ! w = 0\<close> show ?thesis
      by - (rule life_ctl_thread[OF inv w, where pc = "In (Running j)"
            and late = "if sl_stops s ! w then sl_late s ! w + 1 else sl_late s ! w"],
        use hit in \<open>simp_all add: set_thread_def take_job_def\<close>)
  next
    case (ran j)
    show ?thesis
      by (rule life_ctl_move[OF inv w, where pc = AtTop])
        (use late ran in \<open>cases "sl_stops s ! w"; simp add: set_thread_def\<close>)+
  next
    case (scanned r' i)
    show ?thesis
      by (rule life_ctl_move[OF inv w, where pc = AtTop])
        (use late scanned in \<open>cases "sl_stops s ! w"; simp add: set_thread_def\<close>)+
  qed
qed

lemma life_ctl_frame:
  assumes "life_ctl n order s" "sl_threads t = sl_threads s" "sl_stops t = sl_stops s" "sl_late t = sl_late s"
    "sl_freed t = sl_freed s" "sl_dtor t = sl_dtor s" "sl_poll t = sl_poll s" "sl_poll_stop t = sl_poll_stop s"
  shows "life_ctl n order t"
  using assms by (auto simp: life_ctl_def elim: life_threads_cong life_dtor_cong)

lemma queue_from_ctl: "life_ctl n order s \<Longrightarrow> life_ctl n order (queue_from t ctx jobs s)"
  by (erule life_ctl_frame) (simp_all add: queue_from_def)

lemma poll_turn_ctl:
  assumes inv: "life_ctl n order s" and run: "poll_turn polled s = Some t"
  shows "life_ctl n order t"
proof (cases "\<exists>jobs. sl_poll s = Polling \<and> polled = Some jobs")
  case True
  then show ?thesis using run queue_from_ctl[OF inv] by (auto simp: poll_turn_def)
next
  case False
  then obtain pc where t: "t = s\<lparr>sl_poll := pc\<rparr>" and pc: "sl_poll s \<noteq> PollExited" "pc = PollExited \<longrightarrow> sl_poll_stop s"
    using run by (cases "sl_poll s"; cases polled) (auto simp: poll_turn_def)
  then show ?thesis
    using inv by (auto simp: life_ctl_def life_dtor_def elim: life_threads_cong)
qed

text \<open>The next phases of the destructor.\<close>

lemma destroy_cases:
  assumes "scheduler_destroy order s = Some t"
  obtains (begin') "sl_dtor s = Serving" "t = s\<lparr>sl_poll_stop := True, sl_dtor := JoiningPoll\<rparr>"
  | (poll) "sl_dtor s = JoiningPoll" "sl_poll s = PollExited" "t = s\<lparr>sl_dtor := NextWorker 0\<rparr>"
  | (ask) k where "sl_dtor s = NextWorker k" "k < length order"
      "t = s\<lparr>sl_stops := (sl_stops s)[order ! k := True], sl_dtor := JoiningWorker k\<rparr>"
  | (last) k where "sl_dtor s = NextWorker k" "\<not> k < length order" "t = s\<lparr>sl_dtor := FreeingGlobal\<rparr>"
  | (join) k where "sl_dtor s = JoiningWorker k" "sl_threads s ! (order ! k) = Exited" "t = s\<lparr>sl_dtor := FreeingQueue k\<rparr>"
  | (free) k where "sl_dtor s = FreeingQueue k" "t = (free_queue (order ! k) s)\<lparr>sl_dtor := NextWorker (k + 1)\<rparr>"
  | (global) "sl_dtor s = FreeingGlobal" "t = (free_global s)\<lparr>sl_dtor := Destroyed\<rparr>"
  using assms by (cases "sl_dtor s") (auto simp: scheduler_destroy_def split: if_splits)

lemma dtor_orderD:
  assumes "dtor_order n order"
  shows "length order = n" "k < n \<Longrightarrow> order ! k < n"
    "k < n \<Longrightarrow> set (take (Suc k) order) = insert (order ! k) (set (take k order))"
    "k < n \<Longrightarrow> order ! k \<notin> set (take k order)" "set (take n order) = {..<n}"
proof -
  from assms have d: "distinct order" "set order = {..<n}" by (simp_all add: dtor_order_def)
  then show l: "length order = n" using distinct_card by fastforce
  show "k < n \<Longrightarrow> order ! k < n" using d l nth_mem by blast
  show "k < n \<Longrightarrow> set (take (Suc k) order) = insert (order ! k) (set (take k order))"
    by (simp add: l take_Suc_conv_app_nth)
  show "k < n \<Longrightarrow> order ! k \<notin> set (take k order)"
    using d(1) l by (auto simp: in_set_conv_nth nth_eq_iff_index_eq)
  show "set (take n order) = {..<n}" using l d(2) by simp
qed

lemma late_bound_le: "late_bound b pc \<le> 1"
  by (cases "(b, pc)" rule: late_bound.cases) simp_all

lemma late_bound_ask: "m \<le> late_bound b pc \<Longrightarrow> m \<le> late_bound True pc"
  by (cases b) simp_all

lemma nth_update_in_range: "j < length xs \<Longrightarrow> xs[i := x] ! j = (if i = j then x else xs ! j)"
  by (simp add: nth_list_update)

lemma destroy_threads:
  assumes inv: "life_threads n s" and run: "scheduler_destroy order s = Some t"
  shows "life_threads n t"
  using run
proof (cases rule: destroy_cases)
  case (ask k)
  then show ?thesis
    using inv by (auto simp: life_threads_def nth_update_in_range late_bound_ask)
qed (use inv in \<open>auto elim!: life_threads_cong simp: free_queue_def free_global_def\<close>)

lemma destroy_dtor:
  assumes ord: "dtor_order n order" and inv: "life_dtor n order s" and len: "length (sl_stops s) = n"
    and run: "scheduler_destroy order s = Some t"
  shows "life_dtor n order t"
  using run
proof (cases rule: destroy_cases)
  case (ask k)
  then have k: "k < n" by (simp add: dtor_orderD(1)[OF ord])
  then show ?thesis
    using inv ask dtor_orderD(2,3)[OF ord k] len by (auto simp: life_dtor_def nth_list_update)
next
  case (last k)
  then have "k = n" using inv by (simp add: dtor_orderD(1)[OF ord] life_dtor_def)
  then show ?thesis using inv last by (simp add: life_dtor_def)
next
  case (join k)
  then have k: "k < n" using inv by (simp add: life_dtor_def)
  then show ?thesis using inv join dtor_orderD(3)[OF ord k] by (simp add: life_dtor_def)
next
  case (free k)
  then have k: "k < n" using inv by (simp add: life_dtor_def)
  then show ?thesis using inv free dtor_orderD(3)[OF ord k] by (simp add: life_dtor_def free_queue_def)
qed (use inv in \<open>auto simp: life_dtor_def free_global_def\<close>)

lemma destroy_ctl:
  assumes "dtor_order n order" "life_ctl n order s" "scheduler_destroy order s = Some t"
  shows "life_ctl n order t"
proof -
  have "life_threads n s" "life_dtor n order s" using assms(2) by (simp_all add: life_ctl_def)
  with destroy_threads[OF _ assms(3)] destroy_dtor[OF assms(1) _ life_threadsD(2)[OF assms(2)] assms(3)]
  show ?thesis by (simp add: life_ctl_def)
qed

subsection \<open>The jobs\<close>

text \<open>
  Seen as a state of \<open>Pool_Machine\<close>: a worker at the top of its loop is at its queue, and one that
  has left the loop stays there; the jobs that were destroyed count as executed.
\<close>

fun pc_view :: "'j thread_pc \<Rightarrow> 'j worker_pc" where
  "pc_view (In pc) = pc"
| "pc_view AtTop = AtOwn"
| "pc_view Exited = AtOwn"

definition life_view :: "'j sched_life \<Rightarrow> 'j pool_machine" where
  "life_view s = \<lparr>pm_pool = sl_pool s, pm_pcs = map pc_view (sl_threads s), pm_submitted = sl_submitted s,
     pm_executed = sl_dropped s @ sl_executed s\<rparr>"

lemma life_view_simps [simp]:
  "pm_pool (life_view s) = sl_pool s" "pm_pcs (life_view s) = map pc_view (sl_threads s)"
  "pm_submitted (life_view s) = sl_submitted s" "pm_executed (life_view s) = sl_dropped s @ sl_executed s"
  by (simp_all add: life_view_def)

lemma life_view_set_thread [simp]:
  "life_view (set_thread w pc s) = (life_view s)\<lparr>pm_pcs := (pm_pcs (life_view s))[w := pc_view pc]\<rparr>"
  by (simp add: life_view_def set_thread_def map_update)

lemma life_view_frame [simp]:
  "life_view (s\<lparr>sl_pool := p\<rparr>) = (life_view s)\<lparr>pm_pool := p\<rparr>"
  "life_view (s\<lparr>sl_fault := f\<rparr>) = life_view s" "life_view (s\<lparr>sl_late := l\<rparr>) = life_view s"
  "life_view (s\<lparr>sl_pool := p, sl_late := l\<rparr>) = (life_view s)\<lparr>pm_pool := p\<rparr>"
  "life_view (s\<lparr>sl_executed := ex\<rparr>) = (life_view s)\<lparr>pm_executed := sl_dropped s @ ex\<rparr>"
  "life_view (s\<lparr>sl_pool := p, sl_submitted := m\<rparr>) = (life_view s)\<lparr>pm_pool := p, pm_submitted := m\<rparr>"
  "life_view (s\<lparr>sl_poll := pp\<rparr>) = life_view s" "life_view (s\<lparr>sl_dtor := d\<rparr>) = life_view s"
  "life_view (s\<lparr>sl_poll_stop := b\<rparr>) = life_view s" "life_view (s\<lparr>sl_stops := ss\<rparr>) = life_view s"
  by (simp_all add: life_view_def)

lemma life_view_ran:
  "life_view (set_thread w AtTop (s\<lparr>sl_executed := ex\<rparr>))
     = (life_view s)\<lparr>pm_pcs := (pm_pcs (life_view s))[w := AtOwn], pm_executed := sl_dropped s @ ex\<rparr>"
  by (simp add: life_view_def set_thread_def map_update)

lemma queue_from_view:
  assumes "ctx_ok (sl_pool s) ctx"
  shows "pool_step\<^sup>=\<^sup>= (life_view s) (life_view (queue_from t ctx jobs s))"
proof (cases "queue_of ctx \<in> set (sl_freed s)")
  case True
  then show ?thesis by (simp add: queue_from_def)
next
  case False
  from assms have "ctx_ok (pm_pool (life_view s)) ctx" by simp
  from pool_step.submit[OF this, of jobs] show ?thesis using False by (simp add: queue_from_def)
qed

lemma worker_loop_view:
  assumes inv: "life_ctl n order s" and len: "length (workers (sl_pool s)) = n"
    and w: "w < n" and r: "r < n" and run: "worker_loop w r stale s = Some t"
  shows "pool_step\<^sup>=\<^sup>= (life_view s) (life_view t)"
proof -
  let ?v = "life_view s"
  have lt: "w < length (sl_threads s)" using w life_threadsD(1)[OF inv] by simp
  then have lw: "w < length (pm_pcs ?v)" by simp
  have at: "sl_threads s ! w = In pc \<Longrightarrow> pm_pcs ?v ! w = pc" for pc using lt by simp
  show ?thesis
    using run
  proof (cases rule: worker_loop_cases)
    case stop
    then have "(pm_pcs ?v)[w := AtOwn] = pm_pcs ?v" using lt by (metis list_update_id life_view_simps(2) nth_map pc_view.simps(2))
    then show ?thesis using stop by simp
  next
    case go
    then have "(pm_pcs ?v)[w := AtOwn] = pm_pcs ?v" using lt by (metis list_update_id life_view_simps(2) nth_map pc_view.simps(2))
    then show ?thesis using go by simp
  next
    case (fault pc q)
    then show ?thesis by simp
  next
    case (stale pc q)
    then show ?thesis
      using pool_step.own_stale[OF lw] pool_step.global_stale[OF lw, of r] pool_step.steal_stale[OF lw] at[OF stale(1)] len r
      by (cases pc) (auto split: if_splits)
  next
    case (miss pc q p)
    have "q = GlobalQueue \<Longrightarrow> workers p = workers (sl_pool s)"
      using miss(4) dequeue_global_workers[of "sl_pool s"] by (simp add: dequeue_at_def)
    then show ?thesis
      using miss pool_step.own_miss[OF lw] pool_step.global_miss[OF lw, of _ r] pool_step.steal_miss[OF lw] at[OF miss(1)] len r
      by (cases pc) (auto simp: dequeue_at_def split: if_splits)
  next
    case (hit pc q j p)
    then show ?thesis
      using pool_step.own_hit[OF lw] pool_step.global_hit[OF lw] pool_step.steal_hit[OF lw] at[OF hit(1)] len
      by (cases pc) (auto simp: dequeue_at_def take_job_def split: if_splits)
  next
    case (ran j)
    then show ?thesis using pool_step.run_end[OF lw at[OF ran(1)]] by (simp add: life_view_ran del: life_view_set_thread)
  next
    case (scanned r' i)
    have "i \<le> n" by (rule life_threadsD(6)[OF inv w scanned(1)])
    then show ?thesis using pool_step.steal_end[OF lw at[OF scanned(1)]] scanned len by simp
  qed
qed

text \<open>Freeing a queue moves the jobs in it to the dropped ones.\<close>

lemma free_queue_view:
  assumes inv: "pm_inv n (life_view s)" and w: "w < n"
  shows "pm_inv n (life_view (free_queue w s))"
proof -
  let ?p = "sl_pool s"
  let ?x = "(workers ?p ! w)\<lparr>worker_jobs := jq_default\<rparr>"
  from inv have p: "pool_inv ?p" "length (workers ?p) = n" by (simp_all add: pm_inv_def)
  have "mset (worker_list ?x) + mset (worker_list (workers ?p ! w)) = mset (worker_list (workers ?p ! w)) + {#}"
    by (simp add: worker_list_def jq_default_correct)
  from pool_jobs_update[OF _ this] w p(2)
  have jobs: "pool_jobs (?p\<lparr>workers := (workers ?p)[w := ?x]\<rparr>) + mset (worker_list (workers ?p ! w)) = pool_jobs ?p"
    by simp
  have "pool_inv (?p\<lparr>workers := (workers ?p)[w := ?x]\<rparr>)"
    by (rule pool_inv_update) (use p w in \<open>simp_all add: jq_default_correct\<close>)
  then show ?thesis
    using inv jobs by (simp add: pm_inv_def free_queue_def pm_hands_def union_ac life_view_def)
qed

lemma free_global_view:
  assumes inv: "pm_inv n (life_view s)"
  shows "pm_inv n (life_view (free_global s))"
  using inv
  by (simp add: pm_inv_def free_global_def pm_hands_def life_view_def pool_inv_def pool_jobs_def
      jq_default_correct union_ac)

subsection \<open>The invariant of a life\<close>

definition life_inv :: "nat \<Rightarrow> nat list \<Rightarrow> 'j sched_life \<Rightarrow> bool" where
  "life_inv n order s \<longleftrightarrow> life_ctl n order s \<and> pm_inv n (life_view s) \<and> life_fault n s"

lemma freed_is_exited:
  assumes "life_ctl n order s" "QueueOf v \<in> set (sl_freed s)"
  shows "sl_threads s ! v = Exited"
proof -
  have "freed n (sl_dtor s) \<le> joined n (sl_dtor s)" by (cases "sl_dtor s") simp_all
  then have "v \<in> set (take (joined n (sl_dtor s)) order)"
    using assms life_dtorD(3)[OF assms(1)] set_take_subset_set_take by (fastforce split: if_splits)
  then show ?thesis by (rule life_dtorD(2)[OF assms(1)])
qed

lemma global_freed:
  assumes "dtor_order n order" "life_ctl n order s" "GlobalQueue \<in> set (sl_freed s)"
  shows "sl_dtor s = Destroyed" "sl_poll s = PollExited" "w < n \<Longrightarrow> sl_threads s ! w = Exited"
proof -
  show d: "sl_dtor s = Destroyed" using assms life_dtorD(3)[OF assms(2)] by (auto split: if_splits)
  then show "sl_poll s = PollExited" using life_dtorD(4)[OF assms(2)] by simp
  show "w < n \<Longrightarrow> sl_threads s ! w = Exited"
    using life_dtorD(2)[OF assms(2)] dtor_orderD(5)[OF assms(1)] d by simp
qed

lemma life_fault_none [simp]: "sl_fault s = None \<Longrightarrow> life_fault n s"
  by (simp add: life_fault_def)

lemma queue_from_fault:
  "queue_of ctx \<notin> set (sl_freed s) \<Longrightarrow> sl_fault s = None \<Longrightarrow> life_fault n (queue_from t ctx jobs s)"
  by (simp add: queue_from_def)

lemma next_queue_freed:
  assumes ord: "dtor_order n order" and inv: "life_ctl n order s" and w: "w < n" "sl_threads s ! w = In pc"
    and q: "next_queue n w pc = Some q" "q \<in> set (sl_freed s)"
  obtains v r i where "q = QueueOf v" "v < n" "w \<noteq> v" "pc = Stealing r i" "sl_threads s ! v = Exited"
proof (cases q)
  case (QueueOf v)
  with freed_is_exited[OF inv] q(2) have ex: "sl_threads s ! v = Exited" by simp
  with w(2) have "w \<noteq> v" by auto
  moreover have "v < n" using next_queue_bound[OF _ w(1)] q(1) QueueOf by simp
  moreover obtain r i where "pc = Stealing r i" using q(1) QueueOf \<open>w \<noteq> v\<close> by (cases pc) auto
  ultimately show thesis using that ex QueueOf by blast
next
  case GlobalQueue
  with global_freed(3)[OF ord inv _ w(1)] q(2) w(2) show thesis by simp
qed

lemma pool_step_view:
  assumes "pool_step\<^sup>=\<^sup>= (life_view s) (life_view t)" "pm_inv n (life_view s)"
  shows "pm_inv n (life_view t)"
  using assms by (elim sup2E) (auto intro: pool_step_inv)

lemma destroy_view:
  assumes ord: "dtor_order n order" and inv: "life_ctl n order s" and run: "scheduler_destroy order s = Some t"
    and pm: "pm_inv n (life_view s)"
  shows "pm_inv n (life_view t)" "sl_freed t = sl_freed s \<Longrightarrow> life_view t = life_view s" "sl_fault t = sl_fault s"
proof -
  have "pm_inv n (life_view t) \<and> (sl_freed t = sl_freed s \<longrightarrow> life_view t = life_view s) \<and> sl_fault t = sl_fault s"
    using run
  proof (cases rule: destroy_cases)
    case (free k)
    then have "k < n" using life_dtorD(1)[OF inv] by simp
    then show ?thesis using free free_queue_view[OF pm dtor_orderD(2)[OF ord]] by (simp add: free_queue_def)
  next
    case global
    then show ?thesis using free_global_view[OF pm] by (simp add: free_global_def)
  qed (use pm in simp_all)
  then show "pm_inv n (life_view t)" "sl_freed t = sl_freed s \<Longrightarrow> life_view t = life_view s" "sl_fault t = sl_fault s"
    by simp_all
qed

lemma poll_turn_view:
  assumes "poll_turn polled s = Some t"
  shows "pool_step\<^sup>=\<^sup>= (life_view s) (life_view t)"
proof (cases "\<exists>jobs. sl_poll s = Polling \<and> polled = Some jobs")
  case True
  have "ctx_ok (sl_pool s) ctx_empty" by (simp add: ctx_ok_def ctx_empty_def)
  moreover obtain jobs where "t = queue_from PollThread ctx_empty jobs s" using assms True by (auto simp: poll_turn_def)
  ultimately show ?thesis using queue_from_view by blast
next
  case False
  then have "life_view t = life_view s"
    using assms by (cases "sl_poll s"; cases polled) (auto simp: poll_turn_def)
  then show ?thesis by simp
qed

lemma ctx_of_job: "w < length (workers p) \<Longrightarrow> ctx = ctx_worker w \<or> ctx = ctx_empty \<Longrightarrow> ctx_ok p ctx"
  by (auto simp: ctx_ok_def ctx_worker_def ctx_empty_def)

text \<open>
  Until the first queue is freed, the scheduler does what \<open>Pool_Machine\<close> does: each step is one of
  its steps or changes nothing that it sees.
\<close>

lemma life_step_view:
  assumes ord: "dtor_order n order" and inv: "life_inv n order s" and st: "life_step order s t"
    and free: "sl_freed t = sl_freed s"
  shows "pool_step\<^sup>=\<^sup>= (life_view s) (life_view t)"
proof -
  from inv have ctl: "life_ctl n order s" and pm: "pm_inv n (life_view s)" by (simp_all add: life_inv_def)
  from pm have len: "length (workers (sl_pool s)) = n" by (simp add: pm_inv_def)
  note n = life_threadsD(1)[OF ctl]
  show ?thesis
    using st
  proof (cases rule: life_step.cases)
    case (client ctx jobs)
    then have "ctx_ok (pm_pool (life_view s)) ctx" by simp
    from pool_step.submit[OF this, of jobs] client show ?thesis by simp
  next
    case (from_job w j ctx jobs)
    then show ?thesis using queue_from_view[OF ctx_of_job, of w s ctx] len n by simp
  next
    case (worker w r stale)
    then show ?thesis using worker_loop_view[OF ctl len] n by simp
  next
    case (poll polled)
    then show ?thesis using poll_turn_view by blast
  next
    case destroy
    then show ?thesis using destroy_view(2)[OF ord ctl _ pm free] by simp
  qed
qed

lemma queue_of_simps [simp]: "queue_of (ctx_worker w) = QueueOf w" "queue_of ctx_empty = GlobalQueue"
  by (simp_all add: queue_of_def ctx_worker_def ctx_empty_def)

lemma life_step_freed:
  assumes "life_step order s t"
  shows "(\<exists>t'. scheduler_destroy order s = Some t') \<and> scheduler_destroy order s = Some t \<or> sl_freed t = sl_freed s"
  using assms
proof (cases rule: life_step.cases)
  case (worker w r stale)
  from this(4) show ?thesis by (cases rule: worker_loop_cases) (simp_all add: set_thread_def take_job_def)
next
  case (poll polled)
  then show ?thesis by (auto simp: poll_turn_def queue_from_def split: poll_pc.splits option.splits if_splits)
qed (simp_all add: queue_from_def)

lemma life_step_ctl:
  assumes ord: "dtor_order n order" and inv: "life_inv n order s" and st: "life_step order s t"
  shows "life_ctl n order t"
proof -
  from inv have ctl: "life_ctl n order s" and len: "length (workers (sl_pool s)) = n"
    by (simp_all add: life_inv_def pm_inv_def)
  show ?thesis
    using st
  proof (cases rule: life_step.cases)
    case (client ctx jobs)
    then show ?thesis by (intro life_ctl_frame[OF ctl]) simp_all
  next
    case (from_job w j ctx jobs)
    then show ?thesis using queue_from_ctl[OF ctl] by simp
  next
    case (worker w r stale)
    then show ?thesis using worker_loop_ctl[OF ctl len] life_threadsD(1)[OF ctl] by simp
  next
    case (poll polled)
    then show ?thesis using poll_turn_ctl[OF ctl] by blast
  next
    case destroy
    then show ?thesis using destroy_ctl[OF ord ctl] by blast
  qed
qed

lemma life_step_fault:
  assumes ord: "dtor_order n order" and inv: "life_inv n order s" and st: "life_step order s t"
  shows "life_fault n t"
proof -
  from inv have ctl: "life_ctl n order s" and pm: "pm_inv n (life_view s)" by (simp_all add: life_inv_def)
  from pm have len: "length (workers (sl_pool s)) = n" by (simp add: pm_inv_def)
  note n = life_threadsD(1)[OF ctl]
  show ?thesis
    using st
  proof (cases rule: life_step.cases)
    case (client ctx jobs)
    then show ?thesis by simp
  next
    case (from_job w j ctx jobs)
    have "queue_of ctx \<notin> set (sl_freed s)"
      using from_job(3-5) n freed_is_exited[OF ctl, of w] global_freed(3)[OF ord ctl, of w] by auto
    then show ?thesis using from_job queue_from_fault by blast
  next
    case (worker w r stale)
    have w: "w < n" using worker(2) n by simp
    from worker(4) show ?thesis
    proof (cases rule: worker_loop_cases)
      case (fault pc q)
      from next_queue_freed[OF ord ctl w fault(1) _ fault(3)] fault(2) len
      obtain v r i where "q = QueueOf v" "v < n" "w \<noteq> v" "pc = Stealing r i" "sl_threads s ! v = Exited" by metis
      then show ?thesis using fault w by (simp add: life_fault_def)
    qed (use worker(1) in \<open>simp_all add: set_thread_def take_job_def\<close>)
  next
    case (poll polled)
    have "GlobalQueue \<notin> set (sl_freed s)" if "sl_poll s = Polling" using that global_freed(2)[OF ord ctl] by auto
    then show ?thesis
      using poll by (auto simp: poll_turn_def queue_from_def split: poll_pc.splits option.splits if_splits)
  next
    case destroy
    then show ?thesis using destroy_view(3)[OF ord ctl _ pm] by simp
  qed
qed

lemma life_step_inv:
  assumes ord: "dtor_order n order" and inv: "life_inv n order s" and st: "life_step order s t"
  shows "life_inv n order t"
proof -
  from inv have ctl: "life_ctl n order s" and pm: "pm_inv n (life_view s)" by (simp_all add: life_inv_def)
  have "pm_inv n (life_view t)"
    using life_step_freed[OF st] destroy_view(1)[OF ord ctl _ pm] pool_step_view[OF life_step_view[OF ord inv st] pm]
    by blast
  then show ?thesis using life_step_ctl[OF assms] life_step_fault[OF assms] by (simp add: life_inv_def)
qed

lemma life_inv_new: "life_inv n order (scheduler_new n :: 'j sched_life)"
proof -
  have "life_view (scheduler_new n :: 'j sched_life) = pm_init n" by (simp add: life_view_def scheduler_new_def pm_init_def)
  then have "pm_inv n (life_view (scheduler_new n :: 'j sched_life))" by (simp add: pm_inv_init)
  moreover have "life_fault n (scheduler_new n :: 'j sched_life)" by (rule life_fault_none) (simp add: scheduler_new_def)
  ultimately show ?thesis unfolding life_inv_def by (intro conjI life_ctl_new)
qed

lemma life_reachable_inv:
  assumes "dtor_order n order" "life_reachable n order s"
  shows "life_inv n order s"
  using assms(2) unfolding life_reachable_def
  by (induction rule: rtranclp_induct) (auto intro: life_inv_new life_step_inv[OF assms(1)])

subsection \<open>What is left when it is gone\<close>

definition jobs_at :: "queue_id \<Rightarrow> 'j worker_pool \<Rightarrow> 'j fn list" where
  "jobs_at q p = (case q of QueueOf i \<Rightarrow> worker_list (workers p ! i) | GlobalQueue \<Rightarrow> jq_list (global_queue p))"

text \<open>An operation on one queue leaves the others alone, and a queue that is gone stays empty.\<close>

definition gone_empty :: "'j sched_life \<Rightarrow> bool" where
  "gone_empty s \<longleftrightarrow> (\<forall>q \<in> set (sl_freed s). jobs_at q (sl_pool s) = [])"

lemma jobs_at_queue: "q \<noteq> queue_of ctx \<Longrightarrow> jobs_at q (pool_queue_jobs ctx jobs p) = jobs_at q p"
  by (cases q; cases "worker_id ctx") (auto simp: jobs_at_def pool_queue_jobs_def queue_of_def)

lemma jobs_at_dequeue: "dequeue_at q' p = (x, p') \<Longrightarrow> q \<noteq> q' \<Longrightarrow> jobs_at q p' = jobs_at q p"
  by (cases q; cases q')
    (auto simp: jobs_at_def dequeue_at_def steal_at_def dequeue_global_def Let_def split: prod.splits)

lemma gone_empty_frame: "gone_empty s \<Longrightarrow> sl_freed t = sl_freed s \<Longrightarrow> sl_pool t = sl_pool s \<Longrightarrow> gone_empty t"
  by (simp add: gone_empty_def)

lemma queue_from_gone: "gone_empty s \<Longrightarrow> gone_empty (queue_from t ctx jobs s)"
  by (auto simp: queue_from_def gone_empty_def) (metis jobs_at_queue)

lemma dequeue_gone:
  assumes "gone_empty s" "dequeue_at q (sl_pool s) = (x, p)" "q \<notin> set (sl_freed s)"
    "sl_freed t = sl_freed s" "sl_pool t = p"
  shows "gone_empty t"
  using assms jobs_at_dequeue[OF assms(2)] unfolding gone_empty_def by metis

lemma destroy_gone:
  assumes ord: "dtor_order n order" and inv: "life_ctl n order s" and len: "length (workers (sl_pool s)) = n"
    and gone: "gone_empty s" and run: "scheduler_destroy order s = Some t"
  shows "gone_empty t"
  using run
proof (cases rule: destroy_cases)
  case (free k)
  then have "order ! k < length (workers (sl_pool s))" using life_dtorD(1)[OF inv] dtor_orderD(2)[OF ord] len by simp
  then have "jobs_at q (sl_pool t) = (if q = QueueOf (order ! k) then [] else jobs_at q (sl_pool s))" for q
    using free by (cases q) (auto simp: jobs_at_def free_queue_def worker_list_def jq_default_correct nth_list_update)
  then show ?thesis using gone free by (auto simp: gone_empty_def free_queue_def)
next
  case global
  then show ?thesis
    using gone by (auto simp: gone_empty_def free_global_def jobs_at_def jq_default_correct split: queue_id.splits)
qed (use gone in \<open>auto elim: gone_empty_frame\<close>)

lemma poll_turn_gone: "gone_empty s \<Longrightarrow> poll_turn polled s = Some t \<Longrightarrow> gone_empty t"
  by (auto simp: poll_turn_def queue_from_gone split: poll_pc.splits option.splits elim: gone_empty_frame)

lemma worker_loop_gone:
  assumes "gone_empty s" "worker_loop w r stale s = Some t"
  shows "gone_empty t"
  using assms(2)
proof (cases rule: worker_loop_cases)
  case (miss pc q p)
  then show ?thesis by (intro dequeue_gone[OF assms(1) miss(4)]) (simp_all add: set_thread_def)
next
  case (hit pc q j p)
  then show ?thesis by (intro dequeue_gone[OF assms(1) hit(4)]) (simp_all add: set_thread_def take_job_def)
qed (use assms(1) in \<open>auto elim!: gone_empty_frame simp: set_thread_def\<close>)

lemma life_step_gone:
  assumes ord: "dtor_order n order" and inv: "life_inv n order s" and st: "life_step order s t" and gone: "gone_empty s"
  shows "gone_empty t"
proof -
  from inv have ctl: "life_ctl n order s" and len: "length (workers (sl_pool s)) = n"
    by (simp_all add: life_inv_def pm_inv_def)
  show ?thesis
    using st
  proof (cases rule: life_step.cases)
    case (client ctx jobs)
    then have "sl_freed t = []" using life_dtorD(3)[OF ctl] by simp
    then show ?thesis by (simp add: gone_empty_def)
  next
    case (from_job w j ctx jobs)
    then show ?thesis using queue_from_gone[OF gone] by blast
  next
    case (worker w r stale)
    then show ?thesis using worker_loop_gone[OF gone] by blast
  next
    case (poll polled)
    then show ?thesis using poll_turn_gone[OF gone] by blast
  next
    case destroy
    then show ?thesis using destroy_gone[OF ord ctl len gone] by blast
  qed
qed

lemma life_reachable_gone:
  assumes ord: "dtor_order n order" and "life_reachable n order s"
  shows "gone_empty s"
  using assms(2) unfolding life_reachable_def
proof (induction rule: rtranclp_induct)
  case base
  show ?case by (simp add: gone_empty_def scheduler_new_def)
next
  case (step s t)
  then have "life_inv n order s" using life_reachable_inv[OF ord] by (simp add: life_reachable_def)
  then show ?case using life_step_gone[OF ord] step by blast
qed

lemma destroyed_pool_empty:
  assumes ord: "dtor_order n order" and r: "life_reachable n order s" and d: "sl_dtor s = Destroyed"
  shows "pool_jobs (sl_pool s) = {#}" "pm_hands (life_view s) = {#}"
proof -
  have inv: "life_inv n order s" by (rule life_reachable_inv[OF ord r])
  then have ctl: "life_ctl n order s" and len: "length (workers (sl_pool s)) = n" by (simp_all add: life_inv_def pm_inv_def)
  have all: "set (sl_freed s) = QueueOf ` {..<n} \<union> {GlobalQueue}"
    using life_dtorD(3)[OF ctl] d dtor_orderD(5)[OF ord] by simp
  have gone: "jobs_at q (sl_pool s) = []" if "q \<in> QueueOf ` {..<n} \<union> {GlobalQueue}" for q
    using life_reachable_gone[OF ord r] that unfolding gone_empty_def all by blast
  have "jq_list (global_queue (sl_pool s)) = []" using gone[of GlobalQueue] by (simp add: jobs_at_def)
  moreover have "worker_list (workers (sl_pool s) ! i) = []" if "i < n" for i
    using gone[of "QueueOf i"] that by (simp add: jobs_at_def)
  ultimately show "pool_jobs (sl_pool s) = {#}" by (simp add: pool_jobs_def len)
  have "sl_threads s ! w = Exited" if "w < n" for w
    using life_dtorD(2)[OF ctl] d dtor_orderD(5)[OF ord] that by simp
  then show "pm_hands (life_view s) = {#}" by (simp add: pm_hands_def life_threadsD(1)[OF ctl])
qed

end
