(* ===== verification/Shutdown_Runs.thy ===== *)
theory Shutdown_Runs
  imports Pool_Shutdown
begin

text \<open>
  The runs of \<open>Pool_Shutdown\<close>: that a destructor which has begun can be completed as long as no
  thread has touched a queue that is gone, the run in which a thread does, and the properties of
  stopping.
\<close>

subsection \<open>Joining\<close>

text \<open>
  The steps a worker has left before it is at the top of its loop. \<open>join_step\<close> is one of them; to
  get there a worker need not find a job.
\<close>

fun turn_left :: "nat \<Rightarrow> 'j thread_pc \<Rightarrow> nat" where
  "turn_left n Exited = 0"
| "turn_left n AtTop = 1"
| "turn_left n (In (Running j)) = 2"
| "turn_left n (In (Stealing r i)) = n - i + 2"
| "turn_left n (In AtGlobal) = n + 3"
| "turn_left n (In AtOwn) = n + 4"

lemma join_step:
  assumes inv: "life_inv n order s" and fault: "sl_fault s = None"
    and w: "w < n" "sl_stops s ! w" "sl_threads s ! w \<noteq> Exited"
  obtains t where "life_step order s t" "sl_dtor t = sl_dtor s" "sl_stops t = sl_stops s"
    "sl_fault t \<noteq> None \<or> turn_left n (sl_threads t ! w) < turn_left n (sl_threads s ! w)"
proof -
  from inv have ctl: "life_ctl n order s" and len: "length (workers (sl_pool s)) = n"
    by (simp_all add: life_inv_def pm_inv_def)
  have n: "w < length (sl_threads s)" using w(1) life_threadsD(1)[OF ctl] by simp
  have "worker_loop w w True s \<noteq> None"
    using w(3) by (auto simp: worker_loop_def split: thread_pc.splits option.splits worker_pc.splits)
  then obtain t where t: "worker_loop w w True s = Some t" by blast
  have st: "life_step order s t" by (rule life_step.worker[OF fault n n t])
  have "sl_dtor t = sl_dtor s \<and> sl_stops t = sl_stops s
      \<and> (sl_fault t \<noteq> None \<or> turn_left n (sl_threads t ! w) < turn_left n (sl_threads s ! w))"
  proof (cases "sl_threads s ! w")
    case (In pc)
    show ?thesis
      using t In n len fault
      by (cases pc) (auto simp: worker_loop_def access_queue_def set_thread_def split: if_splits)
  qed (use t w n in \<open>auto simp: worker_loop_def set_thread_def\<close>)
  with st show thesis using that by blast
qed

lemma join_worker:
  assumes ord: "dtor_order n order"
  shows "life_inv n order s \<Longrightarrow> sl_fault s = None \<Longrightarrow> w < n \<Longrightarrow> sl_stops s ! w \<Longrightarrow>
    \<exists>t. (life_step order)\<^sup>*\<^sup>* s t \<and> sl_dtor t = sl_dtor s \<and> (sl_fault t \<noteq> None \<or> sl_threads t ! w = Exited)"
proof (induction "turn_left n (sl_threads s ! w)" arbitrary: s rule: less_induct)
  case less
  show ?case
  proof (cases "sl_threads s ! w = Exited")
    case True
    then show ?thesis by blast
  next
    case False
    from join_step[OF less.prems False] obtain t where t: "life_step order s t" "sl_dtor t = sl_dtor s" "sl_stops t = sl_stops s"
      "sl_fault t \<noteq> None \<or> turn_left n (sl_threads t ! w) < turn_left n (sl_threads s ! w)" .
    show ?thesis
    proof (cases "sl_fault t = None")
      case True
      have "life_inv n order t" by (rule life_step_inv[OF ord less.prems(1) t(1)])
      from less.hyps[OF _ this True less.prems(3)] t True less.prems(4)
      obtain u where "(life_step order)\<^sup>*\<^sup>* t u" "sl_dtor u = sl_dtor t" "sl_fault u \<noteq> None \<or> sl_threads u ! w = Exited"
        by auto
      then show ?thesis using t(1,2) by (metis converse_rtranclp_into_rtranclp)
    next
      case False
      then show ?thesis using t(1,2) by blast
    qed
  qed
qed

lemma join_poll:
  assumes fault: "sl_fault s = None" and stop: "sl_poll_stop s"
  obtains t where "(life_step order)\<^sup>*\<^sup>* s t" "sl_dtor t = sl_dtor s" "sl_fault t = None" "sl_poll t = PollExited"
proof -
  have top: "life_step order u (u\<lparr>sl_poll := PollExited\<rparr>)"
    if "sl_poll u = PollTop" "sl_fault u = None" "sl_poll_stop u" for u :: "'a sched_life"
    by (rule life_step.poll[where polled = None]) (use that in \<open>simp_all add: poll_turn_def\<close>)
  show thesis
  proof (cases "sl_poll s")
    case PollTop
    from top[OF this fault stop] show thesis using that[OF r_into_rtranclp] fault by simp
  next
    case Polling
    then have "life_step order s (s\<lparr>sl_poll := PollTop\<rparr>)"
      by (intro life_step.poll[where polled = None]) (simp_all add: poll_turn_def fault)
    moreover have "life_step order (s\<lparr>sl_poll := PollTop\<rparr>) ((s\<lparr>sl_poll := PollTop\<rparr>)\<lparr>sl_poll := PollExited\<rparr>)"
      by (rule top) (simp_all add: fault stop)
    ultimately have "(life_step order)\<^sup>*\<^sup>* s (s\<lparr>sl_poll := PollExited\<rparr>)" by simp
    then show thesis using that fault by simp
  next
    case PollExited
    then show thesis using that[OF rtranclp.rtrancl_refl] fault by simp
  qed
qed

subsection \<open>The destructor can be completed\<close>

fun phases_left :: "nat \<Rightarrow> dtor_pc \<Rightarrow> nat" where
  "phases_left n Serving = 3 * n + 4"
| "phases_left n JoiningPoll = 3 * n + 3"
| "phases_left n (NextWorker k) = 3 * (n - k) + 2"
| "phases_left n (JoiningWorker k) = 3 * (n - k) + 1"
| "phases_left n (FreeingQueue k) = 3 * (n - k)"
| "phases_left n FreeingGlobal = 1"
| "phases_left n Destroyed = 0"

lemma destroy_phase:
  assumes ord: "dtor_order n order" and inv: "life_ctl n order s" and run: "scheduler_destroy order s = Some t"
  shows "phases_left n (sl_dtor t) < phases_left n (sl_dtor s)"
proof -
  note a = life_dtorD(1)[OF inv]
  show ?thesis
    using run
  proof (cases rule: destroy_cases)
    case (free k)
    then show ?thesis using a by (simp add: free_queue_def)
  next
    case (last k)
    then show ?thesis using dtor_orderD(1)[OF ord] by simp
  qed (use a in \<open>simp_all add: free_global_def\<close>)
qed

text \<open>A phase in which the destructor waits is over when the thread it joins has ended.\<close>

lemma destroy_enabled:
  assumes ord: "dtor_order n order" and inv: "life_inv n order s" and fault: "sl_fault s = None"
    and d: "sl_dtor s \<noteq> Destroyed"
  obtains t where "(life_step order)\<^sup>*\<^sup>* s t" "sl_dtor t = sl_dtor s"
    "sl_fault t \<noteq> None \<or> (\<exists>u. scheduler_destroy order t = Some u)"
proof -
  from inv have ctl: "life_ctl n order s" by (simp add: life_inv_def)
  show thesis
  proof (cases "\<exists>u. scheduler_destroy order s = Some u")
    case True
    then show thesis using that[OF rtranclp.rtrancl_refl] by blast
  next
    case False
    then consider (poll) "sl_dtor s = JoiningPoll" | (join) k where "sl_dtor s = JoiningWorker k"
      using d by (cases "sl_dtor s") (auto simp: scheduler_destroy_def split: if_splits)
    then show thesis
    proof cases
      case poll
      then have "sl_poll_stop s" using ctl by (simp add: life_ctl_def life_dtor_def)
      from join_poll[OF fault this] obtain t where t: "(life_step order)\<^sup>*\<^sup>* s t" "sl_dtor t = sl_dtor s" "sl_poll t = PollExited" .
      then have "scheduler_destroy order t = Some (t\<lparr>sl_dtor := NextWorker 0\<rparr>)" using poll by (simp add: scheduler_destroy_def)
      then show thesis using that t(1,2) by blast
    next
      case join
      then have k: "k < n" using life_dtorD(1)[OF ctl] by simp
      have w: "order ! k < n" by (rule dtor_orderD(2)[OF ord k])
      have "sl_stops s ! (order ! k)"
        using ctl w dtor_orderD(3)[OF ord k] join unfolding life_ctl_def life_dtor_def by simp
      from join_worker[OF ord inv fault w this] obtain t where t: "(life_step order)\<^sup>*\<^sup>* s t" "sl_dtor t = sl_dtor s"
        "sl_fault t \<noteq> None \<or> sl_threads t ! (order ! k) = Exited" by blast
      then have "sl_fault t \<noteq> None \<or> (\<exists>u. scheduler_destroy order t = Some u)"
        using join by (auto simp: scheduler_destroy_def)
      then show thesis using that t(1,2) by blast
    qed
  qed
qed

lemma life_steps_inv:
  assumes "dtor_order n order" "(life_step order)\<^sup>*\<^sup>* s t" "life_inv n order s"
  shows "life_inv n order t"
  using assms(2,3) by (induction rule: rtranclp_induct) (auto intro: life_step_inv[OF assms(1)])

lemma destroy_can_complete:
  assumes ord: "dtor_order n order"
  shows "life_inv n order s \<Longrightarrow> \<exists>t. (life_step order)\<^sup>*\<^sup>* s t \<and> (sl_fault t \<noteq> None \<or> sl_dtor t = Destroyed)"
proof (induction "phases_left n (sl_dtor s)" arbitrary: s rule: less_induct)
  case less
  show ?case
  proof (cases "sl_fault s \<noteq> None \<or> sl_dtor s = Destroyed")
    case True
    then show ?thesis by blast
  next
    case False
    then obtain t where t: "(life_step order)\<^sup>*\<^sup>* s t" "sl_dtor t = sl_dtor s"
      "sl_fault t \<noteq> None \<or> (\<exists>u. scheduler_destroy order t = Some u)"
      using destroy_enabled[OF ord less.prems] by blast
    have inv: "life_inv n order t" by (rule life_steps_inv[OF ord t(1) less.prems])
    show ?thesis
    proof (cases "sl_fault t = None")
      case True
      then obtain u where u: "scheduler_destroy order t = Some u" using t(3) by blast
      have st: "life_step order t u" by (rule life_step.destroy[OF True u])
      from inv have "life_ctl n order t" by (simp add: life_inv_def)
      from destroy_phase[OF ord this u] t(2) have "phases_left n (sl_dtor u) < phases_left n (sl_dtor s)" by simp
      from less.hyps[OF this life_step_inv[OF ord inv st]] obtain v where
        v: "(life_step order)\<^sup>*\<^sup>* u v" "sl_fault v \<noteq> None \<or> sl_dtor v = Destroyed" by blast
      have "(life_step order)\<^sup>*\<^sup>* s v" using t(1) st v(1) by (meson converse_rtranclp_into_rtranclp rtranclp_trans)
      then show ?thesis using v(2) by blast
    next
      case False
      then show ?thesis using t(1) by blast
    qed
  qed
qed

subsection \<open>Stealing from a queue that is gone\<close>

text \<open>
  The run: worker \<open>b\<close> finds its own queue and the global queue empty and draws \<open>a\<close>, the first worker
  to be destroyed, as the start of its scan; the destructor joins the poll thread, stops and joins
  \<open>a\<close> and frees its queue; \<open>b\<close> goes on with the scan.
\<close>

lemma scan_reachable:
  fixes s :: "'j sched_life"
  assumes s: "s = scheduler_new n" and b: "b < n" and a: "a < n"
  shows "(life_step order)\<^sup>*\<^sup>* s (set_thread b (In (Stealing a 0)) s)"
proof -
  have "life_step order s (set_thread b (In AtOwn) s)"
    by (rule life_step.worker[where w = b and r = a and stale = True])
      (use a b in \<open>simp_all add: s scheduler_new_def worker_loop_def\<close>)
  moreover have "life_step order (set_thread b (In AtOwn) s) (set_thread b (In AtGlobal) s)"
    by (rule life_step.worker[where w = b and r = a and stale = True])
      (use a b in \<open>simp_all add: s scheduler_new_def worker_loop_def access_queue_def set_thread_def\<close>)
  moreover have "life_step order (set_thread b (In AtGlobal) s) (set_thread b (In (Stealing a 0)) s)"
    by (rule life_step.worker[where w = b and r = a and stale = True])
      (use a b in \<open>simp_all add: s scheduler_new_def worker_loop_def access_queue_def set_thread_def\<close>)
  ultimately show ?thesis by (meson converse_rtranclp_into_rtranclp rtranclp.rtrancl_refl)
qed

lemma freeing_reachable:
  fixes s :: "'j sched_life"
  assumes s: "sl_fault s = None" "sl_dtor s = Serving" "sl_poll s = PollTop" "sl_freed s = []"
    and a: "order \<noteq> []" "a = order ! 0" "a < length (sl_threads s)" "sl_threads s ! a = AtTop" "a < length (sl_stops s)"
  obtains t where "(life_step order)\<^sup>*\<^sup>* s t" "sl_fault t = None" "sl_freed t = [QueueOf a]"
    "\<And>b. b \<noteq> a \<Longrightarrow> sl_threads t ! b = sl_threads s ! b" "length (sl_threads t) = length (sl_threads s)"
    "length (workers (sl_pool t)) = length (workers (sl_pool s))" "sl_dtor t = NextWorker 1" "sl_submitted t = sl_submitted s"
proof -
  let ?s1 = "s\<lparr>sl_poll_stop := True, sl_dtor := JoiningPoll\<rparr>"
  let ?s2 = "?s1\<lparr>sl_poll := PollExited\<rparr>"
  let ?s3 = "?s2\<lparr>sl_dtor := NextWorker 0\<rparr>"
  let ?s4 = "?s3\<lparr>sl_stops := (sl_stops s)[a := True], sl_dtor := JoiningWorker 0\<rparr>"
  let ?s5 = "set_thread a Exited ?s4"
  let ?s6 = "?s5\<lparr>sl_dtor := FreeingQueue 0\<rparr>"
  let ?s7 = "(free_queue a ?s6)\<lparr>sl_dtor := NextWorker 1\<rparr>"
  have "life_step order s ?s1" "life_step order ?s2 ?s3" "life_step order ?s3 ?s4"
    "life_step order ?s5 ?s6" "life_step order ?s6 ?s7"
    by (rule life_step.destroy; use s a in \<open>simp add: scheduler_destroy_def set_thread_def\<close>)+
  moreover have "life_step order ?s1 ?s2"
    by (rule life_step.poll[where polled = None]) (use s in \<open>simp_all add: poll_turn_def\<close>)
  moreover have "life_step order ?s4 ?s5"
    by (rule life_step.worker[where w = a and r = a and stale = True])
      (use s a in \<open>simp_all add: worker_loop_def\<close>)
  ultimately have "(life_step order)\<^sup>*\<^sup>* s ?s7"
    by (meson converse_rtranclp_into_rtranclp rtranclp.rtrancl_refl)
  then show thesis by (rule that) (use s in \<open>simp_all add: free_queue_def set_thread_def\<close>)
qed

lemma steal_from_freed:
  assumes ord: "dtor_order n order" and n: "2 \<le> n"
  shows "\<exists>(s :: 'j sched_life) w v. life_reachable n order s \<and> sl_fault s = Some (WorkerThread w, QueueOf v)
    \<and> w \<noteq> v \<and> QueueOf v \<in> set (sl_freed s)"
proof -
  let ?a = "order ! 0" and ?b = "order ! 1"
  have len: "length order = n" by (rule dtor_orderD(1)[OF ord])
  have a: "?a < n" "?b < n" using dtor_orderD(2)[OF ord] n by simp_all
  have ne: "?b \<noteq> ?a" using ord n len by (simp add: dtor_order_def nth_eq_iff_index_eq)
  let ?s = "set_thread ?b (In (Stealing ?a 0)) (scheduler_new n) :: 'j sched_life"
  have p: "length (workers (sl_pool ?s)) = n" by (simp add: scheduler_new_def set_thread_def pool_new_correct)
  have r: "life_reachable n order ?s" unfolding life_reachable_def by (rule scan_reachable[OF refl a(2,1)])
  obtain t where t: "(life_step order)\<^sup>*\<^sup>* ?s t" "sl_fault t = None" "sl_freed t = [QueueOf ?a]"
    "\<And>b. b \<noteq> ?a \<Longrightarrow> sl_threads t ! b = sl_threads ?s ! b" "length (sl_threads t) = length (sl_threads ?s)"
    "length (workers (sl_pool t)) = length (workers (sl_pool ?s))"
    by (rule freeing_reachable[of ?s order ?a])
      (use n len a ne in \<open>auto simp: scheduler_new_def set_thread_def\<close>)
  have "life_step order t (t\<lparr>sl_fault := Some (WorkerThread ?b, QueueOf ?a)\<rparr>)"
    by (rule life_step.worker[where w = ?b and r = ?b and stale = True])
      (use t(2,3,5,6) t(4)[OF ne] a p n in \<open>simp_all add: scheduler_new_def set_thread_def worker_loop_def access_queue_def\<close>)
  then have "life_reachable n order (t\<lparr>sl_fault := Some (WorkerThread ?b, QueueOf ?a)\<rparr>)"
    using r t(1) unfolding life_reachable_def by (meson rtranclp.rtrancl_into_rtrancl rtranclp_trans)
  then show ?thesis using ne t(3)
    by (intro exI[of _ "t\<lparr>sl_fault := Some (WorkerThread ?b, QueueOf ?a)\<rparr>"] exI[of _ ?b] exI[of _ ?a]) simp
qed

lemma no_fault_alone:
  assumes "dtor_order n order" "n < 2" "life_reachable n order s"
  shows "sl_fault s = None"
proof -
  have "life_fault n s" using life_reachable_inv[OF assms(1,3)] by (simp add: life_inv_def)
  then show ?thesis using assms(2) by (auto simp: life_fault_def split: option.splits)
qed

subsection \<open>Properties\<close>

lemma two_workers: "dtor_order 2 [0, 1]"
  by (auto simp: dtor_order_def)



text \<open>
  C36: What destroying a scheduler does in order, in every run: a queue is freed after the poll
  thread and the worker of that queue have ended (the global queue after all of them); a worker
  that was asked to stop begins at most one more job; and a thread that touches a freed queue is a
  worker in the middle of a scan of the others, never the poll thread, never a worker at its own
  queue or the global one, and never a job that queues more.
\<close>

theorem shutdown_is_orderly:
  assumes "dtor_order n order" and "life_reachable n order s"
  shows "(\<forall>v. QueueOf v \<in> set (sl_freed s) \<longrightarrow> sl_poll s = PollExited \<and> sl_threads s ! v = Exited)
    \<and> (GlobalQueue \<in> set (sl_freed s) \<longrightarrow> sl_poll s = PollExited \<and> (\<forall>w<n. sl_threads s ! w = Exited))
    \<and> (\<forall>w<n. sl_late s ! w \<le> 1 \<and> (sl_threads s ! w = Exited \<longrightarrow> sl_stops s ! w))
    \<and> (\<forall>t q. sl_fault s = Some (t, q) \<longrightarrow> (\<exists>w<n. \<exists>v<n. \<exists>r i. t = WorkerThread w \<and> q = QueueOf v \<and> w \<noteq> v
         \<and> sl_threads s ! w = In (Stealing r i) \<and> sl_threads s ! v = Exited))"
proof -
  have inv: "life_inv n order s" by (rule life_reachable_inv[OF assms])
  then have ctl: "life_ctl n order s" and fault: "life_fault n s" by (simp_all add: life_inv_def)
  have "sl_late s ! w \<le> 1" if "w < n" for w
    using life_threadsD(5)[OF ctl that] late_bound_le order_trans by blast
  moreover have "sl_poll s = PollExited" if "QueueOf v \<in> set (sl_freed s)" for v
    using life_dtorD(3,4)[OF ctl] that by (cases "sl_dtor s") auto
  ultimately show ?thesis
    using freed_is_exited[OF ctl] global_freed(2,3)[OF assms(1) ctl] life_threadsD(4)[OF ctl] fault
    by (auto simp: life_fault_def)
qed

theorem shutdown_is_orderly_witness:
  "\<exists>s :: nat sched_life. life_reachable 2 [0, 1] s \<and> (\<exists>w<2. \<exists>r i. sl_threads s ! w = In (Stealing r i)
      \<and> (\<exists>q. sl_fault s = Some (WorkerThread w, q)))"
proof -
  from steal_from_freed[OF two_workers] obtain s :: "nat sched_life" where
    s: "life_reachable 2 [0, 1] s" "sl_fault s \<noteq> None" by auto
  then obtain t q where "sl_fault s = Some (t, q)" by auto
  with shutdown_is_orderly[OF two_workers s(1)] s(1) show ?thesis by blast
qed

text \<open>
  C37: No job is forgotten on the way: at every point of a scheduler's life each job submitted is in
  one queue, in the hands of one worker, executed, or destroyed with its queue without having run;
  when the scheduler is gone, only the last two are left.
\<close>

theorem shutdown_accounts_for_jobs:
  assumes "dtor_order n order" and "life_reachable n order s"
  shows "sl_submitted s = pool_jobs (sl_pool s) + pm_hands (life_view s) + mset (sl_executed s) + mset (sl_dropped s)
    \<and> (sl_dtor s = Destroyed \<longrightarrow> sl_submitted s = mset (sl_executed s) + mset (sl_dropped s))"
proof -
  have "pm_inv n (life_view s)" using life_reachable_inv[OF assms] by (simp add: life_inv_def)
  then have "sl_submitted s = pool_jobs (sl_pool s) + pm_hands (life_view s) + mset (sl_executed s) + mset (sl_dropped s)"
    by (simp add: pm_inv_def union_ac)
  then show ?thesis using destroyed_pool_empty[OF assms] by simp
qed

theorem shutdown_accounts_for_jobs_witness:
  "\<exists>s :: nat sched_life. life_reachable 1 [0] s \<and> sl_dtor s = Destroyed \<and> sl_submitted s = {#Some 7#}
     \<and> mset (sl_executed s) + mset (sl_dropped s) = {#Some 7#}"
proof -
  have ord: "dtor_order 1 [0]" by (auto simp: dtor_order_def)
  let ?i = "scheduler_new 1 :: nat sched_life"
  let ?s = "?i\<lparr>sl_pool := pool_queue_jobs ctx_empty [Some 7] (sl_pool ?i), sl_submitted := sl_submitted ?i + mset [Some 7]\<rparr>"
  have "life_step [0] ?i ?s"
    by (rule life_step.client) (simp_all add: scheduler_new_def ctx_ok_def ctx_empty_def)
  then have r: "life_reachable 1 [0] ?s" by (simp add: life_reachable_def)
  obtain t where t: "(life_step [0])\<^sup>*\<^sup>* ?s t" "sl_fault t = None" "sl_dtor t = NextWorker 1" "sl_submitted t = sl_submitted ?s"
    by (rule freeing_reachable[of ?s "[0]" 0]) (simp_all add: scheduler_new_def)
  let ?u = "t\<lparr>sl_dtor := FreeingGlobal\<rparr>"
  let ?v = "(free_global ?u)\<lparr>sl_dtor := Destroyed\<rparr>"
  have "life_step [0] t ?u" "life_step [0] ?u ?v"
    by (rule life_step.destroy; use t(2,3) in \<open>simp add: scheduler_destroy_def\<close>)+
  with r t(1) have v: "life_reachable 1 [0] ?v"
    unfolding life_reachable_def by (meson rtranclp.rtrancl_into_rtrancl rtranclp_trans)
  have "sl_submitted ?v = {#Some 7#}" using t(4) by (simp add: free_global_def scheduler_new_def)
  moreover have "sl_submitted ?v = mset (sl_executed ?v) + mset (sl_dropped ?v)"
    by (rule shutdown_accounts_for_jobs[OF ord v, THEN conjunct2, THEN mp]) simp
  ultimately have "life_reachable 1 [0] ?v \<and> sl_dtor ?v = Destroyed \<and> sl_submitted ?v = {#Some 7#}
     \<and> mset (sl_executed ?v) + mset (sl_dropped ?v) = {#Some 7#}" using v by simp
  then show ?thesis by (rule exI)
qed

text \<open>
  C38: The destructor does not hang: from every point of a scheduler's life there are steps of the
  destructor, the poll thread and the workers (each job ends with one) after which the scheduler
  is destroyed, or a worker has touched a freed queue; with one worker, the former.
\<close>

theorem shutdown_completes:
  assumes "dtor_order n order" and "life_reachable n order s"
  shows "\<exists>t. (life_step order)\<^sup>*\<^sup>* s t \<and> (sl_dtor t = Destroyed \<or> 2 \<le> n \<and> sl_fault t \<noteq> None)"
proof -
  obtain t where t: "(life_step order)\<^sup>*\<^sup>* s t" "sl_fault t \<noteq> None \<or> sl_dtor t = Destroyed"
    using destroy_can_complete[OF assms(1) life_reachable_inv[OF assms]] by blast
  have "life_reachable n order t" using assms(2) t(1) unfolding life_reachable_def by (rule rtranclp_trans)
  then have "2 \<le> n \<or> sl_fault t = None" using no_fault_alone[OF assms(1)] by (metis not_less)
  then show ?thesis using t by blast
qed

theorem shutdown_completes_witness:
  "\<exists>t :: nat sched_life. (life_step [0])\<^sup>*\<^sup>* (scheduler_new 1) t \<and> sl_dtor t = Destroyed"
proof -
  have "dtor_order 1 [0]" by (auto simp: dtor_order_def)
  moreover have "life_reachable 1 [0] (scheduler_new 1 :: nat sched_life)" by (simp add: life_reachable_def)
  ultimately show ?thesis using shutdown_completes by fastforce
qed

end
