(* ===== verification/Spin_Lock.thy ===== *)
theory Spin_Lock
  imports Prelude
begin

text \<open>
  \<open>src/concurrency/src/spinlock.cpp\<close>: the spin lock under which the queues and poll sources
  run their operations. \<open>lock_step\<close> is one access to the atomic flag by a thread inside
  \<open>lock()\<close>, with the value of the flag before and after; \<open>spin_step\<close> interleaves the threads
  one access at a time. The operation a thread runs under the lock reads the protected data
  and writes it back as two separate steps, so that the lock has something to protect: the
  theorems are mutual exclusion and that the operations take effect one after the other,
  which is what the other theories rely on when they model an operation as one step.
\<close>

subsection \<open>\<open>lock()\<close> and \<open>unlock()\<close>\<close>

definition num_attempts :: nat where
  "num_attempts = 15"

text \<open>
  Where a thread is inside \<open>lock()\<close>: at the load of attempt \<open>i\<close>, at the exchange (after a
  load that saw the lock free), sleeping, or returned with the lock.
\<close>

datatype lock_pc = Attempt nat | Exchange | BackOff | Acquired

fun lock_step :: "bool \<Rightarrow> lock_pc \<Rightarrow> bool \<times> lock_pc" where
  "lock_step is_acquired (Attempt i) =
     (is_acquired,
      if i < num_attempts then (if \<not> is_acquired then Exchange else Attempt (i + 1)) else BackOff)"
| "lock_step is_acquired Exchange = (True, if \<not> is_acquired then Acquired else BackOff)"
| "lock_step is_acquired BackOff = (is_acquired, Attempt 0)"
| "lock_step is_acquired Acquired = (is_acquired, Acquired)"

definition unlock_step :: "bool \<Rightarrow> bool" where
  "unlock_step is_acquired = False"

fun lock_alone :: "nat \<Rightarrow> bool \<times> lock_pc \<Rightarrow> bool \<times> lock_pc" where
  "lock_alone 0 s = s"
| "lock_alone (Suc n) s = lock_alone n (lock_step (fst s) (snd s))"

subsection \<open>Threads\<close>

datatype ('op, 'd) spin_pc =
    Outside
  | Locking 'op lock_pc
  | Read_Data 'op 'd
  | Unlocking

record ('op, 'd) spin_machine =
  spin_flag :: bool
  spin_pcs :: "('op, 'd) spin_pc list"
  spin_data :: 'd
  spin_done :: "'op list"

definition spin_init :: "nat \<Rightarrow> 'd \<Rightarrow> ('op, 'd) spin_machine" where
  "spin_init n d = \<lparr>spin_flag = False, spin_pcs = replicate n Outside, spin_data = d, spin_done = []\<rparr>"

inductive spin_step ::
  "('op \<Rightarrow> 'd \<Rightarrow> 'd) \<Rightarrow> ('op, 'd) spin_machine \<Rightarrow> ('op, 'd) spin_machine \<Rightarrow> bool" for apply_op
where
  call: "t < length (spin_pcs s) \<Longrightarrow> spin_pcs s ! t = Outside \<Longrightarrow>
     spin_step apply_op s (s\<lparr>spin_pcs := (spin_pcs s)[t := Locking op (Attempt 0)]\<rparr>)"
| access: "t < length (spin_pcs s) \<Longrightarrow> spin_pcs s ! t = Locking op pc \<Longrightarrow> pc \<noteq> Acquired \<Longrightarrow>
     lock_step (spin_flag s) pc = (flag, pc1) \<Longrightarrow>
     spin_step apply_op s (s\<lparr>spin_flag := flag, spin_pcs := (spin_pcs s)[t := Locking op pc1]\<rparr>)"
| read_data: "t < length (spin_pcs s) \<Longrightarrow> spin_pcs s ! t = Locking op Acquired \<Longrightarrow>
     spin_step apply_op s (s\<lparr>spin_pcs := (spin_pcs s)[t := Read_Data op (spin_data s)]\<rparr>)"
| write_data: "t < length (spin_pcs s) \<Longrightarrow> spin_pcs s ! t = Read_Data op d \<Longrightarrow>
     spin_step apply_op s
       (s\<lparr>spin_pcs := (spin_pcs s)[t := Unlocking], spin_data := apply_op op d, spin_done := spin_done s @ [op]\<rparr>)"
| unlock: "t < length (spin_pcs s) \<Longrightarrow> spin_pcs s ! t = Unlocking \<Longrightarrow>
     spin_step apply_op s
       (s\<lparr>spin_flag := unlock_step (spin_flag s), spin_pcs := (spin_pcs s)[t := Outside]\<rparr>)"

inductive spin_reachable ::
  "('op \<Rightarrow> 'd \<Rightarrow> 'd) \<Rightarrow> nat \<Rightarrow> 'd \<Rightarrow> ('op, 'd) spin_machine \<Rightarrow> bool" for apply_op n d
where
  start: "spin_reachable apply_op n d (spin_init n d)"
| step: "spin_reachable apply_op n d s \<Longrightarrow> spin_step apply_op s s' \<Longrightarrow> spin_reachable apply_op n d s'"

inductive_cases spin_stepE: "spin_step apply_op s s'"

subsection \<open>Mutual exclusion\<close>

fun holds :: "('op, 'd) spin_pc \<Rightarrow> bool" where
  "holds Outside = False"
| "holds (Locking op pc) = (pc = Acquired)"
| "holds (Read_Data op d) = True"
| "holds Unlocking = True"

definition exclusive :: "('op, 'd) spin_machine \<Rightarrow> bool" where
  "exclusive s \<longleftrightarrow> (\<forall>t < length (spin_pcs s). holds (spin_pcs s ! t) \<longrightarrow>
     spin_flag s \<and> (\<forall>u < length (spin_pcs s). holds (spin_pcs s ! u) \<longrightarrow> u = t))"

definition fresh_reads :: "('op, 'd) spin_machine \<Rightarrow> bool" where
  "fresh_reads s \<longleftrightarrow> (\<forall>t < length (spin_pcs s). \<forall>op d. spin_pcs s ! t = Read_Data op d \<longrightarrow> d = spin_data s)"

definition spin_inv :: "('op \<Rightarrow> 'd \<Rightarrow> 'd) \<Rightarrow> nat \<Rightarrow> 'd \<Rightarrow> ('op, 'd) spin_machine \<Rightarrow> bool" where
  "spin_inv apply_op n d s \<longleftrightarrow> length (spin_pcs s) = n \<and> exclusive s \<and> fresh_reads s
     \<and> (spin_flag s \<longrightarrow> (\<exists>t < n. holds (spin_pcs s ! t)))
     \<and> spin_data s = fold apply_op (spin_done s) d"

lemma spin_inv_init: "spin_inv apply_op n d (spin_init n d)"
  by (simp add: spin_inv_def spin_init_def exclusive_def fresh_reads_def)

lemma spin_inv_quiet:
  assumes inv: "spin_inv apply_op n d s" and t: "t < n" "\<not> holds (spin_pcs s ! t)" "\<not> holds pc"
  shows "spin_inv apply_op n d (s\<lparr>spin_pcs := (spin_pcs s)[t := pc]\<rparr>)"
proof -
  have "pc \<noteq> Read_Data op x" for op x using t(3) by auto
  moreover have "\<exists>u<n. holds ((spin_pcs s)[t := pc] ! u)" if "spin_flag s"
    using that inv t by (metis nth_list_update_neq spin_inv_def)
  ultimately show ?thesis
    using inv t by (auto simp: spin_inv_def exclusive_def fresh_reads_def nth_list_update split: if_splits)
qed

lemma spin_inv_acquire:
  assumes inv: "spin_inv apply_op n d s" and t: "t < n" and free: "\<not> spin_flag s"
  shows "spin_inv apply_op n d (s\<lparr>spin_flag := True, spin_pcs := (spin_pcs s)[t := Locking op Acquired]\<rparr>)"
  using assms by (auto simp: spin_inv_def exclusive_def fresh_reads_def nth_list_update)

lemma spin_inv_critical:
  assumes inv: "spin_inv apply_op n d s" and t: "t < n" "holds (spin_pcs s ! t)"
    and flag: "flag = holds pc" and data: "\<forall>op x. pc = Read_Data op x \<longrightarrow> x = dat" "dat = fold apply_op ops d"
  shows "spin_inv apply_op n d
    (s\<lparr>spin_flag := flag, spin_pcs := (spin_pcs s)[t := pc], spin_data := dat, spin_done := ops\<rparr>)"
proof -
  have only: "\<not> holds (spin_pcs s ! u)" if "u < n" "u \<noteq> t" for u
    using that inv t by (auto simp: spin_inv_def exclusive_def)
  then have unread: "spin_pcs s ! u \<noteq> Read_Data op x" if "u < n" "u \<noteq> t" for u op x
    using that holds.simps(3)[of op x] by force
  show ?thesis
    using inv t only unread flag data
    by (simp add: spin_inv_def exclusive_def fresh_reads_def nth_list_update) blast
qed

lemma lock_step_cases:
  assumes "lock_step flag pc = (flag', pc')" "pc \<noteq> Acquired"
  shows "(flag' = flag \<and> pc' \<noteq> Acquired) \<or> (\<not> flag \<and> flag' \<and> pc' = Acquired)"
  using assms by (cases "(flag, pc)" rule: lock_step.cases) (auto split: if_splits)

lemma spin_step_inv:
  assumes "spin_step apply_op s s'" "spin_inv apply_op n d s"
  shows "spin_inv apply_op n d s'"
  using assms
proof (induction rule: spin_step.induct)
  case (call t s op)
  then show ?case by (intro spin_inv_quiet) (auto simp: spin_inv_def)
next
  case (access t s op pc flag pc1)
  have t: "t < n" using access by (simp add: spin_inv_def)
  from lock_step_cases[OF access(4) access(3)] show ?case
  proof
    assume quiet: "flag = spin_flag s \<and> pc1 \<noteq> Acquired"
    then have "spin_inv apply_op n d (s\<lparr>spin_pcs := (spin_pcs s)[t := Locking op pc1]\<rparr>)"
      using access t by (intro spin_inv_quiet) auto
    then show ?thesis using quiet by simp
  next
    assume "\<not> spin_flag s \<and> flag \<and> pc1 = Acquired"
    then show ?thesis using spin_inv_acquire[OF access(5) t, of op] by simp
  qed
next
  case (read_data t s op)
  let ?pcs = "(spin_pcs s)[t := Read_Data op (spin_data s)]"
  have "spin_flag s" using read_data by (simp add: spin_inv_def exclusive_def)
  then have "s\<lparr>spin_pcs := ?pcs\<rparr>
      = s\<lparr>spin_flag := True, spin_pcs := ?pcs, spin_data := spin_data s, spin_done := spin_done s\<rparr>" by simp
  moreover have "t < n" "spin_data s = fold apply_op (spin_done s) d" using read_data by (simp_all add: spin_inv_def)
  ultimately show ?case using read_data by (simp only:) (rule spin_inv_critical; simp)
next
  case (write_data t s op d')
  let ?pcs = "(spin_pcs s)[t := Unlocking]" and ?ops = "spin_done s @ [op]"
  have d': "d' = spin_data s" "spin_flag s"
    using write_data by (auto simp: spin_inv_def fresh_reads_def exclusive_def)
  then have "s\<lparr>spin_pcs := ?pcs, spin_data := apply_op op d', spin_done := ?ops\<rparr>
      = s\<lparr>spin_flag := True, spin_pcs := ?pcs, spin_data := apply_op op d', spin_done := ?ops\<rparr>" by simp
  moreover have "t < n" "apply_op op d' = fold apply_op ?ops d" using write_data d' by (simp_all add: spin_inv_def)
  ultimately show ?case using write_data by (simp only:) (rule spin_inv_critical; simp)
next
  case (unlock t s)
  let ?pcs = "(spin_pcs s)[t := Outside]"
  have "s\<lparr>spin_flag := unlock_step (spin_flag s), spin_pcs := ?pcs\<rparr>
      = s\<lparr>spin_flag := False, spin_pcs := ?pcs, spin_data := spin_data s, spin_done := spin_done s\<rparr>"
    by (simp add: unlock_step_def)
  moreover have "t < n" "spin_data s = fold apply_op (spin_done s) d" using unlock by (simp_all add: spin_inv_def)
  ultimately show ?case using unlock by (simp only:) (rule spin_inv_critical; simp)
qed

lemma spin_reachable_inv: "spin_reachable apply_op n d s \<Longrightarrow> spin_inv apply_op n d s"
  by (induction rule: spin_reachable.induct) (auto intro: spin_inv_init spin_step_inv)

subsection \<open>Progress\<close>

lemma lock_alone_Acquired [simp]: "lock_alone n (True, Acquired) = (True, Acquired)"
  by (induction n) auto

lemma lock_alone_add: "lock_alone (m + n) s = lock_alone n (lock_alone m s)"
  by (induction m arbitrary: s) auto

lemma lock_alone_attempt:
  "i + k \<le> num_attempts \<Longrightarrow> lock_alone k (True, Attempt i) = (True, Attempt (i + k))"
  by (induction k arbitrary: i) auto

subsection \<open>Properties\<close>

text \<open>An example: two threads that increment a counter; the first has the lock, the second waits.\<close>

definition sample_lock :: "(nat, nat) spin_machine" where
  "sample_lock = \<lparr>spin_flag = True, spin_pcs = [Locking 1 Acquired, Outside], spin_data = 0, spin_done = []\<rparr>"

lemma sample_lock_reachable: "spin_reachable (+) 2 0 sample_lock"
proof -
  let ?s = "\<lambda>f pc. \<lparr>spin_flag = f, spin_pcs = [pc, Outside], spin_data = 0, spin_done = []\<rparr> :: (nat, nat) spin_machine"
  have "spin_reachable (+) 2 0 (?s False Outside)"
    using spin_reachable.start[of "(+)" 2 "0 :: nat"] by (simp add: spin_init_def numeral_2_eq_2)
  moreover have "spin_step (+) (?s False Outside) (?s False (Locking 1 (Attempt 0)))"
    using spin_step.call[of 0 "?s False Outside" "(+)" 1] by simp
  moreover have "spin_step (+) (?s False (Locking 1 (Attempt 0))) (?s False (Locking 1 Exchange))"
    using spin_step.access[of 0 "?s False (Locking 1 (Attempt 0))" 1 "Attempt 0" False Exchange "(+)"] by (simp add: num_attempts_def)
  moreover have "spin_step (+) (?s False (Locking 1 Exchange)) (?s True (Locking 1 Acquired))"
    using spin_step.access[of 0 "?s False (Locking 1 Exchange)" 1 Exchange True Acquired "(+)"] by simp
  ultimately show ?thesis unfolding sample_lock_def by (meson spin_reachable.step)
qed

text \<open>
  At most one thread holds the spin lock, in every reachable state of any number of
  threads, and while one does the flag is set.
\<close>

theorem spin_lock_mutual_exclusion:
  assumes "spin_reachable apply_op n d s" and "t < n" and "u < n"
    and "holds (spin_pcs s ! t)" and "holds (spin_pcs s ! u)"
  shows "t = u \<and> spin_flag s"
  using spin_reachable_inv[OF assms(1)] assms(2-5) by (auto simp: spin_inv_def exclusive_def)

theorem spin_lock_mutual_exclusion_witness: "spin_flag sample_lock"
  using spin_lock_mutual_exclusion[OF sample_lock_reachable, of 0 0] by (simp add: sample_lock_def)

text \<open>
  C19: In every reachable state of any number of threads at most one holds the lock, and the
  operations that they run under it take effect one after the other, although each reads and
  writes the data in separate steps: the data is always what the completed operations give when
  they run in the order of their writes.
\<close>

theorem spin_lock_serialises:
  assumes "spin_reachable apply_op n d s"
  shows "spin_data s = fold apply_op (spin_done s) d
    \<and> (\<forall>t < n. \<forall>u < n. holds (spin_pcs s ! t) \<and> holds (spin_pcs s ! u) \<longrightarrow> t = u \<and> spin_flag s)"
  using spin_reachable_inv[OF assms] spin_lock_mutual_exclusion[OF assms] by (simp add: spin_inv_def)

theorem spin_lock_serialises_witness: "spin_data sample_lock = fold (+) (spin_done sample_lock) 0"
  by (rule spin_lock_serialises[OF sample_lock_reachable, THEN conjunct1])

text \<open>
  A thread that finds the lock free and is not disturbed has it after two accesses, one
  load and one exchange. A thread that waits while the lock is held looks at it 15 times, then
  sleeps, and starts over: it neither spins without bound nor takes the lock.
\<close>

theorem spin_lock_progress:
  "lock_alone 2 (False, Attempt 0) = (True, Acquired)
    \<and> lock_alone num_attempts (True, Attempt 0) = (True, Attempt num_attempts)
    \<and> lock_alone (num_attempts + 1) (True, Attempt 0) = (True, BackOff)
    \<and> lock_alone (num_attempts + 2) (True, Attempt 0) = (True, Attempt 0)"
proof -
  have "lock_alone 2 (False, Attempt 0) = (True, Acquired)"
    by (simp add: numeral_2_eq_2 num_attempts_def)
  then show ?thesis
    using lock_alone_attempt[of 0 num_attempts] lock_alone_add[of num_attempts 1 "(True, Attempt 0)"]
      lock_alone_add[of num_attempts 2 "(True, Attempt 0)"]
    by (simp add: numeral_2_eq_2)
qed

end
