(* ===== verification/Timer_Spec.thy ===== *)
theory Timer_Spec
  imports Prelude
begin

text \<open>
  What a timing wheel promises, independent of how it lays its timers out. The abstract
  state of a wheel is a bag of pairs \<open>(d, t)\<close>: timer \<open>t\<close> is handed out by the tick that
  comes after \<open>d\<close> further ticks. One tick hands out exactly the timers with no ticks left
  and brings all others one tick closer. Both wheels of \<open>src/timing\<close> are shown to be
  instances (in \<open>Timing_Wheel\<close> and \<open>Wheel_Advance\<close>); what follows for any number of ticks
  is proved once, here.
\<close>

type_synonym 't timer_bag = "(int \<times> 't) multiset"

definition expired :: "nat \<Rightarrow> 't timer_bag \<Rightarrow> 't multiset" where
  "expired n M = image_mset snd (filter_mset (\<lambda>p. fst p < int n) M)"

definition remaining :: "nat \<Rightarrow> 't timer_bag \<Rightarrow> 't timer_bag" where
  "remaining n M = image_mset (\<lambda>p. (fst p - int n, snd p)) (filter_mset (\<lambda>p. int n \<le> fst p) M)"

lemma expired_union [simp]: "expired n (A + B) = expired n A + expired n B"
  by (simp add: expired_def)

lemma remaining_union [simp]: "remaining n (A + B) = remaining n A + remaining n B"
  by (simp add: remaining_def)

lemma expired_add_mset [simp]:
  "expired n (add_mset (d, t) M) = (if d < int n then add_mset t (expired n M) else expired n M)"
  by (simp add: expired_def)

lemma remaining_add_mset [simp]:
  "remaining n (add_mset (d, t) M) =
     (if d < int n then remaining n M else add_mset (d - int n, t) (remaining n M))"
  by (simp add: remaining_def)

lemma expired_empty [simp]: "expired n {#} = {#}"
  by (simp add: expired_def)

lemma remaining_empty [simp]: "remaining n {#} = {#}"
  by (simp add: remaining_def)

lemma expired_Suc: "expired (Suc n) M = expired 1 M + expired n (remaining 1 M)"
  if "\<forall>p\<in>#M. 0 \<le> fst p"
  using that by (induction M) (auto split: if_splits)

lemma remaining_Suc: "remaining (Suc n) M = remaining n (remaining 1 M)"
  by (induction M) auto

lemma expired_remaining: "expired n M + image_mset snd (remaining n M) = image_mset snd M"
  by (induction M) auto

lemma remaining_0 [simp]: "remaining 0 M = M" if "\<forall>p\<in>#M. 0 \<le> fst p"
  using that by (induction M) (auto split: if_splits)

lemma expired_0 [simp]: "expired 0 M = {#}" if "\<forall>p\<in>#M. 0 \<le> fst p"
  using that by (induction M) (auto split: if_splits)

fun run_ticks :: "('s \<Rightarrow> 't list \<times> 's) \<Rightarrow> nat \<Rightarrow> 's \<Rightarrow> 't list \<times> 's" where
  "run_ticks tick 0 s = ([], s)"
| "run_ticks tick (Suc n) s =
     (let (out1, s1) = tick s; (out2, s2) = run_ticks tick n s1 in (out1 @ out2, s2))"

lemma run_ticks_add:
  "run_ticks tick (m + n) s =
     (fst (run_ticks tick m s) @ fst (run_ticks tick n (snd (run_ticks tick m s))),
      snd (run_ticks tick n (snd (run_ticks tick m s))))"
  by (induction m arbitrary: s) (auto simp: split_def Let_def)

locale timer_store =
  fixes tick :: "'s \<Rightarrow> 't list \<times> 's"
    and dues :: "'s \<Rightarrow> 't timer_bag"
    and inv :: "'s \<Rightarrow> bool"
  assumes tick_inv: "inv s \<Longrightarrow> inv (snd (tick s))"
    and tick_expired: "inv s \<Longrightarrow> mset (fst (tick s)) = expired 1 (dues s)"
    and tick_remaining: "inv s \<Longrightarrow> dues (snd (tick s)) = remaining 1 (dues s)"
    and dues_nonneg: "inv s \<Longrightarrow> p \<in># dues s \<Longrightarrow> 0 \<le> fst p"
begin

lemma ticks_correct:
  assumes "inv s"
  shows "inv (snd (run_ticks tick n s))
       \<and> mset (fst (run_ticks tick n s)) = expired n (dues s)
       \<and> dues (snd (run_ticks tick n s)) = remaining n (dues s)"
  using assms
proof (induction n arbitrary: s)
  case 0
  then show ?case using dues_nonneg by simp
next
  case (Suc n)
  have s1: "inv (snd (tick s))" using Suc.prems by (rule tick_inv)
  show ?case
    using Suc.IH[OF s1] Suc.prems expired_Suc[of "dues s" n] dues_nonneg[OF Suc.prems]
    by (simp add: split_def Let_def tick_expired tick_remaining remaining_Suc[of n])
qed

lemmas ticks_inv = ticks_correct[THEN conjunct1]
lemmas ticks_expired = ticks_correct[THEN conjunct2, THEN conjunct1]
lemmas ticks_remaining = ticks_correct[THEN conjunct2, THEN conjunct2]

lemma ticks_conserve:
  "inv s \<Longrightarrow> mset (fst (run_ticks tick n s)) + image_mset snd (dues (snd (run_ticks tick n s)))
     = image_mset snd (dues s)"
  by (simp add: ticks_expired ticks_remaining expired_remaining)

text \<open>A timer that is due later is never handed out before one that is due earlier.\<close>

lemma ticks_in_order:
  assumes "inv s"
  shows "fst (run_ticks tick (m + n) s) = fst (run_ticks tick m s) @ fst (run_ticks tick n (snd (run_ticks tick m s)))"
    and "mset (fst (run_ticks tick m s)) = expired m (dues s)"
  using assms by (simp_all add: run_ticks_add ticks_expired)

end

end
