(* ===== verification/Timing_Wheel.thy ===== *)
theory Timing_Wheel
  imports Timer_Spec
begin

text \<open>
  \<open>src/timing/include/timing/structures/timing_wheel.h\<close>: the single wheel on which the
  scheduler's poll thread keeps its poll sources. Its index counts ticks without wrapping
  and is reduced modulo the number of buckets at each access. Clock readings are arguments,
  in nanoseconds; tick sizes and durations are in milliseconds, as in the code.
\<close>

subsection \<open>State and operations\<close>

record 't timing_wheel =
  tw_wheel :: "'t list list"
  wheel_tick_size :: int
  tw_last_advancement_time :: int
  num_ticks :: size_t
  current_wheel_index :: size_t

definition ns_per_ms :: int where
  "ns_per_ms = 1000000"

definition tw_new :: "int \<Rightarrow> int \<Rightarrow> size_t \<Rightarrow> 't timing_wheel" where
  "tw_new now tick n =
     \<lparr>tw_wheel = replicate n [], wheel_tick_size = tick, tw_last_advancement_time = now,
      num_ticks = n, current_wheel_index = 0\<rparr>"

definition non_wrapped_wheel_index :: "int \<Rightarrow> 't timing_wheel \<Rightarrow> size_t" where
  "non_wrapped_wheel_index time w =
     sz_add (current_wheel_index w)
       (to_size_t (cxx_div (time - tw_last_advancement_time w) (wheel_tick_size w * ns_per_ms)))"

definition tw_schedule :: "int \<Rightarrow> 't \<Rightarrow> 't timing_wheel \<Rightarrow> 't timing_wheel" where
  "tw_schedule duration_from_last_advancement t w =
     (let index = non_wrapped_wheel_index
                    (tw_last_advancement_time w + duration_from_last_advancement * ns_per_ms) w;
          time_bucket = index mod num_ticks w
      in w\<lparr>tw_wheel := (tw_wheel w)[time_bucket := tw_wheel w ! time_bucket @ [t]]\<rparr>)"

definition collect_bucket :: "nat \<Rightarrow> 't list \<times> 't list list \<Rightarrow> 't list \<times> 't list list" where
  "collect_bucket idx = (\<lambda>(resolved_timers, bs). (resolved_timers @ bs ! idx, bs[idx := []]))"

definition tw_advance :: "int \<Rightarrow> 't timing_wheel \<Rightarrow> 't list \<times> 't timing_wheel" where
  "tw_advance now w =
     (if now - tw_last_advancement_time w < wheel_tick_size w * ns_per_ms then ([], w)
      else let completed_buckets =
                 map (\<lambda>idx. idx mod num_ticks w)
                   [current_wheel_index w..<non_wrapped_wheel_index now w];
               (resolved_timers, bs) = fold collect_bucket completed_buckets ([], tw_wheel w)
           in (resolved_timers,
               w\<lparr>tw_wheel := bs, current_wheel_index := non_wrapped_wheel_index now w,
                 tw_last_advancement_time := now\<rparr>))"

subsection \<open>One bucket of the advance loop as a tick\<close>

text \<open>
  The loop reads the buckets in order and moves the index once at the end; \<open>ring_tick\<close> moves
  it with every bucket, on the pair of buckets and (unbounded) index, which is a timer store
  in the sense of \<open>Timer_Spec\<close>.
\<close>

definition ring_tick :: "'t list list \<times> nat \<Rightarrow> 't list \<times> ('t list list \<times> nat)" where
  "ring_tick = (\<lambda>(bs, i). (bs ! (i mod length bs), (bs[i mod length bs := []], Suc i)))"

definition ring_dues :: "'t list list \<times> nat \<Rightarrow> 't timer_bag" where
  "ring_dues = (\<lambda>(bs, i).
     \<Sum>b<length bs. image_mset (Pair (int (ring_dist (length bs) (i mod length bs) b))) (mset (bs ! b)))"

definition ring_ok :: "'t list list \<times> nat \<Rightarrow> bool" where
  "ring_ok = (\<lambda>(bs, i). bs \<noteq> [])"

lemma expired_Pair: "expired n (image_mset (Pair d) M) = (if d < int n then M else {#})"
  by (induction M) auto

lemma remaining_Pair:
  "remaining n (image_mset (Pair d) M) = (if d < int n then {#} else image_mset (Pair (d - int n)) M)"
  by (induction M) auto

lemma expired_sum: "finite A \<Longrightarrow> expired n (\<Sum>b\<in>A. f b) = (\<Sum>b\<in>A. expired n (f b))"
  by (induction A rule: finite_induct) auto

lemma remaining_sum: "finite A \<Longrightarrow> remaining n (\<Sum>b\<in>A. f b) = (\<Sum>b\<in>A. remaining n (f b))"
  by (induction A rule: finite_induct) auto

lemma ring_tick_expired:
  assumes "bs \<noteq> []"
  shows "expired 1 (ring_dues (bs, i)) = mset (bs ! (i mod length bs))"
proof -
  let ?n = "length bs" and ?k = "i mod length bs"
  have k: "?k < ?n" using assms by simp
  have "expired 1 (ring_dues (bs, i))
      = (\<Sum>b<?n. if b = ?k then mset (bs ! b) else {#})"
    unfolding ring_dues_def expired_sum[OF finite_lessThan] prod.case expired_Pair
    using ring_dist_0_iff[OF k] by (intro sum.cong) auto
  also have "\<dots> = mset (bs ! ?k)" using k by (simp add: sum.delta)
  finally show ?thesis .
qed

lemma ring_tick_remaining:
  assumes "bs \<noteq> []"
  shows "ring_dues (snd (ring_tick (bs, i))) = remaining 1 (ring_dues (bs, i))"
proof -
  let ?n = "length bs" and ?k = "i mod length bs"
  have k: "?k < ?n" using assms by simp
  have Suc: "Suc i mod ?n = (?k + 1) mod ?n" by (simp add: mod_Suc_eq)
  have each: "image_mset (Pair (int (ring_dist ?n (Suc i mod ?n) b))) (mset (bs[?k := []] ! b))
      = remaining 1 (image_mset (Pair (int (ring_dist ?n ?k b))) (mset (bs ! b)))" if b: "b < ?n" for b
    using ring_dist_0_iff[OF k b] ring_dist_Suc_head[OF k b] b k
    by (cases "b = ?k") (auto simp: remaining_Pair Suc nth_list_update)
  show ?thesis
    unfolding ring_dues_def ring_tick_def prod.case snd_conv remaining_sum[OF finite_lessThan] length_list_update
    by (intro sum.cong refl each) simp
qed

interpretation ring: timer_store ring_tick ring_dues ring_ok
proof unfold_locales
  fix s :: "'a list list \<times> nat" and p
  assume "ring_ok s"
  show "ring_ok (snd (ring_tick s))" using \<open>ring_ok s\<close> by (auto simp: ring_ok_def ring_tick_def split: prod.splits)
  show "mset (fst (ring_tick s)) = expired 1 (ring_dues s)"
    using \<open>ring_ok s\<close> by (cases s) (auto simp: ring_ok_def ring_tick_def ring_tick_expired simp del: One_nat_def)
  show "ring_dues (snd (ring_tick s)) = remaining 1 (ring_dues s)"
    using \<open>ring_ok s\<close> by (cases s) (auto simp: ring_ok_def ring_tick_remaining simp del: One_nat_def)
  assume "p \<in># ring_dues s"
  then show "0 \<le> fst p" by (auto simp: ring_dues_def set_mset_sum split: prod.splits)
qed

subsection \<open>Advance is a run of ticks\<close>

lemma fold_collect_ticks:
  assumes "bs \<noteq> []" "length bs = n"
  shows "fold collect_bucket (map (\<lambda>idx. idx mod n) [i..<i + m]) (out, bs)
    = (out @ fst (run_ticks ring_tick m (bs, i)), fst (snd (run_ticks ring_tick m (bs, i))))
    \<and> snd (snd (run_ticks ring_tick m (bs, i))) = i + m"
  using assms
proof (induction m arbitrary: i bs out)
  case 0
  then show ?case by simp
next
  case (Suc m)
  let ?bs = "bs[i mod n := []]"
  have "?bs \<noteq> []" "length ?bs = n" using Suc.prems by auto
  note IH = Suc.IH[OF this, of "Suc i" "out @ bs ! (i mod n)"]
  have "[i..<i + Suc m] = i # [Suc i..<Suc i + m]" by (simp add: upt_conv_Cons)
  then show ?case
    using IH Suc.prems by (simp add: collect_bucket_def ring_tick_def split_def Let_def)
qed

definition tw_ok :: "'t timing_wheel \<Rightarrow> bool" where
  "tw_ok w \<longleftrightarrow> 0 < num_ticks w \<and> length (tw_wheel w) = num_ticks w \<and> 0 < wheel_tick_size w"

definition tw_ticks :: "int \<Rightarrow> 't timing_wheel \<Rightarrow> nat" where
  "tw_ticks now w = nat ((now - tw_last_advancement_time w) div (wheel_tick_size w * ns_per_ms))"

text \<open>
  The unwrapped index has room for the ticks of the advance: at one tick per 10 ms it takes
  five billion years to reach \<open>2 ^ 64\<close>.
\<close>

definition tw_clock_ok :: "int \<Rightarrow> 't timing_wheel \<Rightarrow> bool" where
  "tw_clock_ok now w \<longleftrightarrow> current_wheel_index w + tw_ticks now w < size_max1"

definition tw_dues :: "'t timing_wheel \<Rightarrow> 't timer_bag" where
  "tw_dues w = ring_dues (tw_wheel w, current_wheel_index w)"

lemma tw_index:
  assumes "tw_ok w" "tw_clock_ok now w" "wheel_tick_size w * ns_per_ms \<le> now - tw_last_advancement_time w"
  shows "non_wrapped_wheel_index now w = current_wheel_index w + tw_ticks now w"
proof -
  let ?d = "(now - tw_last_advancement_time w) div (wheel_tick_size w * ns_per_ms)"
  have pos: "0 < wheel_tick_size w * ns_per_ms" using assms(1) by (simp add: tw_ok_def ns_per_ms_def)
  then have d: "0 \<le> ?d" "0 \<le> now - tw_last_advancement_time w"
    using assms(3) by (auto simp: pos_imp_zdiv_nonneg_iff)
  moreover have "?d < int size_max1" using assms(2) d by (simp add: tw_clock_ok_def tw_ticks_def)
  ultimately show ?thesis
    using pos assms(2) by (simp add: non_wrapped_wheel_index_def cxx_div_nonneg tw_clock_ok_def tw_ticks_def)
qed

lemma tw_ticks_early:
  "tw_ok w \<Longrightarrow> now - tw_last_advancement_time w < wheel_tick_size w * ns_per_ms \<Longrightarrow> tw_ticks now w = 0"
  using div_neg_pos_less0[of "now - tw_last_advancement_time w" "wheel_tick_size w * ns_per_ms"]
  by (cases "0 \<le> now - tw_last_advancement_time w") (auto simp: tw_ticks_def tw_ok_def ns_per_ms_def)

lemma tw_advance_ticks:
  assumes ok: "tw_ok w" and clock: "tw_clock_ok now w"
  shows "fst (tw_advance now w) = fst (run_ticks ring_tick (tw_ticks now w) (tw_wheel w, current_wheel_index w))"
    and "(tw_wheel (snd (tw_advance now w)), current_wheel_index (snd (tw_advance now w)))
      = snd (run_ticks ring_tick (tw_ticks now w) (tw_wheel w, current_wheel_index w))"
proof -
  let ?r = "run_ticks ring_tick (tw_ticks now w) (tw_wheel w, current_wheel_index w)"
  have ne: "tw_wheel w \<noteq> []" "length (tw_wheel w) = num_ticks w" using ok by (auto simp: tw_ok_def)
  have "fst (tw_advance now w) = fst ?r
      \<and> (tw_wheel (snd (tw_advance now w)), current_wheel_index (snd (tw_advance now w))) = snd ?r"
  proof (cases "now - tw_last_advancement_time w < wheel_tick_size w * ns_per_ms")
    case True
    then show ?thesis using tw_ticks_early[OF ok True] by (simp add: tw_advance_def)
  next
    case False
    then show ?thesis
      using tw_index[OF ok clock] fold_collect_ticks[OF ne, of "current_wheel_index w" "tw_ticks now w" "[]"]
      by (simp add: tw_advance_def Let_def split_def prod_eq_iff)
  qed
  then show "fst (tw_advance now w) = fst ?r"
    "(tw_wheel (snd (tw_advance now w)), current_wheel_index (snd (tw_advance now w))) = snd ?r"
    by auto
qed

lemma run_ring_length: "length (fst (snd (run_ticks ring_tick m (bs, i)))) = length bs"
  by (induction m arbitrary: bs i) (auto simp: ring_tick_def split_def Let_def)

lemma tw_advance_static [simp]:
  "wheel_tick_size (snd (tw_advance now w)) = wheel_tick_size w"
  "num_ticks (snd (tw_advance now w)) = num_ticks w"
  "tw_last_advancement_time (snd (tw_advance now w)) =
     (if now - tw_last_advancement_time w < wheel_tick_size w * ns_per_ms
      then tw_last_advancement_time w else now)"
  by (auto simp: tw_advance_def Let_def split_def)

lemma tw_advance_correct:
  assumes ok: "tw_ok w" and clock: "tw_clock_ok now w"
  shows "tw_ok (snd (tw_advance now w))"
    and "mset (fst (tw_advance now w)) = expired (tw_ticks now w) (tw_dues w)"
    and "tw_dues (snd (tw_advance now w)) = remaining (tw_ticks now w) (tw_dues w)"
    and "current_wheel_index (snd (tw_advance now w)) = current_wheel_index w + tw_ticks now w"
proof -
  let ?s = "(tw_wheel w, current_wheel_index w)"
  have ne: "tw_wheel w \<noteq> []" "length (tw_wheel w) = num_ticks w" using ok by (auto simp: tw_ok_def)
  then have "ring_ok ?s" by (simp add: ring_ok_def)
  note ticks = ring.ticks_correct[OF this, of "tw_ticks now w"]
  note adv = tw_advance_ticks[OF ok clock]
  have "length (tw_wheel (snd (tw_advance now w))) = num_ticks w"
    using arg_cong[OF adv(2), of "\<lambda>p. length (fst p)"] ne by (simp add: run_ring_length)
  then show "tw_ok (snd (tw_advance now w))" using ok by (simp add: tw_ok_def)
  show "mset (fst (tw_advance now w)) = expired (tw_ticks now w) (tw_dues w)"
    using ticks adv(1) by (simp add: tw_dues_def)
  show "tw_dues (snd (tw_advance now w)) = remaining (tw_ticks now w) (tw_dues w)"
    using ticks adv(2) by (simp add: tw_dues_def)
  show "current_wheel_index (snd (tw_advance now w)) = current_wheel_index w + tw_ticks now w"
    using arg_cong[OF adv(2), of snd] fold_collect_ticks[OF ne, of "current_wheel_index w" "tw_ticks now w" "[]"] by simp
qed

subsection \<open>Scheduling\<close>

text \<open>The ticks a duration asks for, and where the code puts it when they fit in one turn.\<close>

definition duration_ticks :: "int \<Rightarrow> 't timing_wheel \<Rightarrow> nat" where
  "duration_ticks d w = nat (d div wheel_tick_size w)"

lemma cxx_div_scale:
  assumes "0 < c"
  shows "cxx_div (a * c) (b * c) = cxx_div a b"
proof -
  have "\<bar>a * c\<bar> div \<bar>b * c\<bar> = \<bar>a\<bar> div \<bar>b\<bar>" using assms by (simp add: abs_mult)
  then have "nat \<bar>a * c\<bar> div nat \<bar>b * c\<bar> = nat \<bar>a\<bar> div nat \<bar>b\<bar>"
    by (simp add: nat_div_distrib[symmetric])
  then show ?thesis using assms by (simp add: cxx_div_def mult_less_0_iff)
qed

lemma ring_push_dues:
  assumes "b < length bs"
  shows "ring_dues (bs[b := bs ! b @ [t]], i)
    = add_mset (int (ring_dist (length bs) (i mod length bs) b), t) (ring_dues (bs, i))"
proof -
  let ?d = "\<lambda>j. Pair (int (ring_dist (length bs) (i mod length bs) j))"
  have "ring_dues (bs[b := bs ! b @ [t]], i) = image_mset (?d b) (mset (bs ! b @ [t]))
      + (\<Sum>j\<in>{..<length bs} - {b}. image_mset (?d j) (mset (bs ! j)))"
    using assms by (simp add: ring_dues_def sum.remove[of _ b])
  then show ?thesis using assms by (simp add: ring_dues_def sum.remove[of "{..<length bs}" b])
qed

lemma tw_schedule_correct:
  assumes ok: "tw_ok w" and d: "0 \<le> d" and room: "current_wheel_index w + duration_ticks d w < size_max1"
  shows "tw_ok (tw_schedule d t w)"
    and "tw_dues (tw_schedule d t w) = add_mset (int (duration_ticks d w mod num_ticks w), t) (tw_dues w)"
    and "tw_last_advancement_time (tw_schedule d t w) = tw_last_advancement_time w"
    and "current_wheel_index (tw_schedule d t w) = current_wheel_index w"
    and "wheel_tick_size (tw_schedule d t w) = wheel_tick_size w"
    and "num_ticks (tw_schedule d t w) = num_ticks w"
proof -
  let ?n = "num_ticks w" and ?i = "current_wheel_index w"
  have tick: "0 < wheel_tick_size w" and n: "0 < ?n" "length (tw_wheel w) = ?n" using ok by (auto simp: tw_ok_def)
  have "d div wheel_tick_size w < int size_max1" "0 \<le> d div wheel_tick_size w"
    using room d tick by (auto simp: duration_ticks_def pos_imp_zdiv_nonneg_iff)
  then have idx: "non_wrapped_wheel_index (tw_last_advancement_time w + d * ns_per_ms) w = ?i + duration_ticks d w"
    using room d tick
    by (simp add: non_wrapped_wheel_index_def cxx_div_scale ns_per_ms_def cxx_div_nonneg duration_ticks_def)
  have b: "(?i + duration_ticks d w) mod ?n < ?n" using n by simp
  have "ring_dist ?n (?i mod ?n) ((?i + duration_ticks d w) mod ?n) = duration_ticks d w mod ?n"
  proof -
    have "(?i mod ?n + ring_dist ?n (?i mod ?n) ((?i + duration_ticks d w) mod ?n)) mod ?n
        = (?i mod ?n + duration_ticks d w mod ?n) mod ?n"
      using ring_dist_add[of "?i mod ?n" ?n] b n by (simp add: mod_simps)
    then show ?thesis
      using ring_index_inj[of _ ?n _ "?i mod ?n"] ring_dist_less[of "?i mod ?n" ?n] b n by simp
  qed
  then show "tw_dues (tw_schedule d t w) = add_mset (int (duration_ticks d w mod ?n), t) (tw_dues w)"
    using b n by (simp add: tw_dues_def tw_schedule_def Let_def idx ring_push_dues)
  show "tw_ok (tw_schedule d t w)" using ok by (simp add: tw_ok_def tw_schedule_def Let_def)
qed (simp_all add: tw_schedule_def Let_def)

subsection \<open>Properties\<close>

definition sample_ring :: "nat timing_wheel" where
  "sample_ring = tw_schedule 25 7 (tw_new 0 10 4)"

lemma tw_new_ok: "tw_ok (tw_new 0 10 4)" "tw_last_advancement_time (tw_new 0 10 4) = 0"
  "current_wheel_index (tw_new 0 10 4) = 0" "wheel_tick_size (tw_new 0 10 4) = 10" "num_ticks (tw_new 0 10 4) = 4"
  by (simp_all add: tw_ok_def tw_new_def)

lemma sample_ring_correct:
  "tw_ok sample_ring" "wheel_tick_size sample_ring = 10" "tw_last_advancement_time sample_ring = 0"
  "current_wheel_index sample_ring = 0" "tw_dues sample_ring = {#(2, 7)#}"
proof -
  have d: "tw_dues (tw_new 0 10 4 :: nat timing_wheel) = {#}" by (simp add: tw_dues_def tw_new_def ring_dues_def)
  have "current_wheel_index (tw_new 0 10 4 :: nat timing_wheel) + duration_ticks 25 (tw_new 0 10 4 :: nat timing_wheel) < size_max1"
    by (simp add: duration_ticks_def tw_new_ok)
  from tw_schedule_correct[OF tw_new_ok(1) _ this, of 7] d
  show "tw_ok sample_ring" "wheel_tick_size sample_ring = 10" "tw_last_advancement_time sample_ring = 0"
    "current_wheel_index sample_ring = 0" "tw_dues sample_ring = {#(2, 7)#}"
    by (simp_all add: sample_ring_def tw_new_ok duration_ticks_def)
qed

text \<open>
  C32: An advance of the poll thread's wheel hands out exactly the entries that are due within
  the ticks that have passed, brings the others closer by as many ticks, and keeps the wheel
  well-formed, also when it passes the whole ring more than once.
\<close>

theorem timing_wheel_advance:
  assumes "tw_ok w" and "tw_clock_ok now w"
  shows "mset (fst (tw_advance now w)) = expired (tw_ticks now w) (tw_dues w)
    \<and> tw_dues (snd (tw_advance now w)) = remaining (tw_ticks now w) (tw_dues w)
    \<and> tw_ok (snd (tw_advance now w))"
  using tw_advance_correct(1-3)[OF assms] by simp

theorem timing_wheel_advance_witness: "mset (fst (tw_advance 30000000 sample_ring)) = {#7#}"
  using timing_wheel_advance[OF sample_ring_correct(1), of 30000000] sample_ring_correct(2-5)
  by (simp add: tw_clock_ok_def tw_ticks_def ns_per_ms_def)

end
