(* ===== verification/Poll_Source_Spec.thy ===== *)
theory Poll_Source_Spec
  imports Prelude
begin

text \<open>
  \<open>poll_source.h\<close>: what the poll thread relies on when it polls an \<open>IPollSource\<close>. A poll takes
  an input (a clock reading, the statuses the operating system reports) and gives jobs.
  \<open>owed\<close> are the jobs a source still has to give; the contract is that a poll hands over part of
  what is owed and keeps the rest, so that over any number of polls every job is given once.
  The two sources of the library are interpretations (in \<open>Timing_Poll_Source\<close> and
  \<open>Io_Poll_Source\<close>), and so is the pair of them that the poll thread polls (in \<open>Poll_Thread\<close>).
\<close>

fun run_polls :: "('i \<Rightarrow> 's \<Rightarrow> 'j list \<times> 's) \<Rightarrow> 'i list \<Rightarrow> 's \<Rightarrow> 'j list \<times> 's" where
  "run_polls poll [] s = ([], s)"
| "run_polls poll (i # ins) s =
     (let (jobs, s1) = poll i s; (more, s2) = run_polls poll ins s1 in (jobs @ more, s2))"

lemma run_polls_append:
  "run_polls poll (xs @ ys) s =
     (fst (run_polls poll xs s) @ fst (run_polls poll ys (snd (run_polls poll xs s))),
      snd (run_polls poll ys (snd (run_polls poll xs s))))"
  by (induction xs arbitrary: s) (auto simp: split_def Let_def)

lemma run_polls_Cons:
  "fst (run_polls poll (i # ins) s) = fst (poll i s) @ fst (run_polls poll ins (snd (poll i s)))"
  "snd (run_polls poll (i # ins) s) = snd (run_polls poll ins (snd (poll i s)))"
  by (simp_all add: split_def Let_def)

locale poll_source =
  fixes poll :: "'i \<Rightarrow> 's \<Rightarrow> 'j list \<times> 's"
    and owed :: "'s \<Rightarrow> 'j multiset"
    and inv :: "'s \<Rightarrow> bool"
    and input_ok :: "'i \<Rightarrow> bool"
  assumes poll_inv: "inv s \<Longrightarrow> input_ok i \<Longrightarrow> inv (snd (poll i s))"
    and poll_conserves: "inv s \<Longrightarrow> input_ok i \<Longrightarrow> mset (fst (poll i s)) + owed (snd (poll i s)) = owed s"
begin

lemma polls_inv: "inv s \<Longrightarrow> \<forall>i \<in> set ins. input_ok i \<Longrightarrow> inv (snd (run_polls poll ins s))"
  by (induction ins arbitrary: s) (auto simp: run_polls_Cons poll_inv simp del: run_polls.simps(2))

lemma polls_conserve:
  "inv s \<Longrightarrow> \<forall>i \<in> set ins. input_ok i \<Longrightarrow>
     mset (fst (run_polls poll ins s)) + owed (snd (run_polls poll ins s)) = owed s"
proof (induction ins arbitrary: s)
  case (Cons i ins)
  have ok: "input_ok i" "\<forall>i \<in> set ins. input_ok i" using Cons.prems(2) by auto
  show ?case
    using Cons.IH[OF poll_inv[OF Cons.prems(1) ok(1)] ok(2)] poll_conserves[OF Cons.prems(1) ok(1)]
    by (simp add: run_polls_Cons union_assoc del: run_polls.simps(2))
qed simp

lemma polls_give_owed: "inv s \<Longrightarrow> \<forall>i \<in> set ins. input_ok i \<Longrightarrow> mset (fst (run_polls poll ins s)) \<subseteq># owed s"
  using polls_conserve[of s ins] by (metis mset_subset_eq_add_left)

end

end
