(* ===== verification/Poll_Loop.thy ===== *)
theory Poll_Loop
  imports Worker_Pool Timing_Wheel Poll_Source_Spec
begin

text \<open>
  \<open>scheduler.h\<close>, \<open>scheduler.cpp\<close> and \<open>scheduler_factory.cpp\<close> of \<open>src/scheduler\<close>: the
  scheduler object and its poll thread, which keeps the poll sources on a single timing wheel
  (10 ms ticks, 6000 buckets), polls those whose timer expires, hands their jobs to the global
  queue and schedules them again after their poll frequency.

  What the sources do is the argument \<open>poll\<close> (a poll of source \<open>s\<close> maps the sources' state to
  the jobs returned and the next state) and \<open>freq\<close> (their poll frequency in milliseconds);
  \<open>Timing_Poll_Source\<close> and \<open>Io_Poll_Source\<close> model the two sources the library has. The clock
  readings of the loop are arguments; the stop token ends the list of readings.
\<close>

subsection \<open>The scheduler object\<close>

definition scheduler_queue_jobs :: "sched_context \<Rightarrow> 'j fn list \<Rightarrow> 'j worker_pool \<Rightarrow> 'j worker_pool" where
  "scheduler_queue_jobs ctx jobs pool = pool_queue_jobs ctx jobs pool"

definition scheduler_queue :: "sched_context \<Rightarrow> 'j fn \<Rightarrow> 'j worker_pool \<Rightarrow> 'j worker_pool" where
  "scheduler_queue ctx job_fn pool = scheduler_queue_jobs ctx [job_fn] pool"

record ('s, 'j, 'w) poll_thread =
  pt_pool :: "'j worker_pool"
  pt_sources :: 'w
  pt_wheel :: "'s timing_wheel"

definition schedule_poll_source :: "int \<Rightarrow> 's \<Rightarrow> ('s, 'j, 'w) poll_thread \<Rightarrow> ('s, 'j, 'w) poll_thread" where
  "schedule_poll_source time source st = st\<lparr>pt_wheel := tw_schedule time source (pt_wheel st)\<rparr>"

text \<open>\<open>create_scheduler\<close> takes an \<open>int\<close>, which the constructor receives as \<open>unsigned int\<close>.\<close>

definition create_scheduler :: "int \<Rightarrow> bool \<times> 'j worker_pool" where
  "create_scheduler n_workers = pool_new (nat (n_workers mod 4294967296))"

text \<open>\<open>begin_poll\<close> up to its loop.\<close>

definition begin_poll :: "int \<Rightarrow> 's list \<Rightarrow> 'w \<Rightarrow> 'j worker_pool \<Rightarrow> ('s, 'j, 'w) poll_thread" where
  "begin_poll now poll_sources w pool =
     fold (schedule_poll_source 0) poll_sources
       \<lparr>pt_pool = pool, pt_sources = w, pt_wheel = tw_new now 10 (to_size_t (cxx_div 60000 10))\<rparr>"

definition poll_ready ::
  "('s \<Rightarrow> int) \<Rightarrow> ('s \<Rightarrow> 'w \<Rightarrow> 'j fn list \<times> 'w) \<Rightarrow> 's \<Rightarrow> ('s, 'j, 'w) poll_thread \<Rightarrow> ('s, 'j, 'w) poll_thread"
where
  "poll_ready freq poll ready_poll st =
     (let (jobs, w) = poll ready_poll (pt_sources st);
          st1 = st\<lparr>pt_sources := w, pt_pool := scheduler_queue_jobs ctx_empty jobs (pt_pool st)\<rparr>
      in schedule_poll_source (freq ready_poll) ready_poll st1)"

definition poll_iteration ::
  "('s \<Rightarrow> int) \<Rightarrow> ('s \<Rightarrow> 'w \<Rightarrow> 'j fn list \<times> 'w) \<Rightarrow> int \<Rightarrow> ('s, 'j, 'w) poll_thread \<Rightarrow> ('s, 'j, 'w) poll_thread"
where
  "poll_iteration freq poll now st =
     (let (ready, wheel) = tw_advance now (pt_wheel st)
      in fold (poll_ready freq poll) ready (st\<lparr>pt_wheel := wheel\<rparr>))"

definition poll_loop ::
  "('s \<Rightarrow> int) \<Rightarrow> ('s \<Rightarrow> 'w \<Rightarrow> 'j fn list \<times> 'w) \<Rightarrow> int list \<Rightarrow> ('s, 'j, 'w) poll_thread \<Rightarrow> ('s, 'j, 'w) poll_thread"
where
  "poll_loop freq poll nows st = fold (poll_iteration freq poll) nows st"

subsection \<open>The wheel of the poll thread\<close>

definition wheel_sources :: "('s, 'j, 'w) poll_thread \<Rightarrow> 's multiset" where
  "wheel_sources st = image_mset snd (tw_dues (pt_wheel st))"

text \<open>
  The invariant: a well-formed wheel of the shape \<open>begin_poll\<close> makes, whose index is covered
  by the time that has passed since the thread started at \<open>t0\<close> (so it cannot overflow while
  clock readings are signed 64-bit nanoseconds), and a well-formed pool.
\<close>

definition pt_inv :: "int \<Rightarrow> ('s, 'j, 'w) poll_thread \<Rightarrow> bool" where
  "pt_inv t0 st \<longleftrightarrow> tw_ok (pt_wheel st) \<and> wheel_tick_size (pt_wheel st) = 10 \<and> num_ticks (pt_wheel st) = 6000
     \<and> clock_range t0 \<and> clock_range (tw_last_advancement_time (pt_wheel st))
     \<and> int (current_wheel_index (pt_wheel st)) * 10000000 \<le> tw_last_advancement_time (pt_wheel st) - t0
     \<and> pool_inv (pt_pool st)"

definition freq_ok :: "int \<Rightarrow> bool" where
  "freq_ok f \<longleftrightarrow> 0 \<le> f \<and> f < int size_half"

lemma pt_inv_room:
  assumes "pt_inv t0 st" "clock_range now"
  shows "tw_clock_ok now (pt_wheel st)"
proof -
  let ?w = "pt_wheel st"
  have "(now - tw_last_advancement_time ?w) div 10000000 \<le> (2 * int size_half) div 10000000"
    using assms by (intro zdiv_mono1) (auto simp: pt_inv_def clock_range_def)
  moreover have "int (current_wheel_index ?w) * 10000000 \<le> 2 * int size_half"
    using assms by (auto simp: pt_inv_def clock_range_def)
  ultimately show ?thesis
    using assms by (simp add: pt_inv_def tw_clock_ok_def tw_ticks_def ns_per_ms_def)
qed

lemma pt_inv_freq_room:
  assumes "pt_inv t0 st" "freq_ok f"
  shows "current_wheel_index (pt_wheel st) + duration_ticks f (pt_wheel st) < size_max1"
proof -
  let ?w = "pt_wheel st"
  have "f div 10 \<le> int size_half div 10" using assms(2) by (intro zdiv_mono1) (auto simp: freq_ok_def)
  moreover have "int (current_wheel_index ?w) * 10000000 \<le> 2 * int size_half"
    using assms by (auto simp: pt_inv_def clock_range_def)
  ultimately show ?thesis using assms by (simp add: pt_inv_def duration_ticks_def)
qed

lemma schedule_poll_source_correct:
  assumes inv: "pt_inv t0 st" and f: "freq_ok f"
  shows "pt_inv t0 (schedule_poll_source f s st)"
    and "tw_dues (pt_wheel (schedule_poll_source f s st)) =
      add_mset (int (nat (f div 10) mod 6000), s) (tw_dues (pt_wheel st))"
    and "pt_pool (schedule_poll_source f s st) = pt_pool st"
    and "pt_sources (schedule_poll_source f s st) = pt_sources st"
    and "tw_last_advancement_time (pt_wheel (schedule_poll_source f s st)) = tw_last_advancement_time (pt_wheel st)"
  using tw_schedule_correct[of "pt_wheel st" f s] pt_inv_freq_room[OF inv f] inv f
  by (auto simp: pt_inv_def schedule_poll_source_def freq_ok_def duration_ticks_def)

lemma ctx_empty_ok [simp]: "ctx_ok p ctx_empty"
  by (simp add: ctx_ok_def ctx_empty_def)

lemma poll_ready_correct:
  assumes inv: "pt_inv t0 st" and f: "freq_ok (freq s)"
  shows "pt_inv t0 (poll_ready freq poll s st)"
    and "tw_dues (pt_wheel (poll_ready freq poll s st)) =
      add_mset (int (nat (freq s div 10) mod 6000), s) (tw_dues (pt_wheel st))"
    and "pool_jobs (pt_pool (poll_ready freq poll s st)) =
      pool_jobs (pt_pool st) + mset (fst (poll s (pt_sources st)))"
    and "pt_sources (poll_ready freq poll s st) = snd (poll s (pt_sources st))"
    and "tw_last_advancement_time (pt_wheel (poll_ready freq poll s st)) = tw_last_advancement_time (pt_wheel st)"
proof -
  obtain jobs w where p: "poll s (pt_sources st) = (jobs, w)" by (cases "poll s (pt_sources st)")
  let ?st = "st\<lparr>pt_sources := w, pt_pool := scheduler_queue_jobs ctx_empty jobs (pt_pool st)\<rparr>"
  have pool: "pool_inv (pt_pool st)" using inv by (simp add: pt_inv_def)
  note q = pool_queue_jobs_correct[OF pool ctx_empty_ok, of jobs]
  have "pt_inv t0 ?st" using inv q by (simp add: pt_inv_def scheduler_queue_jobs_def)
  note s = schedule_poll_source_correct[OF this f, of s]
  show "pt_inv t0 (poll_ready freq poll s st)"
    "tw_dues (pt_wheel (poll_ready freq poll s st)) =
      add_mset (int (nat (freq s div 10) mod 6000), s) (tw_dues (pt_wheel st))"
    "pool_jobs (pt_pool (poll_ready freq poll s st)) =
      pool_jobs (pt_pool st) + mset (fst (poll s (pt_sources st)))"
    "pt_sources (poll_ready freq poll s st) = snd (poll s (pt_sources st))"
    "tw_last_advancement_time (pt_wheel (poll_ready freq poll s st)) = tw_last_advancement_time (pt_wheel st)"
    using s q by (simp_all add: poll_ready_def p scheduler_queue_jobs_def)
qed

lemma fold_poll_ready:
  assumes "pt_inv t0 st" "\<forall>s \<in> set ready. freq_ok (freq s)"
  shows "pt_inv t0 (fold (poll_ready freq poll) ready st)
    \<and> tw_dues (pt_wheel (fold (poll_ready freq poll) ready st)) =
        tw_dues (pt_wheel st) + image_mset (\<lambda>s. (int (nat (freq s div 10) mod 6000), s)) (mset ready)
    \<and> pool_jobs (pt_pool (fold (poll_ready freq poll) ready st)) =
        pool_jobs (pt_pool st) + mset (fst (run_polls poll ready (pt_sources st)))
    \<and> pt_sources (fold (poll_ready freq poll) ready st) = snd (run_polls poll ready (pt_sources st))
    \<and> tw_last_advancement_time (pt_wheel (fold (poll_ready freq poll) ready st)) = tw_last_advancement_time (pt_wheel st)"
  using assms
proof (induction ready arbitrary: st)
  case Nil
  then show ?case by simp
next
  case (Cons s ready)
  have f: "freq_ok (freq s)" using Cons.prems(2) by simp
  note one = poll_ready_correct[where poll = poll and freq = freq and s = s, OF Cons.prems(1) f]
  have "\<forall>s \<in> set ready. freq_ok (freq s)" using Cons.prems(2) by simp
  from Cons.IH[OF one(1) this] one(2-5) show ?case
    by (simp add: split_def Let_def union_ac)
qed

lemma pt_advance_inv:
  assumes inv: "pt_inv t0 st" and t: "clock_range now"
  shows "pt_inv t0 (st\<lparr>pt_wheel := snd (tw_advance now (pt_wheel st))\<rparr>)"
proof -
  let ?w = "pt_wheel st"
  have ok: "tw_ok ?w" and tick: "wheel_tick_size ?w = 10" using inv by (auto simp: pt_inv_def)
  note adv = tw_advance_correct[OF ok pt_inv_room[OF inv t]]
  have "int (current_wheel_index ?w + tw_ticks now ?w) * 10000000
      \<le> (if now - tw_last_advancement_time ?w < 10000000 then tw_last_advancement_time ?w else now) - t0"
  proof (cases "now - tw_last_advancement_time ?w < 10000000")
    case True
    then have "tw_ticks now ?w = 0" using tw_ticks_early[OF ok] tick by (simp add: ns_per_ms_def)
    then show ?thesis using True inv by (simp add: pt_inv_def)
  next
    case False
    then have "int (tw_ticks now ?w) = (now - tw_last_advancement_time ?w) div 10000000"
      by (simp add: tw_ticks_def tick ns_per_ms_def pos_imp_zdiv_nonneg_iff)
    moreover have "(now - tw_last_advancement_time ?w) div 10000000 * 10000000 \<le> now - tw_last_advancement_time ?w"
      by (simp add: minus_mod_eq_div_mult [symmetric])
    ultimately show ?thesis using False inv by (simp add: pt_inv_def algebra_simps)
  qed
  then show ?thesis
    using inv adv(1,4) t tick by (simp add: pt_inv_def ns_per_ms_def split: if_splits)
qed

subsection \<open>The start of the poll thread\<close>

lemma begin_poll_wheel: "cxx_div 60000 10 = 6000"
  by (simp add: cxx_div_def)

lemma tw_new_dues [simp]: "tw_dues (tw_new now tick n) = {#}"
  by (simp add: tw_dues_def tw_new_def ring_dues_def)

lemma pt_inv_new:
  assumes "clock_range now" "pool_inv pool"
  shows "pt_inv now \<lparr>pt_pool = pool, pt_sources = w, pt_wheel = tw_new now 10 (to_size_t (cxx_div 60000 10))\<rparr>"
  using assms by (simp add: pt_inv_def tw_ok_def tw_new_def begin_poll_wheel)

lemma freq_ok_0 [simp]: "freq_ok 0"
  by (simp add: freq_ok_def)

lemma fold_schedule_poll_source:
  assumes "pt_inv t0 st"
  shows "pt_inv t0 (fold (schedule_poll_source 0) srcs st)
    \<and> tw_dues (pt_wheel (fold (schedule_poll_source 0) srcs st)) =
        tw_dues (pt_wheel st) + image_mset (Pair 0) (mset srcs)
    \<and> pt_pool (fold (schedule_poll_source 0) srcs st) = pt_pool st
    \<and> pt_sources (fold (schedule_poll_source 0) srcs st) = pt_sources st
    \<and> tw_last_advancement_time (pt_wheel (fold (schedule_poll_source 0) srcs st)) =
        tw_last_advancement_time (pt_wheel st)"
  using assms
proof (induction srcs arbitrary: st)
  case Nil
  then show ?case by simp
next
  case (Cons s srcs)
  note one = schedule_poll_source_correct[where s = s, OF Cons.prems freq_ok_0]
  from Cons.IH[OF one(1)] one(2-5) show ?case by simp
qed

lemma begin_poll_correct:
  assumes "clock_range now" "pool_inv pool"
  shows "pt_inv now (begin_poll now srcs w pool)"
    and "tw_dues (pt_wheel (begin_poll now srcs w pool)) = image_mset (Pair 0) (mset srcs)"
    and "pt_pool (begin_poll now srcs w pool) = pool"
    and "pt_sources (begin_poll now srcs w pool) = w"
    and "tw_last_advancement_time (pt_wheel (begin_poll now srcs w pool)) = now"
  using fold_schedule_poll_source[where srcs = srcs, OF pt_inv_new[OF assms, of w]]
  by (simp_all add: begin_poll_def begin_poll_wheel) (simp add: tw_new_def)

subsection \<open>One iteration\<close>

lemma poll_iteration_correct:
  assumes inv: "pt_inv t0 st" and t: "clock_range now" and f: "\<forall>s \<in># wheel_sources st. freq_ok (freq s)"
  defines "ready \<equiv> fst (tw_advance now (pt_wheel st))"
  shows "pt_inv t0 (poll_iteration freq poll now st)"
    and "mset ready = expired (tw_ticks now (pt_wheel st)) (tw_dues (pt_wheel st))"
    and "tw_dues (pt_wheel (poll_iteration freq poll now st)) =
        remaining (tw_ticks now (pt_wheel st)) (tw_dues (pt_wheel st))
        + image_mset (\<lambda>s. (int (nat (freq s div 10) mod 6000), s)) (mset ready)"
    and "pool_jobs (pt_pool (poll_iteration freq poll now st)) =
        pool_jobs (pt_pool st) + mset (fst (run_polls poll ready (pt_sources st)))"
    and "pt_sources (poll_iteration freq poll now st) = snd (run_polls poll ready (pt_sources st))"
    and "tw_last_advancement_time (pt_wheel (poll_iteration freq poll now st)) =
        (if now - tw_last_advancement_time (pt_wheel st) < 10000000
         then tw_last_advancement_time (pt_wheel st) else now)"
proof -
  let ?w = "pt_wheel st" and ?st = "st\<lparr>pt_wheel := snd (tw_advance now (pt_wheel st))\<rparr>"
  have ok: "tw_ok ?w" "wheel_tick_size ?w = 10" using inv by (auto simp: pt_inv_def)
  note adv = tw_advance_correct[OF ok(1) pt_inv_room[OF inv t]]
  show m: "mset ready = expired (tw_ticks now ?w) (tw_dues ?w)" using adv(2) by (simp add: ready_def)
  then have "set_mset (mset ready) \<subseteq> set_mset (wheel_sources st)"
    by (auto simp: wheel_sources_def expired_def)
  then have "\<forall>s \<in> set ready. freq_ok (freq s)" using f by auto
  note polls = fold_poll_ready[where poll = poll, OF pt_advance_inv[OF inv t] this]
  have it: "poll_iteration freq poll now st = fold (poll_ready freq poll) ready ?st"
    by (simp add: poll_iteration_def split_def Let_def ready_def)
  show "pt_inv t0 (poll_iteration freq poll now st)"
    "tw_dues (pt_wheel (poll_iteration freq poll now st)) =
        remaining (tw_ticks now ?w) (tw_dues ?w)
        + image_mset (\<lambda>s. (int (nat (freq s div 10) mod 6000), s)) (mset ready)"
    "pool_jobs (pt_pool (poll_iteration freq poll now st)) =
        pool_jobs (pt_pool st) + mset (fst (run_polls poll ready (pt_sources st)))"
    "pt_sources (poll_iteration freq poll now st) = snd (run_polls poll ready (pt_sources st))"
    "tw_last_advancement_time (pt_wheel (poll_iteration freq poll now st)) =
        (if now - tw_last_advancement_time ?w < 10000000 then tw_last_advancement_time ?w else now)"
    unfolding it using polls adv(3) ok(2) by (simp_all add: ns_per_ms_def)
qed

lemma poll_iteration_sources:
  assumes "pt_inv t0 st" "clock_range now" "\<forall>s \<in># wheel_sources st. freq_ok (freq s)"
  shows "wheel_sources (poll_iteration freq poll now st) = wheel_sources st"
  using poll_iteration_correct(2)[OF assms] poll_iteration_correct(3)[OF assms, where poll = poll]
    expired_remaining[of "tw_ticks now (pt_wheel st)" "tw_dues (pt_wheel st)"]
  by (simp add: wheel_sources_def multiset.map_comp comp_def union_commute)

subsection \<open>The loop\<close>

text \<open>The sources the loop polls, in order.\<close>

fun loop_polls ::
  "('s \<Rightarrow> int) \<Rightarrow> ('s \<Rightarrow> 'w \<Rightarrow> 'j fn list \<times> 'w) \<Rightarrow> int list \<Rightarrow> ('s, 'j, 'w) poll_thread \<Rightarrow> 's list"
where
  "loop_polls freq poll [] st = []"
| "loop_polls freq poll (now # nows) st =
     fst (tw_advance now (pt_wheel st)) @ loop_polls freq poll nows (poll_iteration freq poll now st)"

lemma poll_loop_inv:
  assumes "pt_inv t0 st" "\<forall>now \<in> set nows. clock_range now" "\<forall>s \<in># wheel_sources st. freq_ok (freq s)"
  shows "pt_inv t0 (poll_loop freq poll nows st)
    \<and> wheel_sources (poll_loop freq poll nows st) = wheel_sources st
    \<and> pool_jobs (pt_pool (poll_loop freq poll nows st)) =
        pool_jobs (pt_pool st) + mset (fst (run_polls poll (loop_polls freq poll nows st) (pt_sources st)))
    \<and> pt_sources (poll_loop freq poll nows st) = snd (run_polls poll (loop_polls freq poll nows st) (pt_sources st))"
  using assms
proof (induction nows arbitrary: st)
  case Nil
  then show ?case by (simp add: poll_loop_def)
next
  case (Cons now nows)
  have t: "clock_range now" "\<forall>now \<in> set nows. clock_range now" using Cons.prems(2) by auto
  note it = poll_iteration_correct(1,4,5)[where poll = poll, OF Cons.prems(1) t(1) Cons.prems(3)]
  note src = poll_iteration_sources[where poll = poll, OF Cons.prems(1) t(1) Cons.prems(3)]
  have "\<forall>s \<in># wheel_sources (poll_iteration freq poll now st). freq_ok (freq s)"
    using src Cons.prems(3) by simp
  from Cons.IH[OF it(1) t(2) this] src it(2,3) show ?case
    by (simp add: poll_loop_def run_polls_append)
qed

subsection \<open>Frequencies below one tick\<close>

text \<open>
  Both poll sources of the library ask for 5 ms, half a tick of the poll thread's wheel:
  they sit in the next bucket after every poll, so they are polled by every iteration whose
  clock has advanced by 10 ms and by no other.
\<close>

definition all_due :: "('s, 'j, 'w) poll_thread \<Rightarrow> bool" where
  "all_due st \<longleftrightarrow> (\<forall>p \<in># tw_dues (pt_wheel st). fst p = 0)"

lemma all_due_expired: "\<forall>p \<in># M. fst p = 0 \<Longrightarrow> 0 < n \<Longrightarrow> expired n M = image_mset snd M \<and> remaining n M = {#}"
  by (induction M) auto

lemma all_due_expired_0: "\<forall>p \<in># M. fst p = (0::int) \<Longrightarrow> expired 0 M = {#} \<and> remaining 0 M = M"
  by (induction M) auto

lemma poll_iteration_all_due:
  assumes inv: "pt_inv t0 st" and t: "clock_range now"
    and f: "\<forall>s \<in># wheel_sources st. 0 \<le> freq s \<and> freq s < 10" and due: "all_due st"
  shows "all_due (poll_iteration freq poll now st)"
    and "mset (fst (tw_advance now (pt_wheel st))) =
      (if now - tw_last_advancement_time (pt_wheel st) < 10000000 then {#} else wheel_sources st)"
proof -
  let ?w = "pt_wheel st" and ?n = "tw_ticks now (pt_wheel st)"
  have ok: "\<forall>s \<in># wheel_sources st. freq_ok (freq s)" using f by (auto simp: freq_ok_def)
  note it = poll_iteration_correct[OF inv t ok]
  have tick: "tw_ok ?w" "wheel_tick_size ?w = 10" using inv by (auto simp: pt_inv_def)
  have n: "?n = 0 \<longleftrightarrow> now - tw_last_advancement_time ?w < 10000000"
    using tw_ticks_early[OF tick(1), of now] tick(2) zdiv_mono1[of 10000000 "now - tw_last_advancement_time ?w" 10000000]
    by (auto simp: tw_ticks_def ns_per_ms_def)
  have ready: "mset (fst (tw_advance now ?w)) = (if ?n = 0 then {#} else wheel_sources st)"
    using it(2) due all_due_expired[of "tw_dues ?w" ?n] all_due_expired_0[of "tw_dues ?w"]
    by (simp add: all_due_def wheel_sources_def)
  then show "mset (fst (tw_advance now ?w)) =
      (if now - tw_last_advancement_time ?w < 10000000 then {#} else wheel_sources st)"
    using n by simp
  have "\<forall>p \<in># remaining ?n (tw_dues ?w). fst p = 0"
    using due all_due_expired[of "tw_dues ?w" ?n] all_due_expired_0[of "tw_dues ?w"]
    by (cases "?n = 0") (auto simp: all_due_def)
  moreover have "int (nat (freq s div 10) mod 6000) = 0" if "s \<in># mset (fst (tw_advance now ?w))" for s
    using that f unfolding ready by (auto split: if_splits)
  ultimately show "all_due (poll_iteration freq poll now st)"
    unfolding all_due_def it(3) by auto
qed

fun rounds :: "int \<Rightarrow> int list \<Rightarrow> bool list" where
  "rounds t [] = []"
| "rounds t (now # nows) = (if now - t < 10000000 then False # rounds t nows else True # rounds now nows)"

definition round_count :: "int \<Rightarrow> int list \<Rightarrow> nat" where
  "round_count t nows = length (filter id (rounds t nows))"

lemma loop_polls_rounds:
  assumes "pt_inv t0 st" "\<forall>now \<in> set nows. clock_range now"
    "\<forall>s \<in># wheel_sources st. 0 \<le> freq s \<and> freq s < 10" "all_due st"
  shows "mset (loop_polls freq poll nows st)
      = repeat_mset (round_count (tw_last_advancement_time (pt_wheel st)) nows) (wheel_sources st)"
  using assms
proof (induction nows arbitrary: st)
  case (Cons now nows)
  have t: "clock_range now" "\<forall>now \<in> set nows. clock_range now" using Cons.prems(2) by auto
  have f: "\<forall>s \<in># wheel_sources st. freq_ok (freq s)" using Cons.prems(3) by (auto simp: freq_ok_def)
  note it = poll_iteration_correct(1,6)[where poll = poll, OF Cons.prems(1) t(1) f]
  note src = poll_iteration_sources[where poll = poll, OF Cons.prems(1) t(1) f]
  note due = poll_iteration_all_due(1)[where poll = poll, OF Cons.prems(1) t(1) Cons.prems(3,4)]
    poll_iteration_all_due(2)[OF Cons.prems(1) t(1) Cons.prems(3,4)]
  have "\<forall>s \<in># wheel_sources (poll_iteration freq poll now st). 0 \<le> freq s \<and> freq s < 10"
    using src Cons.prems(3) by simp
  from Cons.IH[OF it(1) t(2) this due(1)] show ?case
    using src it(2) due(2) by (simp add: round_count_def union_commute)
qed (simp add: round_count_def)

lemma poll_loop_rounds:
  assumes "pt_inv t0 st" "\<forall>now \<in> set nows. clock_range now"
    "\<forall>s \<in># wheel_sources st. 0 \<le> freq s \<and> freq s < 10" "all_due st"
  shows "\<exists>polled. list_all2 (\<lambda>is_round ps. mset ps = (if is_round then wheel_sources st else {#}))
        (rounds (tw_last_advancement_time (pt_wheel st)) nows) polled
    \<and> pt_sources (poll_loop freq poll nows st) = snd (run_polls poll (concat polled) (pt_sources st))
    \<and> pool_jobs (pt_pool (poll_loop freq poll nows st)) =
        pool_jobs (pt_pool st) + mset (fst (run_polls poll (concat polled) (pt_sources st)))"
  using assms
proof (induction nows arbitrary: st)
  case Nil
  then show ?case by (simp add: poll_loop_def)
next
  case (Cons now nows)
  let ?st = "poll_iteration freq poll now st" and ?ready = "fst (tw_advance now (pt_wheel st))"
  have t: "clock_range now" "\<forall>now \<in> set nows. clock_range now" using Cons.prems(2) by auto
  have f: "\<forall>s \<in># wheel_sources st. freq_ok (freq s)" using Cons.prems(3) by (auto simp: freq_ok_def)
  note it = poll_iteration_correct(1,4,5,6)[where poll = poll, OF Cons.prems(1) t(1) f]
  note src = poll_iteration_sources[where poll = poll, OF Cons.prems(1) t(1) f]
  note due = poll_iteration_all_due(1)[where poll = poll, OF Cons.prems(1) t(1) Cons.prems(3,4)]
    poll_iteration_all_due(2)[OF Cons.prems(1) t(1) Cons.prems(3,4)]
  have "\<forall>s \<in># wheel_sources ?st. 0 \<le> freq s \<and> freq s < 10" using src Cons.prems(3) by simp
  from Cons.IH[OF it(1) t(2) this due(1)] obtain polled where
    p: "list_all2 (\<lambda>is_round ps. mset ps = (if is_round then wheel_sources st else {#}))
        (rounds (tw_last_advancement_time (pt_wheel ?st)) nows) polled"
      "pt_sources (poll_loop freq poll nows ?st) = snd (run_polls poll (concat polled) (pt_sources ?st))"
      "pool_jobs (pt_pool (poll_loop freq poll nows ?st)) =
        pool_jobs (pt_pool ?st) + mset (fst (run_polls poll (concat polled) (pt_sources ?st)))"
    unfolding src by blast
  have "list_all2 (\<lambda>is_round ps. mset ps = (if is_round then wheel_sources st else {#}))
      (rounds (tw_last_advancement_time (pt_wheel st)) (now # nows)) (?ready # polled)"
    using p(1) due(2) by (cases "now - tw_last_advancement_time (pt_wheel st) < 10000000") (simp_all add: it(4))
  moreover have "pt_sources (poll_loop freq poll (now # nows) st) = snd (run_polls poll (concat (?ready # polled)) (pt_sources st))"
    "pool_jobs (pt_pool (poll_loop freq poll (now # nows) st)) =
      pool_jobs (pt_pool st) + mset (fst (run_polls poll (concat (?ready # polled)) (pt_sources st)))"
    using p(2,3) it(2,3) by (simp_all add: poll_loop_def run_polls_append)
  ultimately show ?case by blast
qed

lemma begin_run_polls_due: "clock_range now \<Longrightarrow> pool_inv pool \<Longrightarrow> all_due (begin_poll now srcs w pool)"
  by (auto simp: all_due_def begin_poll_correct(2))

subsection \<open>Properties\<close>

text \<open>An example: two sources that count their polls, each poll giving one job.\<close>

definition sample_poll :: "nat \<Rightarrow> nat list \<Rightarrow> nat fn list \<times> nat list" where
  "sample_poll s w = ([Some s], w[s := w ! s + 1])"

definition sample_thread :: "(nat, nat, nat list) poll_thread" where
  "sample_thread = begin_poll 0 [0, 1] [0, 0] (snd (pool_new 2))"

lemma sample_thread_correct:
  "pt_inv 0 sample_thread" "wheel_sources sample_thread = {#0, 1#}" "all_due sample_thread"
  "tw_last_advancement_time (pt_wheel sample_thread) = 0"
proof -
  have t: "clock_range 0" by (simp add: clock_range_def)
  note b = begin_poll_correct[OF t pool_new_correct(2)] begin_run_polls_due[OF t pool_new_correct(2)]
  show "pt_inv 0 sample_thread" "wheel_sources sample_thread = {#0, 1#}" "all_due sample_thread"
    "tw_last_advancement_time (pt_wheel sample_thread) = 0"
    by (simp_all add: sample_thread_def wheel_sources_def b)
qed

text \<open>
  However long the poll loop runs, every poll source stays on the wheel exactly once, and
  the jobs in the pool are the ones it had plus exactly the jobs of the polls the loop made, in
  the order it made them.
\<close>

theorem poll_loop_keeps_sources:
  assumes "pt_inv t0 st" and "\<forall>now \<in> set nows. clock_range now" and "\<forall>s \<in># wheel_sources st. freq_ok (freq s)"
  shows "wheel_sources (poll_loop freq poll nows st) = wheel_sources st
    \<and> pool_jobs (pt_pool (poll_loop freq poll nows st)) =
        pool_jobs (pt_pool st) + mset (fst (run_polls poll (loop_polls freq poll nows st) (pt_sources st)))
    \<and> pt_inv t0 (poll_loop freq poll nows st)"
  using poll_loop_inv[OF assms] by simp

theorem poll_loop_keeps_sources_witness:
  "wheel_sources (poll_loop (\<lambda>s. 5) sample_poll [10000000, 12000000, 40000000] sample_thread) = {#0, 1#}"
  using poll_loop_keeps_sources[OF sample_thread_correct(1), of "[10000000, 12000000, 40000000]" "\<lambda>s. 5" sample_poll]
  by (simp add: sample_thread_correct(2) clock_range_def freq_ok_def)

text \<open>
  C29: Sources that ask for less than the 10 ms of the wheel's tick, as both sources of the
  library do, are all polled, once each, in every round of the loop and at no other time, where
  a round is an iteration at which 10 ms have passed since the last round: the state the loop
  leaves the sources in, and the jobs it adds to the pool, are those of one poll of every source
  for each round, round after round. So no source is starved, and the 5 ms they ask for are in
  effect at least 10.
\<close>

theorem poll_loop_polls_each_round:
  assumes "pt_inv t0 st" and "\<forall>now \<in> set nows. clock_range now"
    and "\<forall>s \<in># wheel_sources st. 0 \<le> freq s \<and> freq s < 10" and "all_due st"
  shows "\<exists>polled. list_all2 (\<lambda>is_round ps. mset ps = (if is_round then wheel_sources st else {#}))
        (rounds (tw_last_advancement_time (pt_wheel st)) nows) polled
    \<and> pt_sources (poll_loop freq poll nows st) = snd (run_polls poll (concat polled) (pt_sources st))
    \<and> pool_jobs (pt_pool (poll_loop freq poll nows st)) =
        pool_jobs (pt_pool st) + mset (fst (run_polls poll (concat polled) (pt_sources st)))"
  using assms by (rule poll_loop_rounds)

text \<open>Two rounds in four iterations: each source counts two polls.\<close>

lemma sample_round: "mset ps = {#0, 1#} \<Longrightarrow> snd (run_polls sample_poll ps [a, b]) = [a + 1, b + 1]"
proof -
  assume m: "mset ps = {#0, 1#}"
  then have "length ps = 2" by (metis size_mset size_add_mset size_empty numeral_2_eq_2)
  then obtain x y where ps: "ps = [x, y]" by (auto simp: length_Suc_conv numeral_2_eq_2)
  then have "x = 0 \<and> y = 1 \<or> x = 1 \<and> y = 0" using m by (auto simp: add_eq_conv_ex)
  then show ?thesis by (auto simp: ps sample_poll_def split_def Let_def)
qed

theorem poll_loop_polls_each_round_witness:
  "pt_sources (poll_loop (\<lambda>s. 5) sample_poll [9000000, 12000000, 15000000, 40000000] sample_thread) = [2, 2]"
proof -
  let ?nows = "[9000000, 12000000, 15000000, 40000000]"
  have now: "\<forall>now \<in> set ?nows. clock_range now" by (simp add: clock_range_def)
  have freq: "\<forall>s \<in># wheel_sources sample_thread. 0 \<le> (5 :: int) \<and> (5 :: int) < 10" by simp
  obtain polled where p: "list_all2 (\<lambda>is_round ps. mset ps = (if is_round then {#0, 1#} else {#})) (rounds 0 ?nows) polled"
    "pt_sources (poll_loop (\<lambda>s. 5) sample_poll ?nows sample_thread) = snd (run_polls sample_poll (concat polled) (pt_sources sample_thread))"
    using poll_loop_polls_each_round[where freq = "\<lambda>s. 5", OF sample_thread_correct(1) now freq sample_thread_correct(3), of sample_poll]
    unfolding sample_thread_correct(2,4) by blast
  from p(1) obtain a b where "concat polled = a @ b" "mset a = {#0, 1#}" "mset b = {#0, 1#}"
    by (auto simp: list_all2_Cons1)
  moreover have "pt_sources sample_thread = [0, 0]"
    by (simp add: sample_thread_def begin_poll_correct(4) clock_range_def pool_new_correct(2))
  ultimately show ?thesis using p(2) by (simp add: run_polls_append split_def Let_def sample_round numeral_2_eq_2)
qed

end
