(* ===== verification/Hierarchical_Wheel.thy ===== *)
theory Hierarchical_Wheel
  imports Timer_Spec
begin

text \<open>
  \<open>src/timing/include/timing/structures/timing_wheel_hierarchical.h\<close>: the hierarchical
  timing wheel, lowest wheel first. Every member function is a function of the wheel it is
  called on and of the clock reading it takes. Clock readings are in nanoseconds, the tick
  size and durations in milliseconds, as the types of \<open>std::chrono\<close> have it; tick counts are
  \<open>size_t\<close> with their wrap-around.

  The code ends its two walks over the wheels with an equality on the wheel's number
  (\<open>wheel == wheels.size() - 1\<close>, \<open>wheel_num == wheels.size()\<close>). The walks start at \<open>0\<close> and \<open>1\<close>
  and go up by one, so they meet that number before they could pass it; the model has an
  inequality there, which makes both functions total and says nothing else about wheels that
  exist. An empty list of wheels, where the code would index out of range, is excluded by
  \<open>wheels_ok\<close>.
\<close>

subsection \<open>State\<close>

record 't timer_entry =
  tick_offset_into_bucket :: size_t
  timer :: 't

record 't wheel =
  num_buckets :: size_t
  ticks_per_bucket :: size_t
  curr_bucket_index :: size_t
  buckets :: "'t timer_entry list list"

record 't hwheel =
  tick_size :: int
  last_advancement_time :: int
  wheels :: "'t wheel list"

definition ms :: int where
  "ms = 1000000"

subsection \<open>Construction\<close>

fun build_wheels :: "size_t \<Rightarrow> size_t list \<Rightarrow> 't wheel list" where
  "build_wheels total_ticks_in_last_wheel [] = []"
| "build_wheels total_ticks_in_last_wheel (wheel_size # sizes) =
     \<lparr>num_buckets = wheel_size, ticks_per_bucket = total_ticks_in_last_wheel,
      curr_bucket_index = 0, buckets = replicate wheel_size []\<rparr>
     # build_wheels (sz_mul total_ticks_in_last_wheel wheel_size) sizes"

definition hw_new :: "int \<Rightarrow> int \<Rightarrow> size_t list \<Rightarrow> 't hwheel" where
  "hw_new now tick wheel_sizes =
     \<lparr>tick_size = tick, last_advancement_time = now, wheels = build_wheels 1 wheel_sizes\<rparr>"

subsection \<open>Scheduling\<close>

definition can_fit_in_wheel :: "'t wheel list \<Rightarrow> nat \<Rightarrow> size_t \<Rightarrow> bool" where
  "can_fit_in_wheel ws w ticks_to_fit =
     (length ws - 1 \<le> w
      \<or> sz_add (curr_bucket_index (ws ! w)) (ticks_to_fit div ticks_per_bucket (ws ! w))
          < num_buckets (ws ! w))"

function find_wheel :: "'t wheel list \<Rightarrow> nat \<Rightarrow> size_t \<Rightarrow> nat \<times> size_t" where
  "find_wheel ws curr_wheel ticks_to_fit =
     (if \<not> can_fit_in_wheel ws curr_wheel ticks_to_fit
      then find_wheel ws (curr_wheel + 1)
             (sz_sub ticks_to_fit
                (sz_mul (num_buckets (ws ! curr_wheel)) (ticks_per_bucket (ws ! curr_wheel))))
      else (curr_wheel, ticks_to_fit))"
  by pat_completeness auto
termination
  by (relation "measure (\<lambda>(ws, w, t). length ws - w)") (auto simp: can_fit_in_wheel_def)

declare find_wheel.simps [simp del]

definition determine_timer_wheel :: "'t wheel list \<Rightarrow> size_t \<Rightarrow> nat \<times> size_t" where
  "determine_timer_wheel ws ticks_since_last_advancement = find_wheel ws 0 ticks_since_last_advancement"

definition push_timer :: "nat \<Rightarrow> size_t \<Rightarrow> 't \<Rightarrow> 't timer_entry list list \<Rightarrow> 't timer_entry list list" where
  "push_timer b off t bs = bs[b := bs ! b @ [\<lparr>tick_offset_into_bucket = off, timer = t\<rparr>]]"

definition place_timer :: "'t wheel list \<Rightarrow> size_t \<Rightarrow> 't \<Rightarrow> 't wheel list" where
  "place_timer ws ticks_to_fit t =
     (let (wheel_to_place_in, ticks_left) = determine_timer_wheel ws ticks_to_fit;
          w = ws ! wheel_to_place_in;
          timer_bucket_index =
            sz_add (curr_bucket_index w) (ticks_left div ticks_per_bucket w) mod num_buckets w;
          tick_offset = ticks_left mod ticks_per_bucket w
      in ws[wheel_to_place_in := w\<lparr>buckets := push_timer timer_bucket_index tick_offset t (buckets w)\<rparr>])"

definition hw_schedule :: "int \<Rightarrow> 't \<Rightarrow> 't hwheel \<Rightarrow> 't hwheel" where
  "hw_schedule duration_from_last_advancement t h =
     h\<lparr>wheels := place_timer (wheels h)
        (to_size_t (cxx_div duration_from_last_advancement (tick_size h))) t\<rparr>"

subsection \<open>Advancing\<close>

definition load_entry ::
  "size_t \<Rightarrow> size_t \<Rightarrow> size_t \<Rightarrow> 't timer_entry \<Rightarrow> 't timer_entry list list \<Rightarrow> 't timer_entry list list"
where
  "load_entry wheel_index_below ticks_per_bucket_below num_buckets_below e wheel_below =
     (let bucket_index =
            sz_add wheel_index_below (tick_offset_into_bucket e div ticks_per_bucket_below)
              mod num_buckets_below;
          new_tick_offset_into_bucket =
            sz_sub (tick_offset_into_bucket e) (sz_mul bucket_index ticks_per_bucket_below)
      in push_timer bucket_index new_tick_offset_into_bucket (timer e) wheel_below)"

text \<open>One level of \<open>load_timers_from_wheel\<close>, up to its recursive call.\<close>

definition load_level :: "'t wheel list \<Rightarrow> nat \<Rightarrow> 't wheel list" where
  "load_level ws wheel_num =
     (let w = ws ! wheel_num;
          below = ws ! (wheel_num - 1);
          wheel_below =
            fold (load_entry (curr_bucket_index below) (ticks_per_bucket below) (num_buckets below))
              (buckets w ! curr_bucket_index w) (buckets below)
      in ws[wheel_num - 1 := below\<lparr>buckets := wheel_below\<rparr>,
            wheel_num := w\<lparr>buckets := (buckets w)[curr_bucket_index w := []],
                           curr_bucket_index := (curr_bucket_index w + 1) mod num_buckets w\<rparr>])"

lemma length_load_level [simp]: "length (load_level ws k) = length ws"
  by (simp add: load_level_def Let_def)

function load_timers_from_wheel :: "'t wheel list \<Rightarrow> nat \<Rightarrow> 't wheel list" where
  "load_timers_from_wheel ws wheel_num =
     (if length ws \<le> wheel_num \<or> wheel_num = 0 then ws
      else let ws1 = load_level ws wheel_num
           in if curr_bucket_index (ws1 ! wheel_num) = 0
              then load_timers_from_wheel ws1 (wheel_num + 1) else ws1)"
  by pat_completeness auto
termination
  by (relation "measure (\<lambda>(ws, k). length ws - k)") auto

declare load_timers_from_wheel.simps [simp del]

definition advance_bucket :: "nat \<Rightarrow> 't list \<times> 't wheel list \<Rightarrow> 't list \<times> 't wheel list" where
  "advance_bucket bucket = (\<lambda>(resolved_timers, ws).
     (let w = ws ! 0;
          resolved = resolved_timers @ map timer (buckets w ! bucket);
          index = (curr_bucket_index w + 1) mod num_buckets w;
          ws1 = ws[0 := w\<lparr>buckets := (buckets w)[bucket := []], curr_bucket_index := index\<rparr>]
      in (resolved, if index = 0 then load_timers_from_wheel ws1 1 else ws1)))"

definition determine_new_bottom_wheel_index :: "int \<Rightarrow> 't hwheel \<Rightarrow> size_t" where
  "determine_new_bottom_wheel_index now h =
     sz_add (curr_bucket_index (wheels h ! 0))
       (to_size_t (cxx_div (now - last_advancement_time h) (tick_size h * ms)))"

definition hw_advance :: "int \<Rightarrow> 't hwheel \<Rightarrow> 't list \<times> 't hwheel" where
  "hw_advance now h =
     (if now - last_advancement_time h < tick_size h * ms then ([], h)
      else let w = wheels h ! 0;
               completed_buckets =
                 map (\<lambda>b. b mod num_buckets w)
                   [curr_bucket_index w..<determine_new_bottom_wheel_index now h];
               (resolved_timers, ws) = fold advance_bucket completed_buckets ([], wheels h)
           in (resolved_timers, h\<lparr>wheels := ws, last_advancement_time := now\<rparr>))"

end
