(* ===== verification/Wheel_Dues.thy ===== *)
theory Wheel_Dues
  imports Hierarchical_Wheel
begin

text \<open>
  When a timer stored in the hierarchical wheel comes out, and that every tick of the wheel
  agrees with it.
\<close>

subsection \<open>Well-formed wheels\<close>

definition wheel_ok :: "'t wheel \<Rightarrow> bool" where
  "wheel_ok w \<longleftrightarrow> 0 < num_buckets w \<and> curr_bucket_index w < num_buckets w
     \<and> length (buckets w) = num_buckets w \<and> 0 < ticks_per_bucket w
     \<and> (\<forall>b < num_buckets w. \<forall>e \<in> set (buckets w ! b). tick_offset_into_bucket e < ticks_per_bucket w)"

definition wheels_ok :: "'t wheel list \<Rightarrow> bool" where
  "wheels_ok ws \<longleftrightarrow> ws \<noteq> [] \<and> ticks_per_bucket (ws ! 0) = 1
     \<and> (\<forall>k < length ws. wheel_ok (ws ! k) \<and> ticks_per_bucket (ws ! k) * num_buckets (ws ! k) < size_half)
     \<and> (\<forall>k. Suc k < length ws \<longrightarrow>
          ticks_per_bucket (ws ! Suc k) = ticks_per_bucket (ws ! k) * num_buckets (ws ! k))"

lemma wheels_okD:
  assumes "wheels_ok ws" "k < length ws"
  shows "0 < num_buckets (ws ! k)" "curr_bucket_index (ws ! k) < num_buckets (ws ! k)"
    "length (buckets (ws ! k)) = num_buckets (ws ! k)" "0 < ticks_per_bucket (ws ! k)"
    "ticks_per_bucket (ws ! k) * num_buckets (ws ! k) < size_max1"
    "ticks_per_bucket (ws ! k) * num_buckets (ws ! k) < size_half"
    "\<And>b e. b < num_buckets (ws ! k) \<Longrightarrow> e \<in> set (buckets (ws ! k) ! b) \<Longrightarrow>
       tick_offset_into_bucket e < ticks_per_bucket (ws ! k)"
  using assms by (auto simp: wheels_ok_def wheel_ok_def intro: less_trans[of _ size_half size_max1])

lemma wheels_ok_Suc:
  "wheels_ok ws \<Longrightarrow> Suc k < length ws \<Longrightarrow>
     ticks_per_bucket (ws ! Suc k) = ticks_per_bucket (ws ! k) * num_buckets (ws ! k)"
  by (simp add: wheels_ok_def)

lemma length_build_wheels [simp]: "length (build_wheels t sizes) = length sizes"
  by (induction t sizes rule: build_wheels.induct) auto

lemma build_wheels_nth:
  "k < length sizes \<Longrightarrow> t * prod_list (take k sizes) < size_max1 \<Longrightarrow> (\<forall>s \<in> set sizes. 0 < s) \<Longrightarrow>
     build_wheels t sizes ! k =
       \<lparr>num_buckets = sizes ! k, ticks_per_bucket = t * prod_list (take k sizes),
        curr_bucket_index = 0, buckets = replicate (sizes ! k) []\<rparr>"
proof (induction t sizes arbitrary: k rule: build_wheels.induct)
  case (1 t)
  then show ?case by simp
next
  case (2 t s ss)
  show ?case
  proof (cases k)
    case 0
    then show ?thesis by simp
  next
    case (Suc j)
    have pos: "0 < prod_list (take j ss)"
      using 2(4) by (intro prod_list_pos) (auto dest: in_set_takeD)
    have "t * s * 1 \<le> t * s * prod_list (take j ss)" using pos by (intro mult_le_mono2) simp
    also have "\<dots> < size_max1" using 2(3) Suc by (simp add: mult.assoc)
    finally have "t * s < size_max1" by simp
    with 2 Suc show ?thesis by (simp add: mult.assoc)
  qed
qed

lemma prod_list_take_le:
  assumes "\<forall>s \<in> set sizes. 0 < s"
  shows "prod_list (take k sizes) \<le> prod_list (sizes :: nat list)"
proof -
  have "prod_list sizes = prod_list (take k sizes) * prod_list (drop k sizes)"
    by (metis append_take_drop_id prod_list.append)
  moreover have "0 < prod_list (drop k sizes)"
    using assms by (intro prod_list_pos) (auto dest: in_set_dropD)
  ultimately show ?thesis by simp
qed

text \<open>
  A freshly built hierarchy is well formed when every wheel has a bucket and all wheels
  together span fewer than \<open>2 ^ 63\<close> ticks.
\<close>

lemma build_wheels_ok:
  assumes ne: "sizes \<noteq> []" and pos: "\<forall>s \<in> set sizes. 0 < s" and small: "prod_list sizes < size_half"
  shows "wheels_ok (build_wheels 1 sizes :: 't wheel list)"
proof -
  let ?ws = "build_wheels 1 sizes :: 't wheel list"
  have nth: "?ws ! k = \<lparr>num_buckets = sizes ! k, ticks_per_bucket = prod_list (take k sizes),
      curr_bucket_index = 0, buckets = replicate (sizes ! k) []\<rparr>" if "k < length sizes" for k
    using build_wheels_nth[of k sizes 1] that pos prod_list_take_le[OF pos, of k] small by simp
  have Suc: "prod_list (take k sizes) * sizes ! k = prod_list (take (Suc k) sizes)" if "k < length sizes" for k
    using that by (simp add: take_Suc_conv_app_nth)
  have "0 < prod_list (take k sizes)" for k
    using pos by (intro prod_list_pos) (auto dest: in_set_takeD)
  moreover have "prod_list (take k sizes) < size_half" for k
    using prod_list_take_le[OF pos, of k] small by simp
  moreover have "?ws \<noteq> []" using ne by (metis length_0_conv length_build_wheels)
  ultimately show ?thesis
    using ne pos by (auto simp: wheels_ok_def wheel_ok_def nth Suc simp del: One_nat_def)
qed

subsection \<open>Bags of timers in a row of buckets\<close>

text \<open>
  \<open>bag f bs\<close> collects the timers of the buckets \<open>bs\<close>, each with the number of ticks \<open>f\<close>
  assigns to its bucket index and offset.
\<close>

definition entries :: "(nat \<Rightarrow> int) \<Rightarrow> 't timer_entry list \<Rightarrow> 't timer_bag" where
  "entries g es = image_mset (\<lambda>e. (g (tick_offset_into_bucket e), timer e)) (mset es)"

definition bag :: "(nat \<Rightarrow> nat \<Rightarrow> int) \<Rightarrow> 't timer_entry list list \<Rightarrow> 't timer_bag" where
  "bag f bs = (\<Sum>b<length bs. entries (f b) (bs ! b))"

lemma entries_simps [simp]:
  "entries g [] = {#}"
  "entries g (e # es) = add_mset (g (tick_offset_into_bucket e), timer e) (entries g es)"
  "entries g (es @ es') = entries g es + entries g es'"
  by (auto simp: entries_def)

lemma entries_cong:
  "(\<And>e. e \<in> set es \<Longrightarrow> f (tick_offset_into_bucket e) = g (tick_offset_into_bucket e)) \<Longrightarrow>
     entries f es = entries g es"
  by (auto simp: entries_def intro!: image_mset_cong)

lemma bag_cong:
  "(\<And>b e. b < length bs \<Longrightarrow> e \<in> set (bs ! b) \<Longrightarrow>
      f b (tick_offset_into_bucket e) = g b (tick_offset_into_bucket e)) \<Longrightarrow> bag f bs = bag g bs"
  by (auto simp: bag_def intro!: sum.cong entries_cong)

lemma bag_update:
  assumes "b < length bs"
  shows "bag f (bs[b := es]) + entries (f b) (bs ! b) = bag f bs + entries (f b) es"
proof -
  have "bag f (bs[b := es]) = entries (f b) es + (\<Sum>j\<in>{..<length bs} - {b}. entries (f j) (bs ! j))"
    using assms by (simp add: bag_def sum.remove[of _ b])
  moreover have "bag f bs = entries (f b) (bs ! b) + (\<Sum>j\<in>{..<length bs} - {b}. entries (f j) (bs ! j))"
    using assms by (simp add: bag_def sum.remove[of _ b])
  ultimately show ?thesis by (simp add: union_ac)
qed

lemma length_push_timer [simp]: "length (push_timer b off t bs) = length bs"
  by (simp add: push_timer_def)

lemma push_timer_bound:
  assumes "\<forall>b<length bs. \<forall>e \<in> set (bs ! b). tick_offset_into_bucket e < tb" "off < tb"
  shows "\<forall>b<length bs. \<forall>e \<in> set (push_timer b' off t bs ! b). tick_offset_into_bucket e < tb"
  using assms
  by (cases "b' < length bs") (auto simp: push_timer_def nth_list_update list_update_beyond split: if_splits)

lemma bag_push: "b < length bs \<Longrightarrow> bag f (push_timer b off t bs) = add_mset (f b off, t) (bag f bs)"
  using bag_update[of b bs f "bs ! b @ [\<lparr>tick_offset_into_bucket = off, timer = t\<rparr>]"]
  by (simp add: push_timer_def union_ac)

lemma bag_clear: "b < length bs \<Longrightarrow> bag f bs = bag f (bs[b := []]) + entries (f b) (bs ! b)"
  using bag_update[of b bs f "[]"] by simp

subsection \<open>When an entry comes out\<close>

text \<open>
  \<open>wheel_pos ws k\<close> is how many ticks the wheels below wheel \<open>k\<close> have advanced since they
  last wrapped; \<open>wheel_base ws k\<close> is the latency of the wheels between, each of which holds a
  loaded timer for one more of its own buckets. The argument \<open>c\<close> of \<open>due\<close> stands for a carry
  that is still pending into wheel \<open>c\<close> (all wheels below it have wrapped to 0);
  \<open>c = length ws\<close> means none is pending.
\<close>

definition wheel_pos :: "'t wheel list \<Rightarrow> nat \<Rightarrow> nat" where
  "wheel_pos ws k = (\<Sum>i<k. curr_bucket_index (ws ! i) * ticks_per_bucket (ws ! i))"

definition wheel_base :: "'t wheel list \<Rightarrow> nat \<Rightarrow> nat" where
  "wheel_base ws k = (\<Sum>i\<in>{1..<k}. ticks_per_bucket (ws ! i))"

definition due :: "'t wheel list \<Rightarrow> nat \<Rightarrow> nat \<Rightarrow> nat \<Rightarrow> nat \<Rightarrow> int" where
  "due ws c k b off =
     (let w = ws ! k; rel = int (ring_dist (num_buckets w) (curr_bucket_index w) b)
      in if k = 0 then rel
         else int (ticks_per_bucket w) - int (wheel_pos ws k)
              - (if c \<le> k then int (ticks_per_bucket (ws ! c)) else 0)
              + rel * int (ticks_per_bucket w) + int (wheel_base ws k) + int off)"

definition dues_pending :: "'t wheel list \<Rightarrow> nat \<Rightarrow> 't timer_bag" where
  "dues_pending ws c = (\<Sum>k<length ws. bag (due ws c k) (buckets (ws ! k)))"

definition dues :: "'t wheel list \<Rightarrow> 't timer_bag" where
  "dues ws = dues_pending ws (length ws)"

lemma wheel_pos_less: "wheels_ok ws \<Longrightarrow> k < length ws \<Longrightarrow> wheel_pos ws k < ticks_per_bucket (ws ! k)"
proof (induction k)
  case 0
  then show ?case using wheels_okD(4)[of ws 0] by (simp add: wheel_pos_def)
next
  case (Suc k)
  let ?w = "ws ! k"
  have "Suc (curr_bucket_index ?w) * ticks_per_bucket ?w \<le> num_buckets ?w * ticks_per_bucket ?w"
    using wheels_okD(2)[of ws k] Suc.prems by (intro mult_le_mono1) auto
  then show ?case
    using Suc wheels_ok_Suc[OF Suc.prems] by (simp add: wheel_pos_def mult.commute)
qed

lemma wheel_pos_0: "\<forall>i<k. curr_bucket_index (ws ! i) = 0 \<Longrightarrow> wheel_pos ws k = 0"
  by (simp add: wheel_pos_def)

lemma wheel_pos_Suc [simp]:
  "wheel_pos ws (Suc k) = wheel_pos ws k + curr_bucket_index (ws ! k) * ticks_per_bucket (ws ! k)"
  by (simp add: wheel_pos_def)

lemma wheel_base_Suc: "0 < k \<Longrightarrow> wheel_base ws (Suc k) = wheel_base ws k + ticks_per_bucket (ws ! k)"
  by (simp add: wheel_base_def)

lemma wheel_base_small [simp]: "wheel_base ws 0 = 0" "wheel_base ws (Suc 0) = 0"
  by (simp_all add: wheel_base_def)

subsection \<open>Loading one level keeps every due time\<close>

lemma load_entry_aligned:
  assumes "tick_offset_into_bucket e < tb * n" "0 < tb" "tb * n < size_max1"
  shows "load_entry 0 tb n e bs =
    push_timer (tick_offset_into_bucket e div tb) (tick_offset_into_bucket e mod tb) (timer e) bs"
proof -
  let ?o = "tick_offset_into_bucket e"
  have "?o div tb < n" using assms by (simp add: less_mult_imp_div_less mult.commute)
  have le: "?o div tb * tb \<le> ?o" by simp
  also have "?o < size_max1" using assms by linarith
  finally have "sz_mul (?o div tb) tb = ?o div tb * tb" by simp
  moreover have "sz_sub ?o (?o div tb * tb) = ?o mod tb"
    using le assms by (simp add: minus_div_mult_eq_mod)
  moreover have "sz_add 0 (?o div tb) = ?o div tb"
    using le_less_trans[OF div_le_dividend[of ?o tb], of size_max1] assms by simp
  ultimately show ?thesis
    using \<open>?o div tb < n\<close> by (simp add: load_entry_def Let_def)
qed

lemma load_entries_aligned:
  assumes "\<forall>e \<in> set es. tick_offset_into_bucket e < tb * n" "0 < tb" "tb * n < size_max1" "length bs = n"
    and "\<forall>b<n. \<forall>e \<in> set (bs ! b). tick_offset_into_bucket e < tb"
  shows "length (fold (load_entry 0 tb n) es bs) = n"
    and "\<forall>b<n. \<forall>e \<in> set (fold (load_entry 0 tb n) es bs ! b). tick_offset_into_bucket e < tb"
    and "bag f (fold (load_entry 0 tb n) es bs) =
           bag f bs + entries (\<lambda>off. f (off div tb) (off mod tb)) es"
proof -
  have "length (fold (load_entry 0 tb n) es bs) = n
    \<and> (\<forall>b<n. \<forall>e \<in> set (fold (load_entry 0 tb n) es bs ! b). tick_offset_into_bucket e < tb)
    \<and> bag f (fold (load_entry 0 tb n) es bs) =
        bag f bs + entries (\<lambda>off. f (off div tb) (off mod tb)) es"
    using assms(1,4,5)
  proof (induction es arbitrary: bs)
    case Nil
    then show ?case by simp
  next
    case (Cons e es)
    let ?o = "tick_offset_into_bucket e"
    have lt: "?o div tb < n" using Cons.prems(1) by (simp add: less_mult_imp_div_less mult.commute)
    let ?bs = "push_timer (?o div tb) (?o mod tb) (timer e) bs"
    have step: "load_entry 0 tb n e bs = ?bs"
      using Cons.prems(1) assms(2,3) by (intro load_entry_aligned) auto
    have pushed: "bag f ?bs = add_mset (f (?o div tb) (?o mod tb), timer e) (bag f bs)"
      using lt Cons.prems(2) by (intro bag_push) simp
    have ok: "\<forall>b<n. \<forall>e \<in> set (?bs ! b). tick_offset_into_bucket e < tb"
      using push_timer_bound[of bs tb "?o mod tb"] Cons.prems assms(2) by simp
    have es: "\<forall>e \<in> set es. tick_offset_into_bucket e < tb * n" and len: "length ?bs = n"
      using Cons.prems by simp_all
    have fold: "fold (load_entry 0 tb n) (e # es) bs = fold (load_entry 0 tb n) es ?bs"
      by (simp only: fold_simps step)
    note IH = Cons.IH[OF es len ok]
    show ?case
      unfolding fold
    proof (intro conjI)
      show "bag f (fold (load_entry 0 tb n) es ?bs) =
          bag f bs + entries (\<lambda>off. f (off div tb) (off mod tb)) (e # es)"
        using IH[THEN conjunct2, THEN conjunct2] by (simp only: pushed entries_simps union_mset_add_mset_left union_mset_add_mset_right)
    qed (use IH in blast)+
  qed
  then show "length (fold (load_entry 0 tb n) es bs) = n"
    and "\<forall>b<n. \<forall>e \<in> set (fold (load_entry 0 tb n) es bs ! b). tick_offset_into_bucket e < tb"
    and "bag f (fold (load_entry 0 tb n) es bs) =
           bag f bs + entries (\<lambda>off. f (off div tb) (off mod tb)) es"
    by blast+
qed

lemma load_level_nth:
  "Suc m < length ws \<Longrightarrow> j \<noteq> m \<Longrightarrow> j \<noteq> Suc m \<Longrightarrow> load_level ws (Suc m) ! j = ws ! j"
  "Suc m < length ws \<Longrightarrow> load_level ws (Suc m) ! m =
     (ws ! m)\<lparr>buckets := fold (load_entry (curr_bucket_index (ws ! m)) (ticks_per_bucket (ws ! m))
        (num_buckets (ws ! m))) (buckets (ws ! Suc m) ! curr_bucket_index (ws ! Suc m)) (buckets (ws ! m))\<rparr>"
  "Suc m < length ws \<Longrightarrow> load_level ws (Suc m) ! Suc m =
     (ws ! Suc m)\<lparr>buckets := (buckets (ws ! Suc m))[curr_bucket_index (ws ! Suc m) := []],
        curr_bucket_index := (curr_bucket_index (ws ! Suc m) + 1) mod num_buckets (ws ! Suc m)\<rparr>"
  by (simp_all add: load_level_def Let_def)

lemma load_level_static:
  assumes "Suc m < length ws"
  shows "num_buckets (load_level ws (Suc m) ! j) = num_buckets (ws ! j)"
    "ticks_per_bucket (load_level ws (Suc m) ! j) = ticks_per_bucket (ws ! j)"
    "j \<noteq> Suc m \<Longrightarrow> curr_bucket_index (load_level ws (Suc m) ! j) = curr_bucket_index (ws ! j)"
  using load_level_nth[OF assms] by (cases "j = m"; cases "j = Suc m"; simp)+

lemma load_level_ok:
  assumes ok: "wheels_ok ws" and m: "Suc m < length ws" and zero: "curr_bucket_index (ws ! m) = 0"
  shows "wheels_ok (load_level ws (Suc m))"
proof -
  let ?ws = "load_level ws (Suc m)" and ?w = "ws ! Suc m" and ?v = "ws ! m"
  have mm: "m < length ws" using m by simp
  have es: "\<forall>e \<in> set (buckets ?w ! curr_bucket_index ?w). tick_offset_into_bucket e < ticks_per_bucket ?v * num_buckets ?v"
    using wheels_okD[OF ok m] wheels_ok_Suc[OF ok m] by simp
  note v = wheels_okD[OF ok mm] and w = wheels_okD[OF ok m]
  have below: "wheel_ok (?ws ! m)"
    using load_entries_aligned(1,2)[OF es v(4) v(5) v(3)] v(1-5,6,7)
    by (simp add: load_level_nth(2)[OF m] wheel_ok_def zero)
  have upper: "wheel_ok (?ws ! Suc m)"
    using w by (auto simp: load_level_nth(3)[OF m] wheel_ok_def nth_list_update)
  have "wheel_ok (?ws ! k)" if "k < length ws" for k
    using below upper ok that by (cases "k = m"; cases "k = Suc m") (auto simp: load_level_nth(1)[OF m] wheels_ok_def)
  moreover have "?ws \<noteq> []" using m by (metis length_load_level list.size(3) not_less_zero)
  ultimately show ?thesis
    using ok by (auto simp: wheels_ok_def load_level_static[OF m])
qed

lemma load_level_base [simp]: "Suc m < length ws \<Longrightarrow> wheel_base (load_level ws (Suc m)) k = wheel_base ws k"
  by (simp add: wheel_base_def load_level_static)

lemma load_level_pos_low:
  "Suc m < length ws \<Longrightarrow> k \<le> Suc m \<Longrightarrow> wheel_pos (load_level ws (Suc m)) k = wheel_pos ws k"
  by (auto simp: wheel_pos_def load_level_static intro!: sum.cong)

lemma load_level_pos_high:
  assumes m: "Suc m < length ws" and j: "Suc m < j"
  shows "wheel_pos (load_level ws (Suc m)) j + curr_bucket_index (ws ! Suc m) * ticks_per_bucket (ws ! Suc m)
    = wheel_pos ws j + curr_bucket_index (load_level ws (Suc m) ! Suc m) * ticks_per_bucket (ws ! Suc m)"
  using j
  by (simp add: wheel_pos_def sum.remove[of "{..<j}" "Suc m"] load_level_static[OF m]
      cong: sum.cong_simp)

definition carry_out :: "'t wheel list \<Rightarrow> nat \<Rightarrow> nat" where
  "carry_out ws k = (if curr_bucket_index (ws ! k) = 0 then Suc k else length ws)"

lemma load_level_index:
  "Suc m < length ws \<Longrightarrow> curr_bucket_index (load_level ws (Suc m) ! Suc m)
     = (curr_bucket_index (ws ! Suc m) + 1) mod num_buckets (ws ! Suc m)"
  by (simp add: load_level_nth(3))

lemma load_level_due_other:
  assumes ok: "wheels_ok ws" and m: "Suc m < length ws" and j: "j < length ws" "j \<noteq> Suc m"
  shows "due (load_level ws (Suc m)) (carry_out (load_level ws (Suc m)) (Suc m)) j b off
    = due ws (Suc m) j b off"
proof -
  let ?ws = "load_level ws (Suc m)" and ?w = "ws ! Suc m"
  let ?c = "carry_out ?ws (Suc m)"
  note static = load_level_static[OF m]
  consider "j \<le> m" | "Suc m < j" using j by linarith
  then show ?thesis
  proof cases
    case 1
    have "\<not> ?c \<le> j" using 1 m by (simp add: carry_out_def)
    with 1 j m show ?thesis
      by (simp add: due_def Let_def static load_level_pos_low)
  next
    case 2
    note idx = wheels_okD(2)[OF ok m]
    have pos: "int (wheel_pos ?ws j) + int (curr_bucket_index ?w) * int (ticks_per_bucket ?w)
        = int (wheel_pos ws j) + int ((curr_bucket_index ?w + 1) mod num_buckets ?w) * int (ticks_per_bucket ?w)"
      using load_level_pos_high[OF m 2, THEN arg_cong[where f = int]] by (simp add: load_level_index[OF m])
    show ?thesis
    proof (cases "curr_bucket_index ?w + 1 = num_buckets ?w")
      case True
      then have c: "?c = Suc (Suc m)" by (simp add: carry_out_def load_level_index[OF m])
      have T: "ticks_per_bucket (ws ! Suc (Suc m)) = ticks_per_bucket ?w * Suc (curr_bucket_index ?w)"
        using wheels_ok_Suc[OF ok, of "Suc m"] 2 j(1) True by simp
      have n: "num_buckets ?w = Suc (curr_bucket_index ?w)" using True by simp
      show ?thesis
        using 2 j pos by (simp add: due_def Let_def static c T n algebra_simps)
    next
      case False
      then have less: "curr_bucket_index ?w + 1 < num_buckets ?w" using idx by simp
      then have "\<not> ?c \<le> j" using j by (simp add: carry_out_def load_level_index[OF m])
      then show ?thesis
        using 2 j pos less by (simp add: due_def Let_def static algebra_simps)
    qed
  qed
qed

lemma load_level_due_rest:
  assumes ok: "wheels_ok ws" and m: "Suc m < length ws" and zero: "\<forall>i\<le>m. curr_bucket_index (ws ! i) = 0"
    and b: "b < num_buckets (ws ! Suc m)" "b \<noteq> curr_bucket_index (ws ! Suc m)"
  shows "due (load_level ws (Suc m)) (carry_out (load_level ws (Suc m)) (Suc m)) (Suc m) b off
    = due ws (Suc m) (Suc m) b off"
proof -
  let ?ws = "load_level ws (Suc m)" and ?w = "ws ! Suc m"
  note idx = wheels_okD(2)[OF ok m]
  have rel: "ring_dist (num_buckets ?w) (curr_bucket_index ?w) b
      = Suc (ring_dist (num_buckets ?w) ((curr_bucket_index ?w + 1) mod num_buckets ?w) b)"
    using ring_dist_Suc_head[OF idx b(1)] b ring_dist_0_iff[OF idx b(1)] by simp
  have c: "\<not> carry_out ?ws (Suc m) \<le> Suc m" using m by (simp add: carry_out_def)
  have pos: "wheel_pos ws (Suc m) = 0" "wheel_pos ?ws (Suc m) = 0"
    using zero load_level_pos_low[OF m, of "Suc m"] by (auto simp: wheel_pos_0 simp del: wheel_pos_Suc)
  show ?thesis
    using m c by (simp add: due_def Let_def load_level_static[OF m] load_level_index[OF m] pos rel
        algebra_simps del: wheel_pos_Suc)
qed

lemma load_level_due_moved:
  assumes ok: "wheels_ok ws" and m: "Suc m < length ws" and zero: "\<forall>i\<le>m. curr_bucket_index (ws ! i) = 0"
    and off: "off < ticks_per_bucket (ws ! Suc m)"
  shows "due ws (Suc m) m (off div ticks_per_bucket (ws ! m)) (off mod ticks_per_bucket (ws ! m))
    = due ws (Suc m) (Suc m) (curr_bucket_index (ws ! Suc m)) off"
proof -
  let ?t = "ticks_per_bucket (ws ! m)" and ?n = "num_buckets (ws ! m)"
  have mm: "m < length ws" using m by simp
  note w = wheels_okD[OF ok m] and v = wheels_okD[OF ok mm]
  have lt: "off div ?t < ?n"
    using off wheels_ok_Suc[OF ok m] by (simp add: less_mult_imp_div_less mult.commute)
  have pos: "wheel_pos ws m = 0" "wheel_pos ws (Suc m) = 0"
    using zero by (auto simp: wheel_pos_0 simp del: wheel_pos_Suc)
  have rel: "ring_dist (num_buckets (ws ! Suc m)) (curr_bucket_index (ws ! Suc m)) (curr_bucket_index (ws ! Suc m)) = 0"
    using w(2) by (simp add: ring_dist_0_iff)
  have rel': "ring_dist ?n 0 (off div ?t) = off div ?t"
    using lt v(1) by (simp add: ring_dist_cases)
  have split: "int off = int (off div ?t) * int ?t + int (off mod ?t)"
    by (metis div_mult_mod_eq of_nat_add of_nat_mult)
  show ?thesis
  proof (cases m)
    case 0
    then have "?t = 1" using ok by (simp add: wheels_ok_def)
    then show ?thesis
      using zero rel rel' pos 0 by (simp add: due_def Let_def del: wheel_pos_Suc)
  next
    case (Suc l)
    then have nz: "0 < m" by simp
    then have base: "wheel_base ws (Suc m) = wheel_base ws m + ?t"
      by (rule wheel_base_Suc)
    have "curr_bucket_index (ws ! m) = 0" using zero by simp
    moreover have "due ws (Suc m) (Suc m) (curr_bucket_index (ws ! Suc m)) off = int (wheel_base ws (Suc m)) + int off"
      by (simp add: due_def Let_def rel pos del: wheel_pos_Suc)
    moreover have "due ws (Suc m) m (off div ?t) (off mod ?t)
        = int ?t + int (off div ?t) * int ?t + int (wheel_base ws m) + int (off mod ?t)"
      using nz rel' \<open>curr_bucket_index (ws ! m) = 0\<close> by (simp add: due_def Let_def pos(1))
    ultimately show ?thesis using base split by simp
  qed
qed

lemma load_level_dues:
  assumes ok: "wheels_ok ws" and m: "Suc m < length ws" and zero: "\<forall>i\<le>m. curr_bucket_index (ws ! i) = 0"
  shows "dues_pending (load_level ws (Suc m)) (carry_out (load_level ws (Suc m)) (Suc m)) = dues_pending ws (Suc m)"
proof -
  let ?ws = "load_level ws (Suc m)" and ?w = "ws ! Suc m" and ?v = "ws ! m"
  let ?c = "carry_out ?ws (Suc m)" and ?i = "curr_bucket_index (ws ! Suc m)"
  let ?f = "\<lambda>k. bag (due ?ws ?c k) (buckets (?ws ! k))" and ?g = "\<lambda>k. bag (due ws (Suc m) k) (buckets (ws ! k))"
  let ?moved = "entries (due ws (Suc m) (Suc m) ?i) (buckets ?w ! ?i)"
  have mm: "m < length ws" using m by simp
  note w = wheels_okD[OF ok m] and v = wheels_okD[OF ok mm]
  have other: "?f k = ?g k" if "k < length ws" "k \<noteq> m" "k \<noteq> Suc m" for k
    using that by (auto simp: load_level_nth(1)[OF m] load_level_due_other[OF ok m] intro!: bag_cong)
  have es: "\<forall>e \<in> set (buckets ?w ! ?i). tick_offset_into_bucket e < ticks_per_bucket ?v * num_buckets ?v"
    using w(2,7) wheels_ok_Suc[OF ok m] by simp
  have vb: "\<forall>b<num_buckets ?v. \<forall>e \<in> set (buckets ?v ! b). tick_offset_into_bucket e < ticks_per_bucket ?v"
    using v(7) by blast
  have due_m: "due ?ws ?c m b off = due ws (Suc m) m b off" for b off
    using load_level_due_other[OF ok m mm] by simp
  have "entries (\<lambda>off. due ws (Suc m) m (off div ticks_per_bucket ?v) (off mod ticks_per_bucket ?v))
      (buckets ?w ! ?i) = ?moved"
    using w(2,7) by (intro entries_cong load_level_due_moved[OF ok m zero]) simp
  moreover have "buckets (?ws ! m) = fold (load_entry 0 (ticks_per_bucket ?v) (num_buckets ?v)) (buckets ?w ! ?i) (buckets ?v)"
    using zero by (simp add: load_level_nth(2)[OF m])
  moreover have "?f m = bag (due ws (Suc m) m) (buckets (?ws ! m))"
    by (rule bag_cong) (rule due_m)
  ultimately have f_m: "?f m = ?g m + ?moved"
    using load_entries_aligned(3)[OF es v(4,5,3) vb, of "due ws (Suc m) m"] by simp
  have "?f (Suc m) = bag (due ws (Suc m) (Suc m)) ((buckets ?w)[?i := []])"
    using w(2,3) load_level_due_rest[OF ok m zero]
    by (auto simp: load_level_nth(3)[OF m] nth_list_update split: if_splits intro!: bag_cong)
  then have f_Suc: "?f (Suc m) + ?moved = ?g (Suc m)"
    using bag_clear[of ?i "buckets ?w" "due ws (Suc m) (Suc m)"] w(2,3) by simp
  have "?f m + ?f (Suc m) = ?g m + (?f (Suc m) + ?moved)"
    by (simp only: f_m union_ac)
  then have two: "?f m + ?f (Suc m) = ?g m + ?g (Suc m)"
    by (simp only: f_Suc)
  have rest: "(\<Sum>k\<in>{..<length ws} - {m, Suc m}. ?f k) = (\<Sum>k\<in>{..<length ws} - {m, Suc m}. ?g k)"
    using other by (intro sum.cong) auto
  have "(\<Sum>k<length ws. ?f k) = ?f m + ?f (Suc m) + (\<Sum>k\<in>{..<length ws} - {m, Suc m}. ?f k)"
    using m by (intro sum_split2) auto
  also have "\<dots> = ?g m + ?g (Suc m) + (\<Sum>k\<in>{..<length ws} - {m, Suc m}. ?g k)"
    by (simp only: two rest)
  also have "\<dots> = (\<Sum>k<length ws. ?g k)"
    using m by (intro sum_split2[symmetric]) auto
  finally show ?thesis by (simp add: dues_pending_def)
qed

lemma load_timers_correct:
  assumes "wheels_ok ws" "0 < c" "c \<le> length ws" "\<forall>i<c. curr_bucket_index (ws ! i) = 0"
  shows "wheels_ok (load_timers_from_wheel ws c)
    \<and> dues (load_timers_from_wheel ws c) = dues_pending ws c
    \<and> length (load_timers_from_wheel ws c) = length ws
    \<and> (\<forall>j. num_buckets (load_timers_from_wheel ws c ! j) = num_buckets (ws ! j)
          \<and> ticks_per_bucket (load_timers_from_wheel ws c ! j) = ticks_per_bucket (ws ! j)
          \<and> (j < c \<longrightarrow> curr_bucket_index (load_timers_from_wheel ws c ! j) = curr_bucket_index (ws ! j)))"
  using assms
proof (induction ws c rule: load_timers_from_wheel.induct)
  case (1 ws c)
  show ?case
  proof (cases "length ws \<le> c")
    case True
    with 1(5) 1(2-) show ?thesis
      by (subst (1 2 3 4 5 6) load_timers_from_wheel.simps) (simp add: dues_def)
  next
    case False
    then obtain m where c: "c = Suc m" and m: "Suc m < length ws" using 1(3) by (cases c) auto
    let ?ws = "load_level ws (Suc m)"
    have zero: "\<forall>i\<le>m. curr_bucket_index (ws ! i) = 0" using 1(5) c by auto
    have ok: "wheels_ok ?ws" using 1(2) m zero by (intro load_level_ok) auto
    note dues_eq = load_level_dues[OF 1(2) m zero]
    show ?thesis
    proof (cases "curr_bucket_index (?ws ! Suc m) = 0")
      case True
      have zero': "\<forall>i<Suc (Suc m). curr_bucket_index (?ws ! i) = 0"
        using True zero by (auto simp: less_Suc_eq load_level_static(3)[OF m])
      have step: "load_timers_from_wheel ws (Suc m) = load_timers_from_wheel ?ws (Suc (Suc m))"
        using m True by (subst load_timers_from_wheel.simps) simp
      have "carry_out ?ws (Suc m) = Suc (Suc m)" using True by (simp add: carry_out_def)
      then show ?thesis
        using 1(1)[OF _ refl] ok m zero' zero True dues_eq c
        by (simp add: c step load_level_static[OF m])
    next
      case False
      have step: "load_timers_from_wheel ws (Suc m) = ?ws"
        using m False by (subst load_timers_from_wheel.simps) simp
      have "carry_out ?ws (Suc m) = length ws" using False by (simp add: carry_out_def)
      then show ?thesis
        using ok dues_eq by (simp add: c step load_level_static[OF m] dues_def)
    qed
  qed
qed

end
