(* ===== verification/Wheel_Advance.thy ===== *)
theory Wheel_Advance
  imports Wheel_Dues
begin

text \<open>
  \<open>advance\<close> of the hierarchical wheel: the body of its loop is one tick of a timer store
  (\<open>Timer_Spec\<close>), and the loop runs as many ticks as whole tick sizes have elapsed.
\<close>

subsection \<open>One tick\<close>

definition wheel_tick :: "'t wheel list \<Rightarrow> 't list \<times> 't wheel list" where
  "wheel_tick ws = advance_bucket (curr_bucket_index (ws ! 0)) ([], ws)"

text \<open>The lowest wheel after its bucket has been read, before any carry.\<close>

definition turn_lowest :: "'t wheel list \<Rightarrow> 't wheel list" where
  "turn_lowest ws =
     (let w = ws ! 0; i = curr_bucket_index w
      in ws[0 := w\<lparr>buckets := (buckets w)[i := []], curr_bucket_index := (i + 1) mod num_buckets w\<rparr>])"

lemma wheel_tick_eq:
  "wheel_tick ws =
     (map timer (buckets (ws ! 0) ! curr_bucket_index (ws ! 0)),
      if curr_bucket_index (turn_lowest ws ! 0) = 0 \<and> ws \<noteq> []
      then load_timers_from_wheel (turn_lowest ws) 1 else turn_lowest ws)"
  by (cases ws) (auto simp: wheel_tick_def advance_bucket_def turn_lowest_def Let_def load_timers_from_wheel.simps)

lemma turn_lowest_nth:
  "ws \<noteq> [] \<Longrightarrow> turn_lowest ws ! 0 = (ws ! 0)\<lparr>buckets := (buckets (ws ! 0))[curr_bucket_index (ws ! 0) := []],
     curr_bucket_index := (curr_bucket_index (ws ! 0) + 1) mod num_buckets (ws ! 0)\<rparr>"
  "k \<noteq> 0 \<Longrightarrow> turn_lowest ws ! k = ws ! k"
  "length (turn_lowest ws) = length ws"
  by (simp_all add: turn_lowest_def Let_def)

lemma turn_lowest_static:
  "num_buckets (turn_lowest ws ! k) = num_buckets (ws ! k)"
  "ticks_per_bucket (turn_lowest ws ! k) = ticks_per_bucket (ws ! k)"
  by (cases "k = 0"; cases "ws = []"; simp add: turn_lowest_nth turn_lowest_def Let_def)+

lemma turn_lowest_ok:
  assumes ok: "wheels_ok ws"
  shows "wheels_ok (turn_lowest ws)"
proof -
  have ne: "ws \<noteq> []" using ok by (simp add: wheels_ok_def)
  then have "0 < length ws" by simp
  note w = wheels_okD[OF ok this]
  have "wheel_ok (turn_lowest ws ! 0)"
    using w by (auto simp: turn_lowest_nth(1)[OF ne] wheel_ok_def nth_list_update)
  then have "wheel_ok (turn_lowest ws ! k)" if "k < length ws" for k
    using ok that by (cases "k = 0") (auto simp: turn_lowest_nth(2) wheels_ok_def)
  then show ?thesis
    using ok by (auto simp: wheels_ok_def turn_lowest_static turn_lowest_nth(3) simp flip: length_greater_0_conv)
qed

lemma turn_lowest_pos:
  assumes "wheels_ok ws" "0 < k"
  shows "wheel_pos (turn_lowest ws) k + curr_bucket_index (ws ! 0)
    = wheel_pos ws k + (curr_bucket_index (ws ! 0) + 1) mod num_buckets (ws ! 0)"
proof -
  have ne: "ws \<noteq> []" "ticks_per_bucket (ws ! 0) = 1" using assms(1) by (auto simp: wheels_ok_def)
  have "wheel_pos (turn_lowest ws) k = curr_bucket_index (turn_lowest ws ! 0) * ticks_per_bucket (ws ! 0)
      + (\<Sum>i\<in>{..<k} - {0}. curr_bucket_index (turn_lowest ws ! i) * ticks_per_bucket (ws ! i))"
    using assms(2) by (simp add: wheel_pos_def turn_lowest_static sum.remove[of _ 0])
  also have "(\<Sum>i\<in>{..<k} - {0}. curr_bucket_index (turn_lowest ws ! i) * ticks_per_bucket (ws ! i))
      = (\<Sum>i\<in>{..<k} - {0}. curr_bucket_index (ws ! i) * ticks_per_bucket (ws ! i))"
    by (intro sum.cong) (auto simp: turn_lowest_nth)
  finally show ?thesis
    using assms(2) ne by (simp add: wheel_pos_def turn_lowest_nth(1) sum.remove[of "{..<k}" 0])
qed

lemma turn_lowest_due_high:
  assumes ok: "wheels_ok ws" and k: "0 < k" "k < length ws"
  shows "due (turn_lowest ws) (carry_out (turn_lowest ws) 0) k b off = due ws (length ws) k b off - 1"
proof -
  let ?w = "ws ! 0" and ?c = "carry_out (turn_lowest ws) 0"
  have ne: "ws \<noteq> []" using k by auto
  have len: "0 < length ws" using ne by simp
  have T0: "ticks_per_bucket ?w = 1" using ok by (simp add: wheels_ok_def)
  have base: "wheel_base (turn_lowest ws) k = wheel_base ws k"
    by (simp add: wheel_base_def turn_lowest_static)
  have idx: "curr_bucket_index (turn_lowest ws ! 0) = (curr_bucket_index ?w + 1) mod num_buckets ?w"
    using ne by (simp add: turn_lowest_nth)
  have same: "curr_bucket_index (turn_lowest ws ! k) = curr_bucket_index (ws ! k)"
    using k by (simp add: turn_lowest_nth)
  have pos: "int (wheel_pos (turn_lowest ws) k) + int (curr_bucket_index ?w)
      = int (wheel_pos ws k) + int ((curr_bucket_index ?w + 1) mod num_buckets ?w)"
    using turn_lowest_pos[OF ok k(1), THEN arg_cong[where f = int]] by simp
  show ?thesis
  proof (cases "curr_bucket_index ?w + 1 = num_buckets ?w")
    case True
    have n: "num_buckets ?w = Suc (curr_bucket_index ?w)" using True by simp
    have "?c = Suc 0" using True by (simp add: carry_out_def idx)
    moreover have "ticks_per_bucket (ws ! Suc 0) = num_buckets ?w"
      using wheels_ok_Suc[OF ok, of 0] k T0 by simp
    ultimately show ?thesis
      using k pos by (simp add: due_def Let_def turn_lowest_static same base n)
  next
    case False
    then have less: "curr_bucket_index ?w + 1 < num_buckets ?w"
      using wheels_okD(2)[OF ok len] by simp
    then have "?c = length ws" by (simp add: carry_out_def idx turn_lowest_nth(3))
    then show ?thesis
      using k pos less by (simp add: due_def Let_def turn_lowest_static same base)
  qed
qed

lemma due_high_pos:
  assumes ok: "wheels_ok ws" and k: "0 < k" "k < length ws"
  shows "1 \<le> due ws (length ws) k b off"
proof -
  let ?rel = "int (ring_dist (num_buckets (ws ! k)) (curr_bucket_index (ws ! k)) b) * int (ticks_per_bucket (ws ! k))"
  have "due ws (length ws) k b off
      = int (ticks_per_bucket (ws ! k)) - int (wheel_pos ws k) + ?rel + int (wheel_base ws k) + int off"
    using k by (simp add: due_def Let_def)
  moreover have "0 \<le> ?rel" by simp
  ultimately show ?thesis
    using wheel_pos_less[OF ok k(2)] by linarith
qed

lemma bag_shift:
  assumes "\<And>b e. b < length bs \<Longrightarrow> e \<in> set (bs ! b) \<Longrightarrow>
      1 \<le> f b (tick_offset_into_bucket e) \<and> g b (tick_offset_into_bucket e) = f b (tick_offset_into_bucket e) - 1"
  shows "remaining 1 (bag f bs) = bag g bs" "expired 1 (bag f bs) = {#}"
proof -
  have one: "remaining 1 (entries f' es) = entries g' es \<and> expired 1 (entries f' es) = {#}"
    if "\<forall>e \<in> set es. 1 \<le> f' (tick_offset_into_bucket e) \<and>
          g' (tick_offset_into_bucket e) = f' (tick_offset_into_bucket e) - 1" for f' g' and es :: "'a timer_entry list"
    using that by (induction es) auto
  have sum: "remaining 1 (\<Sum>b<n. entries (f b) (bs ! b)) = (\<Sum>b<n. entries (g b) (bs ! b))
      \<and> expired 1 (\<Sum>b<n. entries (f b) (bs ! b)) = {#}" if "n \<le> length bs" for n
    using that
  proof (induction n)
    case (Suc n)
    then show ?case
      using one[of "bs ! n" "f n" "g n"] assms[of n] by (simp del: One_nat_def)
  qed simp
  from sum[of "length bs"] show "remaining 1 (bag f bs) = bag g bs" "expired 1 (bag f bs) = {#}"
    by (auto simp: bag_def)
qed

lemma bag_lowest:
  fixes ws :: "'t wheel list"
  assumes ok: "wheels_ok ws"
  shows "remaining 1 (bag (due ws (length ws) 0) (buckets (ws ! 0)))
      = bag (due (turn_lowest ws) c 0) (buckets (turn_lowest ws ! 0))"
    and "expired 1 (bag (due ws (length ws) 0) (buckets (ws ! 0)))
      = mset (map timer (buckets (ws ! 0) ! curr_bucket_index (ws ! 0)))"
proof -
  let ?w = "ws ! 0" and ?f = "due ws (length ws) 0"
  let ?i = "curr_bucket_index ?w" and ?n = "num_buckets ?w"
  have ne: "ws \<noteq> []" using ok by (simp add: wheels_ok_def)
  have len: "0 < length ws" using ne by simp
  note w = wheels_okD[OF ok len]
  let ?bs = "(buckets ?w)[?i := []]"
  have at: "?f ?i off = 0" for off
    using w(2) by (simp add: due_def Let_def ring_dist_0_iff)
  have shift: "1 \<le> ?f b off \<and> due (turn_lowest ws) c 0 b off = ?f b off - 1"
    if "b < ?n" "b \<noteq> ?i" for b off
    using ring_dist_Suc_head[OF w(2) that(1)] ring_dist_0_iff[OF w(2) that(1)] that
    by (simp add: due_def Let_def turn_lowest_nth(1)[OF ne])
  have "1 \<le> ?f b (tick_offset_into_bucket e)
      \<and> due (turn_lowest ws) c 0 b (tick_offset_into_bucket e) = ?f b (tick_offset_into_bucket e) - 1"
    if "b < length ?bs" "e \<in> set (?bs ! b)" for b e
    using that w(3) shift[of b] by (cases "b = ?i") auto
  note rest = bag_shift[of ?bs ?f "due (turn_lowest ws) c 0", OF this]
  have now: "remaining 1 (entries (?f ?i) es) = {#} \<and> expired 1 (entries (?f ?i) es) = mset (map timer es)"
    for es :: "'t timer_entry list"
    by (induction es) (auto simp: at)
  have split: "bag ?f (buckets ?w) = bag ?f ?bs + entries (?f ?i) (buckets ?w ! ?i)"
    using w(2,3) by (intro bag_clear) simp
  show "remaining 1 (bag ?f (buckets ?w)) = bag (due (turn_lowest ws) c 0) (buckets (turn_lowest ws ! 0))"
    unfolding split using rest(1) now by (simp add: turn_lowest_nth(1)[OF ne])
  show "expired 1 (bag ?f (buckets ?w)) = mset (map timer (buckets ?w ! ?i))"
    unfolding split using rest(2) now by simp
qed

lemma turn_lowest_dues:
  assumes ok: "wheels_ok ws"
  shows "remaining 1 (dues ws) = dues_pending (turn_lowest ws) (carry_out (turn_lowest ws) 0)"
    and "expired 1 (dues ws) = mset (map timer (buckets (ws ! 0) ! curr_bucket_index (ws ! 0)))"
proof -
  let ?c = "carry_out (turn_lowest ws) 0"
  let ?F = "\<lambda>k. bag (due ws (length ws) k) (buckets (ws ! k))"
  let ?G = "\<lambda>k. bag (due (turn_lowest ws) ?c k) (buckets (turn_lowest ws ! k))"
  have len: "0 < length ws" using ok by (simp add: wheels_ok_def)
  have high: "remaining 1 (?F k) = ?G k \<and> expired 1 (?F k) = {#}" if "0 < k" "k < length ws" for k
    using bag_shift[of "buckets (ws ! k)" "due ws (length ws) k" "due (turn_lowest ws) ?c k"]
      due_high_pos[OF ok that] turn_lowest_due_high[OF ok that] that
    by (simp add: turn_lowest_nth(2))
  have "remaining 1 (\<Sum>k<n. ?F k) = (\<Sum>k<n. ?G k) \<and>
      expired 1 (\<Sum>k<n. ?F k) = mset (map timer (buckets (ws ! 0) ! curr_bucket_index (ws ! 0)))"
    if "0 < n" "n \<le> length ws" for n
    using that
  proof (induction n)
    case (Suc n)
    then show ?case
      using bag_lowest[OF ok] high[of n] by (cases "n = 0") auto
  qed simp
  from this[OF len order_refl]
  show "remaining 1 (dues ws) = dues_pending (turn_lowest ws) ?c"
    and "expired 1 (dues ws) = mset (map timer (buckets (ws ! 0) ! curr_bucket_index (ws ! 0)))"
    by (simp_all add: dues_def dues_pending_def turn_lowest_nth(3))
qed

lemma wheel_tick_correct:
  assumes ok: "wheels_ok ws"
  shows "wheels_ok (snd (wheel_tick ws))"
    and "mset (fst (wheel_tick ws)) = expired 1 (dues ws)"
    and "dues (snd (wheel_tick ws)) = remaining 1 (dues ws)"
    and "length (snd (wheel_tick ws)) = length ws"
    and "curr_bucket_index (snd (wheel_tick ws) ! 0) = (curr_bucket_index (ws ! 0) + 1) mod num_buckets (ws ! 0)"
    and "num_buckets (snd (wheel_tick ws) ! j) = num_buckets (ws ! j)"
    and "ticks_per_bucket (snd (wheel_tick ws) ! j) = ticks_per_bucket (ws ! j)"
proof -
  let ?ws = "turn_lowest ws"
  have ne: "ws \<noteq> []" using ok by (simp add: wheels_ok_def)
  then have one: "1 \<le> length ?ws" by (cases ws) (auto simp: turn_lowest_nth(3))
  have idx: "curr_bucket_index (?ws ! 0) = (curr_bucket_index (ws ! 0) + 1) mod num_buckets (ws ! 0)"
    using ne by (simp add: turn_lowest_nth)
  note ok' = turn_lowest_ok[OF ok]
  show "mset (fst (wheel_tick ws)) = expired 1 (dues ws)"
    by (simp add: wheel_tick_eq turn_lowest_dues(2)[OF ok] del: One_nat_def)
  have all: "wheels_ok (snd (wheel_tick ws)) \<and> dues (snd (wheel_tick ws)) = remaining 1 (dues ws)
      \<and> length (snd (wheel_tick ws)) = length ws
      \<and> curr_bucket_index (snd (wheel_tick ws) ! 0) = (curr_bucket_index (ws ! 0) + 1) mod num_buckets (ws ! 0)
      \<and> (\<forall>j. num_buckets (snd (wheel_tick ws) ! j) = num_buckets (ws ! j)
            \<and> ticks_per_bucket (snd (wheel_tick ws) ! j) = ticks_per_bucket (ws ! j))"
  proof (cases "curr_bucket_index (?ws ! 0) = 0")
    case True
    then have c: "carry_out ?ws 0 = 1" by (simp add: carry_out_def)
    have "\<forall>i<1. curr_bucket_index (?ws ! i) = 0" using True by simp
    note load = load_timers_correct[OF ok' zero_less_one one this]
    show ?thesis
      using load True ne turn_lowest_dues(1)[OF ok] idx c
      by (simp add: wheel_tick_eq turn_lowest_nth(3) turn_lowest_static)
  next
    case False
    then have c: "carry_out ?ws 0 = length ws" by (simp add: carry_out_def turn_lowest_nth(3))
    show ?thesis
      using False turn_lowest_dues(1)[OF ok] idx c ok'
      by (simp add: wheel_tick_eq turn_lowest_nth(3) turn_lowest_static dues_def)
  qed
  then show "wheels_ok (snd (wheel_tick ws))" "dues (snd (wheel_tick ws)) = remaining 1 (dues ws)"
    "length (snd (wheel_tick ws)) = length ws"
    "curr_bucket_index (snd (wheel_tick ws) ! 0) = (curr_bucket_index (ws ! 0) + 1) mod num_buckets (ws ! 0)"
    "num_buckets (snd (wheel_tick ws) ! j) = num_buckets (ws ! j)"
    "ticks_per_bucket (snd (wheel_tick ws) ! j) = ticks_per_bucket (ws ! j)"
    by blast+
qed

lemma due_lowest_nonneg: "0 \<le> due ws c 0 b off"
  by (simp add: due_def Let_def)

lemma dues_nonneg:
  assumes ok: "wheels_ok ws" and p: "p \<in># dues ws"
  shows "0 \<le> fst p"
proof -
  obtain k where k: "k < length ws" and "p \<in># bag (due ws (length ws) k) (buckets (ws ! k))"
    using p by (auto simp: dues_def dues_pending_def set_mset_sum)
  then obtain b off where "fst p = due ws (length ws) k b off"
    by (auto simp: bag_def set_mset_sum entries_def)
  then show ?thesis
    using due_high_pos[OF ok _ k] due_lowest_nonneg by (cases "k = 0") (auto intro: order_trans[OF zero_le_one])
qed

interpretation wheel: timer_store wheel_tick dues wheels_ok
  by unfold_locales (auto simp: wheel_tick_correct dues_nonneg)

subsection \<open>The loop of advance is a run of ticks\<close>

lemma advance_bucket_prefix:
  "advance_bucket b (out, ws) = (out @ fst (advance_bucket b ([], ws)), snd (advance_bucket b ([], ws)))"
  by (simp add: advance_bucket_def Let_def)

lemma fold_advance_ticks:
  assumes "wheels_ok ws" "curr_bucket_index (ws ! 0) = i mod num_buckets (ws ! 0)"
  shows "fold advance_bucket (map (\<lambda>b. b mod num_buckets (ws ! 0)) [i..<i + n]) (out, ws)
    = (out @ fst (run_ticks wheel_tick n ws), snd (run_ticks wheel_tick n ws))"
  using assms
proof (induction n arbitrary: i ws out)
  case 0
  then show ?case by simp
next
  case (Suc n)
  let ?n = "num_buckets (ws ! 0)" and ?ws = "snd (wheel_tick ws)"
  note tick = wheel_tick_correct[OF Suc.prems(1)]
  have step: "advance_bucket (i mod ?n) (out, ws) = (out @ fst (wheel_tick ws), ?ws)"
    using advance_bucket_prefix[of "i mod ?n" out ws] Suc.prems(2) by (simp add: wheel_tick_def)
  have idx: "curr_bucket_index (?ws ! 0) = Suc i mod num_buckets (?ws ! 0)"
    using Suc.prems(2) by (simp add: tick(5,6) mod_Suc_eq)
  have "[i..<i + Suc n] = i # [Suc i..<Suc i + n]"
    by (simp add: upt_conv_Cons)
  then show ?case
    using Suc.IH[OF tick(1) idx, of "out @ fst (wheel_tick ws)"]
    by (simp add: step tick(6) split_def Let_def)
qed

text \<open>
  The wheel may be advanced: it is well formed and its tick size is positive. The ticks an
  advance runs are the whole tick sizes between the two clock readings, and \<open>clock_ok\<close>
  bounds them (with 50 ms ticks, \<open>2 ^ 64\<close> of them are 29 billion years).
\<close>

definition hw_ok :: "'t hwheel \<Rightarrow> bool" where
  "hw_ok h \<longleftrightarrow> wheels_ok (wheels h) \<and> 0 < tick_size h"

definition advance_ticks :: "int \<Rightarrow> 't hwheel \<Rightarrow> nat" where
  "advance_ticks now h = nat ((now - last_advancement_time h) div (tick_size h * ms))"

definition clock_ok :: "int \<Rightarrow> 't hwheel \<Rightarrow> bool" where
  "clock_ok now h \<longleftrightarrow> curr_bucket_index (wheels h ! 0) + advance_ticks now h < size_max1"

lemma advance_ticks_early:
  "hw_ok h \<Longrightarrow> now - last_advancement_time h < tick_size h * ms \<Longrightarrow> advance_ticks now h = 0"
  using div_neg_pos_less0[of "now - last_advancement_time h" "tick_size h * ms"]
  by (cases "0 \<le> now - last_advancement_time h") (auto simp: advance_ticks_def hw_ok_def ms_def)

lemma new_bottom_index:
  assumes "hw_ok h" "clock_ok now h" "tick_size h * ms \<le> now - last_advancement_time h"
  shows "determine_new_bottom_wheel_index now h = curr_bucket_index (wheels h ! 0) + advance_ticks now h"
proof -
  let ?d = "(now - last_advancement_time h) div (tick_size h * ms)"
  have pos: "0 < tick_size h * ms" using assms(1) by (simp add: hw_ok_def ms_def)
  then have d: "0 \<le> ?d" "0 \<le> now - last_advancement_time h"
    using assms(3) by (auto simp: pos_imp_zdiv_nonneg_iff)
  moreover have "?d < int size_max1"
    using assms(2) d by (simp add: clock_ok_def advance_ticks_def)
  ultimately show ?thesis
    using pos assms(2)
    by (simp add: determine_new_bottom_wheel_index_def cxx_div_nonneg clock_ok_def advance_ticks_def)
qed

lemma hw_advance_ticks:
  assumes ok: "hw_ok h" and clock: "clock_ok now h"
  shows "fst (hw_advance now h) = fst (run_ticks wheel_tick (advance_ticks now h) (wheels h))"
    and "wheels (snd (hw_advance now h)) = snd (run_ticks wheel_tick (advance_ticks now h) (wheels h))"
proof -
  let ?i = "curr_bucket_index (wheels h ! 0)" and ?r = "run_ticks wheel_tick (advance_ticks now h) (wheels h)"
  have wok: "wheels_ok (wheels h)" using ok by (simp add: hw_ok_def)
  then have "0 < length (wheels h)" by (simp add: wheels_ok_def)
  then have idx: "?i = ?i mod num_buckets (wheels h ! 0)"
    using wheels_okD(2)[OF wok] by simp
  have "fst (hw_advance now h) = fst ?r \<and> wheels (snd (hw_advance now h)) = snd ?r"
  proof (cases "now - last_advancement_time h < tick_size h * ms")
    case True
    with advance_ticks_early[OF ok True] show ?thesis by (simp add: hw_advance_def)
  next
    case False
    with new_bottom_index[OF ok clock] fold_advance_ticks[OF wok idx, of "advance_ticks now h" "[]"]
    show ?thesis by (simp add: hw_advance_def Let_def split_def)
  qed
  then show "fst (hw_advance now h) = fst ?r" "wheels (snd (hw_advance now h)) = snd ?r" by auto
qed

lemma hw_advance_static [simp]:
  "tick_size (snd (hw_advance now h)) = tick_size h"
  "last_advancement_time (snd (hw_advance now h)) =
     (if now - last_advancement_time h < tick_size h * ms then last_advancement_time h else now)"
  by (auto simp: hw_advance_def Let_def split_def)

lemma hw_advance_correct:
  assumes "hw_ok h" "clock_ok now h"
  shows "hw_ok (snd (hw_advance now h))"
    and "mset (fst (hw_advance now h)) = expired (advance_ticks now h) (dues (wheels h))"
    and "dues (wheels (snd (hw_advance now h))) = remaining (advance_ticks now h) (dues (wheels h))"
  using assms wheel.ticks_correct[of "wheels h" "advance_ticks now h"]
  by (auto simp: hw_ok_def hw_advance_ticks)

lemma run_ticks_static:
  assumes "wheels_ok ws"
  shows "length (snd (run_ticks wheel_tick n ws)) = length ws
    \<and> (\<forall>j. num_buckets (snd (run_ticks wheel_tick n ws) ! j) = num_buckets (ws ! j))"
  using assms
proof (induction n arbitrary: ws)
  case (Suc n)
  from Suc.IH[OF wheel_tick_correct(1)[OF Suc.prems]] show ?case
    by (simp add: split_def Let_def wheel_tick_correct(4,6)[OF Suc.prems])
qed simp

end
