(* ===== verification/Wheel_Schedule.thy ===== *)
theory Wheel_Schedule
  imports Wheel_Advance
begin

text \<open>
  \<open>schedule\<close> of the hierarchical wheel: the due time the code gives a new timer, when that
  is the requested number of ticks, and when it is not.
\<close>

definition placed_due :: "'t wheel list \<Rightarrow> size_t \<Rightarrow> int" where
  "placed_due ws ticks =
     (let (k, left) = determine_timer_wheel ws ticks; w = ws ! k
      in due ws (length ws) k (sz_add (curr_bucket_index w) (left div ticks_per_bucket w) mod num_buckets w)
           (left mod ticks_per_bucket w))"

lemma find_wheel_bound: "w < length ws \<Longrightarrow> fst (find_wheel ws w t) < length ws"
proof (induction ws w t rule: find_wheel.induct)
  case (1 ws w t)
  show ?case
    using 1 by (subst find_wheel.simps) (auto simp: can_fit_in_wheel_def)
qed

lemma due_update_buckets:
  assumes "k < length ws"
  shows "due (ws[k := (ws ! k)\<lparr>buckets := bs\<rparr>]) c j b off = due ws c j b off"
proof -
  let ?ws = "ws[k := (ws ! k)\<lparr>buckets := bs\<rparr>]"
  have "num_buckets (?ws ! i) = num_buckets (ws ! i)" "ticks_per_bucket (?ws ! i) = ticks_per_bucket (ws ! i)"
    "curr_bucket_index (?ws ! i) = curr_bucket_index (ws ! i)" for i
    using assms by (cases "i = k"; simp)+
  then show ?thesis by (simp add: due_def Let_def wheel_pos_def wheel_base_def)
qed

lemma place_timer_ok_dues:
  assumes ok: "wheels_ok ws"
  shows "wheels_ok (place_timer ws t x)"
    and "dues (place_timer ws t x) = add_mset (placed_due ws t, x) (dues ws)"
proof -
  obtain k left where k: "determine_timer_wheel ws t = (k, left)" by (cases "determine_timer_wheel ws t")
  have "0 < length ws" using ok by (simp add: wheels_ok_def)
  then have kl: "k < length ws" using find_wheel_bound[of 0 ws t] k by (simp add: determine_timer_wheel_def)
  let ?w = "ws ! k"
  let ?b = "sz_add (curr_bucket_index ?w) (left div ticks_per_bucket ?w) mod num_buckets ?w"
  let ?o = "left mod ticks_per_bucket ?w"
  let ?bs = "push_timer ?b ?o x (buckets ?w)"
  let ?ws = "ws[k := ?w\<lparr>buckets := ?bs\<rparr>]"
  have place: "place_timer ws t x = ?ws" by (simp add: place_timer_def k Let_def)
  note w = wheels_okD[OF ok kl]
  have b: "?b < length (buckets ?w)" using w by simp
  have "wheel_ok (?w\<lparr>buckets := ?bs\<rparr>)"
    using w push_timer_bound[of "buckets ?w" "ticks_per_bucket ?w" ?o] by (simp add: wheel_ok_def)
  then have "wheel_ok (?ws ! j)" if "j < length ws" for j
    using ok that by (cases "j = k") (auto simp: wheels_ok_def)
  moreover have "num_buckets (?ws ! i) = num_buckets (ws ! i)" "ticks_per_bucket (?ws ! i) = ticks_per_bucket (ws ! i)" for i
    using kl by (cases "i = k"; simp)+
  ultimately show "wheels_ok (place_timer ws t x)"
    using ok unfolding place by (auto simp: wheels_ok_def)
  have d: "due ?ws (length ws) j = due ws (length ws) j" for j
    by (intro ext due_update_buckets kl)
  have "dues ?ws = bag (due ws (length ws) k) ?bs
      + (\<Sum>j\<in>{..<length ws} - {k}. bag (due ws (length ws) j) (buckets (?ws ! j)))"
    using kl by (simp add: dues_def dues_pending_def d sum.remove[of _ k])
  also have "(\<Sum>j\<in>{..<length ws} - {k}. bag (due ws (length ws) j) (buckets (?ws ! j)))
      = (\<Sum>j\<in>{..<length ws} - {k}. bag (due ws (length ws) j) (buckets (ws ! j)))"
    by (intro sum.cong) auto
  also have "bag (due ws (length ws) k) ?bs
      = add_mset (placed_due ws t, x) (bag (due ws (length ws) k) (buckets ?w))"
    using b by (simp add: bag_push placed_due_def k Let_def)
  finally show "dues (place_timer ws t x) = add_mset (placed_due ws t, x) (dues ws)"
    using kl by (simp add: place dues_def dues_pending_def sum.remove[of _ k])
qed

subsection \<open>Which wheel is chosen\<close>

text \<open>\<open>span ws i j\<close> is the number of ticks the wheels \<open>i, \<dots>, j - 1\<close> hold together.\<close>

definition span :: "'t wheel list \<Rightarrow> nat \<Rightarrow> nat \<Rightarrow> nat" where
  "span ws i j = (\<Sum>l\<in>{i..<j}. num_buckets (ws ! l) * ticks_per_bucket (ws ! l))"

lemma span_same [simp]: "span ws i i = 0"
  by (simp add: span_def)

lemma span_Suc_left: "i < j \<Longrightarrow> span ws i j = num_buckets (ws ! i) * ticks_per_bucket (ws ! i) + span ws (Suc i) j"
  by (simp add: span_def sum.atLeast_Suc_lessThan)

lemma span_base:
  "wheels_ok ws \<Longrightarrow> 0 < k \<Longrightarrow> k < length ws \<Longrightarrow> span ws 0 k = wheel_base ws k + ticks_per_bucket (ws ! k)"
proof (induction k)
  case (Suc k)
  have T: "ticks_per_bucket (ws ! Suc k) = num_buckets (ws ! k) * ticks_per_bucket (ws ! k)"
    using wheels_ok_Suc[OF Suc.prems(1), of k] Suc.prems by (simp add: mult.commute)
  have sp: "span ws 0 (Suc k) = span ws 0 k + num_buckets (ws ! k) * ticks_per_bucket (ws ! k)"
    by (simp add: span_def)
  show ?case
  proof (cases "k = 0")
    case True
    then show ?thesis using sp T by simp
  next
    case False
    then show ?thesis using Suc sp T wheel_base_Suc[of k ws] by simp
  qed
qed simp

lemma fits_iff:
  assumes ok: "wheels_ok ws" and w: "w < length ws" and t: "t < size_half"
  shows "can_fit_in_wheel ws w t \<longleftrightarrow> w = length ws - 1
    \<or> curr_bucket_index (ws ! w) + t div ticks_per_bucket (ws ! w) < num_buckets (ws ! w)"
proof -
  let ?w = "ws ! w"
  note ws = wheels_okD[OF ok w]
  have "num_buckets ?w \<le> ticks_per_bucket ?w * num_buckets ?w" using ws(4) by simp
  then have "curr_bucket_index ?w < size_half" using ws(2,6) by linarith
  moreover have "t div ticks_per_bucket ?w < size_half"
    using t by (rule le_less_trans[OF div_le_dividend])
  ultimately have "sz_add (curr_bucket_index ?w) (t div ticks_per_bucket ?w)
      = curr_bucket_index ?w + t div ticks_per_bucket ?w" by simp
  then show ?thesis using w by (auto simp: can_fit_in_wheel_def)
qed

lemma find_wheel_ge: "w \<le> fst (find_wheel ws w t)"
proof (induction ws w t rule: find_wheel.induct)
  case (1 ws w t)
  show ?case
    using 1 by (subst find_wheel.simps) (auto intro: Suc_leD)
qed

text \<open>
  As long as the subtractions do not go below zero, the wheel \<open>k\<close> that is chosen gets the
  ticks the wheels below it cannot hold.
\<close>

lemma find_wheel_no_wrap:
  assumes "wheels_ok ws" "w < length ws" "t < size_half" "find_wheel ws w t = (k, left)" "span ws w k \<le> t"
  shows "left = t - span ws w k
    \<and> (k = length ws - 1 \<or> curr_bucket_index (ws ! k) + left div ticks_per_bucket (ws ! k) < num_buckets (ws ! k))"
  using assms
proof (induction ws w t arbitrary: k left rule: find_wheel.induct)
  case (1 ws w t)
  let ?n = "num_buckets (ws ! w) * ticks_per_bucket (ws ! w)"
  show ?case
  proof (cases "can_fit_in_wheel ws w t")
    case True
    then have "find_wheel ws w t = (w, t)" by (subst find_wheel.simps) simp
    with True show ?thesis using 1(5) fits_iff[OF 1(2-4)] by auto
  next
    case False
    have small: "?n < size_max1" using wheels_okD(5)[OF 1(2,3)] by (simp add: mult.commute)
    have next_w: "w + 1 < length ws" using False 1(3) by (auto simp: can_fit_in_wheel_def)
    let ?t = "sz_sub t (sz_mul (num_buckets (ws ! w)) (ticks_per_bucket (ws ! w)))"
    have rec: "find_wheel ws (w + 1) ?t = (k, left)"
      using 1(5) False by (subst (asm) find_wheel.simps) simp
    then have k: "w < k" using find_wheel_ge[of "w + 1" ws ?t] by simp
    have sp: "span ws w k = ?n + span ws (w + 1) k" using span_Suc_left[OF k] by simp
    then have t: "?t = t - ?n" using small 1(4,6) by simp
    have "?t < size_half" "span ws (w + 1) k \<le> ?t" using sp t 1(4,6) by simp_all
    note IH = 1(1)[OF False 1(2) next_w this(1) rec this(2)]
    then have "left = t - span ws w k" using sp t by simp
    then show ?thesis using IH by blast
  qed
qed

lemma ring_dist_ahead: "i < n \<Longrightarrow> i + q < n \<Longrightarrow> ring_dist n i ((i + q) mod n) = q"
  by (simp add: ring_dist_cases)

lemma placed_due_formula:
  assumes ok: "wheels_ok ws" and t: "t < size_half" and k: "determine_timer_wheel ws t = (k, left)"
    and sp: "span ws 0 k \<le> t"
    and room: "k = length ws - 1 \<longrightarrow> curr_bucket_index (ws ! k) + left div ticks_per_bucket (ws ! k) < num_buckets (ws ! k)"
  shows "placed_due ws t = int t - int (wheel_pos ws k)"
proof -
  let ?w = "ws ! k"
  have len: "0 < length ws" using ok by (simp add: wheels_ok_def)
  have kl: "k < length ws"
    using find_wheel_bound[OF len, of t] k by (simp add: determine_timer_wheel_def)
  note w = wheels_okD[OF ok kl]
  have left: "left = t - span ws 0 k" and fit: "curr_bucket_index ?w + left div ticks_per_bucket ?w < num_buckets ?w"
    using find_wheel_no_wrap[OF ok len t _ sp, of left] k room by (auto simp: determine_timer_wheel_def)
  have "num_buckets ?w \<le> ticks_per_bucket ?w * num_buckets ?w" using w(4) by simp
  then have "curr_bucket_index ?w + left div ticks_per_bucket ?w < size_max1"
    using fit w(5) by linarith
  then have "sz_add (curr_bucket_index ?w) (left div ticks_per_bucket ?w) = curr_bucket_index ?w + left div ticks_per_bucket ?w"
    by simp
  then have pd: "placed_due ws t = due ws (length ws) k ((curr_bucket_index ?w + left div ticks_per_bucket ?w) mod num_buckets ?w)
      (left mod ticks_per_bucket ?w)"
    by (simp add: placed_due_def k Let_def)
  note rel = ring_dist_ahead[OF w(2) fit]
  have split: "int left = int (left div ticks_per_bucket ?w) * int (ticks_per_bucket ?w) + int (left mod ticks_per_bucket ?w)"
    by (metis div_mult_mod_eq of_nat_add of_nat_mult)
  show ?thesis
  proof (cases "k = 0")
    case True
    moreover have "ticks_per_bucket (ws ! 0) = 1" using ok by (simp add: wheels_ok_def)
    ultimately show ?thesis using rel left by (simp add: pd due_def Let_def wheel_pos_def)
  next
    case False
    have "int t = int left + int (wheel_base ws k) + int (ticks_per_bucket ?w)"
      using left sp span_base[OF ok _ kl] False by simp
    moreover have "placed_due ws t = int (ticks_per_bucket ?w) - int (wheel_pos ws k)
        + int (left div ticks_per_bucket ?w) * int (ticks_per_bucket ?w) + int (wheel_base ws k)
        + int (left mod ticks_per_bucket ?w)"
      using False kl rel by (simp add: pd due_def Let_def)
    ultimately show ?thesis using split by linarith
  qed
qed

subsection \<open>Exact, early and late timers\<close>

lemma placed_due_lowest:
  assumes ok: "wheels_ok ws" and t: "t < size_half"
    and fit: "curr_bucket_index (ws ! 0) + t < num_buckets (ws ! 0)"
  shows "placed_due ws t = int t"
proof -
  have len: "0 < length ws" and T: "ticks_per_bucket (ws ! 0) = 1" using ok by (auto simp: wheels_ok_def)
  then have "can_fit_in_wheel ws 0 t" using fit fits_iff[OF ok len t] by simp
  then have "determine_timer_wheel ws t = (0, t)"
    by (simp add: determine_timer_wheel_def find_wheel.simps)
  from placed_due_formula[OF ok t this] fit T show ?thesis by (simp add: wheel_pos_def)
qed

definition aligned :: "'t wheel list \<Rightarrow> bool" where
  "aligned ws \<longleftrightarrow> (\<forall>k < length ws. curr_bucket_index (ws ! k) = 0)"

lemma find_wheel_aligned:
  assumes "wheels_ok ws" "w < length ws" "t < size_half" "aligned ws" "t < span ws w (length ws)"
    "find_wheel ws w t = (k, left)"
  shows "span ws w k \<le> t \<and> t < span ws w (Suc k)"
  using assms
proof (induction ws w t arbitrary: k left rule: find_wheel.induct)
  case (1 ws w t)
  let ?w = "ws ! w"
  let ?n = "num_buckets ?w * ticks_per_bucket ?w"
  note w = wheels_okD[OF 1(2,3)]
  have zero: "curr_bucket_index ?w = 0" using 1(3,5) by (simp add: aligned_def)
  have one: "span ws w (Suc w) = ?n" by (simp add: span_def)
  have less: "t div ticks_per_bucket ?w < num_buckets ?w \<longleftrightarrow> t < ?n"
    using w(4) by (simp add: div_less_iff_less_mult mult.commute)
  show ?case
  proof (cases "can_fit_in_wheel ws w t")
    case True
    then have kw: "k = w" using 1(7) by (subst (asm) find_wheel.simps) simp
    have "t < span ws w (Suc w)"
    proof (cases "w = length ws - 1")
      case True
      then have "length ws = Suc w" using 1(3) by simp
      with 1(6) show ?thesis by simp
    next
      case False
      with True less zero show ?thesis using fits_iff[OF 1(2-4)] one by simp
    qed
    with kw show ?thesis by simp
  next
    case False
    have next_w: "w + 1 < length ws" using False 1(3) by (auto simp: can_fit_in_wheel_def)
    have big: "?n \<le> t" using False fits_iff[OF 1(2-4)] less zero by simp
    have small: "?n < size_max1" using w(5) by (simp add: mult.commute)
    let ?t = "sz_sub t (sz_mul (num_buckets ?w) (ticks_per_bucket ?w))"
    have t: "?t = t - ?n" using small big 1(4) by simp
    have rec: "find_wheel ws (w + 1) ?t = (k, left)"
      using 1(7) False by (subst (asm) find_wheel.simps) simp
    then have k: "w < k" using find_wheel_ge[of "w + 1" ws ?t] by simp
    have "?t < size_half" using t 1(4) by simp
    moreover have "?t < span ws (w + 1) (length ws)"
      using t big 1(6) span_Suc_left[of w "length ws" ws] 1(3) by simp
    ultimately have "span ws (w + 1) k \<le> ?t \<and> ?t < span ws (w + 1) (Suc k)"
      using 1(1)[OF False 1(2) next_w _ 1(5) _ rec] by blast
    moreover have "span ws w (Suc k) = ?n + span ws (w + 1) (Suc k)" "span ws w k = ?n + span ws (w + 1) k"
      using k span_Suc_left[of w "Suc k" ws] span_Suc_left[of w k ws] by simp_all
    ultimately show ?thesis using t big by linarith
  qed
qed

text \<open>Between turns of every wheel, each timer within the capacity is exact.\<close>

lemma placed_due_aligned:
  assumes ok: "wheels_ok ws" and al: "aligned ws" and t: "t < size_half" "t < span ws 0 (length ws)"
  shows "placed_due ws t = int t"
proof -
  obtain k left where k: "determine_timer_wheel ws t = (k, left)" by (cases "determine_timer_wheel ws t")
  have len: "0 < length ws" using ok by (simp add: wheels_ok_def)
  have kl: "k < length ws"
    using find_wheel_bound[OF len, of t] k by (simp add: determine_timer_wheel_def)
  note w = wheels_okD[OF ok kl]
  have sp: "span ws 0 k \<le> t" "t < span ws 0 (Suc k)"
    using find_wheel_aligned[OF ok len t(1) al t(2), of k left] k by (auto simp: determine_timer_wheel_def)
  have zero: "curr_bucket_index (ws ! k) = 0" using al kl by (simp add: aligned_def)
  have "left = t - span ws 0 k"
    using find_wheel_no_wrap[OF ok len t(1) _ sp(1)] k by (simp add: determine_timer_wheel_def)
  then have "left < num_buckets (ws ! k) * ticks_per_bucket (ws ! k)"
    using sp by (simp add: span_def)
  then have "left div ticks_per_bucket (ws ! k) < num_buckets (ws ! k)"
    using w(4) by (simp add: div_less_iff_less_mult mult.commute)
  with zero have "curr_bucket_index (ws ! k) + left div ticks_per_bucket (ws ! k) < num_buckets (ws ! k)" by simp
  then have "placed_due ws t = int t - int (wheel_pos ws k)"
    using placed_due_formula[OF ok t(1) k sp(1)] by blast
  moreover have "wheel_pos ws k = 0" using al kl by (intro wheel_pos_0) (auto simp: aligned_def)
  ultimately show ?thesis by simp
qed

text \<open>Placing a timer touches neither sizes nor indices.\<close>

lemma place_timer_static:
  assumes "wheels_ok ws"
  shows "length (place_timer ws t x) = length ws"
    "num_buckets (place_timer ws t x ! j) = num_buckets (ws ! j)"
    "curr_bucket_index (place_timer ws t x ! j) = curr_bucket_index (ws ! j)"
proof -
  have "0 < length ws" using assms by (simp add: wheels_ok_def)
  then have "fst (determine_timer_wheel ws t) < length ws"
    by (simp add: determine_timer_wheel_def find_wheel_bound)
  then show "length (place_timer ws t x) = length ws"
    "num_buckets (place_timer ws t x ! j) = num_buckets (ws ! j)"
    "curr_bucket_index (place_timer ws t x ! j) = curr_bucket_index (ws ! j)"
    by (cases "j = fst (determine_timer_wheel ws t)"; simp add: place_timer_def Let_def split_def)+
qed

lemma hw_schedule_correct:
  assumes "hw_ok h"
  shows "hw_ok (hw_schedule d x h)"
    and "dues (wheels (hw_schedule d x h)) =
      add_mset (placed_due (wheels h) (to_size_t (cxx_div d (tick_size h))), x) (dues (wheels h))"
  using assms place_timer_ok_dues[of "wheels h"] by (auto simp: hw_schedule_def hw_ok_def)

subsection \<open>Properties\<close>

text \<open>A small wheel for the examples: two wheels of two and three buckets, 1 ms ticks.\<close>

definition sample_wheel :: "nat hwheel" where
  "sample_wheel = hw_schedule 1 7 (hw_schedule 0 8 (hw_new 0 1 [2, 3]))"

lemma replicate_eqs: "replicate 2 x = [x, x]" "replicate 3 x = [x, x, x]"
  by (simp_all add: numeral_2_eq_2 numeral_3_eq_3)

lemma sample_wheel_eq:
  "sample_wheel = \<lparr>tick_size = 1, last_advancement_time = 0,
     wheels = [\<lparr>num_buckets = 2, ticks_per_bucket = 1, curr_bucket_index = 0,
                buckets = [[\<lparr>tick_offset_into_bucket = 0, timer = 8\<rparr>], [\<lparr>tick_offset_into_bucket = 0, timer = 7\<rparr>]]\<rparr>,
               \<lparr>num_buckets = 3, ticks_per_bucket = 2, curr_bucket_index = 0, buckets = [[], [], []]\<rparr>]\<rparr>"
  by (simp add: sample_wheel_def hw_schedule_def hw_new_def place_timer_def determine_timer_wheel_def
      find_wheel.simps[where curr_wheel = 0] can_fit_in_wheel_def push_timer_def cxx_div_def replicate_eqs)

lemma hw_new_ok: "hw_ok (hw_new now 1 [2, 3])"
  using build_wheels_ok[of "[2, 3]"] by (simp add: hw_ok_def hw_new_def)

lemma sample_wheel_ok: "hw_ok sample_wheel" "wheels_ok (wheels sample_wheel)" "clock_ok 1000000 sample_wheel"
proof -
  show "hw_ok sample_wheel" unfolding sample_wheel_def by (intro hw_schedule_correct(1) hw_new_ok)
  then show "wheels_ok (wheels sample_wheel)" by (simp add: hw_ok_def)
qed (simp add: sample_wheel_eq clock_ok_def advance_ticks_def ms_def)

text \<open>
  C4: An advance of the hierarchical wheel by \<open>n\<close> ticks hands out exactly the timers that are
  due within those \<open>n\<close> ticks, brings every other timer \<open>n\<close> ticks closer, and keeps the wheel
  well-formed: nothing is lost, handed out twice, or moved to another time by the carries
  between the wheels.
\<close>

theorem hw_advance_hands_out_due:
  assumes "hw_ok h" and "clock_ok now h"
  shows "mset (fst (hw_advance now h)) = expired (advance_ticks now h) (dues (wheels h))
    \<and> dues (wheels (snd (hw_advance now h))) = remaining (advance_ticks now h) (dues (wheels h))
    \<and> hw_ok (snd (hw_advance now h))"
  using hw_advance_correct[OF assms] by simp

theorem hw_advance_hands_out_due_witness:
  "fst (hw_advance 1000000 sample_wheel) = [8]
    \<and> mset [8] = expired (advance_ticks 1000000 sample_wheel) (dues (wheels sample_wheel))"
  using hw_advance_hands_out_due[OF sample_wheel_ok(1,3)]
  by (simp add: sample_wheel_eq hw_advance_def advance_bucket_def determine_new_bottom_wheel_index_def ms_def
      cxx_div_def)

text \<open>
  Timers are handed out in the order of the ticks they are due at: however an advance is
  cut in two, the timers due before the cut come first.
\<close>

theorem hw_advance_in_order:
  assumes "hw_ok h" and "clock_ok now h" and "m \<le> advance_ticks now h"
  shows "\<exists>xs ys. fst (hw_advance now h) = xs @ ys \<and> mset xs = expired m (dues (wheels h))"
proof -
  have ok: "wheels_ok (wheels h)" using assms(1) by (simp add: hw_ok_def)
  obtain n where n: "advance_ticks now h = m + n" using le_Suc_ex[OF assms(3)] by blast
  let ?r = "run_ticks wheel_tick m (wheels h)"
  have "fst (hw_advance now h) = fst ?r @ fst (run_ticks wheel_tick n (snd ?r))"
    unfolding hw_advance_ticks(1)[OF assms(1,2)] n by (rule wheel.ticks_in_order(1)[OF ok])
  moreover have "mset (fst ?r) = expired m (dues (wheels h))" by (rule wheel.ticks_in_order(2)[OF ok])
  ultimately show ?thesis by blast
qed

theorem hw_advance_in_order_witness:
  "\<exists>xs ys. fst (hw_advance 1000000 sample_wheel) = xs @ ys \<and> mset xs = expired 1 (dues (wheels sample_wheel))"
  by (rule hw_advance_in_order[OF sample_wheel_ok(1,3)]) (simp add: sample_wheel_eq advance_ticks_def ms_def)

text \<open>
  Scheduling adds exactly one timer to the wheel, due after \<open>placed_due\<close> ticks, touches no
  other timer and keeps the wheel well-formed.
\<close>

theorem hw_schedule_adds_one:
  assumes "hw_ok h"
  shows "dues (wheels (hw_schedule d x h)) =
      add_mset (placed_due (wheels h) (to_size_t (cxx_div d (tick_size h))), x) (dues (wheels h))
    \<and> hw_ok (hw_schedule d x h)"
  using hw_schedule_correct(1)[OF assms] hw_schedule_correct(2)[OF assms] by simp

theorem hw_schedule_adds_one_witness:
  "hw_ok sample_wheel
    \<and> dues (wheels (hw_schedule 3 9 sample_wheel)) =
        add_mset (placed_due (wheels sample_wheel) 3, 9) (dues (wheels sample_wheel))"
  using hw_schedule_adds_one[OF sample_wheel_ok(1), where d = 3 and x = 9] sample_wheel_ok(1)
  by (simp add: sample_wheel_eq cxx_div_def)

text \<open>
  While every wheel stands at its first bucket, a timer of any length the wheels can hold
  is due after exactly the ticks asked for, whichever wheel it is put in.
\<close>

theorem placed_due_exact_aligned:
  assumes "wheels_ok ws" and "aligned ws" and "t < size_half" and "t < span ws 0 (length ws)"
  shows "placed_due ws t = int t"
  using placed_due_aligned[OF assms] .

theorem placed_due_exact_aligned_witness: "placed_due (wheels sample_wheel) 5 = 5"
proof -
  have "{0..<Suc (Suc 0)} = {0, 1}" by auto
  then have "5 < span (wheels sample_wheel) 0 (length (wheels sample_wheel))"
    by (simp add: span_def sample_wheel_eq)
  moreover have "aligned (wheels sample_wheel)" by (auto simp: aligned_def sample_wheel_eq less_Suc_eq)
  ultimately show ?thesis using placed_due_exact_aligned[OF sample_wheel_ok(2), of 5] by simp
qed

text \<open>
  In general a timer placed in wheel \<open>k\<close> comes out early, by the ticks the wheels below \<open>k\<close>
  have already turned (\<open>wheel_pos\<close>): the placement counts from the start of the current
  bucket of the wheels below, not from where they stand. The condition \<open>span ws 0 k \<le> t\<close> says
  that the subtractions on the way up did not wrap.
\<close>

theorem placed_due_early_by_position:
  assumes "wheels_ok ws" and "t < size_half" and "determine_timer_wheel ws t = (k, left)"
    and "span ws 0 k \<le> t"
    and "curr_bucket_index (ws ! k) + left div ticks_per_bucket (ws ! k) < num_buckets (ws ! k)"
  shows "placed_due ws t = int t - int (wheel_pos ws k)"
  by (rule placed_due_formula[OF assms(1-4)]) (use assms(5) in blast)

theorem placed_due_early_by_position_witness:
  "let ws = wheels (snd (hw_advance 1000000 (hw_new 0 1 [2, 3]) :: nat list \<times> nat hwheel))
   in placed_due ws 3 = 2"
proof -
  let ?h = "hw_new 0 1 [2, 3] :: nat hwheel"
  let ?ws = "wheels (snd (hw_advance 1000000 ?h))"
  have "clock_ok 1000000 ?h" by (simp add: clock_ok_def advance_ticks_def hw_new_def ms_def)
  from hw_advance_correct(1)[OF hw_new_ok this] have ok: "wheels_ok ?ws" by (simp add: hw_ok_def)
  have ws: "?ws = [\<lparr>num_buckets = 2, ticks_per_bucket = 1, curr_bucket_index = 1, buckets = [[], []]\<rparr>,
      \<lparr>num_buckets = 3, ticks_per_bucket = 2, curr_bucket_index = 0, buckets = [[], [], []]\<rparr>]"
    by (simp add: hw_advance_def hw_new_def advance_bucket_def determine_new_bottom_wheel_index_def ms_def
        cxx_div_def replicate_eqs)
  have "determine_timer_wheel ?ws 3 = (1, 1)" "span ?ws 0 1 = 2" "wheel_pos ?ws 1 = 1"
    by (simp_all add: ws determine_timer_wheel_def find_wheel.simps[where curr_wheel = 0] find_wheel.simps[where curr_wheel = "Suc 0"] can_fit_in_wheel_def span_def wheel_pos_def
        sz_mul_def sz_sub_def)
  then show ?thesis
    using placed_due_early_by_position[OF ok, of 3 1 1] by (simp add: ws)
qed

end
