(* ===== verification/Timing_Poll_Source.thy ===== *)
theory Timing_Poll_Source
  imports Wheel_Schedule Poll_Source_Spec
begin

text \<open>
  \<open>src/timing/include/timing/timing_poll_source.h\<close> and
  \<open>src/timing/src/timing_poll_source.cpp\<close>: the hierarchical wheel the library runs, with
  50 ms ticks and wheels of 1200, 60, 24 and 10 buckets, behind the poll source interface.
  Each operation holds the spin lock for its whole body, so it is one step. The clock
  readings are arguments.
\<close>

subsection \<open>Operations\<close>

record 'j timing_source =
  tps_wheel :: "'j hwheel"

definition tps_tick :: int where
  "tps_tick = 50"

definition tps_wheel_sizes :: "size_t list" where
  "tps_wheel_sizes = [to_size_t (cxx_div 60000 50), 60, 24, 10]"

definition tps_new :: "int \<Rightarrow> 'j timing_source" where
  "tps_new now = \<lparr>tps_wheel = hw_new now tps_tick tps_wheel_sizes\<rparr>"

definition tps_schedule :: "int \<Rightarrow> 'j \<Rightarrow> 'j timing_source \<Rightarrow> 'j timing_source" where
  "tps_schedule expiry task s = s\<lparr>tps_wheel := hw_schedule expiry task (tps_wheel s)\<rparr>"

definition tps_poll_frequency :: int where
  "tps_poll_frequency = 5"

definition tps_poll :: "int \<Rightarrow> 'j timing_source \<Rightarrow> 'j list \<times> 'j timing_source" where
  "tps_poll now s =
     (let (expired_jobs, h) = hw_advance now (tps_wheel s) in (expired_jobs, s\<lparr>tps_wheel := h\<rparr>))"

lemma tps_wheel_sizes_eq: "tps_wheel_sizes = [1200, 60, 24, 10]"
  by (simp add: tps_wheel_sizes_def cxx_div_def)

subsection \<open>The wheels of the library\<close>

text \<open>
  The shape of the library's wheels: sizes and ticks per bucket never change, only indices
  and contents do.
\<close>

definition tps_shape :: "'j wheel list \<Rightarrow> bool" where
  "tps_shape ws \<longleftrightarrow> wheels_ok ws \<and> map num_buckets ws = [1200, 60, 24, 10]"

lemma tps_shapeD:
  assumes "tps_shape ws"
  shows "wheels_ok ws" "length ws = 4"
    "num_buckets (ws ! 0) = 1200" "num_buckets (ws ! 1) = 60" "num_buckets (ws ! 2) = 24" "num_buckets (ws ! 3) = 10"
    "ticks_per_bucket (ws ! 0) = 1" "ticks_per_bucket (ws ! 1) = 1200" "ticks_per_bucket (ws ! 2) = 72000"
    "ticks_per_bucket (ws ! 3) = 1728000"
proof -
  show ok: "wheels_ok ws" and len: "length ws = 4"
    using assms by (auto simp: tps_shape_def dest: map_eq_imp_length_eq)
  have nth: "map num_buckets ws ! k = num_buckets (ws ! k)" if "k < 4" for k
    using that len by simp
  show n: "num_buckets (ws ! 0) = 1200" "num_buckets (ws ! 1) = 60" "num_buckets (ws ! 2) = 24" "num_buckets (ws ! 3) = 10"
    using assms nth[of 0] nth[of 1] nth[of 2] nth[of 3] by (simp_all add: tps_shape_def)
  show t0: "ticks_per_bucket (ws ! 0) = 1" using ok by (simp add: wheels_ok_def)
  show t1: "ticks_per_bucket (ws ! 1) = 1200" using wheels_ok_Suc[OF ok, of 0] len t0 n by simp
  show t2: "ticks_per_bucket (ws ! 2) = 72000" using wheels_ok_Suc[OF ok, of 1] len t1 n by (simp add: numeral_2_eq_2)
  show "ticks_per_bucket (ws ! 3) = 1728000" using wheels_ok_Suc[OF ok, of 2] len t2 n by simp
qed

lemma span_4:
  assumes "tps_shape ws"
  shows "span ws 0 (length ws) = 19081200"
proof -
  have "{0..<4::nat} = {0, 1, 2, 3}" by auto
  then show ?thesis using tps_shapeD[OF assms] by (simp add: span_def)
qed

lemma map_num_buckets_build: "map num_buckets (build_wheels t sizes) = sizes"
  by (induction t sizes rule: build_wheels.induct) auto

lemma build_wheels_indices: "w \<in> set (build_wheels t sizes) \<Longrightarrow> curr_bucket_index w = 0"
  by (induction t sizes rule: build_wheels.induct) auto

lemma build_wheels_aligned: "aligned (build_wheels t sizes)"
  by (auto simp: aligned_def intro!: build_wheels_indices nth_mem)

lemma tps_new_shape: "tps_shape (wheels (tps_wheel (tps_new now)))"
  using build_wheels_ok[of tps_wheel_sizes]
  by (simp add: tps_shape_def tps_new_def hw_new_def map_num_buckets_build tps_wheel_sizes_eq)

lemma tps_shape_transfer:
  assumes "tps_shape ws" "wheels_ok ws'" "length ws' = length ws" "\<And>j. num_buckets (ws' ! j) = num_buckets (ws ! j)"
  shows "tps_shape ws'"
proof -
  have "map num_buckets ws' = map num_buckets ws"
    using assms(3,4) by (intro nth_equalityI) auto
  then show ?thesis using assms(1,2) by (simp add: tps_shape_def)
qed

text \<open>
  The invariant of the timing poll source. Clock readings are signed 64-bit nanosecond
  counts; with 50 ms ticks this bounds every tick count well below \<open>2 ^ 64\<close>.
\<close>

definition tps_inv :: "'j timing_source \<Rightarrow> bool" where
  "tps_inv s \<longleftrightarrow> tps_shape (wheels (tps_wheel s)) \<and> tick_size (tps_wheel s) = tps_tick
     \<and> clock_range (last_advancement_time (tps_wheel s))"

lemma tps_inv_hw_ok: "tps_inv s \<Longrightarrow> hw_ok (tps_wheel s)"
  by (simp add: tps_inv_def hw_ok_def tps_shapeD(1) tps_tick_def)

lemma tps_inv_clock_ok:
  assumes inv: "tps_inv s" and t: "clock_range now"
  shows "clock_ok now (tps_wheel s)"
proof -
  let ?h = "tps_wheel s"
  note shape = tps_shapeD[OF conjunct1[OF inv[unfolded tps_inv_def]]]
  have "curr_bucket_index (wheels ?h ! 0) < 1200"
    using wheels_okD(2)[OF shape(1), of 0] shape by simp
  moreover have "(now - last_advancement_time ?h) div (tick_size ?h * ms) \<le> (2 * int size_half) div (tick_size ?h * ms)"
    using inv t by (intro zdiv_mono1) (auto simp: tps_inv_def clock_range_def tps_tick_def ms_def)
  ultimately show ?thesis
    using inv by (simp add: clock_ok_def advance_ticks_def tps_inv_def tps_tick_def ms_def)
qed

definition tps_dues :: "'j timing_source \<Rightarrow> 'j timer_bag" where
  "tps_dues s = dues (wheels (tps_wheel s))"

definition tps_ticks :: "int \<Rightarrow> 'j timing_source \<Rightarrow> nat" where
  "tps_ticks now s = nat ((now - last_advancement_time (tps_wheel s)) div 50000000)"

definition tps_last :: "'j timing_source \<Rightarrow> int" where
  "tps_last s = last_advancement_time (tps_wheel s)"

lemma tps_new_correct: "clock_range now \<Longrightarrow> tps_inv (tps_new now)" "tps_last (tps_new now) = now"
  using tps_new_shape[of now]
  by (auto simp: tps_inv_def tps_new_def hw_new_def tps_last_def)

lemma build_wheels_buckets: "w \<in> set (build_wheels t sizes) \<Longrightarrow> bs \<in> set (buckets w) \<Longrightarrow> bs = []"
  by (induction t sizes rule: build_wheels.induct) auto

lemma bag_empty: "\<forall>es \<in> set bs. es = [] \<Longrightarrow> bag f bs = {#}"
  unfolding bag_def by (rule sum.neutral) (metis entries_simps(1) lessThan_iff nth_mem)

lemma build_wheels_dues: "dues (build_wheels t sizes :: 't wheel list) = {#}"
proof -
  let ?ws = "build_wheels t sizes :: 't wheel list"
  have "bag f (buckets w) = {#}" if "w \<in> set ?ws" for f w
    using build_wheels_buckets[OF that] by (intro bag_empty) blast
  then show ?thesis by (simp add: dues_def dues_pending_def)
qed

lemma tps_new_dues: "tps_dues (tps_new now) = {#}"
  by (simp add: tps_dues_def tps_new_def hw_new_def build_wheels_dues)

lemma tps_schedule_correct:
  assumes inv: "tps_inv s"
  shows "tps_inv (tps_schedule d x s)"
    and "tps_dues (tps_schedule d x s) =
      add_mset (placed_due (wheels (tps_wheel s)) (to_size_t (cxx_div d 50)), x) (tps_dues s)"
    and "tps_last (tps_schedule d x s) = tps_last s"
proof -
  let ?h = "tps_wheel s"
  have ok: "wheels_ok (wheels ?h)" using inv by (simp add: tps_inv_def tps_shapeD(1))
  have "tps_shape (wheels (hw_schedule d x ?h))"
    by (rule tps_shape_transfer[of "wheels ?h"])
      (use inv place_timer_ok_dues(1)[OF ok] place_timer_static[OF ok] in \<open>simp_all add: tps_inv_def hw_schedule_def\<close>)
  then show "tps_inv (tps_schedule d x s)"
    using inv by (simp add: tps_inv_def tps_schedule_def hw_schedule_def)
  show "tps_dues (tps_schedule d x s) =
      add_mset (placed_due (wheels (tps_wheel s)) (to_size_t (cxx_div d 50)), x) (tps_dues s)"
    using hw_schedule_correct(2)[OF tps_inv_hw_ok[OF inv]] inv
    by (simp add: tps_dues_def tps_schedule_def tps_inv_def tps_tick_def)
  show "tps_last (tps_schedule d x s) = tps_last s"
    by (simp add: tps_last_def tps_schedule_def hw_schedule_def)
qed

lemma tps_poll_correct:
  assumes inv: "tps_inv s" and t: "clock_range now"
  shows "tps_inv (snd (tps_poll now s))"
    and "mset (fst (tps_poll now s)) = expired (tps_ticks now s) (tps_dues s)"
    and "tps_dues (snd (tps_poll now s)) = remaining (tps_ticks now s) (tps_dues s)"
    and "tps_last (snd (tps_poll now s)) = (if now - tps_last s < 50000000 then tps_last s else now)"
    and "fst (tps_poll now s) = fst (run_ticks wheel_tick (tps_ticks now s) (wheels (tps_wheel s)))"
proof -
  let ?h = "tps_wheel s"
  have ok: "hw_ok ?h" and clock: "clock_ok now ?h"
    using tps_inv_hw_ok[OF inv] tps_inv_clock_ok[OF inv t] .
  have tick: "tick_size ?h * ms = 50000000" using inv by (simp add: tps_inv_def tps_tick_def ms_def)
  have ticks: "advance_ticks now ?h = tps_ticks now s" by (simp add: advance_ticks_def tps_ticks_def tick)
  note adv = hw_advance_correct[OF ok clock] hw_advance_ticks[OF ok clock]
  have "tps_shape (wheels (snd (hw_advance now ?h)))"
  proof (rule tps_shape_transfer[of "wheels ?h"])
    show "tps_shape (wheels ?h)" using inv by (simp add: tps_inv_def)
    show "wheels_ok (wheels (snd (hw_advance now ?h)))" using adv(1) by (simp add: hw_ok_def)
    have "wheels_ok (wheels ?h)" using ok by (simp add: hw_ok_def)
    from run_ticks_static[OF this, of "advance_ticks now ?h"]
    show "length (wheels (snd (hw_advance now ?h))) = length (wheels ?h)"
      "\<And>j. num_buckets (wheels (snd (hw_advance now ?h)) ! j) = num_buckets (wheels ?h ! j)"
      unfolding adv(5) by blast+
  qed
  then show "tps_inv (snd (tps_poll now s))"
    using inv t by (simp add: tps_inv_def tps_poll_def split_def Let_def)
  show "mset (fst (tps_poll now s)) = expired (tps_ticks now s) (tps_dues s)"
    "tps_dues (snd (tps_poll now s)) = remaining (tps_ticks now s) (tps_dues s)"
    "fst (tps_poll now s) = fst (run_ticks wheel_tick (tps_ticks now s) (wheels ?h))"
    using adv(2,3,4) by (simp_all add: tps_poll_def tps_dues_def split_def Let_def ticks)
  show "tps_last (snd (tps_poll now s)) = (if now - tps_last s < 50000000 then tps_last s else now)"
    by (simp add: tps_poll_def tps_last_def split_def Let_def tick)
qed

lemma tps_poll_conserves:
  assumes "tps_inv s" "clock_range now"
  shows "mset (fst (tps_poll now s)) + image_mset snd (tps_dues (snd (tps_poll now s))) = image_mset snd (tps_dues s)"
  using tps_poll_correct(2,3)[OF assms] expired_remaining[of "tps_ticks now s" "tps_dues s"] by simp

interpretation timing: poll_source tps_poll "\<lambda>s. image_mset snd (tps_dues s)" tps_inv clock_range
  by unfold_locales (simp_all add: tps_poll_correct(1) tps_poll_conserves)

subsection \<open>Histories of schedules and polls\<close>

text \<open>
  Client threads schedule and the poll thread polls, in any order the spin lock admits; a
  history is the sequence of these calls.
\<close>

datatype 'j timing_op = ScheduleOp int 'j | PollOp int

fun tps_run :: "'j timing_op list \<Rightarrow> 'j timing_source \<Rightarrow> 'j list \<times> 'j timing_source" where
  "tps_run [] s = ([], s)"
| "tps_run (ScheduleOp d j # ops) s = tps_run ops (tps_schedule d j s)"
| "tps_run (PollOp now # ops) s =
     (let (jobs, s1) = tps_poll now s; (more, s2) = tps_run ops s1 in (jobs @ more, s2))"

fun scheduled_jobs :: "'j timing_op list \<Rightarrow> 'j multiset" where
  "scheduled_jobs [] = {#}"
| "scheduled_jobs (ScheduleOp d j # ops) = add_mset j (scheduled_jobs ops)"
| "scheduled_jobs (PollOp now # ops) = scheduled_jobs ops"

definition clocks_in_range :: "'j timing_op list \<Rightarrow> bool" where
  "clocks_in_range ops \<longleftrightarrow> (\<forall>now. PollOp now \<in> set ops \<longrightarrow> clock_range now)"

lemma tps_run_conserves:
  assumes "tps_inv s" "clocks_in_range ops"
  shows "tps_inv (snd (tps_run ops s))
    \<and> mset (fst (tps_run ops s)) + image_mset snd (tps_dues (snd (tps_run ops s)))
        = image_mset snd (tps_dues s) + scheduled_jobs ops"
  using assms
proof (induction ops s rule: tps_run.induct)
  case (1 s)
  then show ?case by simp
next
  case (2 d j ops s)
  then show ?case
    using tps_schedule_correct[OF "2.prems"(1), of d j] by (simp add: clocks_in_range_def)
next
  case (3 now ops s)
  have "clock_range now" "clocks_in_range ops" using 3(3) by (auto simp: clocks_in_range_def)
  note poll = tps_poll_correct[OF 3(2) this(1)]
  obtain jobs s1 where p: "tps_poll now s = (jobs, s1)" by (cases "tps_poll now s")
  have IH: "tps_inv (snd (tps_run ops s1)) \<and>
      mset (fst (tps_run ops s1)) + image_mset snd (tps_dues (snd (tps_run ops s1)))
        = image_mset snd (tps_dues s1) + scheduled_jobs ops"
    using 3(1)[OF p[symmetric] refl] poll(1) \<open>clocks_in_range ops\<close> p by simp
  have "mset jobs + image_mset snd (tps_dues s1) = image_mset snd (tps_dues s)"
    using timing.poll_conserves[OF 3(2) \<open>clock_range now\<close>] p by simp
  with IH p show ?case
    by (simp add: split_def Let_def union_assoc)
qed

fun ticks_counted :: "int list \<Rightarrow> 'j timing_source \<Rightarrow> nat" where
  "ticks_counted [] s = 0"
| "ticks_counted (now # nows) s = tps_ticks now s + ticks_counted nows (snd (tps_poll now s))"

lemma expired_add: "(\<forall>p\<in>#M. 0 \<le> fst p) \<Longrightarrow> expired (m + n) M = expired m M + expired n (remaining m M)"
  by (induction M) (auto split: if_splits)

lemma remaining_add: "remaining (m + n) M = remaining n (remaining m M)"
  by (induction M) auto

lemma tps_dues_nonneg: "tps_inv s \<Longrightarrow> \<forall>p\<in>#tps_dues s. 0 \<le> fst p"
  using dues_nonneg[of "wheels (tps_wheel s)"] by (auto simp: tps_inv_def tps_dues_def tps_shapeD(1))

lemma tps_polls_correct:
  assumes "tps_inv s" "\<forall>now \<in> set nows. clock_range now"
  shows "mset (fst (run_polls tps_poll nows s)) = expired (ticks_counted nows s) (tps_dues s)
    \<and> tps_dues (snd (run_polls tps_poll nows s)) = remaining (ticks_counted nows s) (tps_dues s)"
  using assms
proof (induction nows arbitrary: s)
  case Nil
  then show ?case using tps_dues_nonneg[of s] by simp
next
  case (Cons now nows)
  have t: "clock_range now" "\<forall>now \<in> set nows. clock_range now" using Cons.prems(2) by auto
  note poll = tps_poll_correct[OF Cons.prems(1) t(1)]
  show ?case
    using Cons.IH[OF poll(1) t(2)] poll(2,3) tps_dues_nonneg[OF Cons.prems(1)]
    by (simp add: run_polls_Cons expired_add remaining_add del: run_polls.simps(2))
qed

lemma tps_tick_time:
  assumes "tps_inv s" "clock_range now"
  shows "int (tps_ticks now s) * 50000000 \<le> tps_last (snd (tps_poll now s)) - tps_last s"
    and "now - tps_last (snd (tps_poll now s)) < 50000000"
    and "50000000 \<le> now - tps_last s \<Longrightarrow> 0 < tps_ticks now s"
proof -
  note last = tps_poll_correct(4)[OF assms]
  have "int (tps_ticks now s) * 50000000 \<le> tps_last (snd (tps_poll now s)) - tps_last s
      \<and> now - tps_last (snd (tps_poll now s)) < 50000000 \<and> (50000000 \<le> now - tps_last s \<longrightarrow> 0 < tps_ticks now s)"
  proof (cases "now - tps_last s < 50000000")
    case True
    have "(now - tps_last s) div 50000000 < 1"
      using zdiv_mono1[of "now - tps_last s" 49999999 50000000] True by simp
    then show ?thesis using last True by (simp add: tps_ticks_def tps_last_def)
  next
    case False
    then have n: "int (tps_ticks now s) = (now - tps_last s) div 50000000"
      by (simp add: tps_ticks_def tps_last_def pos_imp_zdiv_nonneg_iff)
    moreover have "(now - tps_last s) div 50000000 * 50000000 \<le> now - tps_last s"
      by (simp add: minus_mod_eq_div_mult [symmetric])
    moreover have "0 < (now - tps_last s) div 50000000" using False by (simp add: pos_imp_zdiv_pos_iff)
    ultimately show ?thesis using last False by simp
  qed
  then show "int (tps_ticks now s) * 50000000 \<le> tps_last (snd (tps_poll now s)) - tps_last s"
    "now - tps_last (snd (tps_poll now s)) < 50000000" "50000000 \<le> now - tps_last s \<Longrightarrow> 0 < tps_ticks now s"
    by blast+
qed

lemma ticks_not_ahead_of_clock:
  assumes "tps_inv s" "\<forall>now \<in> set nows. clock_range now"
  shows "int (ticks_counted nows s) * 50000000 \<le> tps_last (snd (run_polls tps_poll nows s)) - tps_last s"
  using assms
proof (induction nows arbitrary: s)
  case (Cons now nows)
  have t: "clock_range now" "\<forall>now \<in> set nows. clock_range now" using Cons.prems(2) by auto
  show ?case
    using Cons.IH[OF timing.poll_inv[OF Cons.prems(1) t(1)] t(2)] tps_tick_time(1)[OF Cons.prems(1) t(1)]
    by (simp add: run_polls_Cons algebra_simps del: run_polls.simps(2))
qed simp

text \<open>
  How late a timer can be. \<open>gaps_ok g t nows\<close>: the readings start at most \<open>g\<close> after \<open>t\<close> and are
  at most \<open>g\<close> apart. An advance happens at the first poll at least a tick after the one before,
  so less than a tick and a gap after it, and counts at least one tick.
\<close>

fun gaps_ok :: "int \<Rightarrow> int \<Rightarrow> int list \<Rightarrow> bool" where
  "gaps_ok g t [] = True"
| "gaps_ok g t (now # nows) = (now \<le> t + g \<and> gaps_ok g now nows)"

lemma ticks_not_far_behind:
  assumes "tps_inv s" "\<forall>now \<in> set nows. clock_range now" "gaps_ok g t nows" "0 \<le> g" "t - tps_last s < 50000000"
  shows "last (t # nows) - tps_last s < int (ticks_counted nows s) * (50000000 + g) + 50000000"
  using assms
proof (induction nows arbitrary: s t)
  case (Cons now nows)
  have c: "clock_range now" "\<forall>now \<in> set nows. clock_range now" using Cons.prems(2) by auto
  have g: "now \<le> t + g" "gaps_ok g now nows" using Cons.prems(3) by auto
  let ?s = "snd (tps_poll now s)" and ?k = "int (tps_ticks now s)"
  note tick = tps_tick_time[OF Cons.prems(1) c(1)]
  have IH: "last (now # nows) - tps_last ?s < int (ticks_counted nows ?s) * (50000000 + g) + 50000000"
    using Cons.IH[OF timing.poll_inv[OF Cons.prems(1) c(1)] c(2) g(2) Cons.prems(4) tick(2)] .
  have "tps_last ?s - tps_last s \<le> ?k * (50000000 + g)"
  proof (cases "now - tps_last s < 50000000")
    case True
    then show ?thesis using tps_poll_correct(4)[OF Cons.prems(1) c(1)] Cons.prems(4) by simp
  next
    case False
    then have "50000000 + g \<le> ?k * (50000000 + g)"
      using tick(3) Cons.prems(4) mult_right_mono[of 1 ?k "50000000 + g"] by simp
    moreover have "tps_last ?s = now" using tps_poll_correct(4)[OF Cons.prems(1) c(1)] False by simp
    ultimately show ?thesis using g(1) Cons.prems(5) by linarith
  qed
  with IH show ?case by (simp add: algebra_simps)
qed simp

lemma fresh_timer_due:
  assumes "0 \<le> d" "d div 50 < 19081200"
  shows "tps_dues (tps_schedule d x (tps_new t0)) = {#(d div 50, x)#}"
proof -
  let ?ws = "wheels (tps_wheel (tps_new t0)) :: 'a wheel list"
  have shape: "tps_shape ?ws" by (rule tps_new_shape)
  have "aligned ?ws" by (simp add: tps_new_def hw_new_def build_wheels_aligned)
  then have "placed_due ?ws (nat (d div 50)) = d div 50"
    using placed_due_aligned[OF tps_shapeD(1)[OF shape], of "nat (d div 50)"] span_4[OF shape] assms
    by (simp add: nat_less_iff pos_imp_zdiv_nonneg_iff)
  moreover have "to_size_t (cxx_div d 50) = nat (d div 50)"
    using assms by (simp add: cxx_div_nonneg pos_imp_zdiv_nonneg_iff)
  moreover have "tps_inv (tps_new 0 :: 'a timing_source)" by (simp add: tps_new_correct(1) clock_range_def)
  moreover have "wheels (tps_wheel (tps_new 0)) = ?ws" by (simp add: tps_new_def hw_new_def)
  moreover have "tps_dues (tps_schedule d x (tps_new t0)) = tps_dues (tps_schedule d x (tps_new 0))"
    by (simp add: tps_dues_def tps_schedule_def tps_new_def hw_new_def hw_schedule_def)
  ultimately show ?thesis
    using tps_schedule_correct(2)[of "tps_new 0" d x] by (simp add: tps_new_dues)
qed

lemma less_div_iff: "k < n div 50000000 \<longleftrightarrow> (k + 1) * 50000000 \<le> n" for k n :: int
proof
  assume "k < n div 50000000"
  then have "(k + 1) * 50000000 \<le> n div 50000000 * 50000000" by simp
  also have "\<dots> \<le> n" by (simp add: minus_mod_eq_div_mult [symmetric])
  finally show "(k + 1) * 50000000 \<le> n" .
next
  assume "(k + 1) * 50000000 \<le> n"
  then have "(k + 1) * 50000000 div 50000000 \<le> n div 50000000" by (rule zdiv_mono1) simp
  then show "k < n div 50000000" by simp
qed

lemma fresh_timer_poll:
  assumes "clock_range t0" "clock_range now" "0 \<le> d" "d div 50 < 19081200"
  shows "fst (tps_poll now (tps_schedule d x (tps_new t0))) =
    (if (d div 50 + 1) * 50000000 \<le> now - t0 then [x] else [])"
proof -
  let ?s = "tps_schedule d x (tps_new t0)"
  note sch = tps_schedule_correct[OF tps_new_correct(1)[OF assms(1)], of d x]
  have "tps_last ?s = t0" using sch(3) by (simp add: tps_new_correct(2))
  then have n: "tps_ticks now ?s = nat ((now - t0) div 50000000)" by (simp add: tps_ticks_def tps_last_def)
  have "d div 50 < int (nat ((now - t0) div 50000000)) \<longleftrightarrow> d div 50 < (now - t0) div 50000000"
    using assms(3) by (simp add: pos_imp_zdiv_nonneg_iff) linarith
  also have "\<dots> \<longleftrightarrow> (d div 50 + 1) * 50000000 \<le> now - t0"
    by (rule less_div_iff)
  finally have "mset (fst (tps_poll now ?s)) = (if (d div 50 + 1) * 50000000 \<le> now - t0 then {#x#} else {#})"
    using tps_poll_correct(2)[OF sch(1) assms(2)] fresh_timer_due[OF assms(3,4), of x t0] n by simp
  then show ?thesis by (auto split: if_splits)
qed

subsection \<open>Short timers and the first wheel's boundary\<close>

lemma find_wheel_skip:
  "w < 3 \<Longrightarrow> length ws = 4 \<Longrightarrow>
     num_buckets (ws ! w) \<le> sz_add (curr_bucket_index (ws ! w)) (t div ticks_per_bucket (ws ! w)) \<Longrightarrow>
     find_wheel ws w t = find_wheel ws (Suc w) (sz_sub t (sz_mul (num_buckets (ws ! w)) (ticks_per_bucket (ws ! w))))"
  by (subst find_wheel.simps) (simp add: can_fit_in_wheel_def)

lemma find_wheel_top: "length ws = 4 \<Longrightarrow> find_wheel ws 3 t = (3, t)"
  by (subst find_wheel.simps) (simp add: can_fit_in_wheel_def)

lemma short_timer_wheel:
  assumes shape: "tps_shape ws" and t: "t < 1200" and cross: "1200 \<le> curr_bucket_index (ws ! 0) + t"
  shows "determine_timer_wheel ws t = (3, 18446744073707750416 + t)"
proof -
  note s = tps_shapeD[OF shape]
  have i: "curr_bucket_index (ws ! 0) < 1200" "curr_bucket_index (ws ! 1) < 60" "curr_bucket_index (ws ! 2) < 24"
    using wheels_okD(2)[OF s(1), of 0] wheels_okD(2)[OF s(1), of 1] wheels_okD(2)[OF s(1), of 2] s by simp_all
  have t1: "sz_sub t 1200 = 18446744073709550416 + t"
    and t2: "sz_sub (18446744073709550416 + t) 72000 = 18446744073709478416 + t"
    and t3: "sz_sub (18446744073709478416 + t) 1728000 = 18446744073707750416 + t"
    using t sz_sub_wraps[of t 1200] by simp_all
  have d1: "15372286728091292 \<le> (18446744073709550416 + t) div 1200"
    using div_le_mono[of 18446744073709550416 "18446744073709550416 + t" 1200] by simp
  have d2: "256204778801520 \<le> (18446744073709478416 + t) div 72000"
    using div_le_mono[of 18446744073709478416 "18446744073709478416 + t" 72000] by simp
  have u1: "(18446744073709550416 + t) div 1200 \<le> 15372286728091293"
    using t div_le_mono[of "18446744073709550416 + t" 18446744073709551616 1200] by simp
  have u2: "(18446744073709478416 + t) div 72000 \<le> 256204778801521"
    using t div_le_mono[of "18446744073709478416 + t" 18446744073709551616 72000] by simp
  have n0: "num_buckets (ws ! 0) \<le> sz_add (curr_bucket_index (ws ! 0)) (t div ticks_per_bucket (ws ! 0))"
    using i(1) t cross unfolding s(3,7) by simp
  have n1: "num_buckets (ws ! 1) \<le> sz_add (curr_bucket_index (ws ! 1)) ((18446744073709550416 + t) div ticks_per_bucket (ws ! 1))"
    using i(2) d1 u1 unfolding s(4,8) by simp
  have n2: "num_buckets (ws ! 2) \<le> sz_add (curr_bucket_index (ws ! 2)) ((18446744073709478416 + t) div ticks_per_bucket (ws ! 2))"
    using i(3) d2 u2 unfolding s(5,9) by simp
  have "find_wheel ws 0 t = find_wheel ws (Suc 0) (18446744073709550416 + t)"
    using find_wheel_skip[OF _ s(2) n0] t1 unfolding s(3,7) by (simp add: sz_mul_def)
  also have "\<dots> = find_wheel ws 2 (18446744073709478416 + t)"
    using find_wheel_skip[OF _ s(2) n1] t2 unfolding s(4,8) by (simp add: sz_mul_def numeral_2_eq_2 [symmetric])
  also have "\<dots> = find_wheel ws 3 (18446744073707750416 + t)"
    using find_wheel_skip[OF _ s(2) n2] t3 unfolding s(5,9) by (simp add: sz_mul_def)
  finally show ?thesis using find_wheel_top[OF s(2)] by (simp add: determine_timer_wheel_def)
qed

lemma ring_dist_ahead_mod: "i < n \<Longrightarrow> q < n \<Longrightarrow> ring_dist n i ((i + q) mod n) = q"
  by (cases "i + q < n") (auto simp: ring_dist_cases le_mod_geq)

lemma ring_dist_nine: "i < 10 \<Longrightarrow> ring_dist 10 i ((i + 10675199116729) mod 10) = 9"
  using mod_add_right_eq[of i 10675199116729 10] ring_dist_ahead_mod[of i 10 9] by simp

lemma run_ticks_index:
  assumes "wheels_ok ws"
  shows "curr_bucket_index (snd (run_ticks wheel_tick n ws) ! 0) = (curr_bucket_index (ws ! 0) + n) mod num_buckets (ws ! 0)"
  using assms
proof (induction n arbitrary: ws)
  case 0
  then show ?case using wheels_okD(2)[OF 0, of 0] by (simp add: wheels_ok_def)
next
  case (Suc n)
  from Suc.IH[OF wheel_tick_correct(1)[OF Suc.prems]] show ?case
    by (simp add: split_def Let_def wheel_tick_correct(5,6)[OF Suc.prems] mod_simps)
qed

lemma tps_poll_index:
  assumes "tps_inv s" "clock_range now"
  shows "curr_bucket_index (wheels (tps_wheel (snd (tps_poll now s))) ! 0)
    = (curr_bucket_index (wheels (tps_wheel s) ! 0) + advance_ticks now (tps_wheel s)) mod 1200"
  using hw_advance_ticks(2)[OF tps_inv_hw_ok[OF assms(1)] tps_inv_clock_ok[OF assms]] assms(1)
    run_ticks_index[of "wheels (tps_wheel s)"]
  by (simp add: tps_poll_def split_def Let_def tps_inv_def tps_shapeD)

lemma ticks_counted_regular:
  assumes "tps_inv s" "50000000 \<le> \<delta>" "\<delta> < 100000000"
    "\<forall>i<k. clock_range (tps_last s + int (Suc i) * \<delta>)"
  shows "ticks_counted (map (\<lambda>i. tps_last s + int (Suc i) * \<delta>) [0..<k]) s = k"
  using assms
proof (induction k arbitrary: s)
  case 0
  then show ?case by simp
next
  case (Suc k)
  define now where "now = tps_last s + \<delta>"
  define s1 where "s1 = snd (tps_poll now s)"
  have t: "clock_range now" using Suc.prems(4) by (force simp: now_def)
  note poll = tps_poll_correct[OF Suc.prems(1) t]
  have last: "tps_last s1 = tps_last s + \<delta>" using poll(4) Suc.prems(2) by (simp add: s1_def now_def)
  have "\<delta> div 50000000 = 1" using Suc.prems(2,3) by (intro int_div_pos_eq[of _ _ _ "\<delta> - 50000000"]) auto
  then have one: "tps_ticks now s = 1" by (simp add: tps_ticks_def tps_last_def now_def)
  have shift: "tps_last s1 + int (Suc i) * \<delta> = tps_last s + int (Suc (Suc i)) * \<delta>" for i
    by (simp add: last algebra_simps)
  have "\<forall>i<k. clock_range (tps_last s1 + int (Suc i) * \<delta>)"
    unfolding shift using Suc.prems(4) by blast
  then have IH: "ticks_counted (map (\<lambda>i. tps_last s1 + int (Suc i) * \<delta>) [0..<k]) s1 = k"
    by (rule Suc.IH[OF poll(1)[folded s1_def] Suc.prems(2,3)])
  have "map (\<lambda>i. tps_last s + int (Suc i) * \<delta>) [0..<Suc k]
      = now # map (\<lambda>i. tps_last s + int (Suc (Suc i)) * \<delta>) [0..<k]"
    unfolding upt_conv_Cons[OF zero_less_Suc] map_Suc_upt [symmetric] by (simp add: now_def)
  then show ?case using IH[unfolded shift] one by (simp only: ticks_counted.simps s1_def [symmetric])
qed

subsection \<open>Properties\<close>



text \<open>
  Over any history of schedules and polls, in any order, every timer is handed out exactly
  once or still on the wheels, and the source stays well-formed.
\<close>

theorem tps_history_conserves:
  assumes "tps_inv s" and "clocks_in_range ops"
  shows "mset (fst (tps_run ops s)) + image_mset snd (tps_dues (snd (tps_run ops s)))
      = image_mset snd (tps_dues s) + scheduled_jobs ops
    \<and> tps_inv (snd (tps_run ops s))"
  using tps_run_conserves[OF assms] by simp

theorem tps_history_conserves_witness:
  "mset (fst (tps_run [ScheduleOp 120 ''a'', PollOp 200000000] (tps_new 0)))
      + image_mset snd (tps_dues (snd (tps_run [ScheduleOp 120 ''a'', PollOp 200000000] (tps_new 0)))) = {#''a''#}"
  by (subst tps_history_conserves[THEN conjunct1]; simp add: tps_new_correct(1) tps_new_dues clocks_in_range_def clock_range_def)

text \<open>
  Over any sequence of polls the timers handed out are those due within the ticks counted;
  the ticks counted never exceed the time between the advances, so relative to the wheel's own
  clock no timer comes out early; and if polls are at most \<open>g\<close> apart, all but the last tick take
  less than \<open>50 ms + g\<close> each, so no timer is late by more than that rate.
\<close>

theorem tps_polls_timely:
  assumes "tps_inv s" and "\<forall>now \<in> set nows. clock_range now" and "gaps_ok g (tps_last s) nows" and "0 \<le> g"
  shows "mset (fst (run_polls tps_poll nows s)) = expired (ticks_counted nows s) (tps_dues s)
    \<and> int (ticks_counted nows s) * 50000000 \<le> tps_last (snd (run_polls tps_poll nows s)) - tps_last s
    \<and> last (tps_last s # nows) - tps_last s < int (ticks_counted nows s) * (50000000 + g) + 50000000"
  using tps_polls_correct[OF assms(1,2)] ticks_not_ahead_of_clock[OF assms(1,2)]
    ticks_not_far_behind[OF assms(1-4)] by simp

theorem tps_polls_timely_witness:
  "130000000 - tps_last (tps_new 0 :: nat timing_source)
    < int (ticks_counted [60000000, 130000000] (tps_new 0 :: nat timing_source)) * (50000000 + 70000000) + 50000000"
  using tps_polls_timely[of "tps_new 0 :: nat timing_source" "[60000000, 130000000]" 70000000]
  by (simp add: tps_new_correct clock_range_def)

text \<open>
  C28: A timer of any length up to eleven days, asked for before the first advance, is handed out
  by a poll exactly if the whole ticks of its duration and one more have passed, whichever of
  the four wheels it is on and through all carries between them.
\<close>

theorem fresh_timer_fires_exactly:
  assumes "clock_range t0" and "clock_range now" and "0 \<le> d" and "d div 50 < 19081200"
  shows "fst (tps_poll now (tps_schedule d x (tps_new t0))) =
    (if (d div 50 + 1) * 50000000 \<le> now - t0 then [x] else [])"
  by (rule fresh_timer_poll[OF assms])

theorem fresh_timer_fires_exactly_witness:
  "fst (tps_poll 3600050000000 (tps_schedule 3600000 ''hour'' (tps_new 0))) = [''hour'']
    \<and> fst (tps_poll 3600049999999 (tps_schedule 3600000 ''hour'' (tps_new 0))) = []"
  using fresh_timer_fires_exactly[of 0 3600050000000 3600000 "''hour''"]
    fresh_timer_fires_exactly[of 0 3600049999999 3600000 "''hour''"]
  by (simp add: clock_range_def)

text \<open>
  The remainder of every advance is dropped: polls that are between one and two ticks apart
  count one tick each, however long the sequence, so timers drift late by up to half of the
  time that passes.
\<close>

theorem tps_polls_drift:
  assumes "tps_inv s" and "50000000 \<le> \<delta>" and "\<delta> < 100000000"
    and "\<forall>i<k. clock_range (tps_last s + int (Suc i) * \<delta>)"
  shows "ticks_counted (map (\<lambda>i. tps_last s + int (Suc i) * \<delta>) [0..<k]) s = k"
  by (rule ticks_counted_regular[OF assms(1-3)]) (use assms(4) in simp)

theorem tps_polls_drift_witness:
  "ticks_counted (map (\<lambda>i. 0 + int (Suc i) * 90000000) [0..<10]) (tps_new 0 :: nat timing_source) = 10"
  using tps_polls_drift[of "tps_new 0 :: nat timing_source" 90000000 10]
  by (simp add: tps_new_correct clock_range_def)

end
