(* ===== verification/Io_Request.thy ===== *)
theory Io_Request
  imports Prelude "HOL-Library.Word"
begin

text \<open>
  \<open>types.h\<close>, \<open>io_request.h\<close>, \<open>io_request.cpp\<close>, \<open>aio_request_result.h\<close>, \<open>aio.h\<close> and
  \<open>aio.cpp\<close> of \<open>src/io\<close>: read requests and their buffers, and requests handed to the POSIX
  asynchronous I/O calls.

  Buffers are shared between a request and its copies, so they live in an explicit heap of
  bytes, and a request holds an address. Control blocks live in a heap of their own.
  \<open>aio_read\<close> and \<open>aio_error\<close> are the operating system's: they are arguments.
\<close>

subsection \<open>Requests and buffers\<close>

type_synonym byte = "8 word"
type_synonym address = nat

record io_size =
  size_value :: size_t

record io_offset =
  offset_value :: int

record read_request =
  request_buffer :: address
  nbytes :: io_size
  file_offset :: io_offset

definition Size :: "size_t \<Rightarrow> io_size" where
  "Size n = \<lparr>size_value = n\<rparr>"

definition Offset :: "int \<Rightarrow> io_offset" where
  "Offset n = \<lparr>offset_value = n\<rparr>"

text \<open>
  \<open>new char[n]\<close> leaves the bytes indeterminate: they are the argument \<open>junk\<close>.
\<close>

definition new_buffer :: "(nat \<Rightarrow> byte) \<Rightarrow> size_t \<Rightarrow> byte list list \<Rightarrow> address \<times> byte list list" where
  "new_buffer junk n heap = (length heap, heap @ [map junk [0..<n]])"

definition request_new ::
  "(nat \<Rightarrow> byte) \<Rightarrow> io_size \<Rightarrow> io_offset \<Rightarrow> byte list list \<Rightarrow> read_request \<times> byte list list"
where
  "request_new junk n off heap =
     (let (buf, heap1) = new_buffer junk (size_value n) heap
      in (\<lparr>request_buffer = buf, nbytes = n, file_offset = off\<rparr>, heap1))"

definition request_size :: "read_request \<Rightarrow> size_t" where
  "request_size r = size_value (nbytes r)"

definition request_offset :: "read_request \<Rightarrow> int" where
  "request_offset r = offset_value (file_offset r)"

text \<open>\<open>std::copy_n\<close>: element by element, from the first.\<close>

fun copy_n :: "address \<Rightarrow> nat \<Rightarrow> address \<Rightarrow> nat \<Rightarrow> byte list list \<Rightarrow> byte list list" where
  "copy_n src 0 dst i heap = heap"
| "copy_n src (Suc n) dst i heap =
     copy_n src n dst (i + 1) (heap[dst := (heap ! dst)[i := heap ! src ! i]])"

definition copy_buffer :: "(nat \<Rightarrow> byte) \<Rightarrow> read_request \<Rightarrow> byte list list \<Rightarrow> address \<times> byte list list" where
  "copy_buffer junk r heap =
     (let buff_size = size_value (nbytes r);
          (copy, heap1) = new_buffer junk buff_size heap
      in (copy, copy_n (request_buffer r) buff_size copy 0 heap1))"

definition request_ok :: "byte list list \<Rightarrow> read_request \<Rightarrow> bool" where
  "request_ok heap r \<longleftrightarrow> request_buffer r < length heap \<and> length (heap ! request_buffer r) = request_size r"

lemma copy_n_correct:
  assumes "src < length heap" "dst < length heap" "src \<noteq> dst"
    and "length (heap ! src) = i + n" "length (heap ! dst) = i + n" "take i (heap ! dst) = take i (heap ! src)"
  shows "copy_n src n dst i heap = heap[dst := heap ! src]"
  using assms
proof (induction n arbitrary: i heap)
  case 0
  then have "heap ! dst = heap ! src" by simp
  then show ?case by (metis copy_n.simps(1) list_update_id)
next
  case (Suc n)
  let ?d = "(heap ! dst)[i := heap ! src ! i]"
  have "take (Suc i) ?d = take (Suc i) (heap ! src)"
    using Suc.prems by (simp add: take_Suc_conv_app_nth)
  then have "copy_n src n dst (Suc i) (heap[dst := ?d]) = heap[dst := ?d, dst := heap[dst := ?d] ! src]"
    using Suc.prems by (intro Suc.IH) auto
  then show ?case using Suc.prems by simp
qed

lemma request_new_ok:
  "request_ok (snd (request_new junk n off heap)) (fst (request_new junk n off heap))"
  by (simp add: request_ok_def request_new_def new_buffer_def request_size_def)

lemma copy_buffer_correct:
  assumes "request_ok heap r"
  shows "copy_buffer junk r heap = (length heap, heap @ [heap ! request_buffer r])"
proof -
  let ?n = "size_value (nbytes r)"
  let ?h = "heap @ [map junk [0..<?n]]"
  have "copy_n (request_buffer r) ?n (length heap) 0 ?h = ?h[length heap := ?h ! request_buffer r]"
    using assms by (intro copy_n_correct) (auto simp: request_ok_def request_size_def nth_append)
  then show ?thesis
    using assms by (simp add: copy_buffer_def new_buffer_def request_ok_def nth_append)
qed

subsection \<open>Asynchronous reads\<close>

datatype aio_error_code = Canceled | NoExist | Unknown | InProgress

datatype 'r aio_result = AioValue 'r | AioError aio_error_code

text \<open>\<open>visit_aio_result\<close>; both visitors act on the state that is passed through.\<close>

fun visit_aio_result :: "'r aio_result \<Rightarrow> ('r \<Rightarrow> 's \<Rightarrow> 's) \<Rightarrow> (aio_error_code \<Rightarrow> 's \<Rightarrow> 's) \<Rightarrow> 's \<Rightarrow> 's" where
  "visit_aio_result (AioValue r) on_success on_error s = on_success r s"
| "visit_aio_result (AioError e) on_success on_error s = on_error e s"

text \<open>The values of \<open>errno.h\<close> on Linux.\<close>

definition EINPROGRESS :: int where "EINPROGRESS = 115"
definition ECANCELED :: int where "ECANCELED = 125"
definition EEXIST :: int where "EEXIST = 17"
definition ENOENT :: int where "ENOENT = 2"

lemmas errno_defs = EINPROGRESS_def ECANCELED_def EEXIST_def ENOENT_def

definition parse_aio_error :: "int \<Rightarrow> aio_error_code" where
  "parse_aio_error error_code =
     (if error_code = EINPROGRESS then InProgress
      else if error_code = ECANCELED then Canceled
      else if error_code = EEXIST then NoExist
      else Unknown)"

text \<open>The fields of a control block that the library sets.\<close>

record aiocb =
  aio_fildes :: int
  aio_buf :: address
  aio_nbytes :: size_t
  aio_offset :: int

record in_flight_request =
  in_flight_read :: read_request
  control_block :: address

text \<open>
  \<open>aio_error\<close> maps a control block to its status at the time of the call.
\<close>

definition is_completed :: "(address \<Rightarrow> int) \<Rightarrow> in_flight_request \<Rightarrow> bool" where
  "is_completed aio_error r \<longleftrightarrow> aio_error (control_block r) \<noteq> EINPROGRESS"

definition read_result :: "(address \<Rightarrow> int) \<Rightarrow> in_flight_request \<Rightarrow> read_request aio_result" where
  "read_result aio_error r =
     (let aio_status = aio_error (control_block r)
      in if aio_status = 0 then AioValue (in_flight_read r) else AioError (parse_aio_error aio_status))"

text \<open>
  \<open>enqueue_and_start_read\<close>: the control block is allocated, filled in and handed to
  \<open>aio_read\<close>, an argument that maps it and the operating system's state to the call's return
  value and the next state. The return value is dropped, as in the code.
\<close>

definition enqueue_and_start_read ::
  "(address \<Rightarrow> aiocb \<Rightarrow> 'os \<Rightarrow> int \<times> 'os) \<Rightarrow> int \<Rightarrow> read_request \<Rightarrow> aiocb list \<Rightarrow> 'os
    \<Rightarrow> in_flight_request \<times> aiocb list \<times> 'os"
where
  "enqueue_and_start_read aio_read fileno request cbs os =
     (let cb = \<lparr>aio_fildes = fileno, aio_buf = request_buffer request, aio_nbytes = request_size request,
                aio_offset = request_offset request\<rparr>;
          aio_request = \<lparr>in_flight_read = request, control_block = length cbs\<rparr>;
          (rc, os1) = aio_read (length cbs) cb os
      in (aio_request, cbs @ [cb], os1))"

end
