(* ===== verification/Io_Poll_Source.thy ===== *)
theory Io_Poll_Source
  imports Io_Request Poll_Source_Spec
begin

text \<open>
  \<open>io_poll_source.h\<close> and \<open>io_poll_source.cpp\<close> of \<open>src/io\<close>: the reads in flight, each with
  the callback that takes its result. A poll asks the operating system for the status of
  every request, once and in order, and turns the completed ones into jobs. The lock is held
  for the whole of \<open>poll\<close> and for the insertion in \<open>queue_read\<close>.
\<close>

subsection \<open>Operations\<close>

record 'cb io_source =
  in_flight_requests :: "('cb \<times> in_flight_request) list"

definition io_new :: "'cb io_source" where
  "io_new = \<lparr>in_flight_requests = []\<rparr>"

definition io_poll_frequency :: int where
  "io_poll_frequency = 5"

text \<open>
  The loop of \<open>poll\<close>, with its two vectors as accumulators. \<open>make_job\<close> is the closure the
  loop builds from the callback and the request; what it does when it runs is
  \<open>finish_read\<close>.
\<close>

fun poll_requests ::
  "(address \<Rightarrow> int) \<Rightarrow> ('cb \<Rightarrow> in_flight_request \<Rightarrow> 'j) \<Rightarrow> ('cb \<times> in_flight_request) list
    \<Rightarrow> 'j list \<Rightarrow> ('cb \<times> in_flight_request) list \<Rightarrow> 'j list \<times> ('cb \<times> in_flight_request) list"
where
  "poll_requests aio_error make_job [] completed_jobs pending_requests = (completed_jobs, pending_requests)"
| "poll_requests aio_error make_job ((callback, request) # reqs) completed_jobs pending_requests =
     (if is_completed aio_error request
      then poll_requests aio_error make_job reqs (completed_jobs @ [make_job callback request]) pending_requests
      else poll_requests aio_error make_job reqs completed_jobs (pending_requests @ [(callback, request)]))"

definition io_poll ::
  "(address \<Rightarrow> int) \<Rightarrow> ('cb \<Rightarrow> in_flight_request \<Rightarrow> 'j) \<Rightarrow> 'cb io_source \<Rightarrow> 'j list \<times> 'cb io_source"
where
  "io_poll aio_error make_job s =
     (let (completed_jobs, pending_requests) = poll_requests aio_error make_job (in_flight_requests s) [] []
      in (completed_jobs, s\<lparr>in_flight_requests := pending_requests\<rparr>))"

definition finish_read ::
  "(address \<Rightarrow> int) \<Rightarrow> ('cb \<Rightarrow> read_request aio_result \<Rightarrow> 's \<Rightarrow> 's) \<Rightarrow> 'cb \<Rightarrow> in_flight_request \<Rightarrow> 's \<Rightarrow> 's"
where
  "finish_read aio_error run_callback callback request s =
     (let underlying = read_result aio_error request in run_callback callback underlying s)"

definition queue_read ::
  "(address \<Rightarrow> aiocb \<Rightarrow> 'os \<Rightarrow> int \<times> 'os) \<Rightarrow> int \<Rightarrow> read_request \<Rightarrow> 'cb
    \<Rightarrow> 'cb io_source \<times> aiocb list \<times> 'os \<Rightarrow> 'cb io_source \<times> aiocb list \<times> 'os"
where
  "queue_read aio_read fileno request callback = (\<lambda>(s, cbs, os).
     let (in_flight_request, cbs1, os1) = enqueue_and_start_read aio_read fileno request cbs os
     in (s\<lparr>in_flight_requests := in_flight_requests s @ [(callback, in_flight_request)]\<rparr>, cbs1, os1))"

subsection \<open>A poll is a stable partition\<close>

lemma poll_requests_eq:
  "poll_requests aio_error make_job reqs jobs pending =
     (jobs @ map (\<lambda>(cb, r). make_job cb r) (filter (\<lambda>(cb, r). is_completed aio_error r) reqs),
      pending @ filter (\<lambda>(cb, r). \<not> is_completed aio_error r) reqs)"
  by (induction aio_error make_job reqs jobs pending rule: poll_requests.induct) auto

lemma io_poll_eq:
  "io_poll aio_error make_job s =
     (map (\<lambda>(cb, r). make_job cb r) (filter (\<lambda>(cb, r). is_completed aio_error r) (in_flight_requests s)),
      s\<lparr>in_flight_requests := filter (\<lambda>(cb, r). \<not> is_completed aio_error r) (in_flight_requests s)\<rparr>)"
  by (simp add: io_poll_def poll_requests_eq)

lemma multiset_partition_map:
  "mset (map f (filter P xs)) + image_mset f (mset (filter Q xs)) = image_mset f (mset xs)"
  if "\<And>x. Q x \<longleftrightarrow> \<not> P x"
  using that by (induction xs) auto

lemma io_poll_conserves:
  "mset (fst (io_poll aio_error make_job s)) + image_mset (\<lambda>(cb, r). make_job cb r) (mset (in_flight_requests (snd (io_poll aio_error make_job s))))
     = image_mset (\<lambda>(cb, r). make_job cb r) (mset (in_flight_requests s))"
  using multiset_partition_map[where xs = "in_flight_requests s" and f = "\<lambda>(cb, r). make_job cb r"
      and P = "\<lambda>(cb, r). is_completed aio_error r" and Q = "\<lambda>(cb, r). \<not> is_completed aio_error r"]
  by (simp add: io_poll_eq split_def)

interpretation reads: poll_source "\<lambda>st. io_poll st make_job"
    "\<lambda>s. image_mset (\<lambda>(cb, r). make_job cb r) (mset (in_flight_requests s))" "\<lambda>s. True" "\<lambda>st. True"
  for make_job
  by unfold_locales (simp_all add: io_poll_conserves)

text \<open>
  Repeated polls, each with the statuses it sees. A request that completes at some poll is
  turned into a job by the first poll that sees it complete, once.
\<close>

lemma io_polls_left:
  "in_flight_requests (snd (run_polls (\<lambda>st. io_poll st make_job) sts s)) =
     filter (\<lambda>(cb, r). \<forall>st \<in> set sts. \<not> is_completed st r) (in_flight_requests s)"
proof (induction sts arbitrary: s)
  case (Cons st sts)
  then show ?case by (simp add: run_polls_Cons io_poll_eq split_def conj_commute del: run_polls.simps(2))
qed (simp add: split_def)

subsection \<open>A read from request to result\<close>

lemma queue_read_fields:
  assumes "queue_read aio_read fd req cb (s, cbs, os) = (s', cbs', os')"
  shows "in_flight_requests s' = in_flight_requests s @ [(cb, \<lparr>in_flight_read = req, control_block = length cbs\<rparr>)]"
    and "cbs' = cbs @ [\<lparr>aio_fildes = fd, aio_buf = request_buffer req, aio_nbytes = request_size req,
           aio_offset = request_offset req\<rparr>]"
  using assms by (auto simp: queue_read_def enqueue_and_start_read_def Let_def split: prod.splits)

subsection \<open>Properties\<close>

text \<open>
  Over any sequence of polls each read in flight becomes a job exactly once or is still in
  flight, and it is still in flight, in its old place, exactly when no poll saw it completed.
\<close>

theorem reads_polled_once:
  "mset (fst (run_polls (\<lambda>st. io_poll st make_job) sts s))
      + image_mset (\<lambda>(cb, r). make_job cb r) (mset (in_flight_requests (snd (run_polls (\<lambda>st. io_poll st make_job) sts s))))
      = image_mset (\<lambda>(cb, r). make_job cb r) (mset (in_flight_requests s))
    \<and> in_flight_requests (snd (run_polls (\<lambda>st. io_poll st make_job) sts s)) =
        filter (\<lambda>(cb, r). \<not> (\<exists>st \<in> set sts. is_completed st r)) (in_flight_requests s)"
  using reads.polls_conserve[where make_job = make_job and s = s and ins = sts] io_polls_left[of make_job sts s] by simp

text \<open>
  C33: What a client asks for comes back: the control block handed to the operating system names
  the file, the buffer, the size and the offset of the request; the request that a successful
  read resolves to is the one that was queued; and \<open>copy_buffer\<close> gives a new buffer of the size
  asked for with exactly the bytes that are in the request's buffer at that time, and changes
  no other buffer.
\<close>

theorem read_request_roundtrip:
  assumes "request_new junk (Size n) (Offset off) heap = (req, heap1)"
    and "queue_read aio_read fd req cb (s, cbs, os) = (s', cbs', os')" and "request_ok heap2 req"
  shows "\<exists>r. in_flight_requests s' = in_flight_requests s @ [(cb, r)]
    \<and> cbs' ! control_block r = \<lparr>aio_fildes = fd, aio_buf = request_buffer req, aio_nbytes = n, aio_offset = off\<rparr>
    \<and> (\<forall>st. st (control_block r) = 0 \<longrightarrow> read_result st r = AioValue req)
    \<and> copy_buffer junk2 req heap2 = (length heap2, heap2 @ [heap2 ! request_buffer req])
    \<and> length (heap2 ! request_buffer req) = n"
proof -
  note q = queue_read_fields[OF assms(2)]
  have sz: "request_size req = n" "request_offset req = off"
    using assms(1) by (auto simp: request_new_def new_buffer_def request_size_def request_offset_def Size_def Offset_def)
  have "length (heap2 ! request_buffer req) = n" using assms(3) sz by (simp add: request_ok_def)
  then show ?thesis
    using q sz copy_buffer_correct[OF assms(3)] by (simp add: read_result_def)
qed

theorem read_request_roundtrip_witness:
  "\<exists>r. in_flight_requests \<lparr>in_flight_requests = [(7 :: nat, \<lparr>in_flight_read = \<lparr>request_buffer = 0, nbytes = Size 2, file_offset = Offset 8\<rparr>,
        control_block = 0\<rparr>)]\<rparr> = [(7, r)]
    \<and> copy_buffer (\<lambda>i. 0) \<lparr>request_buffer = 0, nbytes = Size 2, file_offset = Offset 8\<rparr> [[104, 105]] = (1, [[104, 105], [104, 105]])"
proof -
  let ?req = "\<lparr>request_buffer = 0, nbytes = Size 2, file_offset = Offset 8\<rparr>"
  have new: "request_new (\<lambda>i. 0) (Size 2) (Offset 8) [] = (?req, [[0, 0]])"
    by (simp add: request_new_def new_buffer_def Size_def Let_def upt_rec)
  have qd: "queue_read (\<lambda>c cb os. (0 :: int, os :: unit)) 3 ?req (7 :: nat) (io_new, [], ())
      = (\<lparr>in_flight_requests = [(7, \<lparr>in_flight_read = ?req, control_block = 0\<rparr>)]\<rparr>,
         [\<lparr>aio_fildes = 3, aio_buf = 0, aio_nbytes = 2, aio_offset = 8\<rparr>], ())"
    by (simp add: queue_read_def enqueue_and_start_read_def io_new_def request_size_def request_offset_def Size_def Offset_def)
  have ok: "request_ok [[104, 105]] ?req"
    by (simp add: request_ok_def request_size_def Size_def)
  show ?thesis using read_request_roundtrip[OF new qd ok, of "\<lambda>i. 0"] by (simp add: io_new_def)
qed

end
