(* ===== verification/Cells.thy ===== *)
theory Cells
  imports Poll_Loop Timing_Poll_Source Io_Poll_Source
begin

text \<open>
  \<open>src/cell\<close> and \<open>async_result.h\<close>: results, and the four kinds of cell behind the \<open>ICell\<close>
  interface. Cells are shared between tasks and callbacks, so they live in an explicit store
  and are referred to by address; a cell is never freed, which is what the shared pointers
  the callbacks capture achieve.

  The callbacks that reach a cell are the closures the library itself builds (in \<open>Task::map\<close>,
  \<open>Task::bind\<close> and the two combining cells); \<open>callback\<close> has one constructor for each, with what
  the closure captures. \<open>job\<close> does the same for the closures that are queued as jobs. The
  user's functions are known by name (\<open>'f\<close>); what they do is an argument, see \<open>Tasks\<close>.

  A cell's mutex makes each operation one step, except for the shared lock of \<open>await\<close> and the
  wait of \<open>block\<close>, which are the subject of \<open>Cell_Blocking\<close>; what an overlap of two awaits does to
  a cell is \<open>drop_callback\<close>.
\<close>

subsection \<open>Results\<close>

datatype async_error = Rejected | IOError

fun error_to_string :: "async_error \<Rightarrow> string" where
  "error_to_string Rejected = ''Rejected''"
| "error_to_string IOError = ''IOError''"

datatype ('v, 'e) result = Value 'v | Err 'e

fun visit_result :: "('v, 'e) result \<Rightarrow> ('v \<Rightarrow> 's \<Rightarrow> 's) \<Rightarrow> ('e \<Rightarrow> 's \<Rightarrow> 's) \<Rightarrow> 's \<Rightarrow> 's" where
  "visit_result (Value v) visit_t visit_err s = visit_t v s"
| "visit_result (Err e) visit_t visit_err s = visit_err e s"

fun map_result :: "('v, 'e) result \<Rightarrow> ('v \<Rightarrow> 'r) \<Rightarrow> ('e \<Rightarrow> 'r) \<Rightarrow> 'r" where
  "map_result (Value v) t_func err_func = t_func v"
| "map_result (Err e) t_func err_func = err_func e"

text \<open>
  The values that tasks carry: the user's own, the unit of timers, the request of a read,
  the vector of a \<open>when_all\<close>, and what \<open>std::vector<T>(n)\<close> is filled with.
\<close>

datatype 'a val = Plain 'a | Unit | Request read_request | Vector "'a val list" | DefaultInit

type_synonym 'a outcome = "('a val, async_error) result"

subsection \<open>Callbacks, jobs and the store\<close>

datatype 'f callback =
    OnMap address 'f
  | OnBind address address 'f
  | OnWhenAny address address
  | OnWhenAll address nat address

datatype ('f, 'a) job =
    RunCallback "'f callback" "'a outcome"
  | RunTask address 'f
  | CompleteTimer address
  | FinishRead address in_flight_request

record ('f, 'a) write_once =
  wo_value :: "'a outcome option"
  wo_callbacks :: "'f callback list"

record 'f tracking_once =
  tc_cell :: "address option"
  tc_callbacks :: "'f callback list"

record when_any_context =
  num_erroneous_cells :: size_t
  any_total_cells :: size_t

record 'a when_all_context =
  resolved_values :: "'a val list"
  num_resolved_cells :: size_t
  all_total_cells :: size_t

datatype ('f, 'a) cell =
    WriteOnce "('f, 'a) write_once"
  | Tracking "'f tracking_once"
  | WhenAny address "address list"
  | WhenAll address "address list"

record ('f, 'a, 'os) world =
  cells :: "('f, 'a) cell list"
  any_contexts :: "when_any_context list"
  all_contexts :: "'a when_all_context list"
  pool :: "('f, 'a) job worker_pool"
  at_hand :: "(nat \<times> ('f, 'a) job fn) list"
  polled :: "('f, 'a) job fn list"
  timers :: "('f, 'a) job timing_source"
  io_source :: "address io_source"
  buffers :: "byte list list"
  aiocbs :: "aiocb list"
  os_state :: 'os

text \<open>
  A job leaves its queue before it runs: \<open>at_hand\<close> has the job each worker has taken and not
  yet run, and \<open>polled\<close> the jobs that a poll has handed the poll thread and that it has not
  queued yet. The jobs left are those in the queues and those in some thread's hands.
\<close>

definition held :: "('f, 'a, 'os) world \<Rightarrow> ('f, 'a) job fn multiset" where
  "held w = image_mset snd (mset (at_hand w)) + mset (polled w)"

definition jobs_left :: "('f, 'a, 'os) world \<Rightarrow> ('f, 'a) job fn multiset" where
  "jobs_left w = pool_jobs (pool w) + held w"

definition set_cell :: "address \<Rightarrow> ('f, 'a) cell \<Rightarrow> ('f, 'a, 'os) world \<Rightarrow> ('f, 'a, 'os) world" where
  "set_cell a c w = w\<lparr>cells := (cells w)[a := c]\<rparr>"

definition new_cell :: "('f, 'a) cell \<Rightarrow> ('f, 'a, 'os) world \<Rightarrow> address \<times> ('f, 'a, 'os) world" where
  "new_cell c w = (length (cells w), w\<lparr>cells := cells w @ [c]\<rparr>)"

definition queue_job :: "sched_context \<Rightarrow> ('f, 'a) job \<Rightarrow> ('f, 'a, 'os) world \<Rightarrow> ('f, 'a, 'os) world" where
  "queue_job ctx j w = w\<lparr>pool := scheduler_queue ctx (Some j) (pool w)\<rparr>"

subsection \<open>Write-once cells\<close>

definition write_once_new :: "('f, 'a, 'os) world \<Rightarrow> address \<times> ('f, 'a, 'os) world" where
  "write_once_new w = new_cell (WriteOnce \<lparr>wo_value = None, wo_callbacks = []\<rparr>) w"

text \<open>
  The last case of a match on a cell is one the types of the source exclude: only a
  \<open>WriteOnceCell\<close> can be written to.
\<close>

definition write_result_to_value ::
  "sched_context \<Rightarrow> 'a outcome \<Rightarrow> address \<Rightarrow> ('f, 'a, 'os) world \<Rightarrow> bool \<times> ('f, 'a, 'os) world"
where
  "write_result_to_value ctx result a w =
     (case cells w ! a of
        WriteOnce c \<Rightarrow>
          if wo_value c \<noteq> None then (False, w)
          else let w1 = set_cell a (WriteOnce (c\<lparr>wo_value := Some result\<rparr>)) w;
                   w2 = fold (\<lambda>callback. queue_job ctx (RunCallback callback result)) (wo_callbacks c) w1
               in (True, set_cell a (WriteOnce (c\<lparr>wo_value := Some result, wo_callbacks := []\<rparr>)) w2)
      | _ \<Rightarrow> (False, w))"

definition cell_write_ctx ::
  "sched_context \<Rightarrow> 'a val \<Rightarrow> address \<Rightarrow> ('f, 'a, 'os) world \<Rightarrow> bool \<times> ('f, 'a, 'os) world" where
  "cell_write_ctx ctx write_val = write_result_to_value ctx (Value write_val)"

definition cell_write :: "'a val \<Rightarrow> address \<Rightarrow> ('f, 'a, 'os) world \<Rightarrow> bool \<times> ('f, 'a, 'os) world" where
  "cell_write write_val = cell_write_ctx ctx_empty write_val"

definition cell_error_ctx ::
  "sched_context \<Rightarrow> async_error \<Rightarrow> address \<Rightarrow> ('f, 'a, 'os) world \<Rightarrow> bool \<times> ('f, 'a, 'os) world" where
  "cell_error_ctx ctx err = write_result_to_value ctx (Err err)"

definition cell_error :: "async_error \<Rightarrow> address \<Rightarrow> ('f, 'a, 'os) world \<Rightarrow> bool \<times> ('f, 'a, 'os) world" where
  "cell_error err = cell_error_ctx ctx_empty err"

definition write_once_await ::
  "address \<Rightarrow> ('f, 'a) write_once \<Rightarrow> 'f callback \<Rightarrow> ('f, 'a, 'os) world \<Rightarrow> ('f, 'a, 'os) world"
where
  "write_once_await a c callback w =
     (case wo_value c of
        Some value_inner \<Rightarrow> queue_job ctx_empty (RunCallback callback value_inner) w
      | None \<Rightarrow> set_cell a (WriteOnce (c\<lparr>wo_callbacks := wo_callbacks c @ [callback]\<rparr>)) w)"

subsection \<open>The interface of all cells\<close>

text \<open>
  A chain of cells that track each other can be a cycle (a \<open>bind\<close> whose function returns the
  task being bound), and then \<open>read\<close>, \<open>await\<close> and \<open>block\<close> do not return: \<open>None\<close>. The inner
  option of \<open>cell_read\<close> is the \<open>std::optional\<close> of the code. \<open>cell_block\<close> gives \<open>None\<close> also when
  the call would wait. It is a \<open>block\<close> whose waits end only with a result; one that is woken
  without a notification throws, which \<open>Cell_Blocking\<close> and \<open>Sum_Main\<close> allow for.
\<close>

partial_function (option) cell_read :: "address \<Rightarrow> ('f, 'a, 'os) world \<Rightarrow> 'a outcome option option" where
  "cell_read a w =
     (case cells w ! a of
        WriteOnce c \<Rightarrow> Some (wo_value c)
      | Tracking c \<Rightarrow> (case tc_cell c of Some t \<Rightarrow> cell_read t w | None \<Rightarrow> Some None)
      | WhenAny underlying_cell _ \<Rightarrow> cell_read underlying_cell w
      | WhenAll underlying_cell _ \<Rightarrow> cell_read underlying_cell w)"

partial_function (option) cell_block :: "address \<Rightarrow> ('f, 'a, 'os) world \<Rightarrow> 'a outcome option" where
  "cell_block a w =
     (case cells w ! a of
        WriteOnce c \<Rightarrow> wo_value c
      | Tracking c \<Rightarrow> (case tc_cell c of Some t \<Rightarrow> cell_block t w | None \<Rightarrow> None)
      | WhenAny underlying_cell _ \<Rightarrow> cell_block underlying_cell w
      | WhenAll underlying_cell _ \<Rightarrow> cell_block underlying_cell w)"

partial_function (option) cell_await ::
  "address \<Rightarrow> 'f callback \<Rightarrow> ('f, 'a, 'os) world \<Rightarrow> ('f, 'a, 'os) world option"
where
  "cell_await a callback w =
     (case cells w ! a of
        WriteOnce c \<Rightarrow> Some (write_once_await a c callback w)
      | Tracking c \<Rightarrow>
          (case tc_cell c of
             None \<Rightarrow> Some (set_cell a (Tracking (c\<lparr>tc_callbacks := tc_callbacks c @ [callback]\<rparr>)) w)
           | Some t \<Rightarrow> cell_await t callback w)
      | WhenAny underlying_cell _ \<Rightarrow> cell_await underlying_cell callback w
      | WhenAll underlying_cell _ \<Rightarrow> cell_await underlying_cell callback w)"

text \<open>
  A cell pushes the callback onto its vector under a shared lock, so two calls of \<open>await\<close> on one
  cell may overlap, and then one of the two callbacks may be missing from the vector afterwards
  (\<open>await_needs_exclusive_lock\<close> in \<open>Cell_Blocking\<close> takes the two calls apart). \<open>cell_await\<close> is a
  call that overlaps with no other; \<open>drop_callback\<close> is what such an overlap takes away.
\<close>

definition drop_callback :: "address \<Rightarrow> 'f callback \<Rightarrow> ('f, 'a, 'os) world \<Rightarrow> ('f, 'a, 'os) world" where
  "drop_callback e cb w =
     (case cells w ! e of
        WriteOnce c \<Rightarrow> set_cell e (WriteOnce (c\<lparr>wo_callbacks := remove1 cb (wo_callbacks c)\<rparr>)) w
      | Tracking c \<Rightarrow> set_cell e (Tracking (c\<lparr>tc_callbacks := remove1 cb (tc_callbacks c)\<rparr>)) w
      | _ \<Rightarrow> w)"

fun await_callbacks ::
  "address \<Rightarrow> 'f callback list \<Rightarrow> ('f, 'a, 'os) world \<Rightarrow> ('f, 'a, 'os) world option"
where
  "await_callbacks a [] w = Some w"
| "await_callbacks a (cb # cbs) w = Option.bind (cell_await a cb w) (await_callbacks a cbs)"

subsection \<open>Tracking cells\<close>

definition tracking_new :: "('f, 'a, 'os) world \<Rightarrow> address \<times> ('f, 'a, 'os) world" where
  "tracking_new w = new_cell (Tracking \<lparr>tc_cell = None, tc_callbacks = []\<rparr>) w"

definition cell_track :: "address \<Rightarrow> address \<Rightarrow> ('f, 'a, 'os) world \<Rightarrow> (bool \<times> ('f, 'a, 'os) world) option" where
  "cell_track new_target a w =
     (case cells w ! a of
        Tracking c \<Rightarrow>
          if tc_cell c \<noteq> None then Some (False, w)
          else let w1 = set_cell a (Tracking (c\<lparr>tc_cell := Some new_target\<rparr>)) w
               in (case await_callbacks new_target (tc_callbacks c) w1 of
                     None \<Rightarrow> None
                   | Some w2 \<Rightarrow> Some (True, set_cell a (Tracking \<lparr>tc_cell = Some new_target, tc_callbacks = []\<rparr>) w2))
      | _ \<Rightarrow> Some (False, w))"

subsection \<open>Combining cells\<close>

definition log_error :: "address \<Rightarrow> ('f, 'a, 'os) world \<Rightarrow> bool \<times> ('f, 'a, 'os) world" where
  "log_error x w =
     (let ctx = any_contexts w ! x;
          cells_errored_so_far = sz_add 1 (num_erroneous_cells ctx)
      in (any_total_cells ctx \<le> cells_errored_so_far,
          w\<lparr>any_contexts := (any_contexts w)
              [x := ctx\<lparr>num_erroneous_cells := sz_add (num_erroneous_cells ctx) 1\<rparr>]\<rparr>))"

definition commit_resolved_value ::
  "address \<Rightarrow> nat \<Rightarrow> 'a val \<Rightarrow> ('f, 'a, 'os) world \<Rightarrow> bool \<times> ('f, 'a, 'os) world"
where
  "commit_resolved_value x cell_id v w =
     (let ctx = all_contexts w ! x;
          cells_resolved_so_far = num_resolved_cells ctx
      in (all_total_cells ctx \<le> sz_add cells_resolved_so_far 1,
          w\<lparr>all_contexts := (all_contexts w)
              [x := ctx\<lparr>resolved_values := (resolved_values ctx)[cell_id := v],
                        num_resolved_cells := sz_add cells_resolved_so_far 1\<rparr>]\<rparr>))"

fun await_each :: "(address \<times> 'f callback) list \<Rightarrow> ('f, 'a, 'os) world \<Rightarrow> ('f, 'a, 'os) world option" where
  "await_each [] w = Some w"
| "await_each ((a, cb) # rest) w = Option.bind (cell_await a cb w) (await_each rest)"

definition when_any_new ::
  "address list \<Rightarrow> ('f, 'a, 'os) world \<Rightarrow> (address \<times> ('f, 'a, 'os) world) option"
where
  "when_any_new cs w =
     (let (underlying_cell, w1) = write_once_new w;
          exe_ctx = length (any_contexts w1);
          w2 = w1\<lparr>any_contexts := any_contexts w1
                    @ [\<lparr>num_erroneous_cells = 0, any_total_cells = length cs\<rparr>]\<rparr>
      in map_option (new_cell (WhenAny underlying_cell cs))
           (await_each (map (\<lambda>c. (c, OnWhenAny underlying_cell exe_ctx)) cs) w2))"

definition when_all_new ::
  "address list \<Rightarrow> ('f, 'a, 'os) world \<Rightarrow> (address \<times> ('f, 'a, 'os) world) option"
where
  "when_all_new cs w =
     (let (underlying_cell, w1) = write_once_new w;
          execution_context = length (all_contexts w1);
          w2 = w1\<lparr>all_contexts := all_contexts w1
                    @ [\<lparr>resolved_values = replicate (length cs) DefaultInit, num_resolved_cells = 0,
                        all_total_cells = length cs\<rparr>]\<rparr>
      in map_option (new_cell (WhenAll underlying_cell cs))
           (await_each
             (map (\<lambda>cell_id. (cs ! cell_id, OnWhenAll execution_context cell_id underlying_cell)) [0..<length cs]) w2))"

end
