(* ===== verification/Tasks.thy ===== *)
theory Tasks
  imports Cells
begin

text \<open>
  \<open>include/async_lib\<close> and \<open>src/async_lib\<close>: tasks, the sources that mint them, the factory
  that ties them to one scheduler, and the jobs and callbacks running on the workers.

  The user's functions are the fields of an \<open>environment\<close>: a function passed to \<open>create\<close>,
  \<open>map\<close> or \<open>bind\<close> may itself use the library, so it acts on the world, and it need not return
  (\<open>None\<close>). The operating system's asynchronous I/O calls are its other two fields.
\<close>

subsection \<open>Tasks and what the library calls\<close>

record task =
  task_cell :: address

record ('f, 'a, 'os) environment =
  call_fn :: "'f \<Rightarrow> ('f, 'a, 'os) world \<Rightarrow> ('a val \<times> ('f, 'a, 'os) world) option"
  map_fn :: "'f \<Rightarrow> 'a val \<Rightarrow> ('f, 'a, 'os) world \<Rightarrow> ('a val \<times> ('f, 'a, 'os) world) option"
  bind_fn :: "'f \<Rightarrow> 'a val \<Rightarrow> ('f, 'a, 'os) world \<Rightarrow> (task \<times> ('f, 'a, 'os) world) option"
  aio_error_fn :: "'os \<Rightarrow> address \<Rightarrow> int"
  aio_read_fn :: "address \<Rightarrow> aiocb \<Rightarrow> 'os \<Rightarrow> int \<times> 'os"

definition task_new :: "'f \<Rightarrow> ('f, 'a, 'os) world \<Rightarrow> task \<times> ('f, 'a, 'os) world" where
  "task_new func w =
     (let (cell, w1) = write_once_new w
      in (\<lparr>task_cell = cell\<rparr>, queue_job ctx_empty (RunTask cell func) w1))"

definition task_bind :: "'f \<Rightarrow> task \<Rightarrow> ('f, 'a, 'os) world \<Rightarrow> (task \<times> ('f, 'a, 'os) world) option" where
  "task_bind func t w =
     (let (tracking_cell, w1) = tracking_new w;
          (error_cell, w2) = write_once_new w1
      in map_option (Pair \<lparr>task_cell = tracking_cell\<rparr>)
           (cell_await (task_cell t) (OnBind tracking_cell error_cell func) w2))"

definition task_map :: "'f \<Rightarrow> task \<Rightarrow> ('f, 'a, 'os) world \<Rightarrow> (task \<times> ('f, 'a, 'os) world) option" where
  "task_map func t w =
     (let (cell, w1) = write_once_new w
      in map_option (Pair \<lparr>task_cell = cell\<rparr>) (cell_await (task_cell t) (OnMap cell func) w1))"

definition task_block :: "task \<Rightarrow> ('f, 'a, 'os) world \<Rightarrow> 'a outcome option" where
  "task_block t w =
     map_option (\<lambda>cell_result. map_result cell_result Value Err) (cell_block (task_cell t) w)"

fun task_list_to_cell_list :: "task list \<Rightarrow> address list \<Rightarrow> address list" where
  "task_list_to_cell_list [] cs = cs"
| "task_list_to_cell_list (t # ts) cs = task_list_to_cell_list ts (cs @ [task_cell t])"

definition task_when_any :: "task list \<Rightarrow> ('f, 'a, 'os) world \<Rightarrow> (task \<times> ('f, 'a, 'os) world) option" where
  "task_when_any tasks w =
     map_option (\<lambda>(c, w1). (\<lparr>task_cell = c\<rparr>, w1)) (when_any_new (task_list_to_cell_list tasks []) w)"

definition task_when_all :: "task list \<Rightarrow> ('f, 'a, 'os) world \<Rightarrow> (task \<times> ('f, 'a, 'os) world) option" where
  "task_when_all tasks w =
     map_option (\<lambda>(c, w1). (\<lparr>task_cell = c\<rparr>, w1)) (when_all_new (task_list_to_cell_list tasks []) w)"

subsection \<open>Sources\<close>

record value_source =
  source_cell :: address

definition value_source_new :: "('f, 'a, 'os) world \<Rightarrow> value_source \<times> ('f, 'a, 'os) world" where
  "value_source_new w = (let (c, w1) = write_once_new w in (\<lparr>source_cell = c\<rparr>, w1))"

definition value_source_create :: "value_source \<Rightarrow> task" where
  "value_source_create s = \<lparr>task_cell = source_cell s\<rparr>"

definition value_source_error :: "async_error \<Rightarrow> value_source \<Rightarrow> ('f, 'a, 'os) world \<Rightarrow> ('f, 'a, 'os) world" where
  "value_source_error err s w = snd (cell_error err (source_cell s) w)"

definition value_source_error_ctx ::
  "sched_context \<Rightarrow> async_error \<Rightarrow> value_source \<Rightarrow> ('f, 'a, 'os) world \<Rightarrow> ('f, 'a, 'os) world" where
  "value_source_error_ctx ctx err s w = snd (cell_error_ctx ctx err (source_cell s) w)"

definition value_source_complete :: "'a val \<Rightarrow> value_source \<Rightarrow> ('f, 'a, 'os) world \<Rightarrow> ('f, 'a, 'os) world" where
  "value_source_complete v s w = snd (cell_write v (source_cell s) w)"

definition value_source_complete_ctx ::
  "sched_context \<Rightarrow> 'a val \<Rightarrow> value_source \<Rightarrow> ('f, 'a, 'os) world \<Rightarrow> ('f, 'a, 'os) world" where
  "value_source_complete_ctx ctx v s w = snd (cell_write_ctx ctx v (source_cell s) w)"

definition timer_after :: "int \<Rightarrow> ('f, 'a, 'os) world \<Rightarrow> task \<times> ('f, 'a, 'os) world" where
  "timer_after duration w =
     (let (vs, w1) = value_source_new w;
          w2 = w1\<lparr>timers := tps_schedule duration (CompleteTimer (source_cell vs)) (timers w1)\<rparr>
      in (value_source_create vs, w2))"

text \<open>The callback of a read, as it runs on the result of the request.\<close>

definition read_callback :: "address \<Rightarrow> read_request aio_result \<Rightarrow> ('f, 'a, 'os) world \<Rightarrow> ('f, 'a, 'os) world" where
  "read_callback c io_result =
     visit_aio_result io_result
       (\<lambda>buff. value_source_complete (Request buff) \<lparr>source_cell = c\<rparr>)
       (\<lambda>err. value_source_error IOError \<lparr>source_cell = c\<rparr>)"

definition io_read ::
  "('f, 'a, 'os) environment \<Rightarrow> int \<Rightarrow> read_request \<Rightarrow> ('f, 'a, 'os) world \<Rightarrow> task \<times> ('f, 'a, 'os) world"
where
  "io_read env fileno request w =
     (let (task_source, w1) = value_source_new w;
          t = value_source_create task_source;
          (io1, cbs1, os1) = queue_read (aio_read_fn env) fileno request (source_cell task_source)
                               (io_source w1, aiocbs w1, os_state w1)
      in (t, w1\<lparr>io_source := io1, aiocbs := cbs1, os_state := os1\<rparr>))"

subsection \<open>Callbacks and jobs\<close>

text \<open>
  One definition for each closure the library registers on a cell. A user function may not
  return, so the first two give an option, and their two visitors are the branches of
  \<open>map_result\<close>; the visitors of the other two act on the world.
\<close>

definition run_map_callback ::
  "('f, 'a, 'os) environment \<Rightarrow> address \<Rightarrow> 'f \<Rightarrow> sched_context \<Rightarrow> 'a outcome
    \<Rightarrow> ('f, 'a, 'os) world \<Rightarrow> ('f, 'a, 'os) world option"
where
  "run_map_callback env cell func ctx value w =
     map_result value
       (\<lambda>v. case map_fn env func v w of
              None \<Rightarrow> None
            | Some (g, w1) \<Rightarrow> Some (snd (cell_write_ctx ctx g cell w1)))
       (\<lambda>err. Some (snd (cell_error_ctx ctx err cell w)))"

definition run_bind_callback ::
  "('f, 'a, 'os) environment \<Rightarrow> address \<Rightarrow> address \<Rightarrow> 'f \<Rightarrow> sched_context \<Rightarrow> 'a outcome
    \<Rightarrow> ('f, 'a, 'os) world \<Rightarrow> ('f, 'a, 'os) world option"
where
  "run_bind_callback env tracking_cell error_cell func ctx value w =
     map_option snd
       (Option.bind
         (map_result value
           (\<lambda>v. map_option (\<lambda>(t, w1). (task_cell t, w1)) (bind_fn env func v w))
           (\<lambda>err. Some (error_cell, snd (cell_error_ctx ctx err error_cell w))))
         (\<lambda>(cell_to_track, w1). cell_track cell_to_track tracking_cell w1))"

definition run_any_callback ::
  "address \<Rightarrow> address \<Rightarrow> sched_context \<Rightarrow> 'a outcome \<Rightarrow> ('f, 'a, 'os) world \<Rightarrow> ('f, 'a, 'os) world"
where
  "run_any_callback underlying_cell exe_ctx ctx value =
     visit_result value
       (\<lambda>v. snd \<circ> cell_write_ctx ctx v underlying_cell)
       (\<lambda>err w. let (all_cells_have_errored, w1) = log_error exe_ctx w
                in if all_cells_have_errored then snd (cell_error_ctx ctx err underlying_cell w1) else w1)"

definition run_all_callback ::
  "address \<Rightarrow> nat \<Rightarrow> address \<Rightarrow> sched_context \<Rightarrow> 'a outcome \<Rightarrow> ('f, 'a, 'os) world \<Rightarrow> ('f, 'a, 'os) world"
where
  "run_all_callback execution_context cell_id underlying_cell ctx value =
     visit_result value
       (\<lambda>v w. let (all_cells_resolved, w1) = commit_resolved_value execution_context cell_id v w
              in if all_cells_resolved
                 then snd (cell_write_ctx ctx (Vector (resolved_values (all_contexts w1 ! execution_context)))
                             underlying_cell w1)
                 else w1)
       (\<lambda>err. snd \<circ> cell_error_ctx ctx err underlying_cell)"

definition run_callback ::
  "('f, 'a, 'os) environment \<Rightarrow> 'f callback \<Rightarrow> sched_context \<Rightarrow> 'a outcome
    \<Rightarrow> ('f, 'a, 'os) world \<Rightarrow> ('f, 'a, 'os) world option"
where
  "run_callback env cb ctx value w =
     (case cb of
        OnMap cell func \<Rightarrow> run_map_callback env cell func ctx value w
      | OnBind tracking_cell error_cell func \<Rightarrow> run_bind_callback env tracking_cell error_cell func ctx value w
      | OnWhenAny underlying_cell exe_ctx \<Rightarrow> Some (run_any_callback underlying_cell exe_ctx ctx value w)
      | OnWhenAll execution_context cell_id underlying_cell \<Rightarrow>
          Some (run_all_callback execution_context cell_id underlying_cell ctx value w))"

lemmas run_callback_defs =
  run_callback_def run_map_callback_def run_bind_callback_def run_any_callback_def run_all_callback_def

text \<open>The closures queued as jobs.\<close>

definition run_task ::
  "('f, 'a, 'os) environment \<Rightarrow> address \<Rightarrow> 'f \<Rightarrow> sched_context
    \<Rightarrow> ('f, 'a, 'os) world \<Rightarrow> ('f, 'a, 'os) world option"
where
  "run_task env cell func ctx w =
     (case call_fn env func w of
        None \<Rightarrow> None
      | Some (result, w1) \<Rightarrow> Some (snd (cell_write_ctx ctx result cell w1)))"

definition complete_timer :: "address \<Rightarrow> sched_context \<Rightarrow> ('f, 'a, 'os) world \<Rightarrow> ('f, 'a, 'os) world" where
  "complete_timer c ctx w = value_source_complete_ctx ctx Unit \<lparr>source_cell = c\<rparr> w"

definition run_job ::
  "('f, 'a, 'os) environment \<Rightarrow> sched_context \<Rightarrow> ('f, 'a) job
    \<Rightarrow> ('f, 'a, 'os) world \<Rightarrow> ('f, 'a, 'os) world option"
where
  "run_job env ctx j w =
     (case j of
        RunCallback callback result \<Rightarrow> run_callback env callback ctx result w
      | RunTask cell func \<Rightarrow> run_task env cell func ctx w
      | CompleteTimer c \<Rightarrow> Some (complete_timer c ctx w)
      | FinishRead c request \<Rightarrow>
          Some (finish_read (aio_error_fn env (os_state w)) read_callback c request w))"

lemmas run_job_defs = run_job_def run_task_def complete_timer_def

text \<open>
  A turn of worker \<open>i\<close>, whose steal loop would start at \<open>rnd\<close>. A worker holds no lock between
  taking a job out of a queue and running it, so these are two turns: with nothing in hand it
  takes a job, if it finds one, and with a job in hand it runs it. Calling an empty
  \<open>std::function\<close> throws: \<open>None\<close>.
\<close>

definition fetch_job :: "nat \<Rightarrow> nat \<Rightarrow> ('f, 'a, 'os) world \<Rightarrow> ('f, 'a, 'os) world" where
  "fetch_job i rnd w =
     (case worker_next i rnd (pool w) of
        (None, p) \<Rightarrow> w\<lparr>pool := p\<rparr>
      | (Some j, p) \<Rightarrow> w\<lparr>pool := p, at_hand := (i, j) # at_hand w\<rparr>)"

definition run_at_hand ::
  "('f, 'a, 'os) environment \<Rightarrow> nat \<Rightarrow> ('f, 'a) job fn \<Rightarrow> ('f, 'a, 'os) world \<Rightarrow> ('f, 'a, 'os) world option"
where
  "run_at_hand env i f w =
     (case f of
        None \<Rightarrow> None
      | Some j \<Rightarrow> run_job env (worker_context (workers (pool w) ! i)) j (w\<lparr>at_hand := remove1 (i, f) (at_hand w)\<rparr>))"

definition worker_turn ::
  "('f, 'a, 'os) environment \<Rightarrow> nat \<Rightarrow> nat \<Rightarrow> ('f, 'a, 'os) world \<Rightarrow> ('f, 'a, 'os) world option"
where
  "worker_turn env i rnd w =
     (case map_of (at_hand w) i of
        None \<Rightarrow> Some (fetch_job i rnd w)
      | Some f \<Rightarrow> run_at_hand env i f w)"

subsection \<open>The factory and its poll sources\<close>

datatype lib_source = TimingSource | IoSource

fun lib_poll_frequency :: "lib_source \<Rightarrow> int" where
  "lib_poll_frequency TimingSource = tps_poll_frequency"
| "lib_poll_frequency IoSource = io_poll_frequency"

text \<open>
  What the poll thread does with one source, with the clock reading it takes. The jobs a poll
  returns are in the thread's hands until it queues them, on the global queue.
\<close>

definition poll_jobs ::
  "('f, 'a, 'os) environment \<Rightarrow> int \<Rightarrow> lib_source \<Rightarrow> ('f, 'a, 'os) world \<Rightarrow> ('f, 'a, 'os) world"
where
  "poll_jobs env now src w =
     (case src of
        TimingSource \<Rightarrow>
          let (jobs, s) = tps_poll now (timers w)
          in w\<lparr>timers := s, polled := map Some jobs\<rparr>
      | IoSource \<Rightarrow>
          let (jobs, s) = io_poll (aio_error_fn env (os_state w)) FinishRead (io_source w)
          in w\<lparr>io_source := s, polled := map Some jobs\<rparr>)"

definition queue_polled :: "('f, 'a, 'os) world \<Rightarrow> ('f, 'a, 'os) world" where
  "queue_polled w = w\<lparr>pool := scheduler_queue_jobs ctx_empty (polled w) (pool w), polled := []\<rparr>"

definition poll_source ::
  "('f, 'a, 'os) environment \<Rightarrow> int \<Rightarrow> lib_source \<Rightarrow> ('f, 'a, 'os) world \<Rightarrow> ('f, 'a, 'os) world"
where
  "poll_source env now src w = (if polled w = [] then poll_jobs env now src w else queue_polled w)"

definition factory_new :: "int \<Rightarrow> int \<Rightarrow> 'os \<Rightarrow> bool \<times> ('f, 'a, 'os) world" where
  "factory_new now n_workers os =
     (let (started, p) = create_scheduler n_workers
      in (started, \<lparr>cells = [], any_contexts = [], all_contexts = [], pool = p, at_hand = [], polled = [], timers = tps_new now,
                    io_source = io_new, buffers = [], aiocbs = [], os_state = os\<rparr>))"

definition factory_poll_sources :: "lib_source list" where
  "factory_poll_sources = [TimingSource, IoSource]"

definition factory_value_source :: "('f, 'a, 'os) world \<Rightarrow> value_source \<times> ('f, 'a, 'os) world" where
  "factory_value_source w = value_source_new w"

definition factory_create :: "'f \<Rightarrow> ('f, 'a, 'os) world \<Rightarrow> task \<times> ('f, 'a, 'os) world" where
  "factory_create function w = task_new function w"

definition factory_when_any :: "task list \<Rightarrow> ('f, 'a, 'os) world \<Rightarrow> (task \<times> ('f, 'a, 'os) world) option" where
  "factory_when_any tasks w = task_when_any tasks w"

definition factory_when_all :: "task list \<Rightarrow> ('f, 'a, 'os) world \<Rightarrow> (task \<times> ('f, 'a, 'os) world) option" where
  "factory_when_all tasks w = task_when_all tasks w"

end
