(* ===== verification/Cell_Laws.thy ===== *)
theory Cell_Laws
  imports Cells
begin

text \<open>
  What the operations on cells keep and achieve. \<open>world_le\<close> is the order in which the store
  grows: a cell keeps its kind, a filled cell keeps its value and a tracking cell its target, and
  only workers take jobs into their hands.
  \<open>world_inv\<close> is the type invariant of the store: every address a cell, a callback or a
  job holds refers to a cell of the kind the source's types ask for, and a cell that is filled
  (or tracks) holds no callbacks back. \<open>callback_tokens\<close> counts the callbacks the library still
  owes: those held by cells and those queued as jobs.
\<close>

subsection \<open>Growth of the store\<close>

fun is_value :: "('v, 'e) result \<Rightarrow> bool" where
  "is_value (Value v) = True"
| "is_value (Err e) = False"

fun cell_le :: "('f, 'a) cell \<Rightarrow> ('f, 'a) cell \<Rightarrow> bool" where
  "cell_le (WriteOnce c) (WriteOnce d) \<longleftrightarrow> wo_value c = None \<or> wo_value d = wo_value c"
| "cell_le (Tracking c) (Tracking d) \<longleftrightarrow> tc_cell c = None \<or> tc_cell d = tc_cell c"
| "cell_le (WhenAny u cs) (WhenAny v ds) \<longleftrightarrow> u = v \<and> cs = ds"
| "cell_le (WhenAll u cs) (WhenAll v ds) \<longleftrightarrow> u = v \<and> cs = ds"
| "cell_le _ _ \<longleftrightarrow> False"

definition world_le :: "('f, 'a, 'os) world \<Rightarrow> ('f, 'a, 'os) world \<Rightarrow> bool" where
  "world_le w w' \<longleftrightarrow> length (cells w) \<le> length (cells w')
     \<and> (\<forall>a < length (cells w). cell_le (cells w ! a) (cells w' ! a))
     \<and> length (any_contexts w) \<le> length (any_contexts w')
     \<and> length (all_contexts w) \<le> length (all_contexts w')
     \<and> length (workers (pool w')) = length (workers (pool w))
     \<and> fst ` set (at_hand w') \<subseteq> fst ` set (at_hand w) \<union> {..<length (workers (pool w))}"

lemma cell_le_refl [simp]: "cell_le c c"
  by (cases c) auto

lemma cell_le_trans: "cell_le a b \<Longrightarrow> cell_le b c \<Longrightarrow> cell_le a c"
  by (cases "(a, b)" rule: cell_le.cases; cases c) auto

lemma world_le_refl [simp]: "world_le w w"
  by (simp add: world_le_def)

lemma world_le_trans:
  assumes "world_le u v" "world_le v w"
  shows "world_le u w"
proof -
  have "fst ` set (at_hand w) \<subseteq> fst ` set (at_hand u) \<union> {..<length (workers (pool u))}"
  proof (rule subset_trans)
    show "fst ` set (at_hand w) \<subseteq> fst ` set (at_hand v) \<union> {..<length (workers (pool v))}"
      using assms(2) by (simp only: world_le_def)
    have "fst ` set (at_hand v) \<subseteq> fst ` set (at_hand u) \<union> {..<length (workers (pool u))}"
      using assms(1) by (simp only: world_le_def)
    moreover have "length (workers (pool v)) = length (workers (pool u))" using assms(1) by (simp only: world_le_def)
    ultimately show "fst ` set (at_hand v) \<union> {..<length (workers (pool v))} \<subseteq> fst ` set (at_hand u) \<union> {..<length (workers (pool u))}"
      by (intro Un_least) simp_all
  qed
  moreover have "\<forall>a < length (cells u). cell_le (cells u ! a) (cells w ! a)"
    using assms by (auto simp: world_le_def intro: cell_le_trans)
  ultimately show ?thesis using assms by (simp add: world_le_def)
qed

lemma world_le_length: "world_le w w' \<Longrightarrow> a < length (cells w) \<Longrightarrow> a < length (cells w')"
  by (simp add: world_le_def)

lemma world_le_cell: "world_le w w' \<Longrightarrow> a < length (cells w) \<Longrightarrow> cell_le (cells w ! a) (cells w' ! a)"
  by (simp add: world_le_def)

text \<open>Only workers have jobs in hand.\<close>

definition hands_ok :: "('f, 'a, 'os) world \<Rightarrow> bool" where
  "hands_ok w \<longleftrightarrow> fst ` set (at_hand w) \<subseteq> {..<length (workers (pool w))}"

lemma hands_ok_mono:
  assumes "world_le w w'" "hands_ok w"
  shows "hands_ok w'"
proof -
  have "length (workers (pool w')) = length (workers (pool w))" using assms(1) by (simp only: world_le_def)
  moreover have "fst ` set (at_hand w') \<subseteq> fst ` set (at_hand w) \<union> {..<length (workers (pool w))}"
    using assms(1) by (simp only: world_le_def)
  ultimately show ?thesis using assms(2) by (simp add: hands_ok_def Un_absorb1)
qed

lemma hands_okD: "hands_ok w \<Longrightarrow> (i, f) \<in> set (at_hand w) \<Longrightarrow> i < length (workers (pool w))"
  by (force simp: hands_ok_def)

definition is_write_once :: "('f, 'a, 'os) world \<Rightarrow> address \<Rightarrow> bool" where
  "is_write_once w a \<longleftrightarrow> a < length (cells w) \<and> (case cells w ! a of WriteOnce c \<Rightarrow> True | _ \<Rightarrow> False)"

definition is_tracking :: "('f, 'a, 'os) world \<Rightarrow> address \<Rightarrow> bool" where
  "is_tracking w a \<longleftrightarrow> a < length (cells w) \<and> (case cells w ! a of Tracking c \<Rightarrow> True | _ \<Rightarrow> False)"

lemma is_write_once_mono: "world_le w w' \<Longrightarrow> is_write_once w a \<Longrightarrow> is_write_once w' a"
  using world_le_cell[of w w' a] world_le_length[of w w' a]
  by (cases "cells w ! a"; cases "cells w' ! a") (auto simp: is_write_once_def)

lemma is_tracking_mono: "world_le w w' \<Longrightarrow> is_tracking w a \<Longrightarrow> is_tracking w' a"
  using world_le_cell[of w w' a] world_le_length[of w w' a]
  by (cases "cells w ! a"; cases "cells w' ! a") (auto simp: is_tracking_def)

subsection \<open>The jobs left\<close>

lemma jobs_left_frame [simp]:
  "jobs_left (w\<lparr>cells := cs\<rparr>) = jobs_left w" "jobs_left (w\<lparr>any_contexts := xs\<rparr>) = jobs_left w"
  "jobs_left (w\<lparr>all_contexts := ys\<rparr>) = jobs_left w" "jobs_left (w\<lparr>timers := ts\<rparr>) = jobs_left w"
  "jobs_left (w\<lparr>io_source := io\<rparr>) = jobs_left w" "jobs_left (w\<lparr>buffers := bs\<rparr>) = jobs_left w"
  "jobs_left (w\<lparr>aiocbs := ais\<rparr>) = jobs_left w" "jobs_left (w\<lparr>os_state := s\<rparr>) = jobs_left w"
  by (simp_all add: jobs_left_def held_def)

lemma jobs_left_cong:
  "pool w' = pool w \<Longrightarrow> at_hand w' = at_hand w \<Longrightarrow> polled w' = polled w \<Longrightarrow> jobs_left w' = jobs_left w"
  by (simp add: jobs_left_def held_def)

lemma held_cong: "at_hand w' = at_hand w \<Longrightarrow> polled w' = polled w \<Longrightarrow> held w' = held w"
  by (simp add: held_def)

lemma held_job: "map_of (at_hand w) i = Some f \<Longrightarrow> f \<in># held w"
  by (force simp: held_def dest: map_of_SomeD)

text \<open>Taking the job in hand away to run it.\<close>

lemma held_remove:
  assumes "map_of (at_hand w) i = Some f"
  shows "held w = add_mset f (held (w\<lparr>at_hand := remove1 (i, f) (at_hand w)\<rparr>))"
proof -
  have "(i, f) \<in># mset (at_hand w)" using map_of_SomeD[OF assms] by simp
  from insert_DiffM[OF this] have "mset (at_hand w) = add_mset (i, f) (mset (at_hand w) - {#(i, f)#})" by simp
  then have "image_mset snd (mset (at_hand w)) = add_mset f (image_mset snd (mset (at_hand w) - {#(i, f)#}))"
    by (metis image_mset_add_mset snd_conv)
  then show ?thesis by (simp add: held_def mset_remove1)
qed

lemma jobs_left_remove:
  "map_of (at_hand w) i = Some f \<Longrightarrow> jobs_left w = add_mset f (jobs_left (w\<lparr>at_hand := remove1 (i, f) (at_hand w)\<rparr>))"
  using held_remove by (fastforce simp: jobs_left_def held_def)

subsection \<open>The type invariant\<close>

fun callback_ok :: "('f, 'a, 'os) world \<Rightarrow> 'f callback \<Rightarrow> bool" where
  "callback_ok w (OnMap c f) \<longleftrightarrow> is_write_once w c"
| "callback_ok w (OnBind t e f) \<longleftrightarrow> is_tracking w t \<and> is_write_once w e"
| "callback_ok w (OnWhenAny u x) \<longleftrightarrow> is_write_once w u \<and> x < length (any_contexts w)"
| "callback_ok w (OnWhenAll x i u) \<longleftrightarrow> is_write_once w u \<and> x < length (all_contexts w)"

fun job_ok :: "('f, 'a, 'os) world \<Rightarrow> ('f, 'a) job \<Rightarrow> bool" where
  "job_ok w (RunCallback cb r) \<longleftrightarrow> callback_ok w cb"
| "job_ok w (RunTask c f) \<longleftrightarrow> is_write_once w c"
| "job_ok w (CompleteTimer c) \<longleftrightarrow> is_write_once w c"
| "job_ok w (FinishRead c r) \<longleftrightarrow> is_write_once w c"

definition fn_ok :: "('f, 'a, 'os) world \<Rightarrow> ('f, 'a) job fn \<Rightarrow> bool" where
  "fn_ok w j \<longleftrightarrow> (case j of None \<Rightarrow> False | Some j \<Rightarrow> job_ok w j)"

fun cell_ok :: "('f, 'a, 'os) world \<Rightarrow> ('f, 'a) cell \<Rightarrow> bool" where
  "cell_ok w (WriteOnce c) \<longleftrightarrow> (wo_value c \<noteq> None \<longrightarrow> wo_callbacks c = []) \<and> (\<forall>cb \<in> set (wo_callbacks c). callback_ok w cb)"
| "cell_ok w (Tracking c) \<longleftrightarrow> (case tc_cell c of None \<Rightarrow> True | Some t \<Rightarrow> t < length (cells w) \<and> tc_callbacks c = [])
     \<and> (\<forall>cb \<in> set (tc_callbacks c). callback_ok w cb)"
| "cell_ok w (WhenAny u cs) \<longleftrightarrow> is_write_once w u"
| "cell_ok w (WhenAll u cs) \<longleftrightarrow> is_write_once w u"

definition cells_ok :: "('f, 'a, 'os) world \<Rightarrow> bool" where
  "cells_ok w \<longleftrightarrow> (\<forall>a < length (cells w). cell_ok w (cells w ! a))"

definition jobs_ok :: "('f, 'a, 'os) world \<Rightarrow> bool" where
  "jobs_ok w \<longleftrightarrow> pool_inv (pool w) \<and> (\<forall>j \<in># jobs_left w. fn_ok w j)"

definition sources_ok :: "('f, 'a, 'os) world \<Rightarrow> bool" where
  "sources_ok w \<longleftrightarrow> tps_inv (timers w) \<and> (\<forall>p \<in># tps_dues (timers w). job_ok w (snd p))
     \<and> (\<forall>p \<in> set (in_flight_requests (io_source w)). is_write_once w (fst p))"

definition world_inv :: "('f, 'a, 'os) world \<Rightarrow> bool" where
  "world_inv w \<longleftrightarrow> cells_ok w \<and> jobs_ok w \<and> sources_ok w"

lemma callback_ok_mono: "world_le w w' \<Longrightarrow> callback_ok w cb \<Longrightarrow> callback_ok w' cb"
  by (cases cb) (auto intro: is_write_once_mono is_tracking_mono simp: world_le_def)

lemma job_ok_mono: "world_le w w' \<Longrightarrow> job_ok w j \<Longrightarrow> job_ok w' j"
  by (cases j) (auto intro: is_write_once_mono callback_ok_mono)

lemma fn_ok_mono: "world_le w w' \<Longrightarrow> fn_ok w j \<Longrightarrow> fn_ok w' j"
  by (auto simp: fn_ok_def intro: job_ok_mono split: option.splits)

lemma cell_ok_mono: "world_le w w' \<Longrightarrow> cell_ok w c \<Longrightarrow> cell_ok w' c"
  by (cases c) (auto intro: is_write_once_mono callback_ok_mono dest: world_le_length split: option.splits)

lemma sources_ok_mono:
  "world_le w w' \<Longrightarrow> timers w' = timers w \<Longrightarrow> io_source w' = io_source w \<Longrightarrow> sources_ok w \<Longrightarrow> sources_ok w'"
  by (auto simp: sources_ok_def intro: job_ok_mono is_write_once_mono)

subsection \<open>Chains of cells\<close>

text \<open>
  \<open>link\<close> is the cell an operation is passed on to. A chain that ends is followed by \<open>read\<close>,
  \<open>block\<close> and \<open>await\<close> to its end, where \<open>park\<close> is what \<open>await\<close> does.
\<close>

definition link :: "('f, 'a, 'os) world \<Rightarrow> address \<Rightarrow> address option" where
  "link w a = (case cells w ! a of
      WriteOnce c \<Rightarrow> None | Tracking c \<Rightarrow> tc_cell c | WhenAny u _ \<Rightarrow> Some u | WhenAll u _ \<Rightarrow> Some u)"

inductive chain :: "(address \<Rightarrow> address option) \<Rightarrow> address \<Rightarrow> address \<Rightarrow> bool" for lk where
  stop: "lk a = None \<Longrightarrow> chain lk a a"
| pass: "lk a = Some t \<Longrightarrow> chain lk t e \<Longrightarrow> chain lk a e"

inductive_cases chainE: "chain lk a e"

definition park :: "address \<Rightarrow> 'f callback \<Rightarrow> ('f, 'a, 'os) world \<Rightarrow> ('f, 'a, 'os) world" where
  "park e cb w = (case cells w ! e of
      WriteOnce c \<Rightarrow> write_once_await e c cb w
    | Tracking c \<Rightarrow> set_cell e (Tracking (c\<lparr>tc_callbacks := tc_callbacks c @ [cb]\<rparr>)) w
    | _ \<Rightarrow> w)"

lemma chain_end: "chain lk a e \<Longrightarrow> lk e = None"
  by (induction rule: chain.induct) auto

lemma chain_unique: "chain lk a e \<Longrightarrow> chain lk a e' \<Longrightarrow> e' = e"
  by (induction rule: chain.induct) (auto elim: chainE)

lemma chain_no_loop: "chain lk a e \<Longrightarrow> lk a = Some a \<Longrightarrow> False"
  by (induction rule: chain.induct) auto

lemma link_cases:
  "link w a = None \<longleftrightarrow> (\<exists>c. cells w ! a = WriteOnce c) \<or> (\<exists>c. cells w ! a = Tracking c \<and> tc_cell c = None)"
  by (cases "cells w ! a") (auto simp: link_def)

lemma cell_await_link:
  "cell_await a cb w = (case link w a of None \<Rightarrow> Some (park a cb w) | Some t \<Rightarrow> cell_await t cb w)"
  by (subst cell_await.simps) (auto simp: link_def park_def split: cell.splits option.splits)

lemma cell_read_link:
  "cell_read a w = (case link w a of
      None \<Rightarrow> Some (case cells w ! a of WriteOnce c \<Rightarrow> wo_value c | _ \<Rightarrow> None)
    | Some t \<Rightarrow> cell_read t w)"
  by (subst cell_read.simps) (auto simp: link_def split: cell.splits option.splits)

lemma cell_block_link:
  "cell_block a w = (case link w a of
      None \<Rightarrow> (case cells w ! a of WriteOnce c \<Rightarrow> wo_value c | _ \<Rightarrow> None)
    | Some t \<Rightarrow> cell_block t w)"
  by (subst cell_block.simps) (auto simp: link_def split: cell.splits option.splits)

lemma cell_await_chain: "chain (link w) a e \<Longrightarrow> cell_await a cb w = Some (park e cb w)"
  by (induction rule: chain.induct) (subst cell_await_link; simp)+

definition end_value :: "('f, 'a, 'os) world \<Rightarrow> address \<Rightarrow> 'a outcome option" where
  "end_value w e = (case cells w ! e of WriteOnce c \<Rightarrow> wo_value c | _ \<Rightarrow> None)"

lemma cell_read_chain: "chain (link w) a e \<Longrightarrow> cell_read a w = Some (end_value w e)"
  by (induction rule: chain.induct) (subst cell_read_link; simp add: end_value_def)+

lemma cell_block_chain: "chain (link w) a e \<Longrightarrow> cell_block a w = end_value w e"
  by (induction rule: chain.induct) (subst cell_block_link; simp add: end_value_def)+

lemma cell_await_Some:
  fixes w w' :: "('f, 'a, 'os) world"
  assumes "cell_await a cb w = Some w'"
  shows "\<exists>e. chain (link w) a e \<and> w' = park e cb w"
proof (rule cell_await.raw_induct[where P = "\<lambda>a cb w w'. \<exists>e. chain (link w) a e \<and> w' = park e cb w", OF _ assms])
  fix f :: "address \<Rightarrow> 'f callback \<Rightarrow> ('f, 'a, 'os) world \<Rightarrow> ('f, 'a, 'os) world option" and a cb w w'
  assume IH: "\<And>a cb w w'. f a cb w = Some w' \<Longrightarrow> \<exists>e. chain (link w) a e \<and> w' = park e cb w"
  assume step: "(case cells w ! a of
        WriteOnce c \<Rightarrow> Some (write_once_await a c cb w)
      | Tracking c \<Rightarrow>
          (case tc_cell c of
             None \<Rightarrow> Some (set_cell a (Tracking (c\<lparr>tc_callbacks := tc_callbacks c @ [cb]\<rparr>)) w)
           | Some t \<Rightarrow> f t cb w)
      | WhenAny u _ \<Rightarrow> f u cb w
      | WhenAll u _ \<Rightarrow> f u cb w) = Some w'"
  show "\<exists>e. chain (link w) a e \<and> w' = park e cb w"
  proof (cases "link w a")
    case None
    then have "w' = park a cb w"
      using step by (auto simp: link_def park_def split: cell.splits option.splits)
    then show ?thesis using chain.stop[where lk = "link w", OF None] by blast
  next
    case (Some t)
    then have "f t cb w = Some w'" using step by (auto simp: link_def split: cell.splits option.splits)
    then show ?thesis using IH chain.pass[where lk = "link w", OF Some] by blast
  qed
qed

lemma cell_await_iff: "cell_await a cb w = Some w' \<longleftrightarrow> (\<exists>e. chain (link w) a e \<and> w' = park e cb w)"
  using cell_await_Some cell_await_chain by blast

lemma cell_await_cycle: "link w a = Some a \<Longrightarrow> cell_await a cb w = None"
  using cell_await_Some[of a cb w] chain_no_loop by (cases "cell_await a cb w") auto

text \<open>Changing one unlinked cell into a link extends the chains that ended there.\<close>

lemma chain_extend:
  assumes b: "chain lk b d" and a: "lk a = None" and t: "chain lk t e" "e \<noteq> a"
    and lk: "lk' a = Some t" "\<forall>x. x \<noteq> a \<longrightarrow> lk' x = lk x"
  shows "chain lk' b (if d = a then e else d)"
proof -
  have keep: "d \<noteq> a \<longrightarrow> chain lk' b d" if "chain lk b d" for b d
    using that
  proof (induction rule: chain.induct)
    case (stop b)
    then show ?case using lk(2) chain.stop[of lk' b] by auto
  next
    case (pass b s d)
    then have "b \<noteq> a" using a by auto
    then have "lk' b = Some s" using pass(1) lk(2) by simp
    then show ?case using pass chain.pass[of lk' b s d] by auto
  qed
  have "d = a \<longrightarrow> chain lk' b e" using b
  proof (induction rule: chain.induct)
    case (stop b)
    then show ?case using keep[OF t(1)] t(2) lk(1) chain.pass[of lk' a t e] by auto
  next
    case (pass b s d)
    then have "b \<noteq> a" using a by auto
    then have "lk' b = Some s" using pass(1) lk(2) by simp
    then show ?case using pass chain.pass[of lk' b s e] by auto
  qed
  then show ?thesis using keep[OF b] by simp
qed

text \<open>A value that can be read stays readable, and the same, as the store grows.\<close>

lemma cell_read_stable:
  fixes w w' :: "('f, 'a, 'os) world"
  assumes r: "cell_read a w = Some (Some v)" and le: "world_le w w'" and ok: "cells_ok w" and a: "a < length (cells w)"
  shows "cell_read a w' = Some (Some v)"
proof -
  let ?P = "\<lambda>a u r. u = w \<longrightarrow> a < length (cells w) \<longrightarrow> r = Some v \<longrightarrow> cell_read a w' = Some (Some v)"
  have "?P a w (Some v)"
  proof (rule cell_read.raw_induct[where P = ?P, OF _ r])
    fix f :: "address \<Rightarrow> ('f, 'a, 'os) world \<Rightarrow> 'a outcome option option" and a u r
    assume IH: "\<And>a u r. f a u = Some r \<Longrightarrow> ?P a u r"
    assume step: "(case cells u ! a of
        WriteOnce c \<Rightarrow> Some (wo_value c)
      | Tracking c \<Rightarrow> (case tc_cell c of Some t \<Rightarrow> f t u | None \<Rightarrow> Some None)
      | WhenAny x _ \<Rightarrow> f x u
      | WhenAll x _ \<Rightarrow> f x u) = Some r"
    show "?P a u r"
    proof (intro impI)
      assume u: "u = w" and a: "a < length (cells w)" and r: "r = Some v"
      have c: "cell_ok w (cells w ! a)" "cell_le (cells w ! a) (cells w' ! a)"
        using ok a le by (auto simp: cells_ok_def world_le_cell)
      show "cell_read a w' = Some (Some v)"
        using step[unfolded u r] IH[where u = w] c
        by (subst cell_read.simps, cases "cells w ! a"; cases "cells w' ! a")
          (auto split: option.splits simp: is_write_once_def)
    qed
  qed
  then show ?thesis using a by simp
qed

end
