(* ===== verification/Cell_Steps.thy ===== *)
theory Cell_Steps
  imports Cell_Laws
begin

text \<open>
  Each operation on cells as a step of the store: it preserves \<open>world_inv\<close>, grows the store
  in the sense of \<open>world_le\<close>, and accounts for every callback it is given
  (\<open>callback_tokens\<close>).
\<close>

subsection \<open>Queueing jobs\<close>

definition same_rest :: "('f, 'a, 'os) world \<Rightarrow> ('f, 'a, 'os) world \<Rightarrow> bool" where
  "same_rest w w' \<longleftrightarrow> any_contexts w' = any_contexts w \<and> all_contexts w' = all_contexts w
     \<and> timers w' = timers w \<and> io_source w' = io_source w \<and> buffers w' = buffers w
     \<and> aiocbs w' = aiocbs w \<and> os_state w' = os_state w
     \<and> at_hand w' = at_hand w \<and> polled w' = polled w"

lemma queue_job_frame [simp]:
  "cells (queue_job ctx j w) = cells w" "same_rest w (queue_job ctx j w)"
  by (simp_all add: queue_job_def same_rest_def)

lemma set_cell_frame [simp]:
  "cells (set_cell a c w) = (cells w)[a := c]" "pool (set_cell a c w) = pool w" "same_rest w (set_cell a c w)"
  "jobs_left (set_cell a c w) = jobs_left w"
  by (simp_all add: set_cell_def same_rest_def)

lemma same_rest_refl [simp]: "same_rest w w"
  by (simp add: same_rest_def)

lemma same_rest_trans: "same_rest u v \<Longrightarrow> same_rest v w \<Longrightarrow> same_rest u w"
  by (simp add: same_rest_def)

lemma same_rest_held: "same_rest w w' \<Longrightarrow> held w' = held w"
  by (simp add: same_rest_def held_def)

lemma queue_job_pool:
  assumes "pool_inv (pool w)" "ctx_ok (pool w) ctx"
  shows "pool_inv (pool (queue_job ctx j w))"
    and "jobs_left (queue_job ctx j w) = add_mset (Some j) (jobs_left w)"
    and "length (workers (pool (queue_job ctx j w))) = length (workers (pool w))"
    and "ctx_ok (pool (queue_job ctx j w)) ctx"
  using pool_queue_jobs_correct[OF assms, of "[Some j]"] assms(2)
  by (simp_all add: jobs_left_def held_def queue_job_def scheduler_queue_def scheduler_queue_jobs_def ctx_ok_def split: option.splits)

lemma fold_queue_job:
  assumes "pool_inv (pool w)" "ctx_ok (pool w) ctx"
  shows "cells (fold (\<lambda>x. queue_job ctx (f x)) xs w) = cells w
    \<and> same_rest w (fold (\<lambda>x. queue_job ctx (f x)) xs w)
    \<and> pool_inv (pool (fold (\<lambda>x. queue_job ctx (f x)) xs w))
    \<and> jobs_left (fold (\<lambda>x. queue_job ctx (f x)) xs w) =
        jobs_left w + mset (map (\<lambda>x. Some (f x)) xs)
    \<and> length (workers (pool (fold (\<lambda>x. queue_job ctx (f x)) xs w))) = length (workers (pool w))"
  using assms
proof (induction xs arbitrary: w)
  case Nil
  then show ?case by simp
next
  case (Cons x xs)
  note q = queue_job_pool[OF Cons.prems, of "f x"]
  show ?case
    using Cons.IH[OF q(1,4)] q same_rest_trans[OF queue_job_frame(2)[where ctx = ctx and j = "f x" and w = w]] by simp
qed

subsection \<open>Accounting for callbacks\<close>

fun cell_callbacks :: "('f, 'a) cell \<Rightarrow> 'f callback list" where
  "cell_callbacks (WriteOnce c) = wo_callbacks c"
| "cell_callbacks (Tracking c) = tc_callbacks c"
| "cell_callbacks (WhenAny u cs) = []"
| "cell_callbacks (WhenAll u cs) = []"

fun job_callbacks :: "('f, 'a) job fn \<Rightarrow> 'f callback multiset" where
  "job_callbacks (Some (RunCallback cb r)) = {#cb#}"
| "job_callbacks _ = {#}"

definition pending :: "('f, 'a, 'os) world \<Rightarrow> 'f callback multiset" where
  "pending w = (\<Sum>a<length (cells w). mset (cell_callbacks (cells w ! a)))"

definition queued :: "('f, 'a, 'os) world \<Rightarrow> 'f callback multiset" where
  "queued w = sum_mset (image_mset job_callbacks (jobs_left w))"

definition callback_tokens :: "('f, 'a, 'os) world \<Rightarrow> 'f callback multiset" where
  "callback_tokens w = pending w + queued w"

lemma pending_update:
  assumes "cells w' = (cells w)[a := c]" "a < length (cells w)"
  shows "pending w' + mset (cell_callbacks (cells w ! a)) = pending w + mset (cell_callbacks c)"
  using sum_mset_update[OF assms(2), of "\<lambda>c. mset (cell_callbacks c)" c] assms(1) by (simp add: pending_def)

lemma pending_new: "pending (snd (new_cell c w)) = pending w + mset (cell_callbacks c)"
  by (simp add: pending_def new_cell_def nth_append)

lemma queued_callbacks: "sum_mset (image_mset job_callbacks (mset (map (\<lambda>cb. Some (RunCallback cb r)) cbs))) = mset cbs"
  by (induction cbs) auto

subsection \<open>A generic step of the store\<close>

definition step_ok :: "('f, 'a, 'os) world \<Rightarrow> ('f, 'a, 'os) world \<Rightarrow> bool" where
  "step_ok w w' \<longleftrightarrow> world_inv w' \<and> world_le w w'"

lemma step_ok_refl [simp]: "world_inv w \<Longrightarrow> step_ok w w"
  by (simp add: step_ok_def)

lemma step_ok_trans: "step_ok u v \<Longrightarrow> step_ok v w \<Longrightarrow> step_ok u w"
  by (auto simp: step_ok_def intro: world_le_trans)

lemma step_okI:
  assumes inv: "world_inv w" and le: "world_le w w'"
    and rest: "timers w' = timers w" "io_source w' = io_source w"
    and pool: "pool_inv (pool w')" "\<forall>j \<in># jobs_left w'. j \<in># jobs_left w \<or> fn_ok w' j"
    and cell: "\<forall>a < length (cells w'). (a < length (cells w) \<and> cells w' ! a = cells w ! a) \<or> cell_ok w' (cells w' ! a)"
  shows "step_ok w w'"
proof -
  have "cells_ok w'"
    unfolding cells_ok_def
  proof (intro allI impI)
    fix a assume "a < length (cells w')"
    with cell consider "a < length (cells w)" "cells w' ! a = cells w ! a" | "cell_ok w' (cells w' ! a)" by blast
    then show "cell_ok w' (cells w' ! a)"
      using inv cell_ok_mono[OF le] by cases (auto simp: world_inv_def cells_ok_def)
  qed
  moreover have "jobs_ok w'"
    using inv pool fn_ok_mono[OF le] by (auto simp: world_inv_def jobs_ok_def)
  moreover have "sources_ok w'"
    using inv sources_ok_mono[OF le rest] by (simp add: world_inv_def)
  ultimately show ?thesis using le by (simp add: step_ok_def world_inv_def)
qed

lemma world_le_update:
  assumes "cells w' = (cells w)[a := c]" "a < length (cells w) \<longrightarrow> cell_le (cells w ! a) c" "same_rest w w'"
    "length (workers (pool w')) = length (workers (pool w))"
  shows "world_le w w'"
  using assms by (cases "a < length (cells w)") (auto simp: world_le_def same_rest_def nth_list_update)

lemma world_invD:
  assumes "world_inv w"
  shows "pool_inv (pool w)" "\<And>a. a < length (cells w) \<Longrightarrow> cell_ok w (cells w ! a)" "cells_ok w"
    "\<And>j. j \<in># jobs_left w \<Longrightarrow> fn_ok w j"
  using assms by (auto simp: world_inv_def cells_ok_def jobs_ok_def)

text \<open>One job more in a queue.\<close>

lemma queue_job_step:
  assumes inv: "world_inv w" and ctx: "ctx_ok (pool w) ctx" and j: "job_ok w j"
  shows "step_ok w (queue_job ctx j w)"
proof -
  note q = queue_job_pool[OF world_invD(1)[OF inv] ctx, of j]
  have le: "world_le w (queue_job ctx j w)"
    using q(3) queue_job_frame(2)[of w ctx j] by (simp add: world_le_def same_rest_def)
  have "timers (queue_job ctx j w) = timers w" "io_source (queue_job ctx j w) = io_source w"
    by (simp_all add: queue_job_def)
  moreover have "fn_ok (queue_job ctx j w) (Some j)"
    using j job_ok_mono[OF le] by (simp add: fn_ok_def)
  ultimately show ?thesis using q(1,2) by (intro step_okI[OF inv le]) auto
qed

lemma queue_job_tokens:
  assumes "world_inv w" "ctx_ok (pool w) ctx"
  shows "callback_tokens (queue_job ctx j w) = callback_tokens w + job_callbacks (Some j)"
  using queue_job_pool(2)[OF world_invD(1)[OF assms(1)] assms(2), of j]
  by (simp add: callback_tokens_def pending_def queued_def)

subsection \<open>Writing\<close>

text \<open>A write to a cell that is filled fails and changes nothing.\<close>

lemma write_filled:
  assumes "cells w ! a = WriteOnce c" "wo_value c = Some r0"
  shows "write_result_to_value ctx r a w = (False, w)"
  using assms by (simp add: write_result_to_value_def)

lemma write_empty:
  assumes w: "pool_inv (pool w)" "ctx_ok (pool w) ctx" "a < length (cells w)"
    and c: "cells w ! a = WriteOnce c" "wo_value c = None"
  shows "fst (write_result_to_value ctx r a w)"
    and "cells (snd (write_result_to_value ctx r a w)) =
      (cells w)[a := WriteOnce (c\<lparr>wo_value := Some r, wo_callbacks := []\<rparr>)]"
    and "same_rest w (snd (write_result_to_value ctx r a w))"
    and "pool_inv (pool (snd (write_result_to_value ctx r a w)))"
    and "jobs_left (snd (write_result_to_value ctx r a w)) =
      jobs_left w + mset (map (\<lambda>cb. Some (RunCallback cb r)) (wo_callbacks c))"
    and "length (workers (pool (snd (write_result_to_value ctx r a w)))) = length (workers (pool w))"
proof -
  let ?w1 = "set_cell a (WriteOnce (c\<lparr>wo_value := Some r\<rparr>)) w"
  have "pool_inv (pool ?w1)" "ctx_ok (pool ?w1) ctx" using w by simp_all
  note q = fold_queue_job[OF this, where f = "\<lambda>cb. RunCallback cb r" and xs = "wo_callbacks c"]
  let ?w2 = "fold (\<lambda>cb. queue_job ctx (RunCallback cb r)) (wo_callbacks c) ?w1"
  have "same_rest w ?w2" using q by (auto intro: same_rest_trans[of w ?w1])
  then have "same_rest w (set_cell a x ?w2)" for x by (rule same_rest_trans) simp
  then show "fst (write_result_to_value ctx r a w)"
    "cells (snd (write_result_to_value ctx r a w)) = (cells w)[a := WriteOnce (c\<lparr>wo_value := Some r, wo_callbacks := []\<rparr>)]"
    "same_rest w (snd (write_result_to_value ctx r a w))"
    "pool_inv (pool (snd (write_result_to_value ctx r a w)))"
    "jobs_left (snd (write_result_to_value ctx r a w)) =
      jobs_left w + mset (map (\<lambda>cb. Some (RunCallback cb r)) (wo_callbacks c))"
    "length (workers (pool (snd (write_result_to_value ctx r a w)))) = length (workers (pool w))"
    using q c by (simp_all add: write_result_to_value_def Let_def)
qed

lemma is_write_onceE:
  assumes "is_write_once w a"
  obtains c where "a < length (cells w)" "cells w ! a = WriteOnce c"
  using assms by (cases "cells w ! a") (auto simp: is_write_once_def)

lemma is_trackingE:
  assumes "is_tracking w a"
  obtains c where "a < length (cells w)" "cells w ! a = Tracking c"
  using assms by (cases "cells w ! a") (auto simp: is_tracking_def)

lemma write_result_step:
  assumes inv: "world_inv w" and ctx: "ctx_ok (pool w) ctx" and a: "is_write_once w a"
  shows "step_ok w (snd (write_result_to_value ctx r a w))"
    and "callback_tokens (snd (write_result_to_value ctx r a w)) = callback_tokens w"
proof -
  obtain c where a: "a < length (cells w)" "cells w ! a = WriteOnce c" using is_write_onceE[OF a] .
  have "step_ok w (snd (write_result_to_value ctx r a w))
      \<and> callback_tokens (snd (write_result_to_value ctx r a w)) = callback_tokens w"
  proof (cases "wo_value c")
    case (Some r0)
    then show ?thesis using write_filled[OF a(2)] inv by simp
  next
    case None
    note wr = write_empty[OF world_invD(1)[OF inv] ctx a None, of r]
    let ?w' = "snd (write_result_to_value ctx r a w)"
    have le: "world_le w ?w'" using wr None a by (intro world_le_update[OF wr(2)]) auto
    have "\<forall>cb \<in> set (wo_callbacks c). callback_ok w cb" using world_invD(2)[OF inv a(1)] a(2) by simp
    then have cbs: "\<forall>cb \<in> set (wo_callbacks c). fn_ok ?w' (Some (RunCallback cb r))"
      using callback_ok_mono[OF le] by (auto simp: fn_ok_def)
    have "step_ok w ?w'"
    proof (rule step_okI[OF inv le])
      show "timers ?w' = timers w" "io_source ?w' = io_source w" using wr(3) by (auto simp: same_rest_def)
      show "pool_inv (pool ?w')" by (rule wr(4))
      show "\<forall>j \<in># jobs_left ?w'. j \<in># jobs_left w \<or> fn_ok ?w' j"
        using wr(5) cbs by auto
      show "\<forall>b < length (cells ?w'). b < length (cells w) \<and> cells ?w' ! b = cells w ! b \<or> cell_ok ?w' (cells ?w' ! b)"
        using wr(2) a(1) by (auto simp: nth_list_update)
    qed
    moreover have "pending ?w' + mset (wo_callbacks c) = pending w"
      using pending_update[OF wr(2) a(1)] a(2) by simp
    moreover have "queued ?w' = queued w + mset (wo_callbacks c)"
      using queued_callbacks[of r "wo_callbacks c"] by (simp add: queued_def wr(5))
    ultimately show ?thesis by (simp add: callback_tokens_def)
  qed
  then show "step_ok w (snd (write_result_to_value ctx r a w))"
    "callback_tokens (snd (write_result_to_value ctx r a w)) = callback_tokens w" by auto
qed

lemma end_value_write:
  assumes "pool_inv (pool w)" "ctx_ok (pool w) ctx" "is_write_once w a"
  shows "end_value (snd (write_result_to_value ctx r a w)) a =
      (case end_value w a of None \<Rightarrow> Some r | Some r0 \<Rightarrow> Some r0)"
proof -
  obtain c where a: "a < length (cells w)" "cells w ! a = WriteOnce c" using is_write_onceE[OF assms(3)] .
  show ?thesis
    using write_filled[OF a(2)] write_empty(2)[OF assms(1,2) a] a
    by (cases "wo_value c") (auto simp: end_value_def)
qed

subsection \<open>Awaiting\<close>

lemma chain_in_range:
  assumes "chain (link w) a e" "cells_ok w" "a < length (cells w)"
  shows "e < length (cells w)"
  using assms
proof (induction rule: chain.induct)
  case (stop a)
  then show ?case by simp
next
  case (pass a t e)
  then have "cell_ok w (cells w ! a)" by (simp add: cells_ok_def)
  with pass(1) have "t < length (cells w)"
    by (cases "cells w ! a") (auto simp: link_def is_write_once_def split: option.splits)
  with pass show ?case by simp
qed

lemma link_update: "cells w' = (cells w)[a := c] \<Longrightarrow>
  link w' b = (if b = a \<and> a < length (cells w)
    then (case c of WriteOnce d \<Rightarrow> None | Tracking d \<Rightarrow> tc_cell d | WhenAny u _ \<Rightarrow> Some u | WhenAll u _ \<Rightarrow> Some u)
    else link w b)"
  by (cases "a < length (cells w)") (auto simp: link_def nth_list_update list_update_beyond)

lemma link_park: "link (park e cb w) = link w"
proof
  fix b
  show "link (park e cb w) b = link w b"
    by (auto simp: park_def write_once_await_def link_update split: cell.splits option.splits)
      (auto simp: link_def queue_job_def)
qed

lemma park_step:
  assumes inv: "world_inv w" and cb: "callback_ok w cb" and e: "e < length (cells w)" "link w e = None"
  shows "step_ok w (park e cb w)"
    and "callback_tokens (park e cb w) = add_mset cb (callback_tokens w)"
proof -
  have "step_ok w (park e cb w) \<and> callback_tokens (park e cb w) = add_mset cb (callback_tokens w)"
  proof (cases "end_value w e")
    case (Some r)
    then have p: "park e cb w = queue_job ctx_empty (RunCallback cb r) w"
      by (auto simp: end_value_def park_def write_once_await_def split: cell.splits)
    show ?thesis
      using queue_job_step[OF inv ctx_empty_ok, of "RunCallback cb r"] queue_job_tokens[OF inv ctx_empty_ok] cb
      by (simp add: p)
  next
    case None
    then obtain d where p: "park e cb w = set_cell e d w" and d: "cell_le (cells w ! e) d"
      "cell_callbacks d = cell_callbacks (cells w ! e) @ [cb]" "cell_ok w (cells w ! e) \<longrightarrow> cell_ok w d"
      using cb e(2) by (cases "cells w ! e") (auto simp: end_value_def park_def write_once_await_def link_def)
    have le: "world_le w (set_cell e d w)" using d by (intro world_le_update) auto
    have "cell_ok (set_cell e d w) d" using d(3) world_invD(2)[OF inv e(1)] cell_ok_mono[OF le] by simp
    moreover have "timers (set_cell e d w) = timers w" "io_source (set_cell e d w) = io_source w"
      by (simp_all add: set_cell_def)
    ultimately have "step_ok w (set_cell e d w)"
      using world_invD(1)[OF inv] e(1) by (intro step_okI[OF inv le]) (auto simp: nth_list_update)
    moreover have "pending (set_cell e d w) = add_mset cb (pending w)"
      using pending_update[of "set_cell e d w" w e d] e(1) d(2) by simp
    ultimately show ?thesis by (simp add: p callback_tokens_def queued_def)
  qed
  then show "step_ok w (park e cb w)" "callback_tokens (park e cb w) = add_mset cb (callback_tokens w)" by auto
qed

lemma cell_await_step:
  assumes inv: "world_inv w" and cb: "callback_ok w cb" and a: "a < length (cells w)"
    and r: "cell_await a cb w = Some w'"
  shows "step_ok w w'" "callback_tokens w' = add_mset cb (callback_tokens w)" "link w' = link w"
proof -
  obtain e where e: "chain (link w) a e" "w' = park e cb w" using cell_await_Some[OF r] by blast
  have "e < length (cells w)" using chain_in_range[OF e(1) world_invD(3)[OF inv] a] .
  from park_step[OF inv cb this chain_end[OF e(1)]] link_park
  show "step_ok w w'" "callback_tokens w' = add_mset cb (callback_tokens w)" "link w' = link w"
    by (simp_all add: e(2))
qed

lemma await_each_step:
  assumes "world_inv w" "\<forall>p \<in> set ps. fst p < length (cells w) \<and> callback_ok w (snd p)" "await_each ps w = Some w'"
  shows "step_ok w w' \<and> callback_tokens w' = callback_tokens w + mset (map snd ps) \<and> link w' = link w"
  using assms
proof (induction ps w rule: await_each.induct)
  case (1 w)
  then show ?case by simp
next
  case (2 a cb rest w)
  then obtain w1 where w1: "cell_await a cb w = Some w1" "await_each rest w1 = Some w'"
    by (auto simp: bind_eq_Some_conv)
  have "callback_ok w cb" "a < length (cells w)" using 2(3) by auto
  note one = cell_await_step[OF 2(2) this w1(1)]
  have "world_le w w1" "world_inv w1" using one(1) by (auto simp: step_ok_def)
  then have "\<forall>p \<in> set rest. fst p < length (cells w1) \<and> callback_ok w1 (snd p)"
    using 2(3) by (auto intro: callback_ok_mono world_le_length)
  from 2(1)[OF w1(1) \<open>world_inv w1\<close> this w1(2)] one show ?case
    by (auto intro: step_ok_trans)
qed

lemma await_callbacks_each: "await_callbacks a cbs w = await_each (map (Pair a) cbs) w"
  by (induction cbs arbitrary: w) (auto split: Option.bind_splits)

text \<open>An \<open>await\<close> returns exactly when the chain of the cell ends, however often it is called.\<close>

lemma await_each_returns:
  "\<forall>p \<in> set ps. \<exists>e. chain (link w) (fst p) e \<Longrightarrow> \<exists>w'. await_each ps w = Some w'"
proof (induction ps w rule: await_each.induct)
  case (1 w)
  then show ?case by simp
next
  case (2 a cb rest w)
  then obtain e where e: "chain (link w) a e" by auto
  then have one: "cell_await a cb w = Some (park e cb w)" by (rule cell_await_chain)
  show ?case using 2 by (simp add: one link_park)
qed

subsection \<open>Tracking\<close>

lemma set_cell_park:
  assumes "e \<noteq> a"
  shows "set_cell a y (park e cb (set_cell a x w)) = park e cb (set_cell a y w)"
  using assms
  by (auto simp: park_def write_once_await_def set_cell_def queue_job_def list_update_swap split: cell.splits option.splits)

text \<open>
  Inside \<open>track\<close> the cell already has its target but still its callbacks; nothing that the
  awaits do touches it, so they may as well run after the callbacks have been taken out.
\<close>

lemma set_cell_await:
  assumes "await_callbacks t cbs (set_cell a x w) = Some w2"
    and "link (set_cell a x w) a = Some t" "link (set_cell a y w) = link (set_cell a x w)"
  shows "await_callbacks t cbs (set_cell a y w) = Some (set_cell a y w2)"
  using assms
proof (induction cbs arbitrary: w)
  case Nil
  then show ?case by (auto simp: set_cell_def)
next
  case (Cons cb cbs)
  then obtain w1 where w1: "cell_await t cb (set_cell a x w) = Some w1" "await_callbacks t cbs w1 = Some w2"
    by (auto simp: bind_eq_Some_conv)
  obtain e where e: "chain (link (set_cell a x w)) t e" "w1 = park e cb (set_cell a x w)"
    using cell_await_Some[OF w1(1)] by blast
  have ne: "e \<noteq> a" using chain_end[OF e(1)] Cons.prems(2) by auto
  have x: "set_cell a x w1 = w1" and y: "set_cell a y w1 = park e cb (set_cell a y w)"
    using set_cell_park[OF ne] by (simp_all add: e(2))
  have "chain (link (set_cell a y w)) t e" using e(1) Cons.prems(3) by simp
  from cell_await_chain[OF this] have one: "cell_await t cb (set_cell a y w) = Some (set_cell a y w1)"
    by (simp add: y)
  have "link w1 = link (set_cell a x w)" by (simp add: e(2) link_park)
  moreover have "link (set_cell a y w1) = link (set_cell a y w)" by (simp add: y link_park)
  ultimately have "await_callbacks t cbs (set_cell a y w1) = Some (set_cell a y w2)"
    using Cons.IH[of w1] w1(2) Cons.prems(2,3) by (simp add: x)
  then show ?case by (simp add: one)
qed

lemma cell_track_again:
  assumes "cells w ! a = Tracking c" "tc_cell c = Some u"
  shows "cell_track t a w = Some (False, w)"
  using assms by (simp add: cell_track_def)

lemma cell_track_first:
  assumes c: "cells w ! a = Tracking c" "tc_cell c = None" "a < length (cells w)"
    and r: "cell_track t a w = Some (b, w')"
  shows "b" "await_callbacks t (tc_callbacks c) (set_cell a (Tracking \<lparr>tc_cell = Some t, tc_callbacks = []\<rparr>) w) = Some w'"
proof -
  let ?x = "Tracking (c\<lparr>tc_cell := Some t\<rparr>)" and ?y = "Tracking \<lparr>tc_cell = Some t, tc_callbacks = []\<rparr>"
  obtain w2 where w2: "await_callbacks t (tc_callbacks c) (set_cell a ?x w) = Some w2" and w': "b" "w' = set_cell a ?y w2"
    using r c by (auto simp: cell_track_def Let_def split: option.splits)
  have l: "link (set_cell a ?x w) a = Some t" using c(3) by (simp add: link_def)
  have "link (set_cell a ?y w) = link (set_cell a ?x w)" by (rule ext) (simp add: link_update)
  from set_cell_await[OF w2 l this] w' show "b" "await_callbacks t (tc_callbacks c) (set_cell a ?y w) = Some w'" by simp_all
qed

lemma cell_track_step:
  fixes w w' :: "('f, 'a, 'os) world"
  assumes inv: "world_inv w" and a: "is_tracking w a" and t: "t < length (cells w)"
    and r: "cell_track t a w = Some (b, w')"
  shows "step_ok w w'" "callback_tokens w' = callback_tokens w"
    "link w' = (if b then (link w)(a := Some t) else link w)" "b \<longleftrightarrow> link w a = None"
proof -
  obtain c where c: "a < length (cells w)" "cells w ! a = Tracking c" using is_trackingE[OF a] .
  have "step_ok w w' \<and> callback_tokens w' = callback_tokens w
      \<and> link w' = (if b then (link w)(a := Some t) else link w) \<and> (b \<longleftrightarrow> link w a = None)"
  proof (cases "tc_cell c")
    case (Some u)
    then show ?thesis using cell_track_again[OF c(2) Some, of t] r inv c by (auto simp: link_def)
  next
    case None
    let ?y = "Tracking \<lparr>tc_cell = Some t, tc_callbacks = []\<rparr> :: ('f, 'a) cell"
    note first = cell_track_first[OF c(2) None c(1) r]
    have le: "world_le w (set_cell a ?y w)" using c None by (intro world_le_update) auto
    have "timers (set_cell a ?y w) = timers w" "io_source (set_cell a ?y w) = io_source w"
      by (simp_all add: set_cell_def)
    then have taken: "step_ok w (set_cell a ?y w)"
      using world_invD(1)[OF inv] c(1) t by (intro step_okI[OF inv le]) (auto simp: nth_list_update)
    have "\<forall>cb \<in> set (tc_callbacks c). callback_ok w cb" using world_invD(2)[OF inv c(1)] c(2) None by simp
    then have "\<forall>p \<in> set (map (Pair t) (tc_callbacks c)).
        fst p < length (cells (set_cell a ?y w)) \<and> callback_ok (set_cell a ?y w) (snd p)"
      using t callback_ok_mono[OF le] by auto
    from await_each_step[OF _ this first(2)[unfolded await_callbacks_each]] taken
    have st: "step_ok (set_cell a ?y w) w'" "link w' = link (set_cell a ?y w)"
      "callback_tokens w' = callback_tokens (set_cell a ?y w) + mset (tc_callbacks c)"
      by (auto simp: step_ok_def comp_def)
    have "pending (set_cell a ?y w) + mset (tc_callbacks c) = pending w"
      using pending_update[of "set_cell a ?y w" w a ?y] c by simp
    then have "callback_tokens w' = callback_tokens w"
      using st(3) by (simp add: callback_tokens_def queued_def)
    moreover have "link (set_cell a ?y w) = (link w)(a := Some t)" using c(1) by (intro ext) (simp add: link_update)
    ultimately show ?thesis using st(1,2) taken first(1) c None by (auto intro: step_ok_trans simp: link_def)
  qed
  then show "step_ok w w'" "callback_tokens w' = callback_tokens w"
    "link w' = (if b then (link w)(a := Some t) else link w)" "b \<longleftrightarrow> link w a = None" by auto
qed

text \<open>
  \<open>track\<close> returns when the target's chain ends somewhere else, and never when the cell is asked
  to track itself while callbacks wait on it.
\<close>

lemma cell_track_returns:
  assumes c: "cells w ! a = Tracking c" "tc_cell c = None" "a < length (cells w)"
    and t: "chain (link w) t e" "e \<noteq> a"
  shows "\<exists>w'. cell_track t a w = Some (True, w')"
proof -
  let ?x = "Tracking (c\<lparr>tc_cell := Some t\<rparr>)"
  have "link w a = None" using c by (simp add: link_def)
  then have "chain (link (set_cell a ?x w)) t (if e = a then e else e)"
    using t c(3) by (intro chain_extend[of "link w" t e a t e]) (auto simp: link_update)
  then have "\<forall>p \<in> set (map (Pair t) (tc_callbacks c)). \<exists>e. chain (link (set_cell a ?x w)) (fst p) e" by auto
  from await_each_returns[OF this] show ?thesis
    using c by (auto simp: cell_track_def Let_def await_callbacks_each)
qed

lemma cell_track_itself:
  assumes "cells w ! a = Tracking c" "tc_cell c = None" "a < length (cells w)" "tc_callbacks c \<noteq> []"
  shows "cell_track a a w = None"
proof -
  obtain cb cbs where cbs: "tc_callbacks c = cb # cbs" using assms(4) by (cases "tc_callbacks c") auto
  have "link (set_cell a (Tracking (c\<lparr>tc_cell := Some a\<rparr>)) w) a = Some a" using assms(3) by (simp add: link_def)
  from cell_await_cycle[OF this] show ?thesis using assms(1,2) cbs by (simp add: cell_track_def Let_def)
qed

subsection \<open>Properties\<close>

text \<open>Two small stores: one empty cell with two callbacks on it, and one filled cell.\<close>

definition sample_store :: "(nat, nat) cell list \<Rightarrow> (nat, nat, unit) world" where
  "sample_store cs = \<lparr>cells = cs, any_contexts = [], all_contexts = [], pool = snd (pool_new 1), at_hand = [], polled = [],
     timers = tps_new 0,
     io_source = io_new, buffers = [], aiocbs = [], os_state = ()\<rparr>"

abbreviation sample_cells :: "(nat, nat) cell list" where
  "sample_cells \<equiv> [WriteOnce \<lparr>wo_value = None, wo_callbacks = [OnMap 1 5, OnMap 2 6]\<rparr>,
     WriteOnce \<lparr>wo_value = None, wo_callbacks = []\<rparr>, WriteOnce \<lparr>wo_value = None, wo_callbacks = []\<rparr>,
     Tracking \<lparr>tc_cell = None, tc_callbacks = [OnMap 2 7]\<rparr>]"

lemma sample_store_inv: "cells_ok (sample_store cs) \<Longrightarrow> world_inv (sample_store cs)"
  by (simp add: world_inv_def jobs_ok_def sources_ok_def sample_store_def jobs_left_def held_def pool_new_correct io_new_def
      tps_new_correct(1) tps_new_dues clock_range_def)

lemma sample_store_ok: "world_inv (sample_store sample_cells)"
  by (rule sample_store_inv)
    (simp add: cells_ok_def sample_store_def is_write_once_def All_less_Suc numeral_eq_Suc)

lemma sample_store_cells [simp]: "cells (sample_store cs) = cs"
  by (simp add: sample_store_def)

text \<open>
  A write-once cell takes the first result written to it, value or error, and no other:
  the first write succeeds, every later one fails and changes nothing at all.
\<close>

theorem write_once_first_write_wins:
  assumes "world_inv w" and "ctx_ok (pool w) ctx" and "is_write_once w a" and "end_value w a = None"
  shows "fst (write_result_to_value ctx r a w)
    \<and> cell_read a (snd (write_result_to_value ctx r a w)) = Some (Some r)
    \<and> write_result_to_value ctx' r' a (snd (write_result_to_value ctx r a w))
        = (False, snd (write_result_to_value ctx r a w))"
proof -
  obtain c where a: "a < length (cells w)" "cells w ! a = WriteOnce c" using is_write_onceE[OF assms(3)] .
  then have "wo_value c = None" using assms(4) by (simp add: end_value_def)
  note wr = write_empty[OF world_invD(1)[OF assms(1)] assms(2) a this, of r]
  have c': "cells (snd (write_result_to_value ctx r a w)) ! a = WriteOnce (c\<lparr>wo_value := Some r, wo_callbacks := []\<rparr>)"
    using wr(2) a(1) by simp
  have "cell_read a (snd (write_result_to_value ctx r a w)) = Some (Some r)"
    by (subst cell_read_link) (simp add: link_def c')
  then show ?thesis using wr(1) write_filled[OF c'] by simp
qed

theorem write_once_first_write_wins_witness:
  "cell_read 0 (snd (write_result_to_value ctx_empty (Value (Plain 3)) 0 (sample_store sample_cells))) = Some (Some (Value (Plain 3)))"
  using write_once_first_write_wins[OF sample_store_ok ctx_empty_ok, of 0 "Value (Plain 3)"]
  by (simp add: is_write_once_def end_value_def)

text \<open>
  C22: The write that fills a cell queues exactly one job for each callback registered on it,
  with the result written, and leaves none behind; counting registered and queued callbacks
  together, none appears and none is lost.
\<close>

theorem write_queues_each_callback_once:
  assumes "world_inv w" and "ctx_ok (pool w) ctx" and "a < length (cells w)"
    and "cells w ! a = WriteOnce c" and "wo_value c = None"
  shows "pool_jobs (pool (snd (write_result_to_value ctx r a w))) =
      pool_jobs (pool w) + mset (map (\<lambda>cb. Some (RunCallback cb r)) (wo_callbacks c))
    \<and> cell_callbacks (cells (snd (write_result_to_value ctx r a w)) ! a) = []
    \<and> callback_tokens (snd (write_result_to_value ctx r a w)) = callback_tokens w"
proof -
  note wr = write_empty[OF world_invD(1)[OF assms(1)] assms(2-5), of r]
  have "is_write_once w a" using assms(3,4) by (simp add: is_write_once_def)
  from write_result_step(2)[OF assms(1,2) this] show ?thesis using wr(2,5) same_rest_held[OF wr(3)] assms(3) by (simp add: jobs_left_def)
qed

theorem write_queues_each_callback_once_witness:
  "pool_jobs (pool (snd (write_result_to_value ctx_empty (Err IOError) 0 (sample_store sample_cells))))
    = {#Some (RunCallback (OnMap 1 5) (Err IOError)), Some (RunCallback (OnMap 2 6) (Err IOError))#}"
  using write_queues_each_callback_once[OF sample_store_ok ctx_empty_ok, of 0 _ "Err IOError"]
  by (simp add: sample_store_def pool_new_correct)

text \<open>
  C21: Awaiting any cell registers the callback exactly once, behind however many tracking and
  combining cells; and it returns exactly when the chain of cells it follows ends.
\<close>

theorem await_registers_once:
  assumes "world_inv w" and "callback_ok w cb" and "a < length (cells w)"
  shows "((\<exists>e. chain (link w) a e) \<longleftrightarrow> (\<exists>w'. cell_await a cb w = Some w'))
    \<and> (\<forall>w'. cell_await a cb w = Some w' \<longrightarrow> callback_tokens w' = add_mset cb (callback_tokens w) \<and> world_inv w')"
  using cell_await_iff[of a cb w] cell_await_step[OF assms] by (auto simp: step_ok_def)

theorem await_registers_once_witness:
  "\<exists>w'. cell_await 3 (OnMap 1 9) (sample_store sample_cells) = Some w' \<and> world_inv w'"
proof -
  have "callback_ok (sample_store sample_cells) (OnMap 1 9)" by (simp add: is_write_once_def)
  moreover have "\<exists>e. chain (link (sample_store sample_cells)) 3 e"
    using chain.stop[of "link (sample_store sample_cells)" 3] by (auto simp: link_def)
  ultimately show ?thesis
    using await_registers_once[OF sample_store_ok, of "OnMap 1 9" 3] by auto
qed

text \<open>
  Tracking a task that waits on the tracking cell itself, as a \<open>bind\<close> does whose function
  returns the very task that \<open>bind\<close> gave back, never returns once a callback is registered: the cell awaits
  itself.
\<close>

theorem track_itself_never_returns:
  assumes "cells w ! a = Tracking c" and "tc_cell c = None" and "a < length (cells w)" and "tc_callbacks c \<noteq> []"
  shows "cell_track a a w = None"
  by (rule cell_track_itself[OF assms])

theorem track_itself_never_returns_witness: "cell_track 3 3 (sample_store sample_cells) = None"
  using track_itself_never_returns[of "sample_store sample_cells" 3] by simp

end
