(* ===== verification/Task_Laws.thy ===== *)
theory Task_Laws
  imports Tasks Cell_Steps
begin

text \<open>
  The operations of \<open>Tasks\<close> as steps of the store, and the library as a whole as a step
  relation: client calls, turns of the workers, polls, and the operating system. Every
  reachable world satisfies \<open>world_inv\<close>, and no step changes a value that a cell has.

  A thread that has taken a job out of a queue has it in hand until a later step of its own
  runs it (\<open>hands_over\<close> is what moving a job leaves alone); running it is one step. The cell
  operations inside a job take the cells' locks one by one, and the interleavings of those
  are the subject of \<open>Combinator_Races\<close> and \<open>Cell_Blocking\<close>.
\<close>

subsection \<open>New cells\<close>

lemma new_cell_simps [simp]:
  "fst (new_cell c w) = length (cells w)" "cells (snd (new_cell c w)) = cells w @ [c]"
  "pool (snd (new_cell c w)) = pool w" "same_rest w (snd (new_cell c w))"
  "jobs_left (snd (new_cell c w)) = jobs_left w"
  by (simp_all add: new_cell_def same_rest_def)

lemma same_rest_sources: "same_rest w w' \<Longrightarrow> timers w' = timers w \<and> io_source w' = io_source w"
  by (simp add: same_rest_def)

lemma new_cell_step:
  assumes inv: "world_inv w" and c: "cell_ok w c"
  shows "step_ok w (snd (new_cell c w))"
proof -
  let ?w = "snd (new_cell c w)"
  have le: "world_le w ?w" by (auto simp: world_le_def new_cell_def nth_append)
  have "cell_ok ?w c" using c cell_ok_mono[OF le] by simp
  then show ?thesis
    using world_invD(1)[OF inv] same_rest_sources[OF new_cell_simps(4)[of w c]]
    by (intro step_okI[OF inv le]) (auto simp: nth_append less_Suc_eq)
qed

lemma write_once_new_step:
  assumes "world_inv w" "write_once_new w = (a, w')"
  shows "step_ok w w'" "is_write_once w' a" "a = length (cells w)" "callback_tokens w' = callback_tokens w"
    "cells w' = cells w @ [WriteOnce \<lparr>wo_value = None, wo_callbacks = []\<rparr>]" "pool w' = pool w" "same_rest w w'"
  using new_cell_step[OF assms(1), of "WriteOnce \<lparr>wo_value = None, wo_callbacks = []\<rparr>"] assms(2)
    pending_new[of "WriteOnce \<lparr>wo_value = None, wo_callbacks = []\<rparr>" w]
  by (auto simp: write_once_new_def is_write_once_def callback_tokens_def queued_def prod_eq_iff nth_append
      dest!: arg_cong[of _ _ "\<lambda>p. (fst p, snd p)"])

lemma tracking_new_step:
  assumes "world_inv w" "tracking_new w = (a, w')"
  shows "step_ok w w'" "is_tracking w' a" "a = length (cells w)" "callback_tokens w' = callback_tokens w"
    "cells w' = cells w @ [Tracking \<lparr>tc_cell = None, tc_callbacks = []\<rparr>]" "pool w' = pool w" "same_rest w w'"
  using new_cell_step[OF assms(1), of "Tracking \<lparr>tc_cell = None, tc_callbacks = []\<rparr>"] assms(2)
    pending_new[of "Tracking \<lparr>tc_cell = None, tc_callbacks = []\<rparr>" w]
  by (auto simp: tracking_new_def is_tracking_def callback_tokens_def queued_def prod_eq_iff nth_append
      dest!: arg_cong[of _ _ "\<lambda>p. (fst p, snd p)"])

subsection \<open>Client calls\<close>

definition task_ok :: "('f, 'a, 'os) world \<Rightarrow> task \<Rightarrow> bool" where
  "task_ok w t \<longleftrightarrow> task_cell t < length (cells w)"

lemma task_ok_mono: "world_le w w' \<Longrightarrow> task_ok w t \<Longrightarrow> task_ok w' t"
  by (auto simp: task_ok_def dest: world_le_length)

lemma is_write_once_ok: "is_write_once w a \<Longrightarrow> task_ok w \<lparr>task_cell = a\<rparr>"
  by (simp add: is_write_once_def task_ok_def)

lemma step_okD: "step_ok w w' \<Longrightarrow> world_inv w'" "step_ok w w' \<Longrightarrow> world_le w w'"
  by (simp_all add: step_ok_def)

lemma task_new_step:
  assumes inv: "world_inv w" and t: "task_new f w = (t, w')"
  shows "step_ok w w'" "task_ok w' t"
proof -
  obtain a w1 where w1: "write_once_new w = (a, w1)" by (cases "write_once_new w")
  note n = write_once_new_step[OF inv w1]
  have "step_ok w1 (queue_job ctx_empty (RunTask a f) w1)"
    using n by (intro queue_job_step) (auto dest: step_okD)
  moreover have "t = \<lparr>task_cell = a\<rparr>" "w' = queue_job ctx_empty (RunTask a f) w1"
    using t w1 by (auto simp: task_new_def)
  ultimately show "step_ok w w'" "task_ok w' t"
    using n(1,2) by (auto intro: step_ok_trans simp: task_ok_def is_write_once_def)
qed

lemma task_map_step:
  assumes inv: "world_inv w" and ok: "task_ok w t" and r: "task_map f t w = Some (t', w')"
  shows "step_ok w w'" "task_ok w' t'"
    and "callback_tokens w' = add_mset (OnMap (task_cell t') f) (callback_tokens w)"
proof -
  obtain a w1 where w1: "write_once_new w = (a, w1)" by (cases "write_once_new w")
  note n = write_once_new_step[OF inv w1]
  have t': "t' = \<lparr>task_cell = a\<rparr>" and aw: "cell_await (task_cell t) (OnMap a f) w1 = Some w'"
    using r w1 by (auto simp: task_map_def)
  have "callback_ok w1 (OnMap a f)" "task_cell t < length (cells w1)"
    using n(2) task_ok_mono[OF step_okD(2)[OF n(1)] ok] by (auto simp: task_ok_def)
  note aws = cell_await_step[OF step_okD(1)[OF n(1)] this aw]
  show "step_ok w w'" using n(1) aws(1) by (rule step_ok_trans)
  show "task_ok w' t'" using task_ok_mono[OF step_okD(2)[OF aws(1)] is_write_once_ok[OF n(2)]] t' by simp
  show "callback_tokens w' = add_mset (OnMap (task_cell t') f) (callback_tokens w)"
    using aws(2) n(4) t' by simp
qed

lemma task_bind_step:
  assumes inv: "world_inv w" and ok: "task_ok w t" and r: "task_bind f t w = Some (t', w')"
  shows "step_ok w w'" "task_ok w' t'"
    and "callback_tokens w' = add_mset (OnBind (task_cell t') (Suc (task_cell t')) f) (callback_tokens w)"
proof -
  obtain a w1 where w1: "tracking_new w = (a, w1)" by (cases "tracking_new w")
  obtain e w2 where w2: "write_once_new w1 = (e, w2)" by (cases "write_once_new w1")
  note n1 = tracking_new_step[OF inv w1]
  note n2 = write_once_new_step[OF step_okD(1)[OF n1(1)] w2]
  have t': "t' = \<lparr>task_cell = a\<rparr>" and aw: "cell_await (task_cell t) (OnBind a e f) w2 = Some w'"
    using r w1 w2 by (auto simp: task_bind_def)
  have e: "e = Suc a" using n1(3,5) n2(3) by simp
  have le: "world_le w w2" using step_ok_trans[OF n1(1) n2(1)] by (rule step_okD)
  have a: "is_tracking w2 a" using is_tracking_mono[OF step_okD(2)[OF n2(1)] n1(2)] .
  have "callback_ok w2 (OnBind a e f)" "task_cell t < length (cells w2)"
    using a n2(2) task_ok_mono[OF le ok] by (auto simp: task_ok_def)
  note aws = cell_await_step[OF step_okD(1)[OF n2(1)] this aw]
  show "step_ok w w'" using step_ok_trans[OF n1(1) n2(1)] aws(1) by (rule step_ok_trans)
  have "task_ok w2 t'" using a t' by (simp add: is_tracking_def task_ok_def)
  then show "task_ok w' t'" using task_ok_mono[OF step_okD(2)[OF aws(1)]] by simp
  show "callback_tokens w' = add_mset (OnBind (task_cell t') (Suc (task_cell t')) f) (callback_tokens w)"
    using aws(2) n1(4) n2(4) t' e by simp
qed

lemma task_list_to_cell_list_eq: "task_list_to_cell_list ts cs = cs @ map task_cell ts"
  by (induction ts cs rule: task_list_to_cell_list.induct) auto

lemma contexts_step:
  assumes inv: "world_inv w"
    and same: "cells w' = cells w" "pool w' = pool w" "timers w' = timers w" "io_source w' = io_source w"
      "jobs_left w' = jobs_left w" "at_hand w' = at_hand w"
    and ctxs: "length (any_contexts w) \<le> length (any_contexts w')" "length (all_contexts w) \<le> length (all_contexts w')"
  shows "step_ok w w'" "callback_tokens w' = callback_tokens w"
proof -
  have "world_le w w'" using same ctxs by (simp add: world_le_def)
  then show "step_ok w w'" using world_invD(1)[OF inv] same by (intro step_okI[OF inv]) auto
  show "callback_tokens w' = callback_tokens w" using same by (simp add: callback_tokens_def pending_def queued_def)
qed

lemma when_any_new_step:
  assumes inv: "world_inv w" and cs: "\<forall>c \<in> set cs. c < length (cells w)" and r: "when_any_new cs w = Some (a, w')"
  shows "step_ok w w'" "a < length (cells w')"
    and "callback_tokens w' =
      replicate_mset (length cs) (OnWhenAny (length (cells w)) (length (any_contexts w))) + callback_tokens w"
proof -
  obtain u w1 where w1: "write_once_new w = (u, w1)" by (cases "write_once_new w")
  note n = write_once_new_step[OF inv w1]
  define w2 where "w2 = w1\<lparr>any_contexts := any_contexts w1 @ [\<lparr>num_erroneous_cells = 0, any_total_cells = length cs\<rparr>]\<rparr>"
  let ?x = "length (any_contexts w1)"
  have x: "?x = length (any_contexts w)" using n(7) by (simp add: same_rest_def)
  obtain w3 where w3: "await_each (map (\<lambda>c. (c, OnWhenAny u ?x)) cs) w2 = Some w3"
    and a: "(a, w') = new_cell (WhenAny u cs) w3"
    using r w1 by (auto simp: when_any_new_def w2_def)
  have s2: "step_ok w1 w2" "callback_tokens w2 = callback_tokens w1"
    using contexts_step[OF step_okD(1)[OF n(1)], of w2] by (auto simp: w2_def)
  have u2: "is_write_once w2 u" using is_write_once_mono[OF step_okD(2)[OF s2(1)] n(2)] .
  have "\<forall>p \<in> set (map (\<lambda>c. (c, OnWhenAny u ?x)) cs). fst p < length (cells w2) \<and> callback_ok w2 (snd p)"
    using cs n(5) u2 by (auto simp: w2_def)
  from await_each_step[OF step_okD(1)[OF s2(1)] this w3]
  have s3: "step_ok w2 w3" "callback_tokens w3 = callback_tokens w2 + replicate_mset (length cs) (OnWhenAny u ?x)"
    by (auto simp: comp_def map_replicate_const)
  have "cell_ok w3 (WhenAny u cs)" using is_write_once_mono[OF step_okD(2)[OF s3(1)] u2] by simp
  from new_cell_step[OF step_okD(1)[OF s3(1)] this]
  have s4: "step_ok w3 w'" using a by (metis snd_conv)
  show "step_ok w w'" using n(1) s2(1) s3(1) s4 by (meson step_ok_trans)
  show "a < length (cells w')" using arg_cong[OF a, of fst] arg_cong[OF a, of "\<lambda>p. cells (snd p)"] by simp
  have "callback_tokens w' = callback_tokens w3"
    using arg_cong[OF a, of "\<lambda>p. callback_tokens (snd p)"] pending_new[of "WhenAny u cs" w3]
    by (simp add: callback_tokens_def queued_def)
  then show "callback_tokens w' =
      replicate_mset (length cs) (OnWhenAny (length (cells w)) (length (any_contexts w))) + callback_tokens w"
    using s3(2) s2(2) n(3,4) x by simp
qed

lemma when_all_new_step:
  assumes inv: "world_inv w" and cs: "\<forall>c \<in> set cs. c < length (cells w)" and r: "when_all_new cs w = Some (a, w')"
  shows "step_ok w w'" "a < length (cells w')"
    and "callback_tokens w' =
      mset (map (\<lambda>i. OnWhenAll (length (all_contexts w)) i (length (cells w))) [0..<length cs]) + callback_tokens w"
proof -
  obtain u w1 where w1: "write_once_new w = (u, w1)" by (cases "write_once_new w")
  note n = write_once_new_step[OF inv w1]
  define w2 where "w2 = w1\<lparr>all_contexts := all_contexts w1
    @ [\<lparr>resolved_values = replicate (length cs) DefaultInit, num_resolved_cells = 0, all_total_cells = length cs\<rparr>]\<rparr>"
  let ?x = "length (all_contexts w1)"
  have x: "?x = length (all_contexts w)" using n(7) by (simp add: same_rest_def)
  let ?ps = "map (\<lambda>i. (cs ! i, OnWhenAll ?x i u)) [0..<length cs]"
  obtain w3 where w3: "await_each ?ps w2 = Some w3" and a: "(a, w') = new_cell (WhenAll u cs) w3"
    using r w1 by (auto simp: when_all_new_def w2_def)
  have s2: "step_ok w1 w2" "callback_tokens w2 = callback_tokens w1"
    using contexts_step[OF step_okD(1)[OF n(1)], of w2] by (auto simp: w2_def)
  have u2: "is_write_once w2 u" using is_write_once_mono[OF step_okD(2)[OF s2(1)] n(2)] .
  have "\<forall>p \<in> set ?ps. fst p < length (cells w2) \<and> callback_ok w2 (snd p)"
    using cs n(5) u2 by (auto simp: w2_def less_SucI)
  from await_each_step[OF step_okD(1)[OF s2(1)] this w3]
  have s3: "step_ok w2 w3" "callback_tokens w3 = callback_tokens w2 + mset (map (\<lambda>i. OnWhenAll ?x i u) [0..<length cs])"
    by (auto simp: comp_def)
  have "cell_ok w3 (WhenAll u cs)" using is_write_once_mono[OF step_okD(2)[OF s3(1)] u2] by simp
  from new_cell_step[OF step_okD(1)[OF s3(1)] this]
  have s4: "step_ok w3 w'" using a by (metis snd_conv)
  show "step_ok w w'" using n(1) s2(1) s3(1) s4 by (meson step_ok_trans)
  show "a < length (cells w')" using arg_cong[OF a, of fst] arg_cong[OF a, of "\<lambda>p. cells (snd p)"] by simp
  have "callback_tokens w' = callback_tokens w3"
    using arg_cong[OF a, of "\<lambda>p. callback_tokens (snd p)"] pending_new[of "WhenAll u cs" w3]
    by (simp add: callback_tokens_def queued_def)
  then show "callback_tokens w' =
      mset (map (\<lambda>i. OnWhenAll (length (all_contexts w)) i (length (cells w))) [0..<length cs]) + callback_tokens w"
    using s3(2) s2(2) n(3,4) x by simp
qed

subsection \<open>Sources\<close>

lemmas write_defs = cell_write_ctx_def cell_write_def cell_error_ctx_def cell_error_def
  value_source_complete_def value_source_complete_ctx_def value_source_error_def value_source_error_ctx_def

lemma value_source_new_step:
  assumes "world_inv w" "value_source_new w = (s, w')"
  shows "step_ok w w'" "is_write_once w' (source_cell s)" "same_rest w w'"
    "source_cell s = length (cells w)" "pool w' = pool w"
  using write_once_new_step[OF assms(1), of "fst (write_once_new w)" "snd (write_once_new w)"] assms(2)
  by (auto simp: value_source_new_def split: prod.splits)

text \<open>A change of the timers or of the requests in flight.\<close>

lemma sources_step:
  assumes inv: "world_inv w"
    and same: "cells w' = cells w" "any_contexts w' = any_contexts w" "all_contexts w' = all_contexts w"
      "length (workers (pool w')) = length (workers (pool w))"
      "fst ` set (at_hand w') \<subseteq> fst ` set (at_hand w) \<union> {..<length (workers (pool w))}"
    and pool: "pool_inv (pool w')" "\<forall>j \<in># jobs_left w'. j \<in># jobs_left w \<or> fn_ok w j"
    and src: "tps_inv (timers w')" "\<forall>p \<in># tps_dues (timers w'). job_ok w (snd p)"
      "\<forall>p \<in> set (in_flight_requests (io_source w')). is_write_once w (fst p)"
  shows "step_ok w w'"
proof -
  have le: "world_le w w'" using same by (simp add: world_le_def)
  have "cells_ok w'"
    using world_invD(3)[OF inv] cell_ok_mono[OF le] by (simp add: cells_ok_def same)
  moreover have "jobs_ok w'"
    using pool world_invD(4)[OF inv] fn_ok_mono[OF le] by (auto simp: jobs_ok_def)
  moreover have "sources_ok w'"
    using src job_ok_mono[OF le] is_write_once_mono[OF le] by (auto simp: sources_ok_def)
  ultimately show ?thesis using le by (simp add: step_ok_def world_inv_def)
qed

lemma sources_invD:
  assumes "world_inv w"
  shows "tps_inv (timers w)" "\<And>p. p \<in># tps_dues (timers w) \<Longrightarrow> job_ok w (snd p)"
    "\<And>p. p \<in> set (in_flight_requests (io_source w)) \<Longrightarrow> is_write_once w (fst p)"
  using assms by (auto simp: world_inv_def sources_ok_def)

lemma timer_after_step:
  assumes inv: "world_inv w" and t: "timer_after d w = (t, w')"
  shows "step_ok w w'" "task_ok w' t"
    and "tps_dues (timers w') = add_mset
      (placed_due (wheels (tps_wheel (timers w))) (to_size_t (cxx_div d 50)), CompleteTimer (task_cell t)) (tps_dues (timers w))"
proof -
  obtain vs w1 where w1: "value_source_new w = (vs, w1)" by (cases "value_source_new w")
  note n = value_source_new_step[OF inv w1]
  let ?j = "CompleteTimer (source_cell vs) :: ('a, 'b) job"
  have t: "t = \<lparr>task_cell = source_cell vs\<rparr>" "w' = w1\<lparr>timers := tps_schedule d ?j (timers w1)\<rparr>"
    using t w1 by (auto simp: timer_after_def value_source_create_def)
  note i1 = step_okD(1)[OF n(1)]
  note sch = tps_schedule_correct[OF sources_invD(1)[OF i1], of d ?j]
  have "step_ok w1 w'"
    using sch n(2) sources_invD[OF i1] world_invD(1)[OF i1]
    by (intro sources_step[OF i1]) (auto simp: t)
  then show "step_ok w w'" using n(1) by (rule step_ok_trans[rotated])
  have "task_ok w1 t" using n(2) by (simp add: t task_ok_def is_write_once_def)
  then show "task_ok w' t" using task_ok_mono[OF step_okD(2)[OF \<open>step_ok w1 w'\<close>]] by simp
  show "tps_dues (timers w') = add_mset
      (placed_due (wheels (tps_wheel (timers w))) (to_size_t (cxx_div d 50)), CompleteTimer (task_cell t)) (tps_dues (timers w))"
    using sch(2) n(3) by (simp add: t same_rest_def)
qed

lemma io_read_step:
  assumes inv: "world_inv w" and t: "io_read env fd req w = (t, w')"
  shows "step_ok w w'" "task_ok w' t"
    and "in_flight_requests (io_source w') = in_flight_requests (io_source w)
      @ [(task_cell t, \<lparr>in_flight_read = req, control_block = length (aiocbs w)\<rparr>)]"
proof -
  obtain vs w1 where w1: "value_source_new w = (vs, w1)" by (cases "value_source_new w")
  note n = value_source_new_step[OF inv w1]
  let ?rq = "(source_cell vs, \<lparr>in_flight_read = req, control_block = length (aiocbs w1)\<rparr>)"
  obtain cbs os where t: "t = \<lparr>task_cell = source_cell vs\<rparr>"
    "w' = w1\<lparr>io_source := (io_source w1)\<lparr>in_flight_requests := in_flight_requests (io_source w1) @ [?rq]\<rparr>,
              aiocbs := cbs, os_state := os\<rparr>"
    using t w1 by (auto simp: io_read_def value_source_create_def queue_read_def enqueue_and_start_read_def
        Let_def split: prod.splits)
  note i1 = step_okD(1)[OF n(1)]
  have "step_ok w1 w'"
    using n(2) sources_invD[OF i1] world_invD(1)[OF i1] by (intro sources_step[OF i1]) (auto simp: t)
  then show "step_ok w w'" using n(1) by (rule step_ok_trans[rotated])
  have "task_ok w1 t" using n(2) by (simp add: t task_ok_def is_write_once_def)
  then show "task_ok w' t" using task_ok_mono[OF step_okD(2)[OF \<open>step_ok w1 w'\<close>]] by simp
  show "in_flight_requests (io_source w') = in_flight_requests (io_source w)
      @ [(task_cell t, \<lparr>in_flight_read = req, control_block = length (aiocbs w)\<rparr>)]"
    using n(3) by (simp add: t same_rest_def)
qed

text \<open>A job that goes from a queue to a thread's hands, or back, is still left.\<close>

definition hands_over :: "('f, 'a, 'os) world \<Rightarrow> ('f, 'a, 'os) world \<Rightarrow> bool" where
  "hands_over w w' \<longleftrightarrow> cells w' = cells w \<and> any_contexts w' = any_contexts w \<and> all_contexts w' = all_contexts w
     \<and> timers w' = timers w \<and> io_source w' = io_source w \<and> buffers w' = buffers w \<and> aiocbs w' = aiocbs w
     \<and> os_state w' = os_state w \<and> pool_inv (pool w') \<and> jobs_left w' = jobs_left w
     \<and> length (workers (pool w')) = length (workers (pool w))
     \<and> fst ` set (at_hand w') \<subseteq> fst ` set (at_hand w) \<union> {..<length (workers (pool w))}"

lemma hands_over_step:
  assumes "world_inv w" "hands_over w w'"
  shows "step_ok w w'" "callback_tokens w' = callback_tokens w"
  using assms sources_invD[OF assms(1)]
  by (auto simp: hands_over_def callback_tokens_def pending_def queued_def intro!: sources_step)

lemma fetch_job_hands_over:
  assumes "pool_inv (pool w)" "i < length (workers (pool w))"
  shows "hands_over w (fetch_job i rnd w)"
proof (cases "worker_next i rnd (pool w)")
  case (Pair res p)
  from worker_next_correct[OF assms Pair] show ?thesis
    using Pair assms by (cases res) (auto simp: fetch_job_def hands_over_def jobs_left_def held_def)
qed

lemma queue_polled_hands_over: "pool_inv (pool w) \<Longrightarrow> hands_over w (queue_polled w)"
  using pool_queue_jobs_correct[OF _ ctx_empty_ok, of "pool w" "polled w"]
  by (auto simp: queue_polled_def hands_over_def scheduler_queue_jobs_def jobs_left_def held_def)

lemma poll_jobs_left:
  assumes "polled w = []"
  shows "jobs_left (poll_jobs env now src w) = jobs_left w + mset (polled (poll_jobs env now src w))"
  using assms by (cases src) (auto simp: poll_jobs_def jobs_left_def held_def split_def Let_def)

lemma poll_jobs_step:
  fixes w :: "('f, 'a, 'os) world"
  assumes inv: "world_inv w" and t: "clock_range now" and none: "polled w = []"
  shows "step_ok w (poll_jobs env now src w)"
proof (cases src)
  case TimingSource
  obtain jobs s where p: "tps_poll now (timers w) = (jobs, s)" by (cases "tps_poll now (timers w)")
  note poll = tps_poll_correct[OF sources_invD(1)[OF inv] t]
  have "j \<in># expired n M \<Longrightarrow> \<exists>d. (d, j) \<in># M" "x \<in># remaining n M \<Longrightarrow> \<exists>d. (d, snd x) \<in># M"
    for j x n and M :: "('f, 'a) job timer_bag"
    by (auto simp: expired_def remaining_def)
  then have "\<forall>j \<in> set jobs. job_ok w j" "\<forall>x \<in># tps_dues s. job_ok w (snd x)"
    using poll(2,3) p sources_invD(2)[OF inv] by (metis fst_conv set_mset_mset snd_conv)+
  then show ?thesis
    using poll(1) p TimingSource sources_invD(3)[OF inv] world_invD(1)[OF inv] poll_jobs_left[OF none, of env now src]
    by (intro sources_step[OF inv]) (auto simp: poll_jobs_def fn_ok_def)
next
  case IoSource
  let ?st = "aio_error_fn env (os_state w)"
  let ?p = "io_poll ?st FinishRead (io_source w) :: ('f, 'a) job list \<times> address io_source"
  obtain jobs s where p: "?p = (jobs, s)" by (cases ?p)
  have "\<forall>j \<in> set jobs. job_ok w j" "\<forall>x \<in> set (in_flight_requests s). is_write_once w (fst x)"
    using p sources_invD(3)[OF inv] by (auto simp: io_poll_eq)
  then show ?thesis
    using p IoSource sources_invD(1,2)[OF inv] world_invD(1)[OF inv] poll_jobs_left[OF none, of env now src]
    by (intro sources_step[OF inv]) (auto simp: poll_jobs_def fn_ok_def)
qed

lemma poll_source_step:
  "world_inv w \<Longrightarrow> clock_range now \<Longrightarrow> step_ok w (poll_source env now src w)"
  by (simp add: poll_source_def poll_jobs_step hands_over_step(1) queue_polled_hands_over world_invD(1))

end
