(* ===== verification/Library_Machine.thy ===== *)
theory Library_Machine
  imports Task_Laws
begin

text \<open>
  The library as a whole: client calls, turns of the workers, polls of the poll thread and
  changes of the operating system's state, in any order; and callbacks may be lost where awaits
  overlap. A user function is assumed to act on the world through the library's own calls only
  (\<open>uses_library\<close>), which is all a C++ function can do with the private members the model makes
  visible.
\<close>

subsection \<open>What clients and user functions can do\<close>

inductive client_step :: "('f, 'a, 'os) environment \<Rightarrow> ('f, 'a, 'os) world \<Rightarrow> ('f, 'a, 'os) world \<Rightarrow> bool"
  for env where
  create: "client_step env w (snd (task_new f w))"
| map_task: "task_ok w t \<Longrightarrow> task_map f t w = Some (t', w') \<Longrightarrow> client_step env w w'"
| bind_task: "task_ok w t \<Longrightarrow> task_bind f t w = Some (t', w') \<Longrightarrow> client_step env w w'"
| when_any: "\<forall>t \<in> set ts. task_ok w t \<Longrightarrow> task_when_any ts w = Some (t', w') \<Longrightarrow> client_step env w w'"
| when_all: "\<forall>t \<in> set ts. task_ok w t \<Longrightarrow> task_when_all ts w = Some (t', w') \<Longrightarrow> client_step env w w'"
| new_source: "client_step env w (snd (value_source_new w))"
| complete: "is_write_once w (source_cell s) \<Longrightarrow> client_step env w (value_source_complete v s w)"
| complete_ctx: "is_write_once w (source_cell s) \<Longrightarrow> ctx_ok (pool w) ctx \<Longrightarrow>
    client_step env w (value_source_complete_ctx ctx v s w)"
| error: "is_write_once w (source_cell s) \<Longrightarrow> client_step env w (value_source_error e s w)"
| error_ctx: "is_write_once w (source_cell s) \<Longrightarrow> ctx_ok (pool w) ctx \<Longrightarrow>
    client_step env w (value_source_error_ctx ctx e s w)"
| timer: "client_step env w (snd (timer_after d w))"
| read: "client_step env w (snd (io_read env fd req w))"

definition uses_library :: "('f, 'a, 'os) environment \<Rightarrow> bool" where
  "uses_library env \<longleftrightarrow>
     (\<forall>f w v w'. call_fn env f w = Some (v, w') \<longrightarrow> (client_step env)\<^sup>*\<^sup>* w w')
     \<and> (\<forall>f x w v w'. map_fn env f x w = Some (v, w') \<longrightarrow> (client_step env)\<^sup>*\<^sup>* w w')
     \<and> (\<forall>f x w t w'. bind_fn env f x w = Some (t, w') \<longrightarrow> (client_step env)\<^sup>*\<^sup>* w w' \<and> task_ok w' t)"

lemma client_step_ok:
  assumes "client_step env w w'" "world_inv w"
  shows "step_ok w w'"
  using assms
proof (induction rule: client_step.induct)
  case (create w f)
  then show ?case using task_new_step(1)[of w f "fst (task_new f w)"] by simp
next
  case (map_task w t f t' w')
  then show ?case using task_map_step(1)[of w t f t' w'] by simp
next
  case (bind_task w t f t' w')
  then show ?case using task_bind_step(1)[of w t f t' w'] by simp
next
  case (when_any ts w t' w')
  then obtain a where "when_any_new (map task_cell ts) w = Some (a, w')"
    by (auto simp: task_when_any_def task_list_to_cell_list_eq)
  then show ?case using when_any when_any_new_step(1)[of w "map task_cell ts"] by (auto simp: task_ok_def)
next
  case (when_all ts w t' w')
  then obtain a where "when_all_new (map task_cell ts) w = Some (a, w')"
    by (auto simp: task_when_all_def task_list_to_cell_list_eq)
  then show ?case using when_all when_all_new_step(1)[of w "map task_cell ts"] by (auto simp: task_ok_def)
next
  case (new_source w)
  then show ?case using value_source_new_step(1)[of w "fst (value_source_new w)"] by simp
next
  case (complete w s v)
  then show ?case using write_result_step(1)[OF _ ctx_empty_ok] by (simp add: write_defs)
next
  case (complete_ctx w s ctx v)
  then show ?case using write_result_step(1) by (simp add: write_defs)
next
  case (error w s e)
  then show ?case using write_result_step(1)[OF _ ctx_empty_ok] by (simp add: write_defs)
next
  case (error_ctx w s ctx e)
  then show ?case using write_result_step(1) by (simp add: write_defs)
next
  case (timer w d)
  then show ?case using timer_after_step(1)[of w d "fst (timer_after d w)"] by simp
next
  case (read w fd req)
  then show ?case using io_read_step(1)[of w env fd req "fst (io_read env fd req w)"] by simp
qed

lemma uses_libraryD:
  assumes "uses_library env"
  shows "call_fn env f w = Some (v, w') \<Longrightarrow> (client_step env)\<^sup>*\<^sup>* w w'"
    and "map_fn env f x w = Some (v, w') \<Longrightarrow> (client_step env)\<^sup>*\<^sup>* w w'"
    and "bind_fn env f x w = Some (t, w') \<Longrightarrow> (client_step env)\<^sup>*\<^sup>* w w'"
    and "bind_fn env f x w = Some (t, w') \<Longrightarrow> task_ok w' t"
  using assms unfolding uses_library_def by blast+

lemma client_steps_ok: "(client_step env)\<^sup>*\<^sup>* w w' \<Longrightarrow> world_inv w \<Longrightarrow> step_ok w w'"
  by (induction rule: rtranclp_induct) (auto intro: step_ok_trans client_step_ok dest: step_okD)

subsection \<open>Callbacks and jobs\<close>

lemma ctx_ok_mono: "world_le w w' \<Longrightarrow> ctx_ok (pool w) ctx \<Longrightarrow> ctx_ok (pool w') ctx"
  by (auto simp: world_le_def ctx_ok_def split: option.splits)

lemma write_after:
  assumes "step_ok w w1" "world_inv w" "ctx_ok (pool w) ctx" "is_write_once w a"
  shows "step_ok w (snd (write_result_to_value ctx r a w1))"
  using assms(1) write_result_step(1)[OF step_okD(1)[OF assms(1)] ctx_ok_mono[OF step_okD(2)[OF assms(1)] assms(3)]
      is_write_once_mono[OF step_okD(2)[OF assms(1)] assms(4)]]
  by (rule step_ok_trans)

lemma log_error_step: "world_inv w \<Longrightarrow> step_ok w (snd (log_error x w))"
  by (intro contexts_step(1)) (simp_all add: log_error_def Let_def)

lemma commit_step: "world_inv w \<Longrightarrow> step_ok w (snd (commit_resolved_value x i v w))"
  by (intro contexts_step(1)) (simp_all add: commit_resolved_value_def Let_def)

lemma run_callback_step:
  assumes inv: "world_inv w" and lib: "uses_library env" and ctx: "ctx_ok (pool w) ctx"
    and cb: "callback_ok w cb" and r: "run_callback env cb ctx r w = Some w'"
  shows "step_ok w w'"
proof (cases cb)
  case (OnMap c f)
  have c: "is_write_once w c" using cb OnMap by simp
  show ?thesis
  proof (cases r)
    case (Value v)
    then obtain g w1 where m: "map_fn env f v w = Some (g, w1)" and w': "w' = snd (cell_write_ctx ctx g c w1)"
      using r OnMap by (auto simp: run_callback_defs split: option.splits)
    have "step_ok w w1" using client_steps_ok[OF uses_libraryD(2)[OF lib m] inv] .
    from write_after[OF this inv ctx c] show ?thesis by (simp add: w' write_defs)
  next
    case (Err e)
    then show ?thesis using r OnMap write_after[OF step_ok_refl[OF inv] inv ctx c] by (auto simp: run_callback_defs write_defs)
  qed
next
  case (OnBind t e f)
  have t: "is_tracking w t" and e: "is_write_once w e" using cb OnBind by simp_all
  obtain a w1 b where w1: "step_ok w w1" "a < length (cells w1)" and tr: "cell_track a t w1 = Some (b, w')"
  proof (cases r)
    case (Value v)
    then obtain tk w1 b where b: "bind_fn env f v w = Some (tk, w1)" "cell_track (task_cell tk) t w1 = Some (b, w')"
      using r OnBind by (auto simp: run_callback_defs bind_eq_Some_conv)
    show ?thesis
      using client_steps_ok[OF uses_libraryD(3)[OF lib b(1)] inv] uses_libraryD(4)[OF lib b(1)] b(2)
        that[of w1 "task_cell tk" b] by (simp add: task_ok_def)
  next
    case (Err er)
    let ?w1 = "snd (cell_error_ctx ctx er e w)"
    have s: "step_ok w ?w1" using write_after[OF step_ok_refl[OF inv] inv ctx e] by (simp add: write_defs)
    moreover have "e < length (cells ?w1)"
      using is_write_once_mono[OF step_okD(2)[OF s] e] by (simp add: is_write_once_def)
    ultimately show ?thesis
      using that[of ?w1 e] r OnBind Err by (auto simp: run_callback_defs bind_eq_Some_conv)
  qed
  have "is_tracking w1 t" using is_tracking_mono[OF step_okD(2)[OF w1(1)] t] .
  from cell_track_step(1)[OF step_okD(1)[OF w1(1)] this w1(2) tr] w1(1) show ?thesis by (rule step_ok_trans[rotated])
next
  case (OnWhenAny u x)
  then have u: "is_write_once w u" using cb by simp
  note logged = log_error_step[OF inv, of x]
  show ?thesis
    using r OnWhenAny logged write_after[OF logged inv ctx u] write_after[OF step_ok_refl[OF inv] inv ctx u]
    by (cases r) (auto simp: run_callback_defs write_defs split_def Let_def split: if_splits)
next
  case (OnWhenAll x i u)
  then have u: "is_write_once w u" using cb by simp
  note committed = commit_step[OF inv, of x i]
  show ?thesis
    using r OnWhenAll committed write_after[OF committed inv ctx u] write_after[OF step_ok_refl[OF inv] inv ctx u]
    by (cases r) (auto simp: run_callback_defs write_defs split_def Let_def split: if_splits)
qed

lemma run_job_step:
  assumes inv: "world_inv w" and lib: "uses_library env" and ctx: "ctx_ok (pool w) ctx"
    and j: "job_ok w j" and r: "run_job env ctx j w = Some w'"
  shows "step_ok w w'"
proof (cases j)
  case (RunCallback cb res)
  then show ?thesis using run_callback_step[OF inv lib ctx] j r by (simp add: run_job_defs)
next
  case (RunTask c f)
  then obtain v w1 where m: "call_fn env f w = Some (v, w1)" and w': "w' = snd (cell_write_ctx ctx v c w1)"
    using r by (auto simp: run_job_defs split: option.splits)
  have "step_ok w w1" using client_steps_ok[OF uses_libraryD(1)[OF lib m] inv] .
  from write_after[OF this inv ctx] j RunTask show ?thesis by (simp add: w' write_defs)
next
  case (CompleteTimer c)
  then show ?thesis
    using r j write_after[OF step_ok_refl[OF inv] inv ctx] by (auto simp: run_job_defs write_defs)
next
  case (FinishRead c rq)
  then show ?thesis
    using r j write_after[OF step_ok_refl[OF inv] inv ctx_empty_ok]
    by (cases "read_result (aio_error_fn env (os_state w)) rq")
      (auto simp: run_job_defs finish_read_def read_callback_def write_defs)
qed

text \<open>A job in hand leaves the hand to run.\<close>

lemma run_at_handE:
  assumes f: "map_of (at_hand w) i = Some f" and inv: "world_inv w" and i: "i < length (workers (pool w))"
  obtains j w0 where "f = Some j" "w0 = w\<lparr>at_hand := remove1 (i, f) (at_hand w)\<rparr>" "step_ok w w0" "job_ok w0 j"
    "jobs_left w = add_mset f (jobs_left w0)" "ctx_ok (pool w0) (worker_context (workers (pool w) ! i))"
    "run_at_hand env i f w = run_job env (worker_context (workers (pool w) ! i)) j w0"
proof -
  let ?w = "w\<lparr>at_hand := remove1 (i, f) (at_hand w)\<rparr>"
  note left = jobs_left_remove[OF f]
  have st: "step_ok w ?w"
    using sources_invD[OF inv] world_invD(1)[OF inv] left set_remove1_subset[of "(i, f)" "at_hand w"]
    by (intro sources_step[OF inv]) (auto simp: image_iff)
  have ok: "fn_ok ?w f" using fn_ok_mono[OF step_okD(2)[OF st] world_invD(4)[OF inv]] left by simp
  then obtain j where j: "f = Some j" by (auto simp: fn_ok_def split: option.splits)
  have "job_ok ?w j" using ok j by (simp add: fn_ok_def)
  moreover have "ctx_ok (pool ?w) (worker_context (workers (pool w) ! i))"
    using world_invD(1)[OF inv] i by (simp add: pool_inv_def ctx_ok_def ctx_worker_def)
  moreover have "run_at_hand env i f w = run_job env (worker_context (workers (pool w) ! i)) j ?w"
    by (simp add: run_at_hand_def j)
  ultimately show ?thesis using that[OF j refl st] left by blast
qed

lemma worker_turn_cases:
  assumes "worker_turn env i rnd w = Some w'"
  obtains "map_of (at_hand w) i = None" "w' = fetch_job i rnd w"
    | f where "map_of (at_hand w) i = Some f" "run_at_hand env i f w = Some w'"
  using assms by (auto simp: worker_turn_def split: option.splits)

lemma worker_turn_step:
  assumes inv: "world_inv w" and lib: "uses_library env" and i: "i < length (workers (pool w))"
    and r: "worker_turn env i rnd w = Some w'"
  shows "step_ok w w'"
  using r
proof (cases rule: worker_turn_cases)
  case 1
  then show ?thesis using hands_over_step(1)[OF inv fetch_job_hands_over[OF world_invD(1)[OF inv] i]] by simp
next
  case (2 f)
  from 2(1) inv i obtain j w0 where "step_ok w w0" "job_ok w0 j"
    "ctx_ok (pool w0) (worker_context (workers (pool w) ! i))"
    "run_at_hand env i f w = run_job env (worker_context (workers (pool w) ! i)) j w0" by (rule run_at_handE)
  then show ?thesis using run_job_step[OF step_okD(1) lib] 2(2) by (metis step_ok_trans)
qed

text \<open>In a well-formed world no worker is handed an empty function.\<close>

lemma worker_turn_no_empty_job:
  assumes inv: "world_inv w" and i: "i < length (workers (pool w))"
  shows "fst (worker_next i rnd (pool w)) \<noteq> Some None"
proof (cases "worker_next i rnd (pool w)")
  case (Pair res p)
  note n = worker_next_correct[OF world_invD(1)[OF inv] i Pair]
  then show ?thesis using world_invD(4)[OF inv, of None] Pair by (auto simp: fn_ok_def jobs_left_def)
qed

subsection \<open>Runs of the library\<close>

inductive lib_step :: "('f, 'a, 'os) environment \<Rightarrow> ('f, 'a, 'os) world \<Rightarrow> ('f, 'a, 'os) world \<Rightarrow> bool"
  for env where
  client: "client_step env w w' \<Longrightarrow> lib_step env w w'"
| turn: "i < length (workers (pool w)) \<Longrightarrow> worker_turn env i rnd w = Some w' \<Longrightarrow> lib_step env w w'"
| poll: "clock_range now \<Longrightarrow> lib_step env w (poll_source env now src w)"
| os: "lib_step env w (w\<lparr>os_state := s\<rparr>)"
| lose: "e < length (cells w) \<Longrightarrow> lib_step env w (drop_callback e cb w)"

inductive lib_reachable :: "('f, 'a, 'os) environment \<Rightarrow> ('f, 'a, 'os) world \<Rightarrow> bool" for env where
  start: "clock_range now \<Longrightarrow> lib_reachable env (snd (factory_new now n_workers s))"
| step: "lib_reachable env w \<Longrightarrow> lib_step env w w' \<Longrightarrow> lib_reachable env w'"

lemma os_step: "world_inv w \<Longrightarrow> step_ok w (w\<lparr>os_state := s\<rparr>)"
  using sources_invD[of w] world_invD(1)[of w] by (intro sources_step) auto

lemma drop_step:
  assumes inv: "world_inv w" and e: "e < length (cells w)"
  shows "step_ok w (drop_callback e cb w)"
proof -
  have set_step: "step_ok w (set_cell e d w)" if d: "cell_le (cells w ! e) d" "cell_ok w d" for d
  proof -
    have le: "world_le w (set_cell e d w)" using d(1) by (intro world_le_update) auto
    have "timers (set_cell e d w) = timers w" "io_source (set_cell e d w) = io_source w" by (simp_all add: set_cell_def)
    then show ?thesis
      using world_invD(1)[OF inv] cell_ok_mono[OF le d(2)] e
      by (intro step_okI[OF inv le]) (auto simp: nth_list_update)
  qed
  have ok: "cell_ok w (cells w ! e)" by (rule world_invD(2)[OF inv e])
  show ?thesis
  proof (cases "cells w ! e")
    case (WriteOnce c)
    then have "cell_ok w (WriteOnce (c\<lparr>wo_callbacks := remove1 cb (wo_callbacks c)\<rparr>))"
      using ok set_remove1_subset[of cb "wo_callbacks c"] by auto
    then show ?thesis using set_step WriteOnce by (simp add: drop_callback_def)
  next
    case (Tracking c)
    then have "cell_ok w (Tracking (c\<lparr>tc_callbacks := remove1 cb (tc_callbacks c)\<rparr>))"
      using ok set_remove1_subset[of cb "tc_callbacks c"] by (auto split: option.splits)
    then show ?thesis using set_step Tracking by (simp add: drop_callback_def)
  qed (use inv in \<open>simp_all add: drop_callback_def\<close>)
qed

lemma lib_step_ok: "lib_step env w w' \<Longrightarrow> uses_library env \<Longrightarrow> world_inv w \<Longrightarrow> step_ok w w'"
  by (induction rule: lib_step.induct)
    (auto intro: client_step_ok worker_turn_step poll_source_step os_step drop_step)

lemma lib_steps_ok: "(lib_step env)\<^sup>*\<^sup>* w w' \<Longrightarrow> uses_library env \<Longrightarrow> world_inv w \<Longrightarrow> step_ok w w'"
  by (induction rule: rtranclp_induct) (auto intro: step_ok_trans lib_step_ok dest: step_okD)

lemma factory_new_inv: "clock_range now \<Longrightarrow> world_inv (snd (factory_new now n_workers s))"
  by (simp add: jobs_left_def held_def pool_new_correct tps_new_correct(1) tps_new_dues world_inv_def cells_ok_def jobs_ok_def sources_ok_def factory_new_def create_scheduler_def
      split_def Let_def io_new_def)

lemma lib_reachable_inv: "lib_reachable env w \<Longrightarrow> uses_library env \<Longrightarrow> world_inv w"
  by (induction rule: lib_reachable.induct) (auto intro: factory_new_inv dest: lib_step_ok step_okD)

subsection \<open>Properties\<close>

text \<open>An environment for the examples: \<open>map\<close> adds, \<open>bind\<close> creates a task, reads never finish.\<close>

fun add_plain :: "nat \<Rightarrow> nat val \<Rightarrow> nat val" where
  "add_plain n (Plain m) = Plain (m + n)"
| "add_plain n v = v"

definition sample_env :: "(nat, nat, unit) environment" where
  "sample_env = \<lparr>call_fn = (\<lambda>f w. Some (Plain f, w)), map_fn = (\<lambda>f v w. Some (add_plain f v, w)),
     bind_fn = (\<lambda>f v w. Some (task_new f w)), aio_error_fn = (\<lambda>s c. EINPROGRESS), aio_read_fn = (\<lambda>c cb s. (0, s))\<rparr>"

lemma sample_env_ok: "uses_library sample_env"
proof -
  have new: "task_ok w' t" if "task_new f w = (t, w')" for f t and w w' :: "(nat, nat, unit) world"
    using that by (auto simp: task_new_def write_once_new_def new_cell_def task_ok_def)
  have "(client_step sample_env)\<^sup>*\<^sup>* w (snd (task_new f w))" for f w
    using client_step.create[of sample_env w f] by (rule r_into_rtranclp)
  then have "(client_step sample_env)\<^sup>*\<^sup>* w w'" if "task_new f w = (t, w')" for f t w w'
    using that by (metis snd_conv)
  with new show ?thesis by (auto simp: uses_library_def sample_env_def)
qed

text \<open>
  C1: Once a cell has a result, nothing the library does changes it: through client calls, jobs,
  polls and user code, in any order, every later read gives the same result.
\<close>

theorem resolved_result_is_final:
  assumes "lib_reachable env w" and "uses_library env" and "(lib_step env)\<^sup>*\<^sup>* w w'"
    and "a < length (cells w)" and "cell_read a w = Some (Some v)"
  shows "cell_read a w' = Some (Some v)"
proof -
  have inv: "world_inv w" by (rule lib_reachable_inv[OF assms(1,2)])
  have "world_le w w'" using lib_steps_ok[OF assms(3,2) inv] by (rule step_okD)
  from cell_read_stable[OF assms(5) this world_invD(3)[OF inv] assms(4)] show ?thesis .
qed

theorem resolved_result_is_final_witness:
  "\<exists>w. lib_reachable sample_env w \<and> cell_read 0 w = Some (Some (Value (Plain 3)))
    \<and> cell_read 0 (snd (task_new 4 w)) = Some (Some (Value (Plain 3)))"
proof -
  define w0 where "w0 = (snd (factory_new 0 2 ()) :: (nat, nat, unit) world)"
  define w1 where "w1 = snd (value_source_new w0)"
  define w2 where "w2 = value_source_complete (Plain 3) \<lparr>source_cell = 0\<rparr> w1"
  have r0: "lib_reachable sample_env w0" unfolding w0_def by (rule lib_reachable.start) (simp add: clock_range_def)
  have c0: "cells w0 = []" by (simp add: w0_def factory_new_def split_def Let_def)
  have s1: "lib_step sample_env w0 w1" unfolding w1_def by (intro lib_step.client client_step.new_source)
  have c1: "cells w1 = [WriteOnce \<lparr>wo_value = None, wo_callbacks = []\<rparr>]"
    by (simp add: w1_def value_source_new_def write_once_new_def new_cell_def c0)
  then have "is_write_once w1 0" by (simp add: is_write_once_def)
  then have s2: "lib_step sample_env w1 w2"
    unfolding w2_def by (intro lib_step.client client_step.complete) simp
  have "cells w2 = [WriteOnce \<lparr>wo_value = Some (Value (Plain 3)), wo_callbacks = []\<rparr>]"
    by (simp add: w2_def write_defs write_result_to_value_def c1 set_cell_def)
  then have v: "cell_read 0 w2 = Some (Some (Value (Plain 3)))" "0 < length (cells w2)"
    by (auto simp: cell_read.simps)
  have r2: "lib_reachable sample_env w2" using r0 s1 s2 by (meson lib_reachable.step)
  have "(lib_step sample_env)\<^sup>*\<^sup>* w2 (snd (task_new 4 w2))"
    by (intro r_into_rtranclp lib_step.client client_step.create)
  from resolved_result_is_final[OF r2 sample_env_ok this v(2,1)] r2 v(1) show ?thesis by blast
qed

text \<open>
  C25: In every reachable world all references are sound: cells, callbacks and queued jobs refer
  to existing cells of the right kind, a filled cell holds no callbacks back, and no worker is
  ever handed an empty function.
\<close>

theorem library_references_sound:
  assumes "lib_reachable env w" and "uses_library env" and "i < length (workers (pool w))"
  shows "world_inv w \<and> fst (worker_next i rnd (pool w)) \<noteq> Some None"
  using lib_reachable_inv[OF assms(1,2)] worker_turn_no_empty_job[OF _ assms(3)] by blast

theorem library_references_sound_witness: "world_inv (snd (factory_new 0 2 ()) :: (nat, nat, unit) world)"
proof -
  have "lib_reachable sample_env (snd (factory_new 0 2 ()))"
    by (rule lib_reachable.start) (simp add: clock_range_def)
  moreover have "0 < length (workers (pool (snd (factory_new 0 2 ()) :: (nat, nat, unit) world)))"
    by (simp add: factory_new_def create_scheduler_def split_def Let_def pool_new_correct)
  ultimately show ?thesis using library_references_sound[OF _ sample_env_ok] by blast
qed

text \<open>
  Asking for a timer puts exactly one job on the timing wheels, due where \<open>schedule\<close> places
  it, and returns a task that is unresolved; when that job runs the task resolves to the unit
  value.
\<close>

theorem timer_task_resolves:
  assumes "world_inv w" and "timer_after d w = (t, w1)"
    and "world_inv w2" and "world_le w1 w2" and "ctx_ok (pool w2) ctx" and "end_value w2 (task_cell t) = None"
  shows "tps_dues (timers w1) = add_mset
      (placed_due (wheels (tps_wheel (timers w))) (to_size_t (cxx_div d 50)), CompleteTimer (task_cell t)) (tps_dues (timers w))
    \<and> end_value w1 (task_cell t) = None
    \<and> (\<exists>w3. run_job env ctx (CompleteTimer (task_cell t)) w2 = Some w3 \<and> end_value w3 (task_cell t) = Some (Value Unit))"
proof -
  note st = timer_after_step[OF assms(1,2)]
  have c: "cells w1 = cells w @ [WriteOnce \<lparr>wo_value = None, wo_callbacks = []\<rparr>]" "task_cell t = length (cells w)"
    using assms(2) by (auto simp: timer_after_def value_source_new_def write_once_new_def new_cell_def
        value_source_create_def Let_def)
  then have wo: "is_write_once w1 (task_cell t)" and e: "end_value w1 (task_cell t) = None"
    by (simp_all add: is_write_once_def end_value_def nth_append)
  have "end_value (snd (write_result_to_value ctx (Value Unit) (task_cell t) w2)) (task_cell t) = Some (Value Unit)"
    using end_value_write[OF world_invD(1)[OF assms(3)] assms(5) is_write_once_mono[OF assms(4) wo], of "Value Unit"]
      assms(6) by simp
  then show ?thesis using st(3) e by (simp add: run_job_defs write_defs)
qed

theorem timer_task_resolves_witness:
  "let w = snd (factory_new 0 2 ()) :: (nat, nat, unit) world; (t, w1) = timer_after 200 w
   in \<exists>w3. run_job sample_env ctx_empty (CompleteTimer (task_cell t)) w1 = Some w3
        \<and> end_value w3 (task_cell t) = Some (Value Unit)"
proof -
  let ?w = "snd (factory_new 0 2 ()) :: (nat, nat, unit) world"
  obtain t w1 where t: "timer_after 200 ?w = (t, w1)" by (cases "timer_after 200 ?w")
  have inv: "world_inv ?w" by (rule factory_new_inv) (simp add: clock_range_def)
  note st = timer_after_step[OF inv t]
  have "cells ?w = []" by (simp add: factory_new_def split_def Let_def)
  then have "end_value w1 (task_cell t) = None"
    using t by (auto simp: timer_after_def value_source_new_def write_once_new_def new_cell_def
        value_source_create_def Let_def end_value_def)
  from timer_task_resolves[OF inv t step_okD(1)[OF st(1)] world_le_refl ctx_empty_ok this, of sample_env] t
  show ?thesis by simp
qed

text \<open>
  When the job of a read runs, its task resolves to the request if the operating system
  reports success and to \<open>IOError\<close> for every other status.
\<close>

theorem read_task_resolves:
  assumes "world_inv w" and "is_write_once w c" and "end_value w c = None"
  shows "\<exists>w'. run_job env ctx (FinishRead c rq) w = Some w' \<and> end_value w' c =
      Some (if aio_error_fn env (os_state w) (control_block rq) = 0
            then Value (Request (in_flight_read rq)) else Err IOError)"
  using end_value_write[OF world_invD(1)[OF assms(1)] ctx_empty_ok assms(2)] assms(3)
  by (auto simp: run_job_defs finish_read_def read_callback_def read_result_def write_defs Let_def)

theorem read_task_resolves_witness:
  "\<exists>w'. run_job sample_env ctx_empty (FinishRead 0
        \<lparr>in_flight_read = \<lparr>request_buffer = 0, nbytes = Size 8, file_offset = Offset 0\<rparr>, control_block = 0\<rparr>)
      (sample_store sample_cells) = Some w' \<and> end_value w' 0 = Some (Err IOError)"
  using read_task_resolves[OF sample_store_ok, of 0 sample_env ctx_empty
      "\<lparr>in_flight_read = \<lparr>request_buffer = 0, nbytes = Size 8, file_offset = Offset 0\<rparr>, control_block = 0\<rparr>"]
  by (simp add: is_write_once_def end_value_def sample_env_def EINPROGRESS_def)

end
