(* ===== verification/Combinators.thy ===== *)
theory Combinators
  imports Library_Machine
begin

text \<open>
  What tasks resolve to: \<open>map\<close> and \<open>bind\<close> when their callback runs, and \<open>when_all\<close> and
  \<open>when_any\<close> for every order in which the results of their tasks come in. The deliveries of a
  combining cell are its callbacks' runs, each with the context of the worker that ran it.
\<close>

subsection \<open>Values that awaiting and tracking leave alone\<close>

lemma end_value_park: "end_value (park e cb w) d = end_value w d"
  by (cases "e < length (cells w)")
    (auto simp: end_value_def park_def write_once_await_def nth_list_update list_update_beyond split: cell.splits option.splits)

lemma await_each_end_value: "await_each ps w = Some w' \<Longrightarrow> end_value w' d = end_value w d"
proof (induction ps w rule: await_each.induct)
  case (1 w)
  then show ?case by simp
next
  case (2 a cb rest w)
  then obtain w1 where "cell_await a cb w = Some w1" "await_each rest w1 = Some w'" by (auto simp: bind_eq_Some_conv)
  then show ?case using 2(1) cell_await_Some[of a cb w w1] end_value_park[of _ cb w d] by auto
qed

lemma cell_track_end_value:
  assumes a: "is_tracking w a" and r: "cell_track t a w = Some (b, w')"
  shows "end_value w' d = end_value w d"
proof -
  obtain c where c: "a < length (cells w)" "cells w ! a = Tracking c" using is_trackingE[OF a] .
  show ?thesis
  proof (cases "tc_cell c")
    case (Some u)
    then show ?thesis using cell_track_again[OF c(2) Some, of t] r by simp
  next
    case None
    from await_each_end_value[OF cell_track_first(2)[OF c(2) None c(1) r, unfolded await_callbacks_each]] c
    show ?thesis by (auto simp: end_value_def nth_list_update)
  qed
qed

subsection \<open>\<open>map\<close> and \<open>bind\<close>\<close>

lemma run_map_value:
  assumes inv: "world_inv w" and lib: "uses_library env" and ctx: "ctx_ok (pool w) ctx" and c: "is_write_once w c"
    and m: "map_fn env f v w = Some (g, w1)" and empty: "end_value w1 c = None"
  shows "\<exists>w'. run_callback env (OnMap c f) ctx (Value v) w = Some w' \<and> end_value w' c = Some (Value g)"
proof -
  have s: "step_ok w w1" using client_steps_ok[OF uses_libraryD(2)[OF lib m] inv] .
  have "end_value (snd (write_result_to_value ctx (Value g) c w1)) c = Some (Value g)"
    using end_value_write[OF world_invD(1)[OF step_okD(1)[OF s]] ctx_ok_mono[OF step_okD(2)[OF s] ctx]
        is_write_once_mono[OF step_okD(2)[OF s] c]] empty by simp
  then show ?thesis using m by (simp add: run_callback_defs write_defs)
qed

lemma run_map_error:
  assumes "world_inv w" "ctx_ok (pool w) ctx" "is_write_once w c" "end_value w c = None"
  shows "\<exists>w'. run_callback env (OnMap c f) ctx (Err e) w = Some w' \<and> end_value w' c = Some (Err e)"
  using end_value_write[OF world_invD(1)[OF assms(1)] assms(2,3), of "Err e"] assms(4)
  by (simp add: run_callback_defs write_defs)

lemma track_reads:
  assumes inv: "world_inv w" and t: "is_tracking w t" "link w t = None"
    and a: "a < length (cells w)" "chain (link w) a d" "d \<noteq> t"
  shows "\<exists>w'. cell_track a t w = Some (True, w') \<and> step_ok w w' \<and> cell_read t w' = Some (end_value w d)"
proof -
  obtain c where c: "t < length (cells w)" "cells w ! t = Tracking c" using is_trackingE[OF t(1)] .
  then have "tc_cell c = None" using t(2) by (simp add: link_def)
  from cell_track_returns[OF c(2) this c(1) a(2,3)] obtain w' where w': "cell_track a t w = Some (True, w')" by blast
  note st = cell_track_step[OF inv t(1) a(1) w']
  have "chain (link w) t t" using chain.stop[where lk = "link w", OF t(2)] .
  from chain_extend[OF this t(2) a(2,3), of "link w'"] st(3) have "chain (link w') t d" by simp
  from cell_read_chain[OF this] cell_track_end_value[OF t(1) w'] w' st(1) show ?thesis by simp
qed

lemma run_bind_value:
  assumes inv: "world_inv w" and lib: "uses_library env" and t: "is_tracking w t"
    and b: "bind_fn env f v w = Some (tk, w1)" and empty: "link w1 t = None"
    and d: "chain (link w1) (task_cell tk) d" "d \<noteq> t"
  shows "\<exists>w'. run_callback env (OnBind t e f) ctx (Value v) w = Some w'
    \<and> cell_read t w' = cell_read (task_cell tk) w1"
proof -
  have s: "step_ok w w1" using client_steps_ok[OF uses_libraryD(3)[OF lib b] inv] .
  have "task_cell tk < length (cells w1)" using uses_libraryD(4)[OF lib b] by (simp add: task_ok_def)
  from track_reads[OF step_okD(1)[OF s] is_tracking_mono[OF step_okD(2)[OF s] t] empty this d]
    cell_read_chain[OF d(1)] b show ?thesis
    by (auto simp: run_callback_defs)
qed

lemma run_bind_error:
  assumes inv: "world_inv w" and ctx: "ctx_ok (pool w) ctx" and t: "is_tracking w t" "link w t = None"
    and e: "is_write_once w e" "end_value w e = None"
  shows "\<exists>w'. run_callback env (OnBind t e f) ctx (Err er) w = Some w' \<and> cell_read t w' = Some (Some (Err er))"
proof -
  let ?w1 = "snd (write_result_to_value ctx (Err er) e w)"
  have s: "step_ok w ?w1" using write_result_step(1)[OF inv ctx e(1)] .
  obtain c where c: "e < length (cells w)" "cells w ! e = WriteOnce c" using is_write_onceE[OF e(1)] .
  then have "wo_value c = None" using e(2) by (simp add: end_value_def)
  from write_empty(2)[OF world_invD(1)[OF inv] ctx c this, of "Err er"]
  have l: "link ?w1 t = None" "link ?w1 e = None" using t(2) c(1) by (auto simp: link_update)
  have "e < length (cells ?w1)" using c(1) world_le_length[OF step_okD(2)[OF s]] by simp
  moreover have "e \<noteq> t" using e(1) t(1) by (auto simp: is_write_once_def is_tracking_def split: cell.splits)
  ultimately obtain w' where w': "cell_track e t ?w1 = Some (True, w')" "cell_read t w' = Some (end_value ?w1 e)"
    using track_reads[OF step_okD(1)[OF s] is_tracking_mono[OF step_okD(2)[OF s] t(1)] l(1), of e e]
      chain.stop[where lk = "link ?w1", OF l(2)] by auto
  have "end_value ?w1 e = Some (Err er)"
    using end_value_write[OF world_invD(1)[OF inv] ctx e(1), of "Err er"] e(2) by simp
  with w' show ?thesis by (simp add: run_callback_defs write_defs)
qed

subsection \<open>First values and errors\<close>

fun first_error :: "('v, 'e) result list \<Rightarrow> 'e option" where
  "first_error [] = None"
| "first_error (Err e # rs) = Some e"
| "first_error (Value v # rs) = first_error rs"

fun first_value :: "('v, 'e) result list \<Rightarrow> 'v option" where
  "first_value [] = None"
| "first_value (Value v # rs) = Some v"
| "first_value (Err e # rs) = first_value rs"

lemma first_error_snoc:
  "first_error (rs @ [r]) = (case first_error rs of Some e \<Rightarrow> Some e
     | None \<Rightarrow> (case r of Err e \<Rightarrow> Some e | Value v \<Rightarrow> None))"
  by (induction rs rule: first_error.induct) (auto split: result.splits)

lemma first_value_snoc:
  "first_value (rs @ [r]) = (case first_value rs of Some v \<Rightarrow> Some v
     | None \<Rightarrow> (case r of Value v \<Rightarrow> Some v | Err e \<Rightarrow> None))"
  by (induction rs rule: first_value.induct) (auto split: result.splits)

lemma count_values: "length (filter is_value rs) = length rs \<longleftrightarrow> first_error rs = None"
proof (induction rs rule: first_error.induct)
  case (2 e rs)
  have "length (filter is_value rs) \<noteq> Suc (length rs)" using length_filter_le[of is_value rs] by linarith
  then show ?case by simp
qed simp_all

lemma count_errors: "length (filter (\<lambda>r. \<not> is_value r) rs) = length rs \<longleftrightarrow> first_value rs = None"
proof (induction rs rule: first_value.induct)
  case (2 v rs)
  have "length (filter (\<lambda>r. \<not> is_value r) rs) \<noteq> Suc (length rs)"
    using length_filter_le[of "\<lambda>r. \<not> is_value r" rs] by linarith
  then show ?case by simp
qed simp_all

lemma write_contexts:
  assumes "pool_inv (pool w)" "ctx_ok (pool w) ctx" "is_write_once w a"
  shows "any_contexts (snd (write_result_to_value ctx r a w)) = any_contexts w"
    and "all_contexts (snd (write_result_to_value ctx r a w)) = all_contexts w"
proof -
  obtain c where a: "a < length (cells w)" "cells w ! a = WriteOnce c" using is_write_onceE[OF assms(3)] .
  have "same_rest w (snd (write_result_to_value ctx r a w))"
    using write_filled[OF a(2)] write_empty(3)[OF assms(1,2) a] by (cases "wo_value c") auto
  then show "any_contexts (snd (write_result_to_value ctx r a w)) = any_contexts w"
    "all_contexts (snd (write_result_to_value ctx r a w)) = all_contexts w" by (simp_all add: same_rest_def)
qed

lemma last_count: "k = m \<longleftrightarrow> P \<Longrightarrow> k \<le> m \<Longrightarrow> Suc m \<le> n \<Longrightarrow> Suc k = n \<longleftrightarrow> P \<and> Suc m = n" for k m n :: nat
  by auto

subsection \<open>\<open>when_all\<close>\<close>

type_synonym 'a delivery = "sched_context \<times> nat \<times> 'a outcome"

abbreviation delivered_id :: "'a delivery \<Rightarrow> nat" where
  "delivered_id d \<equiv> fst (snd d)"

abbreviation delivered_result :: "'a delivery \<Rightarrow> 'a outcome" where
  "delivered_result d \<equiv> snd (snd d)"

fun deliver_all ::
  "('f, 'a, 'os) environment \<Rightarrow> address \<Rightarrow> address \<Rightarrow> 'a delivery list
    \<Rightarrow> ('f, 'a, 'os) world \<Rightarrow> ('f, 'a, 'os) world option"
where
  "deliver_all env x u [] w = Some w"
| "deliver_all env x u ((ctx, i, r) # ds) w =
     Option.bind (run_callback env (OnWhenAll x i u) ctx r w) (deliver_all env x u ds)"

fun fill_values :: "'a val list \<Rightarrow> 'a delivery list \<Rightarrow> 'a val list" where
  "fill_values vs [] = vs"
| "fill_values vs ((ctx, i, Value v) # ds) = fill_values (vs[i := v]) ds"
| "fill_values vs ((ctx, i, Err e) # ds) = fill_values vs ds"

definition all_outcome :: "nat \<Rightarrow> 'a delivery list \<Rightarrow> 'a outcome option" where
  "all_outcome n ds =
     (case first_error (map delivered_result ds) of
        Some e \<Rightarrow> Some (Err e)
      | None \<Rightarrow> if ds \<noteq> [] \<and> length ds = n then Some (Value (Vector (fill_values (replicate n DefaultInit) ds))) else None)"

lemma deliver_all_append:
  "deliver_all env x u (ds @ es) w = Option.bind (deliver_all env x u ds w) (deliver_all env x u es)"
  by (induction env x u ds w rule: deliver_all.induct) (auto split: Option.bind_splits)

lemma fill_values_append: "fill_values vs (ds @ es) = fill_values (fill_values vs ds) es"
  by (induction vs ds rule: fill_values.induct) auto

lemma fill_values_length [simp]: "length (fill_values vs ds) = length vs"
  by (induction vs ds rule: fill_values.induct) auto

lemma distinct_ids_length:
  "distinct (map delivered_id ds) \<Longrightarrow> \<forall>d \<in> set ds. delivered_id d < n \<Longrightarrow> length ds \<le> n"
  using card_mono[of "{..<n}" "set (map delivered_id ds)"] distinct_card[of "map delivered_id ds"] by (auto simp: subset_eq)

lemma run_all_cases:
  assumes inv: "world_inv w" and ctx: "ctx_ok (pool w) ctx" and u: "is_write_once w u" and x: "x < length (all_contexts w)"
  defines "c \<equiv> all_contexts w ! x"
  shows "\<exists>w'. run_callback env (OnWhenAll x i u) ctx r w = Some w' \<and> step_ok w w'
    \<and> length (all_contexts w') = length (all_contexts w)
    \<and> all_contexts w' ! x = (case r of
          Value v \<Rightarrow> c\<lparr>resolved_values := (resolved_values c)[i := v], num_resolved_cells := sz_add (num_resolved_cells c) 1\<rparr>
        | Err e \<Rightarrow> c)
    \<and> end_value w' u = (case end_value w u of Some r0 \<Rightarrow> Some r0
        | None \<Rightarrow> (case r of
            Value v \<Rightarrow> if all_total_cells c \<le> sz_add (num_resolved_cells c) 1
                       then Some (Value (Vector ((resolved_values c)[i := v]))) else None
          | Err e \<Rightarrow> Some (Err e)))"
proof (cases r)
  case (Err e)
  let ?w' = "snd (write_result_to_value ctx (Err e) u w)"
  have "step_ok w ?w'" using write_result_step(1)[OF inv ctx u] .
  moreover have "all_contexts ?w' = all_contexts w"
    by (rule write_contexts(2)[OF world_invD(1)[OF inv] ctx u])
  moreover have "end_value ?w' u = (case end_value w u of None \<Rightarrow> Some (Err e) | Some r0 \<Rightarrow> Some r0)"
    by (rule end_value_write[OF world_invD(1)[OF inv] ctx u])
  ultimately show ?thesis using Err by (simp add: run_callback_defs write_defs c_def split: option.splits)
next
  case (Value v)
  define w1 where "w1 = snd (commit_resolved_value x i v w)"
  have c1: "all_contexts w1 ! x = c\<lparr>resolved_values := (resolved_values c)[i := v], num_resolved_cells := sz_add (num_resolved_cells c) 1\<rparr>"
    "length (all_contexts w1) = length (all_contexts w)" "end_value w1 u = end_value w u"
    using x by (auto simp: w1_def commit_resolved_value_def Let_def c_def end_value_def)
  have last: "fst (commit_resolved_value x i v w) \<longleftrightarrow> all_total_cells c \<le> sz_add (num_resolved_cells c) 1"
    by (simp add: commit_resolved_value_def Let_def c_def)
  have s1: "step_ok w w1" using commit_step[OF inv] by (simp add: w1_def)
  have ctx1: "ctx_ok (pool w1) ctx" and u1: "is_write_once w1 u"
    using ctx_ok_mono[OF step_okD(2)[OF s1] ctx] is_write_once_mono[OF step_okD(2)[OF s1] u] .
  let ?vec = "Vector ((resolved_values c)[i := v])"
  let ?w' = "snd (write_result_to_value ctx (Value ?vec) u w1)"
  have "step_ok w ?w'" using s1 write_result_step(1)[OF step_okD(1)[OF s1] ctx1 u1] by (rule step_ok_trans)
  moreover have "all_contexts ?w' = all_contexts w1"
    by (rule write_contexts(2)[OF world_invD(1)[OF step_okD(1)[OF s1]] ctx1 u1])
  moreover have "end_value ?w' u = (case end_value w u of None \<Rightarrow> Some (Value ?vec) | Some r0 \<Rightarrow> Some r0)"
    using end_value_write[OF world_invD(1)[OF step_okD(1)[OF s1]] ctx1 u1, of "Value ?vec"] c1(3) by simp
  moreover have "run_callback env (OnWhenAll x i u) ctx r w = Some (if fst (commit_resolved_value x i v w) then ?w' else w1)"
    using Value c1(1) by (simp add: run_callback_defs write_defs w1_def split_def Let_def)
  ultimately show ?thesis using Value c1 s1 last by (simp split: option.splits)
qed

lemma run_all_small:
  assumes inv: "world_inv w" and ctx: "ctx_ok (pool w) ctx" and u: "is_write_once w u" and x: "x < length (all_contexts w)"
    and c: "all_contexts w ! x = \<lparr>resolved_values = vs, num_resolved_cells = k, all_total_cells = n\<rparr>"
    and k: "Suc k < size_max1"
  shows "\<exists>w'. run_callback env (OnWhenAll x i u) ctx r w = Some w' \<and> step_ok w w'
    \<and> length (all_contexts w') = length (all_contexts w)
    \<and> all_contexts w' ! x = (case r of
          Value v \<Rightarrow> \<lparr>resolved_values = vs[i := v], num_resolved_cells = Suc k, all_total_cells = n\<rparr>
        | Err e \<Rightarrow> \<lparr>resolved_values = vs, num_resolved_cells = k, all_total_cells = n\<rparr>)
    \<and> end_value w' u = (case end_value w u of Some r0 \<Rightarrow> Some r0
        | None \<Rightarrow> (case r of
            Value v \<Rightarrow> if n \<le> Suc k then Some (Value (Vector (vs[i := v]))) else None
          | Err e \<Rightarrow> Some (Err e)))"
  using run_all_cases[OF inv ctx u x, of env i r] k by (cases r; cases "end_value w u") (auto simp: c)

definition all_ready :: "nat \<Rightarrow> address \<Rightarrow> address \<Rightarrow> ('f, 'a, 'os) world \<Rightarrow> bool" where
  "all_ready n x u w \<longleftrightarrow> world_inv w \<and> is_write_once w u \<and> end_value w u = None \<and> x < length (all_contexts w)
     \<and> all_contexts w ! x = \<lparr>resolved_values = replicate n DefaultInit, num_resolved_cells = 0, all_total_cells = n\<rparr>"

definition deliveries_ok :: "nat \<Rightarrow> ('f, 'a, 'os) world \<Rightarrow> 'a delivery list \<Rightarrow> bool" where
  "deliveries_ok n w ds \<longleftrightarrow> distinct (map delivered_id ds) \<and> (\<forall>d \<in> set ds. delivered_id d < n \<and> ctx_ok (pool w) (fst d))"

lemma deliveries_ok_length: "deliveries_ok n w ds \<Longrightarrow> length ds \<le> n"
  by (auto simp: deliveries_ok_def intro: distinct_ids_length)

lemma deliveries_ok_snoc: "deliveries_ok n w (ds @ [d]) \<Longrightarrow> deliveries_ok n w ds"
  by (auto simp: deliveries_ok_def)

lemma deliver_all_correct:
  assumes "all_ready n x u w" "deliveries_ok n w ds" "n < size_max1"
  shows "\<exists>w'. deliver_all env x u ds w = Some w' \<and> step_ok w w'
    \<and> length (all_contexts w') = length (all_contexts w)
    \<and> all_contexts w' ! x = \<lparr>resolved_values = fill_values (replicate n DefaultInit) ds,
         num_resolved_cells = length (filter is_value (map delivered_result ds)), all_total_cells = n\<rparr>
    \<and> end_value w' u = all_outcome n ds"
  using assms
proof (induction ds rule: rev_induct)
  case Nil
  then show ?case by (simp add: all_ready_def all_outcome_def)
next
  case (snoc d ds)
  obtain ctx i r where d: "d = (ctx, i, r)" by (cases d)
  from snoc.IH[OF snoc.prems(1) deliveries_ok_snoc[OF snoc.prems(2)] snoc.prems(3)] obtain w1 where
    w1: "deliver_all env x u ds w = Some w1" "step_ok w w1" "length (all_contexts w1) = length (all_contexts w)"
      "all_contexts w1 ! x = \<lparr>resolved_values = fill_values (replicate n DefaultInit) ds,
         num_resolved_cells = length (filter is_value (map delivered_result ds)), all_total_cells = n\<rparr>"
      "end_value w1 u = all_outcome n ds" by blast
  define k where "k = length (filter is_value (map delivered_result ds))"
  define vs where "vs = fill_values (replicate n DefaultInit) ds"
  have c1: "all_contexts w1 ! x = \<lparr>resolved_values = vs, num_resolved_cells = k, all_total_cells = n\<rparr>"
    using w1(4) by (simp add: k_def vs_def)
  have len: "Suc (length ds) \<le> n" using deliveries_ok_length[OF snoc.prems(2)] by simp
  have k: "k \<le> length ds" using length_filter_le[of is_value "map delivered_result ds"] by (simp add: k_def)
  have full: "Suc k = n \<longleftrightarrow> first_error (map delivered_result ds) = None \<and> Suc (length ds) = n"
    by (rule last_count) (use count_values[of "map delivered_result ds"] k len in \<open>simp_all add: k_def\<close>)
  have ctx: "ctx_ok (pool w1) ctx" "is_write_once w1 u" "x < length (all_contexts w1)" "Suc k < size_max1"
    using snoc.prems w1(2,3) d ctx_ok_mono is_write_once_mono k len
    by (auto simp: deliveries_ok_def all_ready_def step_ok_def)
  from run_all_small[OF step_okD(1)[OF w1(2)] ctx(1,2,3) c1 ctx(4), of env i r] obtain w2 where
    w2: "run_callback env (OnWhenAll x i u) ctx r w1 = Some w2" "step_ok w1 w2"
      "length (all_contexts w2) = length (all_contexts w1)"
      "all_contexts w2 ! x = (case r of
          Value v \<Rightarrow> \<lparr>resolved_values = vs[i := v], num_resolved_cells = Suc k, all_total_cells = n\<rparr>
        | Err e \<Rightarrow> \<lparr>resolved_values = vs, num_resolved_cells = k, all_total_cells = n\<rparr>)"
      "end_value w2 u = (case end_value w1 u of Some r0 \<Rightarrow> Some r0
        | None \<Rightarrow> (case r of
            Value v \<Rightarrow> if n \<le> Suc k then Some (Value (Vector (vs[i := v]))) else None
          | Err e \<Rightarrow> Some (Err e)))"
    by blast
  have "deliver_all env x u (ds @ [d]) w = Some w2" using w1(1) w2(1) by (simp add: deliver_all_append d)
  moreover have "all_contexts w2 ! x = \<lparr>resolved_values = fill_values (replicate n DefaultInit) (ds @ [d]),
         num_resolved_cells = length (filter is_value (map delivered_result (ds @ [d]))), all_total_cells = n\<rparr>"
    using w2(4) by (cases r) (auto simp: d fill_values_append vs_def k_def)
  moreover have "end_value w2 u = all_outcome n (ds @ [d])"
  proof (cases "first_error (map delivered_result ds)")
    case None
    then have "all_outcome n ds = None" "n \<le> Suc k \<longleftrightarrow> Suc (length ds) = n"
      using full len k by (auto simp: all_outcome_def)
    then show ?thesis
      using w2(5) w1(5) None by (cases r) (auto simp: d all_outcome_def first_error_snoc fill_values_append vs_def)
  next
    case (Some e)
    then show ?thesis using w2(5) w1(5) by (simp add: d all_outcome_def first_error_snoc)
  qed
  ultimately show ?case using w2(2,3) w1(2,3) by (auto intro: step_ok_trans)
qed

text \<open>With one value for every task, the vector holds them in the order of the tasks.\<close>

lemma fill_values_nth:
  assumes "distinct (map delivered_id ds)" "(ctx, i, Value v) \<in> set ds" "i < length vs"
  shows "fill_values vs ds ! i = v"
  using assms
proof (induction vs ds rule: fill_values.induct)
  case (2 vs ctx' j v' ds)
  have keep: "fill_values us es ! k = us ! k" if "k \<notin> set (map delivered_id es)" for us :: "'a val list" and es k
    using that by (induction us es rule: fill_values.induct) auto
  show ?case
  proof (cases "(ctx, i, Value v) = (ctx', j, Value v')")
    case True
    then show ?thesis using 2 keep[of i ds "vs[i := v]"] by auto
  next
    case False
    then show ?thesis using 2 by auto
  qed
qed auto

lemma all_outcome_values:
  assumes "distinct (map delivered_id ds)" "length ds = length vs" "vs \<noteq> []"
    and "\<forall>(ctx, i, r) \<in> set ds. i < length vs \<and> r = Value (vs ! i)"
  shows "all_outcome (length vs) ds = Some (Value (Vector vs))"
proof -
  let ?n = "length vs"
  have "first_error (map delivered_result ds) = None"
    using assms(4)
  proof (induction ds)
    case (Cons d ds)
    then show ?case by (cases d) auto
  qed simp
  moreover have "fill_values (replicate ?n DefaultInit) ds = vs"
  proof (rule nth_equalityI)
    fix i assume "i < length (fill_values (replicate ?n DefaultInit) ds)"
    then have i: "i < ?n" by simp
    have "set (map delivered_id ds) \<subseteq> {..<?n}" "card (set (map delivered_id ds)) = card {..<?n}"
      using assms(1,2,4) distinct_card[of "map delivered_id ds"] by auto
    then have "set (map delivered_id ds) = {..<?n}" by (intro card_subset_eq) auto
    with i have "i \<in> set (map delivered_id ds)" by simp
    then obtain d where "d \<in> set ds" "delivered_id d = i" by auto
    moreover from this assms(4) have "delivered_result d = Value (vs ! i)" by auto
    ultimately have "(fst d, i, Value (vs ! i)) \<in> set ds" by (metis prod.collapse)
    from fill_values_nth[OF assms(1) this, of "replicate ?n DefaultInit"] i
    show "fill_values (replicate ?n DefaultInit) ds ! i = vs ! i" by simp
  qed simp
  ultimately show ?thesis using assms(2,3) by (auto simp: all_outcome_def)
qed

subsection \<open>\<open>when_any\<close>\<close>

fun deliver_any ::
  "('f, 'a, 'os) environment \<Rightarrow> address \<Rightarrow> address \<Rightarrow> (sched_context \<times> 'a outcome) list
    \<Rightarrow> ('f, 'a, 'os) world \<Rightarrow> ('f, 'a, 'os) world option"
where
  "deliver_any env x u [] w = Some w"
| "deliver_any env x u ((ctx, r) # ds) w =
     Option.bind (run_callback env (OnWhenAny u x) ctx r w) (deliver_any env x u ds)"

definition any_outcome :: "nat \<Rightarrow> 'a outcome list \<Rightarrow> 'a outcome option" where
  "any_outcome n rs =
     (case first_value rs of
        Some v \<Rightarrow> Some (Value v)
      | None \<Rightarrow> if rs \<noteq> [] \<and> length rs = n then Some (last rs) else None)"

definition any_ready :: "nat \<Rightarrow> address \<Rightarrow> address \<Rightarrow> ('f, 'a, 'os) world \<Rightarrow> bool" where
  "any_ready n x u w \<longleftrightarrow> world_inv w \<and> is_write_once w u \<and> end_value w u = None \<and> x < length (any_contexts w)
     \<and> any_contexts w ! x = \<lparr>num_erroneous_cells = 0, any_total_cells = n\<rparr>"

lemma deliver_any_append:
  "deliver_any env x u (ds @ es) w = Option.bind (deliver_any env x u ds w) (deliver_any env x u es)"
  by (induction env x u ds w rule: deliver_any.induct) (auto split: Option.bind_splits)

lemma run_any_small:
  assumes inv: "world_inv w" and ctx: "ctx_ok (pool w) ctx" and u: "is_write_once w u" and x: "x < length (any_contexts w)"
    and c: "any_contexts w ! x = \<lparr>num_erroneous_cells = k, any_total_cells = n\<rparr>" and k: "Suc k < size_max1"
  shows "\<exists>w'. run_callback env (OnWhenAny u x) ctx r w = Some w' \<and> step_ok w w'
    \<and> length (any_contexts w') = length (any_contexts w)
    \<and> any_contexts w' ! x = \<lparr>num_erroneous_cells = (if is_value r then k else Suc k), any_total_cells = n\<rparr>
    \<and> end_value w' u = (case end_value w u of Some r0 \<Rightarrow> Some r0
        | None \<Rightarrow> if is_value r \<or> n \<le> Suc k then Some r else None)"
proof (cases r)
  case (Value v)
  have "step_ok w (snd (write_result_to_value ctx (Value v) u w))" by (rule write_result_step(1)[OF inv ctx u])
  moreover note write_contexts(1)[OF world_invD(1)[OF inv] ctx u, of "Value v"]
    end_value_write[OF world_invD(1)[OF inv] ctx u, of "Value v"]
  ultimately show ?thesis using Value c by (cases "end_value w u") (simp_all add: run_callback_defs write_defs)
next
  case (Err e)
  define w1 where "w1 = snd (log_error x w)"
  have c1: "any_contexts w1 ! x = \<lparr>num_erroneous_cells = Suc k, any_total_cells = n\<rparr>"
    "length (any_contexts w1) = length (any_contexts w)" "end_value w1 u = end_value w u"
    using x k by (auto simp: w1_def log_error_def Let_def c end_value_def)
  have last: "fst (log_error x w) \<longleftrightarrow> n \<le> Suc k" using k by (simp add: log_error_def Let_def c)
  have s1: "step_ok w w1" using log_error_step[OF inv] by (simp add: w1_def)
  have ctx1: "ctx_ok (pool w1) ctx" and u1: "is_write_once w1 u"
    using ctx_ok_mono[OF step_okD(2)[OF s1] ctx] is_write_once_mono[OF step_okD(2)[OF s1] u] .
  let ?w' = "snd (write_result_to_value ctx (Err e) u w1)"
  have "step_ok w ?w'" using s1 write_result_step(1)[OF step_okD(1)[OF s1] ctx1 u1] by (rule step_ok_trans)
  moreover note write_contexts(1)[OF world_invD(1)[OF step_okD(1)[OF s1]] ctx1 u1, of "Err e"]
    end_value_write[OF world_invD(1)[OF step_okD(1)[OF s1]] ctx1 u1, of "Err e"]
  moreover have "run_callback env (OnWhenAny u x) ctx r w = Some (if n \<le> Suc k then ?w' else w1)"
    using Err last by (simp add: run_callback_defs write_defs w1_def split_def Let_def)
  ultimately show ?thesis using Err c1 s1 by (cases "end_value w u") simp_all
qed

lemma deliver_any_correct:
  assumes "any_ready n x u w" "\<forall>d \<in> set ds. ctx_ok (pool w) (fst d)" "length ds \<le> n" "n < size_max1"
  shows "\<exists>w'. deliver_any env x u ds w = Some w' \<and> step_ok w w'
    \<and> length (any_contexts w') = length (any_contexts w)
    \<and> any_contexts w' ! x = \<lparr>num_erroneous_cells = length (filter (\<lambda>r. \<not> is_value r) (map snd ds)), any_total_cells = n\<rparr>
    \<and> end_value w' u = any_outcome n (map snd ds)"
  using assms
proof (induction ds rule: rev_induct)
  case Nil
  then show ?case by (simp add: any_ready_def any_outcome_def)
next
  case (snoc d ds)
  obtain ctx r where d: "d = (ctx, r)" by (cases d)
  define k where "k = length (filter (\<lambda>r. \<not> is_value r) (map snd ds))"
  have "\<forall>d \<in> set ds. ctx_ok (pool w) (fst d)" "length ds \<le> n" using snoc.prems by auto
  from snoc.IH[OF snoc.prems(1) this snoc.prems(4)] obtain w1 where
    w1: "deliver_any env x u ds w = Some w1" "step_ok w w1" "length (any_contexts w1) = length (any_contexts w)"
      "any_contexts w1 ! x = \<lparr>num_erroneous_cells = k, any_total_cells = n\<rparr>"
      "end_value w1 u = any_outcome n (map snd ds)" unfolding k_def by blast
  have k: "k \<le> length ds" using length_filter_le[of "\<lambda>r. \<not> is_value r" "map snd ds"] by (simp add: k_def)
  have full: "Suc k = n \<longleftrightarrow> first_value (map snd ds) = None \<and> Suc (length ds) = n"
    by (rule last_count) (use count_errors[of "map snd ds"] k snoc.prems(3) in \<open>simp_all add: k_def\<close>)
  have ctx: "ctx_ok (pool w1) ctx" "is_write_once w1 u" "x < length (any_contexts w1)" "Suc k < size_max1"
    using snoc.prems w1(2,3) d ctx_ok_mono is_write_once_mono k by (auto simp: any_ready_def step_ok_def)
  from run_any_small[OF step_okD(1)[OF w1(2)] ctx(1,2,3) w1(4) ctx(4), of env r] obtain w2 where
    w2: "run_callback env (OnWhenAny u x) ctx r w1 = Some w2" "step_ok w1 w2"
      "length (any_contexts w2) = length (any_contexts w1)"
      "any_contexts w2 ! x = \<lparr>num_erroneous_cells = (if is_value r then k else Suc k), any_total_cells = n\<rparr>"
      "end_value w2 u = (case end_value w1 u of Some r0 \<Rightarrow> Some r0
        | None \<Rightarrow> if is_value r \<or> n \<le> Suc k then Some r else None)"
    by blast
  have "deliver_any env x u (ds @ [d]) w = Some w2" using w1(1) w2(1) by (simp add: deliver_any_append d)
  moreover have "any_contexts w2 ! x =
      \<lparr>num_erroneous_cells = length (filter (\<lambda>r. \<not> is_value r) (map snd (ds @ [d]))), any_total_cells = n\<rparr>"
    using w2(4) by (simp add: d k_def)
  moreover have "end_value w2 u = any_outcome n (map snd (ds @ [d]))"
  proof (cases "first_value (map snd ds)")
    case None
    then have "any_outcome n (map snd ds) = None" "n \<le> Suc k \<longleftrightarrow> Suc (length ds) = n"
      using full k snoc.prems(3) by (auto simp: any_outcome_def)
    then show ?thesis
      using w2(5) w1(5) None by (cases r) (auto simp: d any_outcome_def first_value_snoc)
  next
    case (Some v)
    then show ?thesis using w2(5) w1(5) by (simp add: d any_outcome_def first_value_snoc)
  qed
  ultimately show ?case using w2(2,3) w1(2,3) by (auto intro: step_ok_trans)
qed

subsection \<open>From construction to resolution\<close>

lemma park_same_rest: "same_rest w (park e cb w)"
  by (auto simp: park_def write_once_await_def split: cell.splits option.splits)

lemma await_each_same_rest: "await_each ps w = Some w' \<Longrightarrow> same_rest w w'"
proof (induction ps w rule: await_each.induct)
  case (1 w)
  then show ?case by simp
next
  case (2 a cb rest w)
  then obtain w1 where w1: "cell_await a cb w = Some w1" "await_each rest w1 = Some w'" by (auto simp: bind_eq_Some_conv)
  have "same_rest w w1" using cell_await_Some[OF w1(1)] park_same_rest[of w _ cb] by auto
  then show ?case using 2(1)[OF w1] by (rule same_rest_trans)
qed

lemma when_all_new_ready:
  assumes inv: "world_inv w" and cs: "\<forall>c \<in> set cs. c < length (cells w)" and r: "when_all_new cs w = Some (a, w')"
  shows "all_ready (length cs) (length (all_contexts w)) (length (cells w)) w'"
    and "cells w' ! a = WhenAll (length (cells w)) cs" "a < length (cells w')"
proof -
  obtain u w1 where w1: "write_once_new w = (u, w1)" by (cases "write_once_new w")
  note n = write_once_new_step[OF inv w1]
  define w2 where "w2 = w1\<lparr>all_contexts := all_contexts w1
    @ [\<lparr>resolved_values = replicate (length cs) DefaultInit, num_resolved_cells = 0, all_total_cells = length cs\<rparr>]\<rparr>"
  let ?x = "length (all_contexts w1)"
  let ?ps = "map (\<lambda>i. (cs ! i, OnWhenAll ?x i u)) [0..<length cs]"
  obtain w3 where w3: "await_each ?ps w2 = Some w3" and a: "(a, w') = new_cell (WhenAll u cs) w3"
    using r w1 by (auto simp: when_all_new_def w2_def)
  have x: "?x = length (all_contexts w)" using n(7) by (simp add: same_rest_def)
  have ctx: "all_contexts w' = all_contexts w2"
    using await_each_same_rest[OF w3] a by (simp add: same_rest_def new_cell_def)
  have c': "cells w' = cells w3 @ [WhenAll u cs]" "a = length (cells w3)" using a by (simp_all add: new_cell_def)
  have "end_value w2 u = None" using n(3,5) by (simp add: end_value_def w2_def nth_append)
  then have e3: "end_value w3 u = None" using await_each_end_value[OF w3] by simp
  have s2: "step_ok w1 w2" using contexts_step[OF step_okD(1)[OF n(1)], of w2] by (auto simp: w2_def)
  have u2: "is_write_once w2 u" using is_write_once_mono[OF step_okD(2)[OF s2] n(2)] .
  have "\<forall>p \<in> set ?ps. fst p < length (cells w2) \<and> callback_ok w2 (snd p)"
    using cs n(5) u2 by (auto simp: w2_def less_SucI)
  from await_each_step[OF step_okD(1)[OF s2] this w3] have "world_le w2 w3" by (simp add: step_ok_def)
  then have u3: "is_write_once w3 u" using u2 by (rule is_write_once_mono)
  then have "is_write_once w' u" "end_value w' u = None"
    using e3 c' by (auto simp: is_write_once_def end_value_def nth_append)
  moreover have "world_inv w'" using when_all_new_step(1)[OF inv cs r] by (rule step_okD)
  ultimately show "all_ready (length cs) (length (all_contexts w)) (length (cells w)) w'"
    using n(3,7) x by (simp add: all_ready_def ctx w2_def same_rest_def nth_append)
  show "cells w' ! a = WhenAll (length (cells w)) cs" "a < length (cells w')" using c' n(3) by simp_all
qed

lemma when_any_new_ready:
  assumes inv: "world_inv w" and cs: "\<forall>c \<in> set cs. c < length (cells w)" and r: "when_any_new cs w = Some (a, w')"
  shows "any_ready (length cs) (length (any_contexts w)) (length (cells w)) w'"
    and "cells w' ! a = WhenAny (length (cells w)) cs" "a < length (cells w')"
proof -
  obtain u w1 where w1: "write_once_new w = (u, w1)" by (cases "write_once_new w")
  note n = write_once_new_step[OF inv w1]
  define w2 where "w2 = w1\<lparr>any_contexts := any_contexts w1 @ [\<lparr>num_erroneous_cells = 0, any_total_cells = length cs\<rparr>]\<rparr>"
  let ?x = "length (any_contexts w1)"
  let ?ps = "map (\<lambda>c. (c, OnWhenAny u ?x)) cs"
  obtain w3 where w3: "await_each ?ps w2 = Some w3" and a: "(a, w') = new_cell (WhenAny u cs) w3"
    using r w1 by (auto simp: when_any_new_def w2_def)
  have x: "?x = length (any_contexts w)" using n(7) by (simp add: same_rest_def)
  have ctx: "any_contexts w' = any_contexts w2"
    using await_each_same_rest[OF w3] a by (simp add: same_rest_def new_cell_def)
  have c': "cells w' = cells w3 @ [WhenAny u cs]" "a = length (cells w3)" using a by (simp_all add: new_cell_def)
  have "end_value w2 u = None" using n(3,5) by (simp add: end_value_def w2_def nth_append)
  then have e3: "end_value w3 u = None" using await_each_end_value[OF w3] by simp
  have s2: "step_ok w1 w2" using contexts_step[OF step_okD(1)[OF n(1)], of w2] by (auto simp: w2_def)
  have u2: "is_write_once w2 u" using is_write_once_mono[OF step_okD(2)[OF s2] n(2)] .
  have "\<forall>p \<in> set ?ps. fst p < length (cells w2) \<and> callback_ok w2 (snd p)"
    using cs n(5) u2 by (auto simp: w2_def)
  from await_each_step[OF step_okD(1)[OF s2] this w3] have "world_le w2 w3" by (simp add: step_ok_def)
  then have u3: "is_write_once w3 u" using u2 by (rule is_write_once_mono)
  then have "is_write_once w' u" "end_value w' u = None"
    using e3 c' by (auto simp: is_write_once_def end_value_def nth_append)
  moreover have "world_inv w'" using when_any_new_step(1)[OF inv cs r] by (rule step_okD)
  ultimately show "any_ready (length cs) (length (any_contexts w)) (length (cells w)) w'"
    using n(3,7) x by (simp add: any_ready_def ctx w2_def same_rest_def nth_append)
  show "cells w' ! a = WhenAny (length (cells w)) cs" "a < length (cells w')" using c' n(3) by simp_all
qed

text \<open>A combining cell reads what its underlying cell holds.\<close>

lemma combining_read:
  assumes le: "world_le w w'" and a: "a < length (cells w)" "cells w ! a = WhenAll u cs \<or> cells w ! a = WhenAny u cs"
    and u: "is_write_once w' u"
  shows "cell_read a w' = Some (end_value w' u)"
proof -
  have "link w' a = Some u"
    using world_le_cell[OF le a(1)] a(2) by (cases "cells w' ! a") (auto simp: link_def)
  moreover have "link w' u = None" using u by (auto simp: link_def elim!: is_write_onceE)
  ultimately show ?thesis
    using chain.pass[of "link w'" a u u] chain.stop[of "link w'" u] cell_read_chain[of w' a u] by simp
qed

lemma when_all_reads:
  assumes "world_inv w" and "\<forall>c \<in> set cs. c < length (cells w)" and "when_all_new cs w = Some (a, w1)"
    and "deliveries_ok (length cs) w1 ds" and "length cs < size_max1"
  shows "\<exists>w'. deliver_all env (length (all_contexts w)) (length (cells w)) ds w1 = Some w'
    \<and> cell_read a w' = Some (all_outcome (length cs) ds)"
proof -
  note ready = when_all_new_ready[OF assms(1-3)]
  from deliver_all_correct[OF ready(1) assms(4,5), of env] obtain w' where
    w': "deliver_all env (length (all_contexts w)) (length (cells w)) ds w1 = Some w'" "step_ok w1 w'"
      "end_value w' (length (cells w)) = all_outcome (length cs) ds" by blast
  have "is_write_once w' (length (cells w))"
    using ready(1) is_write_once_mono[OF step_okD(2)[OF w'(2)]] by (simp add: all_ready_def)
  from combining_read[OF step_okD(2)[OF w'(2)] ready(3) disjI1[OF ready(2)] this] w' show ?thesis by auto
qed

subsection \<open>Properties\<close>

text \<open>
  When the callback of a \<open>map\<close> runs, the mapped task resolves to the function's result for
  a value, and to the same error, without calling the function, for an error.
\<close>

theorem map_task_resolves:
  assumes "world_inv w" and "uses_library env" and "ctx_ok (pool w) ctx" and "is_write_once w c" and "end_value w c = None"
    and "map_fn env f v w = Some (g, w1)" and "end_value w1 c = None"
  shows "(\<exists>w'. run_callback env (OnMap c f) ctx (Value v) w = Some w' \<and> end_value w' c = Some (Value g))
    \<and> (\<exists>w'. run_callback env (OnMap c f) ctx (Err e) w = Some w' \<and> end_value w' c = Some (Err e))"
  using run_map_value[OF assms(1-4,6,7)] run_map_error[OF assms(1,3,4,5)] by blast

theorem map_task_resolves_witness:
  "\<exists>w'. run_callback sample_env (OnMap 1 5) ctx_empty (Value (Plain 3)) (sample_store sample_cells) = Some w'
    \<and> end_value w' 1 = Some (Value (Plain 8))"
  using map_task_resolves[OF sample_store_ok sample_env_ok ctx_empty_ok, of 1 5 "Plain 3" "Plain 8" "sample_store sample_cells"]
  by (simp add: is_write_once_def end_value_def sample_env_def)

text \<open>
  C23: When the callback of a \<open>bind\<close> runs on a value, the bound task reads exactly what the task
  returned by the function reads; on an error it reads that error. The chain condition
  excludes the cycle in which the returned task waits for the bound one.
\<close>

theorem bind_task_resolves:
  assumes "world_inv w" and "uses_library env" and "ctx_ok (pool w) ctx"
    and "is_tracking w t" and "link w t = None" and "is_write_once w e" and "end_value w e = None"
    and "bind_fn env f v w = Some (tk, w1)" and "link w1 t = None"
    and "chain (link w1) (task_cell tk) d" and "d \<noteq> t"
  shows "(\<exists>w'. run_callback env (OnBind t e f) ctx (Value v) w = Some w' \<and> cell_read t w' = cell_read (task_cell tk) w1)
    \<and> (\<exists>w'. run_callback env (OnBind t e f) ctx (Err er) w = Some w' \<and> cell_read t w' = Some (Some (Err er)))"
  using run_bind_value[OF assms(1,2,4,8-11)] run_bind_error[OF assms(1,3-7)] by blast

theorem bind_task_resolves_witness:
  "\<exists>w'. run_callback sample_env (OnBind 3 2 5) ctx_empty (Err IOError) (sample_store sample_cells) = Some w'
    \<and> cell_read 3 w' = Some (Some (Err IOError))"
proof -
  let ?w = "sample_store sample_cells"
  obtain tk w1 where tk: "task_new 5 ?w = (tk, w1)" by (cases "task_new 5 ?w")
  then have c: "cells w1 = sample_cells @ [WriteOnce \<lparr>wo_value = None, wo_callbacks = []\<rparr>]" "task_cell tk = 4"
    by (auto simp: task_new_def write_once_new_def new_cell_def queue_job_def)
  have "bind_fn sample_env 5 (Plain 3) ?w = Some (tk, w1)" using tk by (simp add: sample_env_def)
  moreover have "link w1 3 = None" "link w1 4 = None" using c by (simp_all add: link_def nth_append)
  moreover from this(2) have "chain (link w1) (task_cell tk) 4" using chain.stop[of "link w1" 4] c by simp
  ultimately show ?thesis
    using bind_task_resolves[OF sample_store_ok sample_env_ok ctx_empty_ok, of 3 2 5 "Plain 3" tk w1 4 IOError]
    by (simp add: is_tracking_def is_write_once_def link_def end_value_def)
qed

lemma sample_when_all: "\<exists>a w1. when_all_new [1, 2] (sample_store sample_cells) = Some (a, w1)"
  by (simp add: when_all_new_def write_once_new_def new_cell_def Let_def upt_rec cell_await.simps write_once_await_def
      set_cell_def)

text \<open>
  C16: A \<open>when_all\<close> task resolves for every order in which its tasks' results come in: to the
  first error delivered if there is one, otherwise, once all are in, to the vector of their
  values; before that it is unresolved.
\<close>

theorem when_all_resolves:
  assumes "world_inv w" and "\<forall>c \<in> set cs. c < length (cells w)" and "when_all_new cs w = Some (a, w1)"
    and "deliveries_ok (length cs) w1 ds" and "length cs < size_max1"
  shows "\<exists>w'. deliver_all env (length (all_contexts w)) (length (cells w)) ds w1 = Some w'
    \<and> cell_read a w' = Some (all_outcome (length cs) ds)"
  by (rule when_all_reads[OF assms])

theorem when_all_resolves_witness:
  "\<exists>a w1 w'. when_all_new [1, 2] (sample_store sample_cells) = Some (a, w1)
    \<and> deliver_all sample_env 0 4 [(ctx_empty, 1, Value (Plain 5)), (ctx_empty, 0, Value (Plain 4))] w1 = Some w'
    \<and> cell_read a w' = Some (Some (Value (Vector [Plain 4, Plain 5])))"
proof -
  let ?ds = "[(ctx_empty, 1, Value (Plain 5)), (ctx_empty, 0, Value (Plain 4))] :: nat delivery list"
  obtain a w1 where r: "when_all_new [1, 2] (sample_store sample_cells) = Some (a, w1)"
    using sample_when_all by blast
  have "deliveries_ok 2 w1 ?ds" by (simp add: deliveries_ok_def)
  moreover have "all_outcome 2 ?ds = Some (Value (Vector [Plain 4, Plain 5]))"
    by (simp add: all_outcome_def numeral_2_eq_2)
  moreover have l: "length [1, 2 :: nat] = 2" "length (cells (sample_store sample_cells)) = 4"
    "length (all_contexts (sample_store sample_cells)) = 0" by (simp_all add: sample_store_def)
  ultimately show ?thesis
    using when_all_resolves[OF sample_store_ok _ r, of ?ds sample_env, unfolded l] r by auto
qed

text \<open>
  When every task of a \<open>when_all\<close> delivers a value, once each and in any order, the new task
  reads the vector of the values in the order of the tasks.
\<close>

theorem when_all_keeps_task_order:
  assumes "world_inv w" and "\<forall>c \<in> set cs. c < length (cells w)" and "when_all_new cs w = Some (a, w1)"
    and "deliveries_ok (length cs) w1 ds" and "length cs < size_max1" and "cs \<noteq> []"
    and "length ds = length cs" and "length vs = length cs"
    and "\<forall>(ctx, i, r) \<in> set ds. r = Value (vs ! i)"
  shows "\<exists>w'. deliver_all env (length (all_contexts w)) (length (cells w)) ds w1 = Some w'
    \<and> cell_read a w' = Some (Some (Value (Vector vs)))"
proof -
  have "all_outcome (length vs) ds = Some (Value (Vector vs))"
    using assms(4,6-9) by (intro all_outcome_values) (auto simp: deliveries_ok_def)
  with when_all_reads[OF assms(1-5), of env] assms(8) show ?thesis by simp
qed

theorem when_all_keeps_task_order_witness:
  "\<exists>a w1 w'. when_all_new [1, 2] (sample_store sample_cells) = Some (a, w1)
    \<and> deliver_all sample_env 0 4 [(ctx_empty, 1, Value (Plain 5)), (ctx_empty, 0, Value (Plain 4))] w1 = Some w'
    \<and> cell_read a w' = Some (Some (Value (Vector [Plain 4, Plain 5])))"
proof -
  let ?ds = "[(ctx_empty, 1, Value (Plain 5)), (ctx_empty, 0, Value (Plain 4))] :: nat delivery list"
  obtain a w1 where r: "when_all_new [1, 2] (sample_store sample_cells) = Some (a, w1)"
    using sample_when_all by blast
  have "deliveries_ok 2 w1 ?ds" by (simp add: deliveries_ok_def)
  moreover have l: "length [1, 2 :: nat] = 2" "length (cells (sample_store sample_cells)) = 4"
    "length (all_contexts (sample_store sample_cells)) = 0" by (simp_all add: sample_store_def)
  ultimately show ?thesis
    using when_all_keeps_task_order[OF sample_store_ok _ r, of ?ds "[Plain 4, Plain 5]" sample_env, unfolded l] r by auto
qed

text \<open>
  C18: A \<open>when_any\<close> task resolves to the first value delivered; errors before it are passed
  over, and only when every task has failed does it resolve to an error, the last one.
\<close>

theorem when_any_resolves:
  assumes "world_inv w" and "\<forall>c \<in> set cs. c < length (cells w)" and "when_any_new cs w = Some (a, w1)"
    and "\<forall>d \<in> set ds. ctx_ok (pool w1) (fst d)" and "length ds \<le> length cs" and "length cs < size_max1"
  shows "\<exists>w'. deliver_any env (length (any_contexts w)) (length (cells w)) ds w1 = Some w'
    \<and> cell_read a w' = Some (any_outcome (length cs) (map snd ds))"
proof -
  note ready = when_any_new_ready[OF assms(1-3)]
  from deliver_any_correct[OF ready(1) assms(4-6), of env] obtain w' where
    w': "deliver_any env (length (any_contexts w)) (length (cells w)) ds w1 = Some w'" "step_ok w1 w'"
      "end_value w' (length (cells w)) = any_outcome (length cs) (map snd ds)" by blast
  have "is_write_once w' (length (cells w))"
    using ready(1) is_write_once_mono[OF step_okD(2)[OF w'(2)]] by (simp add: any_ready_def)
  from combining_read[OF step_okD(2)[OF w'(2)] ready(3) disjI2[OF ready(2)] this] w' show ?thesis by auto
qed

theorem when_any_resolves_witness:
  "\<exists>a w1 w'. when_any_new [1, 2] (sample_store sample_cells) = Some (a, w1)
    \<and> deliver_any sample_env 0 4 [(ctx_empty, Err IOError), (ctx_empty, Value (Plain 4))] w1 = Some w'
    \<and> cell_read a w' = Some (Some (Value (Plain 4)))"
proof -
  let ?ds = "[(ctx_empty, Err IOError), (ctx_empty, Value (Plain 4))] :: (sched_context \<times> nat outcome) list"
  have "\<exists>r. when_any_new [1, 2] (sample_store sample_cells) = Some r"
    by (simp add: when_any_new_def write_once_new_def new_cell_def Let_def cell_await.simps write_once_await_def
        set_cell_def)
  then obtain a w1 where r: "when_any_new [1, 2] (sample_store sample_cells) = Some (a, w1)" by auto
  have "any_outcome 2 (map snd ?ds) = Some (Value (Plain 4))" by (simp add: any_outcome_def)
  moreover have l: "length [1, 2 :: nat] = 2" "length (cells (sample_store sample_cells)) = 4" "length ?ds = 2"
    "length (any_contexts (sample_store sample_cells)) = 0" by (simp_all add: sample_store_def)
  ultimately show ?thesis
    using when_any_resolves[OF sample_store_ok _ r, of ?ds sample_env, unfolded l] r by auto
qed

text \<open>
  C30: A \<open>when_all\<close> or \<open>when_any\<close> of no tasks is unresolved and registers no callback that could
  ever resolve it.
\<close>

theorem combining_nothing_never_resolves:
  assumes "world_inv w"
  shows "(\<exists>a w1. when_all_new [] w = Some (a, w1) \<and> cell_read a w1 = Some None \<and> callback_tokens w1 = callback_tokens w)
    \<and> (\<exists>a w1. when_any_new [] w = Some (a, w1) \<and> cell_read a w1 = Some None \<and> callback_tokens w1 = callback_tokens w)"
proof -
  have "\<exists>p. when_all_new [] w = Some p" "\<exists>p. when_any_new [] w = Some p"
    by (simp_all add: when_all_new_def when_any_new_def split_def Let_def)
  then obtain a w1 b w2 where r: "when_all_new [] w = Some (a, w1)" and s: "when_any_new [] w = Some (b, w2)" by auto
  note all = when_all_new_ready[OF assms _ r] when_all_new_step(3)[OF assms _ r]
  note any = when_any_new_ready[OF assms _ s] when_any_new_step(3)[OF assms _ s]
  have "cell_read a w1 = Some None"
    using combining_read[OF world_le_refl all(3) disjI1[OF all(2)]] all(1) by (simp add: all_ready_def)
  moreover have "cell_read b w2 = Some None"
    using combining_read[OF world_le_refl any(3) disjI2[OF any(2)]] any(1) by (simp add: any_ready_def)
  ultimately show ?thesis using r s all(4) any(4) by simp
qed

theorem combining_nothing_never_resolves_witness:
  "\<exists>a w1. when_all_new [] (sample_store sample_cells) = Some (a, w1) \<and> cell_read a w1 = Some None"
  using combining_nothing_never_resolves[OF sample_store_ok] by blast

end
