(* ===== verification/Combinator_Races.thy ===== *)
theory Combinator_Races
  imports Task_Laws
begin

text \<open>
  The callbacks of a combining cell run on several workers at once, and the execution context
  they share is protected by no lock: \<open>commit_resolved_value\<close> (\<open>when_all_cell.h\<close>) is a store into
  the vector followed by an atomic increment, \<open>log_error\<close> (\<open>when_any_cell.h\<close>) an atomic
  increment, and the write to the underlying cell comes after that. Here each of these is a
  step of its own and the callbacks interleave. Thread \<open>t\<close> runs the callback of task \<open>t\<close> on its
  result \<open>rs ! t\<close>; accesses take effect in the order of the steps.
\<close>

subsection \<open>The accesses\<close>

definition store_resolved :: "nat \<Rightarrow> 'a val \<Rightarrow> 'a when_all_context \<Rightarrow> 'a when_all_context" where
  "store_resolved cell_id v c = c\<lparr>resolved_values := (resolved_values c)[cell_id := v]\<rparr>"

definition count_resolved :: "'a when_all_context \<Rightarrow> bool \<times> 'a when_all_context" where
  "count_resolved c =
     (let cells_resolved_so_far = num_resolved_cells c
      in (all_total_cells c \<le> sz_add cells_resolved_so_far 1,
          c\<lparr>num_resolved_cells := sz_add cells_resolved_so_far 1\<rparr>))"

definition count_error :: "when_any_context \<Rightarrow> bool \<times> when_any_context" where
  "count_error c =
     (let cells_errored_so_far = sz_add 1 (num_erroneous_cells c)
      in (any_total_cells c \<le> cells_errored_so_far,
          c\<lparr>num_erroneous_cells := sz_add (num_erroneous_cells c) 1\<rparr>))"

text \<open>Run without interruption they are the operations of \<open>Cells\<close>.\<close>

lemma commit_is_store_then_count:
  "commit_resolved_value x cell_id v w =
     (let (is_last, c) = count_resolved (store_resolved cell_id v (all_contexts w ! x))
      in (is_last, w\<lparr>all_contexts := (all_contexts w)[x := c]\<rparr>))"
  by (simp add: commit_resolved_value_def count_resolved_def store_resolved_def Let_def)

lemma log_error_is_count:
  "log_error x w =
     (let (is_last, c) = count_error (any_contexts w ! x) in (is_last, w\<lparr>any_contexts := (any_contexts w)[x := c]\<rparr>))"
  by (simp add: log_error_def count_error_def Let_def)

text \<open>The underlying cell: the first write stays.\<close>

definition fill_once :: "'r \<Rightarrow> 'r option \<Rightarrow> 'r option" where
  "fill_once r value = (case value of None \<Rightarrow> Some r | Some r' \<Rightarrow> Some r')"

subsection \<open>Progress of the callbacks\<close>

text \<open>
  A callback has started, has stored its value, has been told by the counter that it is the
  last one, or has returned.
\<close>

datatype race_pc = Started | Stored | Last | Done

text \<open>How many of the results in \<open>P\<close> have been counted.\<close>

definition counted :: "('r \<Rightarrow> bool) \<Rightarrow> 'r list \<Rightarrow> race_pc list \<Rightarrow> nat" where
  "counted P rs pcs = length (filter (\<lambda>(r, pc). P r \<and> (pc = Last \<or> pc = Done)) (zip rs pcs))"

lemma counted_update:
  assumes "t < length pcs" "length rs = length pcs"
  shows "counted P rs (pcs[t := pc]) + of_bool (P (rs ! t) \<and> (pcs ! t = Last \<or> pcs ! t = Done))
    = counted P rs pcs + of_bool (P (rs ! t) \<and> (pc = Last \<or> pc = Done))"
proof -
  have "zip rs (pcs[t := pc]) = (zip rs pcs)[t := (rs ! t, pc)]"
    by (simp add: update_zip)
  then show ?thesis
    using count_update[of t "zip rs pcs" "\<lambda>(r, pc). P r \<and> (pc = Last \<or> pc = Done)" "(rs ! t, pc)"] assms
    by (simp add: counted_def)
qed

lemma counted_all:
  assumes "length rs = length pcs"
  shows "counted P rs pcs = length pcs \<longleftrightarrow> (\<forall>t < length pcs. P (rs ! t) \<and> (pcs ! t = Last \<or> pcs ! t = Done))"
proof -
  have "counted P rs pcs = length (zip rs pcs) \<longleftrightarrow>
      (\<forall>x \<in> set (zip rs pcs). case x of (r, pc) \<Rightarrow> P r \<and> (pc = Last \<or> pc = Done))"
    unfolding counted_def by (rule count_all)
  with assms show ?thesis by (simp add: all_set_conv_all_nth)
qed

lemma counted_start: "counted P rs (replicate n Started) = 0"
  by (auto simp: counted_def filter_empty_conv set_zip)

lemma not_counted_less:
  assumes "length pcs = length rs" "t < length rs" "\<not> (P (rs ! t) \<and> (pcs ! t = Last \<or> pcs ! t = Done))"
  shows "counted P rs pcs < length rs"
proof -
  have "counted P rs pcs \<le> length rs"
    using assms(1) length_filter_le[of "\<lambda>(r, pc). P r \<and> (pc = Last \<or> pc = Done)" "zip rs pcs"]
    by (simp add: counted_def)
  moreover have "counted P rs pcs \<noteq> length rs" using counted_all[of rs pcs P] assms by auto
  ultimately show ?thesis by simp
qed

subsection \<open>\<open>when_all\<close>\<close>

record 'a all_race =
  ar_context :: "'a when_all_context"
  ar_value :: "'a outcome option"
  ar_pcs :: "race_pc list"

definition all_race_init :: "nat \<Rightarrow> 'a all_race" where
  "all_race_init n =
     \<lparr>ar_context = \<lparr>resolved_values = replicate n DefaultInit, num_resolved_cells = 0, all_total_cells = n\<rparr>,
      ar_value = None, ar_pcs = replicate n Started\<rparr>"

inductive all_race_step :: "'a outcome list \<Rightarrow> 'a all_race \<Rightarrow> 'a all_race \<Rightarrow> bool" for rs where
  store: "t < length (ar_pcs s) \<Longrightarrow> ar_pcs s ! t = Started \<Longrightarrow> rs ! t = Value v \<Longrightarrow>
    all_race_step rs s (s\<lparr>ar_context := store_resolved t v (ar_context s), ar_pcs := (ar_pcs s)[t := Stored]\<rparr>)"
| count: "t < length (ar_pcs s) \<Longrightarrow> ar_pcs s ! t = Stored \<Longrightarrow> count_resolved (ar_context s) = (is_last, c) \<Longrightarrow>
    all_race_step rs s (s\<lparr>ar_context := c, ar_pcs := (ar_pcs s)[t := if is_last then Last else Done]\<rparr>)"
| commit: "t < length (ar_pcs s) \<Longrightarrow> ar_pcs s ! t = Last \<Longrightarrow>
    all_race_step rs s
      (s\<lparr>ar_value := fill_once (Value (Vector (resolved_values (ar_context s)))) (ar_value s),
         ar_pcs := (ar_pcs s)[t := Done]\<rparr>)"
| fail: "t < length (ar_pcs s) \<Longrightarrow> ar_pcs s ! t = Started \<Longrightarrow> rs ! t = Err e \<Longrightarrow>
    all_race_step rs s (s\<lparr>ar_value := fill_once (Err e) (ar_value s), ar_pcs := (ar_pcs s)[t := Done]\<rparr>)"

inductive all_race_reachable :: "'a outcome list \<Rightarrow> 'a all_race \<Rightarrow> bool" for rs where
  start: "all_race_reachable rs (all_race_init (length rs))"
| step: "all_race_reachable rs s \<Longrightarrow> all_race_step rs s s' \<Longrightarrow> all_race_reachable rs s'"

text \<open>
  The invariant in three parts: the context agrees with what the threads have done, a thread
  past its start holds a value and only a full count makes a thread the last one, and the
  result is there exactly when a writer has been.
\<close>

definition all_context_inv :: "'a outcome list \<Rightarrow> 'a all_race \<Rightarrow> bool" where
  "all_context_inv rs s \<longleftrightarrow>
     length (ar_pcs s) = length rs \<and> all_total_cells (ar_context s) = length rs
     \<and> length (resolved_values (ar_context s)) = length rs
     \<and> num_resolved_cells (ar_context s) = counted is_value rs (ar_pcs s)
     \<and> (\<forall>t < length rs. \<forall>v. ar_pcs s ! t \<noteq> Started \<longrightarrow> rs ! t = Value v \<longrightarrow> resolved_values (ar_context s) ! t = v)"

definition race_pcs_inv :: "('r \<Rightarrow> bool) \<Rightarrow> 'r list \<Rightarrow> race_pc list \<Rightarrow> bool" where
  "race_pcs_inv P rs pcs \<longleftrightarrow>
     (\<forall>t < length rs. (pcs ! t = Stored \<or> pcs ! t = Last \<longrightarrow> P (rs ! t))
        \<and> (pcs ! t = Last \<longrightarrow> counted P rs pcs = length rs))"

definition all_value_inv :: "'a outcome list \<Rightarrow> 'a all_race \<Rightarrow> bool" where
  "all_value_inv rs s \<longleftrightarrow>
     (case ar_value s of
        None \<Rightarrow> (\<forall>t < length rs. ar_pcs s ! t = Done \<longrightarrow> is_value (rs ! t))
          \<and> (counted is_value rs (ar_pcs s) = length rs \<and> rs \<noteq> [] \<longrightarrow> Last \<in> set (ar_pcs s))
      | Some (Value x) \<Rightarrow> counted is_value rs (ar_pcs s) = length rs \<and> x = Vector (resolved_values (ar_context s))
      | Some (Err e) \<Rightarrow> Err e \<in> set rs)"

definition all_race_inv :: "'a outcome list \<Rightarrow> 'a all_race \<Rightarrow> bool" where
  "all_race_inv rs s \<longleftrightarrow> all_context_inv rs s \<and> race_pcs_inv is_value rs (ar_pcs s) \<and> all_value_inv rs s"

lemma all_race_init_inv: "all_race_inv rs (all_race_init (length rs))"
  by (simp add: all_race_inv_def all_context_inv_def race_pcs_inv_def all_value_inv_def all_race_init_def counted_start)

lemma all_race_invD:
  assumes "all_race_inv rs s"
  shows "all_context_inv rs s" "race_pcs_inv is_value rs (ar_pcs s)" "all_value_inv rs s" "length (ar_pcs s) = length rs"
  using assms by (simp_all add: all_race_inv_def all_context_inv_def)

lemma all_race_store:
  assumes inv: "all_race_inv rs s" and t: "t < length rs" "ar_pcs s ! t = Started" "rs ! t = Value v"
  shows "all_race_inv rs (s\<lparr>ar_context := store_resolved t v (ar_context s), ar_pcs := (ar_pcs s)[t := Stored]\<rparr>)"
proof -
  note I = all_race_invD[OF inv]
  have l: "length (ar_pcs s) = length rs" by (rule I(4))
  have tp: "t < length (ar_pcs s)" using t(1) l by simp
  have c: "counted is_value rs ((ar_pcs s)[t := Stored]) = counted is_value rs (ar_pcs s)"
    using counted_update[OF tp l[symmetric], of is_value Stored] t(2) by simp
  have less: "counted is_value rs (ar_pcs s) < length rs" using not_counted_less[OF l t(1)] t(2) by simp
  have "all_context_inv rs (s\<lparr>ar_context := store_resolved t v (ar_context s), ar_pcs := (ar_pcs s)[t := Stored]\<rparr>)"
    using I(1) t c by (simp add: all_context_inv_def store_resolved_def nth_list_update)
  moreover have "race_pcs_inv is_value rs ((ar_pcs s)[t := Stored])"
    using I(2) t c l by (simp add: race_pcs_inv_def nth_list_update)
  moreover have "all_value_inv rs (s\<lparr>ar_context := store_resolved t v (ar_context s), ar_pcs := (ar_pcs s)[t := Stored]\<rparr>)"
    using I(3) t c l less by (simp add: all_value_inv_def nth_list_update split: option.splits result.splits)
  ultimately show ?thesis by (simp add: all_race_inv_def)
qed

lemma all_race_count:
  assumes inv: "all_race_inv rs s" and t: "t < length rs" "ar_pcs s ! t = Stored" and n: "length rs < size_max1"
    and k: "count_resolved (ar_context s) = (is_last, c)"
  shows "all_race_inv rs (s\<lparr>ar_context := c, ar_pcs := (ar_pcs s)[t := if is_last then Last else Done]\<rparr>)"
proof -
  let ?pcs = "(ar_pcs s)[t := if is_last then Last else Done]"
  note I = all_race_invD[OF inv]
  have l: "length (ar_pcs s) = length rs" by (rule I(4))
  have tp: "t < length (ar_pcs s)" using t(1) l by simp
  have v: "is_value (rs ! t)" using I(2) t by (simp add: race_pcs_inv_def)
  have u: "counted is_value rs ?pcs = Suc (counted is_value rs (ar_pcs s))"
    using counted_update[OF tp l[symmetric], of is_value "if is_last then Last else Done"] t(2) v by simp
  have less: "counted is_value rs (ar_pcs s) < length rs" using not_counted_less[OF l t(1)] t(2) by simp
  have num: "num_resolved_cells (ar_context s) = counted is_value rs (ar_pcs s)" "all_total_cells (ar_context s) = length rs"
    using I(1) by (simp_all add: all_context_inv_def)
  have c: "c = (ar_context s)\<lparr>num_resolved_cells := counted is_value rs ?pcs\<rparr>" and last: "is_last \<longleftrightarrow> counted is_value rs ?pcs = length rs"
    using k n less u by (auto simp: count_resolved_def num Let_def)
  have "all_context_inv rs (s\<lparr>ar_context := c, ar_pcs := ?pcs\<rparr>)"
    using I(1) t by (simp add: all_context_inv_def c nth_list_update)
  moreover have "race_pcs_inv is_value rs ?pcs"
    using I(2) t v l last less by (simp add: race_pcs_inv_def nth_list_update)
  moreover have "all_value_inv rs (s\<lparr>ar_context := c, ar_pcs := ?pcs\<rparr>)"
    using I(3) t v l last less
    by (cases is_last) (simp_all add: all_value_inv_def nth_list_update set_update_memI split: option.splits result.splits)
  ultimately show ?thesis by (simp add: all_race_inv_def)
qed


lemma all_race_commit:
  assumes inv: "all_race_inv rs s" and t: "t < length rs" "ar_pcs s ! t = Last"
  shows "all_race_inv rs (s\<lparr>ar_value := fill_once (Value (Vector (resolved_values (ar_context s)))) (ar_value s),
    ar_pcs := (ar_pcs s)[t := Done]\<rparr>)"
proof -
  note I = all_race_invD[OF inv]
  have l: "length (ar_pcs s) = length rs" by (rule I(4))
  have tp: "t < length (ar_pcs s)" using t(1) l by simp
  have v: "is_value (rs ! t)" and full: "counted is_value rs (ar_pcs s) = length rs" using I(2) t by (simp_all add: race_pcs_inv_def)
  have c: "counted is_value rs ((ar_pcs s)[t := Done]) = counted is_value rs (ar_pcs s)"
    using counted_update[OF tp l[symmetric], of is_value Done] t(2) v by simp
  show ?thesis
    using I(1-3) t c full unfolding all_race_inv_def
    by (intro conjI)
      (simp_all add: all_context_inv_def race_pcs_inv_def all_value_inv_def nth_list_update fill_once_def
        split: option.splits result.splits)
qed

lemma all_race_fail:
  assumes inv: "all_race_inv rs s" and t: "t < length rs" "ar_pcs s ! t = Started" "rs ! t = Err e"
  shows "all_race_inv rs (s\<lparr>ar_value := fill_once (Err e) (ar_value s), ar_pcs := (ar_pcs s)[t := Done]\<rparr>)"
proof -
  note I = all_race_invD[OF inv]
  have l: "length (ar_pcs s) = length rs" by (rule I(4))
  have tp: "t < length (ar_pcs s)" using t(1) l by simp
  have c: "counted is_value rs ((ar_pcs s)[t := Done]) = counted is_value rs (ar_pcs s)"
    using counted_update[OF tp l[symmetric], of is_value Done] t(2,3) by simp
  have e: "Err e \<in> set rs" using t(1,3) nth_mem[of t rs] by simp
  show ?thesis
    using I(1-3) t c e unfolding all_race_inv_def
    by (intro conjI)
      (simp_all add: all_context_inv_def race_pcs_inv_def all_value_inv_def nth_list_update fill_once_def
        split: option.splits result.splits)
qed

lemma all_race_step_inv:
  assumes "all_race_step rs s s'" "all_race_inv rs s" "length rs < size_max1"
  shows "all_race_inv rs s'"
  using assms
proof (induction rule: all_race_step.induct)
  case (store t s v)
  then show ?case using all_race_store[of rs s t v] all_race_invD(4)[of rs s] by simp
next
  case (count t s is_last c)
  then show ?case using all_race_count[of rs s t is_last c] all_race_invD(4)[of rs s] by simp
next
  case (commit t s)
  then show ?case using all_race_commit[of rs s t] all_race_invD(4)[of rs s] by simp
next
  case (fail t s e)
  then show ?case using all_race_fail[of rs s t e] all_race_invD(4)[of rs s] by simp
qed

lemma all_race_reachable_inv: "all_race_reachable rs s \<Longrightarrow> length rs < size_max1 \<Longrightarrow> all_race_inv rs s"
  by (induction rule: all_race_reachable.induct) (auto intro: all_race_init_inv all_race_step_inv)

lemma all_race_values:
  assumes inv: "all_race_inv rs s" and full: "counted is_value rs (ar_pcs s) = length rs"
  shows "rs = map Value (resolved_values (ar_context s))"
proof (rule nth_equalityI)
  note I = all_race_invD[OF inv]
  show "length rs = length (map Value (resolved_values (ar_context s)))" using I(1) by (simp add: all_context_inv_def)
  fix t assume t: "t < length rs"
  have p: "is_value (rs ! t) \<and> (ar_pcs s ! t = Last \<or> ar_pcs s ! t = Done)"
    using counted_all[of rs "ar_pcs s" is_value] full I(4) t by simp
  then obtain v where v: "rs ! t = Value v" by (cases "rs ! t") auto
  have "ar_pcs s ! t \<noteq> Started" using p by auto
  then have "resolved_values (ar_context s) ! t = v" using I(1) t v by (simp add: all_context_inv_def)
  with v t I(1) show "rs ! t = map Value (resolved_values (ar_context s)) ! t" by (simp add: all_context_inv_def)
qed

lemma all_race_outcome:
  assumes inv: "all_race_inv rs s"
  shows "ar_value s = Some r \<Longrightarrow> (\<exists>e. r = Err e \<and> Err e \<in> set rs) \<or> (\<exists>vs. rs = map Value vs \<and> r = Value (Vector vs))"
    and "rs \<noteq> [] \<Longrightarrow> \<forall>pc \<in> set (ar_pcs s). pc = Done \<Longrightarrow> ar_value s \<noteq> None"
proof -
  note I = all_race_invD[OF inv]
  assume "ar_value s = Some r"
  then show "(\<exists>e. r = Err e \<and> Err e \<in> set rs) \<or> (\<exists>vs. rs = map Value vs \<and> r = Value (Vector vs))"
    using I(3) all_race_values[OF inv] by (cases r) (auto simp: all_value_inv_def)
next
  note I = all_race_invD[OF inv]
  assume d: "rs \<noteq> []" "\<forall>pc \<in> set (ar_pcs s). pc = Done"
  show "ar_value s \<noteq> None"
  proof
    assume n: "ar_value s = None"
    have fin: "ar_pcs s ! t = Done" if "t < length rs" for t using d(2) that I(4) by simp
    then have "counted is_value rs (ar_pcs s) = length rs"
      using I(3,4) n counted_all[of rs "ar_pcs s" is_value] by (simp add: all_value_inv_def)
    then have "Last \<in> set (ar_pcs s)" using I(3) n d(1) by (simp add: all_value_inv_def)
    with d(2) show False by auto
  qed
qed

lemma all_race_steps_final:
  "(all_race_step rs)\<^sup>*\<^sup>* s s' \<Longrightarrow> ar_value s = Some r \<Longrightarrow> ar_value s' = Some r"
  by (induction rule: rtranclp_induct) (auto elim!: all_race_step.cases simp: fill_once_def)

subsection \<open>\<open>when_any\<close>\<close>

record 'a any_race =
  yr_context :: when_any_context
  yr_value :: "'a outcome option"
  yr_pcs :: "race_pc list"

definition any_race_init :: "nat \<Rightarrow> 'a any_race" where
  "any_race_init n =
     \<lparr>yr_context = \<lparr>num_erroneous_cells = 0, any_total_cells = n\<rparr>, yr_value = None, yr_pcs = replicate n Started\<rparr>"

inductive any_race_step :: "'a outcome list \<Rightarrow> 'a any_race \<Rightarrow> 'a any_race \<Rightarrow> bool" for rs where
  commit: "t < length (yr_pcs s) \<Longrightarrow> yr_pcs s ! t = Started \<Longrightarrow> rs ! t = Value v \<Longrightarrow>
    any_race_step rs s (s\<lparr>yr_value := fill_once (Value v) (yr_value s), yr_pcs := (yr_pcs s)[t := Done]\<rparr>)"
| count: "t < length (yr_pcs s) \<Longrightarrow> yr_pcs s ! t = Started \<Longrightarrow> rs ! t = Err e \<Longrightarrow>
    count_error (yr_context s) = (is_last, c) \<Longrightarrow>
    any_race_step rs s (s\<lparr>yr_context := c, yr_pcs := (yr_pcs s)[t := if is_last then Last else Done]\<rparr>)"
| fail: "t < length (yr_pcs s) \<Longrightarrow> yr_pcs s ! t = Last \<Longrightarrow> rs ! t = Err e \<Longrightarrow>
    any_race_step rs s (s\<lparr>yr_value := fill_once (Err e) (yr_value s), yr_pcs := (yr_pcs s)[t := Done]\<rparr>)"

inductive any_race_reachable :: "'a outcome list \<Rightarrow> 'a any_race \<Rightarrow> bool" for rs where
  start: "any_race_reachable rs (any_race_init (length rs))"
| step: "any_race_reachable rs s \<Longrightarrow> any_race_step rs s s' \<Longrightarrow> any_race_reachable rs s'"

abbreviation failed :: "('v, 'e) result \<Rightarrow> bool" where
  "failed r \<equiv> \<not> is_value r"

definition any_value_inv :: "'a outcome list \<Rightarrow> 'a any_race \<Rightarrow> bool" where
  "any_value_inv rs s \<longleftrightarrow>
     (case yr_value s of
        None \<Rightarrow> (\<forall>t < length rs. yr_pcs s ! t = Done \<longrightarrow> failed (rs ! t))
          \<and> (counted failed rs (yr_pcs s) = length rs \<and> rs \<noteq> [] \<longrightarrow> Last \<in> set (yr_pcs s))
      | Some r \<Rightarrow> r \<in> set rs \<and> (failed r \<longrightarrow> counted failed rs (yr_pcs s) = length rs))"

definition any_race_inv :: "'a outcome list \<Rightarrow> 'a any_race \<Rightarrow> bool" where
  "any_race_inv rs s \<longleftrightarrow> length (yr_pcs s) = length rs \<and> any_total_cells (yr_context s) = length rs
     \<and> num_erroneous_cells (yr_context s) = counted failed rs (yr_pcs s)
     \<and> race_pcs_inv failed rs (yr_pcs s) \<and> any_value_inv rs s"

lemma any_race_invD:
  assumes "any_race_inv rs s"
  shows "length (yr_pcs s) = length rs" "any_total_cells (yr_context s) = length rs"
    "num_erroneous_cells (yr_context s) = counted failed rs (yr_pcs s)"
    "race_pcs_inv failed rs (yr_pcs s)" "any_value_inv rs s"
  using assms by (simp_all add: any_race_inv_def)

lemma any_race_init_inv: "any_race_inv rs (any_race_init (length rs))"
  by (simp add: any_race_inv_def race_pcs_inv_def any_value_inv_def any_race_init_def counted_start)

lemma any_race_count:
  assumes inv: "any_race_inv rs s" and t: "t < length rs" "yr_pcs s ! t = Started" "rs ! t = Err e"
    and n: "length rs < size_max1" and k: "count_error (yr_context s) = (is_last, c)"
  shows "any_race_inv rs (s\<lparr>yr_context := c, yr_pcs := (yr_pcs s)[t := if is_last then Last else Done]\<rparr>)"
proof -
  let ?pcs = "(yr_pcs s)[t := if is_last then Last else Done]"
  note I = any_race_invD[OF inv]
  have tp: "t < length (yr_pcs s)" using t(1) I(1) by simp
  have u: "counted failed rs ?pcs = Suc (counted failed rs (yr_pcs s))"
    using counted_update[OF tp I(1)[symmetric], of failed "if is_last then Last else Done"] t(2,3) by simp
  have less: "counted failed rs (yr_pcs s) < length rs" using not_counted_less[OF I(1) t(1)] t(2) by simp
  have c: "c = (yr_context s)\<lparr>num_erroneous_cells := counted failed rs ?pcs\<rparr>"
    and last: "is_last \<longleftrightarrow> counted failed rs ?pcs = length rs"
    using k n less u by (auto simp: count_error_def I(2,3) Let_def)
  have "race_pcs_inv failed rs ?pcs"
    using I(4) t I(1) last less by (simp add: race_pcs_inv_def nth_list_update)
  moreover have "any_value_inv rs (s\<lparr>yr_context := c, yr_pcs := ?pcs\<rparr>)"
    using I(5) t I(1) last less
    by (cases is_last) (simp_all add: any_value_inv_def nth_list_update set_update_memI split: option.splits)
  ultimately show ?thesis using I(1,2) by (simp add: any_race_inv_def c)
qed

lemma any_race_done:
  assumes inv: "any_race_inv rs s" and t: "t < length rs"
    and pc: "yr_pcs s ! t = Started \<and> is_value (rs ! t) \<or> yr_pcs s ! t = Last"
  shows "any_race_inv rs (s\<lparr>yr_value := fill_once (rs ! t) (yr_value s), yr_pcs := (yr_pcs s)[t := Done]\<rparr>)"
proof -
  note I = any_race_invD[OF inv]
  have tp: "t < length (yr_pcs s)" using t I(1) by simp
  have last: "yr_pcs s ! t = Last \<longrightarrow> failed (rs ! t) \<and> counted failed rs (yr_pcs s) = length rs"
    using I(4) t by (simp add: race_pcs_inv_def)
  have c: "counted failed rs ((yr_pcs s)[t := Done]) = counted failed rs (yr_pcs s)"
    using counted_update[OF tp I(1)[symmetric], of failed Done] pc last by auto
  have "race_pcs_inv failed rs ((yr_pcs s)[t := Done])"
    using I(1,4) t c by (simp add: race_pcs_inv_def nth_list_update)
  moreover have "any_value_inv rs (s\<lparr>yr_value := fill_once (rs ! t) (yr_value s), yr_pcs := (yr_pcs s)[t := Done]\<rparr>)"
    using I(5) t c pc last by (auto simp: any_value_inv_def fill_once_def split: option.splits)
  ultimately show ?thesis using I(1-3) c by (simp add: any_race_inv_def)
qed

lemma any_race_step_inv:
  assumes "any_race_step rs s s'" "any_race_inv rs s" "length rs < size_max1"
  shows "any_race_inv rs s'"
  using assms
proof (induction rule: any_race_step.induct)
  case (commit t s v)
  then show ?case using any_race_done[of rs s t] any_race_invD(1)[of rs s] by simp
next
  case (count t s e is_last c)
  then show ?case using any_race_count[of rs s t e is_last c] any_race_invD(1)[of rs s] by simp
next
  case (fail t s e)
  then show ?case using any_race_done[of rs s t] any_race_invD(1)[of rs s] by simp
qed

lemma any_race_reachable_inv: "any_race_reachable rs s \<Longrightarrow> length rs < size_max1 \<Longrightarrow> any_race_inv rs s"
  by (induction rule: any_race_reachable.induct) (auto intro: any_race_init_inv any_race_step_inv)

lemma any_race_outcome:
  assumes inv: "any_race_inv rs s"
  shows "yr_value s = Some r \<Longrightarrow> r \<in> set rs \<and> (failed r \<longrightarrow> (\<forall>r' \<in> set rs. failed r'))"
    and "rs \<noteq> [] \<Longrightarrow> \<forall>pc \<in> set (yr_pcs s). pc = Done \<Longrightarrow> yr_value s \<noteq> None"
proof -
  note I = any_race_invD[OF inv]
  assume r: "yr_value s = Some r"
  have "failed r' " if "failed r" "r' \<in> set rs" for r'
  proof -
    have "counted failed rs (yr_pcs s) = length (yr_pcs s)" using I(1,5) r that(1) by (simp add: any_value_inv_def)
    then show ?thesis using counted_all[of rs "yr_pcs s" failed] I(1) that(2) by (auto simp: in_set_conv_nth)
  qed
  then show "r \<in> set rs \<and> (failed r \<longrightarrow> (\<forall>r' \<in> set rs. failed r'))" using I(5) r by (auto simp: any_value_inv_def)
next
  note I = any_race_invD[OF inv]
  assume d: "rs \<noteq> []" "\<forall>pc \<in> set (yr_pcs s). pc = Done"
  show "yr_value s \<noteq> None"
  proof
    assume n: "yr_value s = None"
    have fin: "yr_pcs s ! t = Done" if "t < length rs" for t using d(2) that I(1) by simp
    then have "counted failed rs (yr_pcs s) = length rs"
      using I(1,5) n counted_all[of rs "yr_pcs s" failed] by (simp add: any_value_inv_def)
    then have "Last \<in> set (yr_pcs s)" using I(5) n d(1) by (simp add: any_value_inv_def)
    with d(2) show False by auto
  qed
qed

lemma any_race_steps_final:
  "(any_race_step rs)\<^sup>*\<^sup>* s s' \<Longrightarrow> yr_value s = Some r \<Longrightarrow> yr_value s' = Some r"
  by (induction rule: rtranclp_induct) (auto elim!: any_race_step.cases simp: fill_once_def)

subsection \<open>Properties\<close>

text \<open>
  C5: However the callbacks of a \<open>when_all\<close> interleave, down to the store into the shared vector
  and the increment of the shared counter, the task never resolves to a vector with a value
  missing: it resolves to one of the errors, or to all the values in the order of the tasks if
  there is no error. The first result stays, whatever the callbacks that are still running write,
  and once every callback has returned there is one.
\<close>

theorem when_all_race_free:
  assumes "all_race_reachable rs s" and "length rs < size_max1"
  shows "(\<forall>r. ar_value s = Some r \<longrightarrow>
      ((\<exists>e. r = Err e \<and> Err e \<in> set rs) \<or> (\<exists>vs. rs = map Value vs \<and> r = Value (Vector vs)))
      \<and> (\<forall>s'. (all_race_step rs)\<^sup>*\<^sup>* s s' \<longrightarrow> ar_value s' = Some r))
    \<and> (rs \<noteq> [] \<and> (\<forall>pc \<in> set (ar_pcs s). pc = Done) \<longrightarrow> ar_value s \<noteq> None)"
  using all_race_outcome[OF all_race_reachable_inv[OF assms]] all_race_steps_final by blast

theorem when_all_race_free_witness:
  "\<exists>s. all_race_reachable [Value (Plain (7 :: nat))] s \<and> ar_value s = Some (Value (Vector [Plain 7]))"
proof -
  let ?rs = "[Value (Plain 7)] :: nat outcome list"
  let ?c = "\<lambda>vs n. \<lparr>resolved_values = vs, num_resolved_cells = n, all_total_cells = 1\<rparr> :: nat when_all_context"
  let ?s = "\<lambda>c v pc. \<lparr>ar_context = c, ar_value = v, ar_pcs = [pc]\<rparr>"
  have r0: "all_race_reachable ?rs (?s (?c [DefaultInit] 0) None Started)"
    using all_race_reachable.start[of ?rs] by (simp add: all_race_init_def)
  have "all_race_step ?rs (?s (?c [DefaultInit] 0) None Started) (?s (?c [Plain 7] 0) None Stored)"
    using all_race_step.store[of 0 "?s (?c [DefaultInit] 0) None Started" ?rs "Plain 7"] by (simp add: store_resolved_def)
  moreover have "all_race_step ?rs (?s (?c [Plain 7] 0) None Stored) (?s (?c [Plain 7] 1) None Last)"
    using all_race_step.count[of 0 "?s (?c [Plain 7] 0) None Stored" True "?c [Plain 7] 1" ?rs]
    by (simp add: count_resolved_def Let_def)
  moreover have "all_race_step ?rs (?s (?c [Plain 7] 1) None Last) (?s (?c [Plain 7] 1) (Some (Value (Vector [Plain 7]))) Done)"
    using all_race_step.commit[of 0 "?s (?c [Plain 7] 1) None Last" ?rs] by (simp add: fill_once_def)
  ultimately have r: "all_race_reachable ?rs (?s (?c [Plain 7] 1) (Some (Value (Vector [Plain 7]))) Done)"
    using r0 by (meson all_race_reachable.step)
  from when_all_race_free[OF this] have "ar_value (?s (?c [Plain 7] 1) (Some (Value (Vector [Plain 7]))) Done) \<noteq> None" by simp
  with r show ?thesis by (intro exI) (auto intro!: conjI)
qed

text \<open>
  C17: However the callbacks of a \<open>when_any\<close> interleave, the task resolves to the result of one of
  its tasks, and to an error only if all of them have failed. The first result stays, whatever
  the callbacks that are still running write, and once every callback has returned there is one.
\<close>

theorem when_any_race_free:
  assumes "any_race_reachable rs s" and "length rs < size_max1"
  shows "(\<forall>r. yr_value s = Some r \<longrightarrow> r \<in> set rs \<and> (failed r \<longrightarrow> (\<forall>r' \<in> set rs. failed r'))
      \<and> (\<forall>s'. (any_race_step rs)\<^sup>*\<^sup>* s s' \<longrightarrow> yr_value s' = Some r))
    \<and> (rs \<noteq> [] \<and> (\<forall>pc \<in> set (yr_pcs s). pc = Done) \<longrightarrow> yr_value s \<noteq> None)"
  using any_race_outcome[OF any_race_reachable_inv[OF assms]] any_race_steps_final by blast

theorem when_any_race_free_witness:
  "\<exists>s. any_race_reachable [Err IOError :: nat outcome] s \<and> yr_value s = Some (Err IOError)"
proof -
  let ?rs = "[Err IOError] :: nat outcome list"
  let ?s = "\<lambda>n v pc. \<lparr>yr_context = \<lparr>num_erroneous_cells = n, any_total_cells = 1\<rparr>, yr_value = v, yr_pcs = [pc]\<rparr>"
  have "any_race_reachable ?rs (?s 0 None Started)"
    using any_race_reachable.start[of ?rs] by (simp add: any_race_init_def)
  moreover have "any_race_step ?rs (?s 0 None Started) (?s 1 None Last)"
    using any_race_step.count[of 0 "?s 0 None Started" ?rs IOError True "\<lparr>num_erroneous_cells = 1, any_total_cells = 1\<rparr>"]
    by (simp add: count_error_def Let_def)
  moreover have "any_race_step ?rs (?s 1 None Last) (?s 1 (Some (Err IOError)) Done)"
    using any_race_step.fail[of 0 "?s 1 None Last" ?rs IOError] by (simp add: fill_once_def)
  ultimately have r: "any_race_reachable ?rs (?s 1 (Some (Err IOError)) Done)"
    by (meson any_race_reachable.step)
  from when_any_race_free[OF this] have "yr_value (?s 1 (Some (Err IOError)) Done) \<noteq> None" by simp
  with r show ?thesis by (intro exI) (auto intro!: conjI)
qed

end
