(* ===== verification/Task_Results.thy ===== *)
theory Task_Results
  imports Combinators
begin

text \<open>
  What a client sees of a task: \<open>block\<close> agrees with \<open>read\<close>, a created task resolves to what its
  function returns, and \<open>map\<close> is the \<open>bind\<close> whose function returns a task that is resolved
  already, as the comment on \<open>Task::map\<close> says.
\<close>

subsection \<open>\<open>block\<close> and \<open>read\<close>\<close>

lemma cell_read_Some:
  fixes w :: "('f, 'a, 'os) world"
  assumes "cell_read a w = Some r"
  shows "\<exists>e. chain (link w) a e \<and> r = end_value w e"
proof (rule cell_read.raw_induct[where P = "\<lambda>a w r. \<exists>e. chain (link w) a e \<and> r = end_value w e", OF _ assms])
  fix f :: "address \<Rightarrow> ('f, 'a, 'os) world \<Rightarrow> 'a outcome option option" and a w r
  assume IH: "\<And>a w r. f a w = Some r \<Longrightarrow> \<exists>e. chain (link w) a e \<and> r = end_value w e"
  assume step: "(case cells w ! a of
        WriteOnce c \<Rightarrow> Some (wo_value c)
      | Tracking c \<Rightarrow> (case tc_cell c of Some t \<Rightarrow> f t w | None \<Rightarrow> Some None)
      | WhenAny u _ \<Rightarrow> f u w
      | WhenAll u _ \<Rightarrow> f u w) = Some r"
  show "\<exists>e. chain (link w) a e \<and> r = end_value w e"
  proof (cases "link w a")
    case None
    then have "r = end_value w a"
      using step by (auto simp: link_def end_value_def split: cell.splits option.splits)
    then show ?thesis using chain.stop[where lk = "link w", OF None] by blast
  next
    case (Some t)
    then have "f t w = Some r" using step by (auto simp: link_def split: cell.splits option.splits)
    then show ?thesis using IH chain.pass[where lk = "link w", OF Some] by blast
  qed
qed

lemma cell_block_Some:
  fixes w :: "('f, 'a, 'os) world"
  assumes "cell_block a w = Some r"
  shows "\<exists>e. chain (link w) a e \<and> end_value w e = Some r"
proof (rule cell_block.raw_induct[where P = "\<lambda>a w r. \<exists>e. chain (link w) a e \<and> end_value w e = Some r", OF _ assms])
  fix f :: "address \<Rightarrow> ('f, 'a, 'os) world \<Rightarrow> 'a outcome option" and a w r
  assume IH: "\<And>a w r. f a w = Some r \<Longrightarrow> \<exists>e. chain (link w) a e \<and> end_value w e = Some r"
  assume step: "(case cells w ! a of
        WriteOnce c \<Rightarrow> wo_value c
      | Tracking c \<Rightarrow> (case tc_cell c of Some t \<Rightarrow> f t w | None \<Rightarrow> None)
      | WhenAny u _ \<Rightarrow> f u w
      | WhenAll u _ \<Rightarrow> f u w) = Some r"
  show "\<exists>e. chain (link w) a e \<and> end_value w e = Some r"
  proof (cases "link w a")
    case None
    then have "end_value w a = Some r"
      using step by (auto simp: link_def end_value_def split: cell.splits option.splits)
    then show ?thesis using chain.stop[where lk = "link w", OF None] by blast
  next
    case (Some t)
    then have "f t w = Some r" using step by (auto simp: link_def split: cell.splits option.splits)
    then show ?thesis using IH chain.pass[where lk = "link w", OF Some] by blast
  qed
qed

lemma cell_block_iff_read: "cell_block a w = Some r \<longleftrightarrow> cell_read a w = Some (Some r)"
  using cell_block_Some[of a w r] cell_block_chain[of w a] cell_read_Some[of a w "Some r"] cell_read_chain[of w a]
  by metis

lemma result_unchanged: "map_result r Value Err = r"
  by (cases r) simp_all

subsection \<open>\<open>create\<close>\<close>

lemma task_new_queues:
  assumes inv: "world_inv w" and t: "task_new f w = (t, w1)"
  shows "jobs_left w1 = add_mset (Some (RunTask (task_cell t) f)) (jobs_left w)"
    and "is_write_once w1 (task_cell t)" "end_value w1 (task_cell t) = None"
proof -
  have c: "task_cell t = length (cells w)"
    "w1 = queue_job ctx_empty (RunTask (length (cells w)) f) (snd (write_once_new w))"
    using t by (auto simp: task_new_def write_once_new_def new_cell_def)
  have p: "pool (snd (write_once_new w)) = pool w"
    "cells (snd (write_once_new w)) = cells w @ [WriteOnce \<lparr>wo_value = None, wo_callbacks = []\<rparr>]"
    "jobs_left (snd (write_once_new w)) = jobs_left w"
    by (simp_all add: write_once_new_def new_cell_def)
  show "jobs_left w1 = add_mset (Some (RunTask (task_cell t) f)) (jobs_left w)"
    using queue_job_pool(2)[of "snd (write_once_new w)" ctx_empty "RunTask (length (cells w)) f"] world_invD(1)[OF inv] ctx_empty_ok
    by (simp add: c p)
  show "is_write_once w1 (task_cell t)" "end_value w1 (task_cell t) = None"
    by (simp_all add: c p is_write_once_def end_value_def nth_append)
qed

lemma run_task_value:
  assumes inv: "world_inv w" and lib: "uses_library env" and ctx: "ctx_ok (pool w) ctx" and c: "is_write_once w c"
    and f: "call_fn env f w = Some (v, w1)" and empty: "end_value w1 c = None"
  shows "\<exists>w'. run_job env ctx (RunTask c f) w = Some w' \<and> end_value w' c = Some (Value v)"
proof -
  have s: "step_ok w w1" using client_steps_ok[OF uses_libraryD(1)[OF lib f] inv] .
  have "end_value (snd (write_result_to_value ctx (Value v) c w1)) c = Some (Value v)"
    using end_value_write[OF world_invD(1)[OF step_okD(1)[OF s]] ctx_ok_mono[OF step_okD(2)[OF s] ctx]
        is_write_once_mono[OF step_okD(2)[OF s] c]] empty by simp
  then show ?thesis using f by (simp add: run_job_defs write_defs)
qed


subsection \<open>\<open>map\<close> as \<open>bind\<close>\<close>

text \<open>
  \<open>g\<close> does what \<open>f\<close> does and returns the result as a task that is resolved already, the way
  the library offers to: the task of a value source that has been completed.
\<close>

definition returns_resolved :: "('f, 'a, 'os) environment \<Rightarrow> 'f \<Rightarrow> 'f \<Rightarrow> bool" where
  "returns_resolved env g f \<longleftrightarrow>
     (\<forall>v w. bind_fn env g v w =
        (case map_fn env f v w of
           None \<Rightarrow> None
         | Some (u, w1) \<Rightarrow>
             let (s, w2) = value_source_new w1 in Some (value_source_create s, value_source_complete u s w2)))"

lemma resolved_source:
  assumes inv: "world_inv w1" and s: "value_source_new w1 = (s, w2)" and w3: "w3 = value_source_complete u s w2"
  shows "cells w3 = cells w1 @ [WriteOnce \<lparr>wo_value = Some (Value u), wo_callbacks = []\<rparr>]" "source_cell s = length (cells w1)"
proof -
  have c: "source_cell s = length (cells w1)"
    "cells w2 = cells w1 @ [WriteOnce \<lparr>wo_value = None, wo_callbacks = []\<rparr>]"
    using s by (auto simp: value_source_new_def write_once_new_def new_cell_def)
  then show "cells w3 = cells w1 @ [WriteOnce \<lparr>wo_value = Some (Value u), wo_callbacks = []\<rparr>]" "source_cell s = length (cells w1)"
    by (simp_all add: w3 write_defs write_result_to_value_def set_cell_def)
qed

lemma run_resolved_bind:
  assumes inv: "world_inv w" and lib: "uses_library env" and t: "is_tracking w t"
    and g: "returns_resolved env g f" and f: "map_fn env f v w = Some (u, w1)" and empty: "link w1 t = None"
  shows "\<exists>w'. run_callback env (OnBind t e g) ctx (Value v) w = Some w' \<and> cell_read t w' = Some (Some (Value u))"
proof -
  have st: "step_ok w w1" using client_steps_ok[OF uses_libraryD(2)[OF lib f] inv] .
  obtain s w2 where s: "value_source_new w1 = (s, w2)" by (cases "value_source_new w1")
  define w3 where "w3 = value_source_complete u s w2"
  note c = resolved_source[OF step_okD(1)[OF st] s w3_def]
  have b: "bind_fn env g v w = Some (value_source_create s, w3)" using g f s by (simp add: returns_resolved_def w3_def)
  have tl: "t < length (cells w1)" using is_tracking_mono[OF step_okD(2)[OF st] t] by (auto elim: is_trackingE)
  then have l: "link w3 t = None" using empty c by (simp add: link_def nth_append)
  have d: "link w3 (source_cell s) = None" "end_value w3 (source_cell s) = Some (Value u)" "source_cell s \<noteq> t"
    using c tl by (simp_all add: link_def end_value_def nth_append)
  have "chain (link w3) (task_cell (value_source_create s)) (source_cell s)"
    using chain.stop[where lk = "link w3", OF d(1)] by (simp add: value_source_create_def)
  from run_bind_value[OF inv lib t b l this d(3)] cell_read_chain[OF this] d(2) show ?thesis by simp
qed

lemma read_write_once: "is_write_once w a \<Longrightarrow> cell_read a w = Some (end_value w a)"
  using cell_read_chain[OF chain.stop[of "link w" a]] by (auto simp: link_def elim!: is_write_onceE)

lemma map_reads:
  assumes inv: "world_inv w" and lib: "uses_library env" and ctx: "ctx_ok (pool w) ctx" and c: "is_write_once w c"
    and r: "run_callback env (OnMap c f) ctx r w = Some w'"
  shows "cell_read c w' = Some (end_value w' c)"
proof -
  have "callback_ok w (OnMap c f)" using c by simp
  from step_okD(2)[OF run_callback_step[OF inv lib ctx this r]] read_write_once is_write_once_mono c show ?thesis by blast
qed


subsection \<open>Properties\<close>

text \<open>
  \<open>block\<close> returns exactly when \<open>read\<close> gives a result, and returns that result unchanged, for
  every kind of task and through any chain of tasks; on a chain without an end neither
  returns.
\<close>

theorem block_agrees_with_read: "task_block t w = Some r \<longleftrightarrow> cell_read (task_cell t) w = Some (Some r)"
  by (simp add: task_block_def result_unchanged cell_block_iff_read)

text \<open>
  Creating a task queues exactly one job and returns a task that is unresolved; when that
  job runs and the function returns, the task resolves to the function's value.
\<close>

theorem create_task_resolves:
  assumes "world_inv w" and "task_new f w = (t, w1)" and "uses_library env"
    and "world_inv w2" and "world_le w1 w2" and "ctx_ok (pool w2) ctx"
    and "call_fn env f w2 = Some (v, w3)" and "end_value w3 (task_cell t) = None"
  shows "jobs_left w1 = add_mset (Some (RunTask (task_cell t) f)) (jobs_left w)
    \<and> cell_read (task_cell t) w1 = Some None
    \<and> (\<exists>w4. run_job env ctx (RunTask (task_cell t) f) w2 = Some w4 \<and> end_value w4 (task_cell t) = Some (Value v))"
proof -
  note n = task_new_queues[OF assms(1,2)]
  from run_task_value[OF assms(4,3,6) is_write_once_mono[OF assms(5) n(2)] assms(7,8)] n read_write_once[OF n(2)]
  show ?thesis by simp
qed

theorem create_task_resolves_witness:
  "let w = snd (factory_new 0 2 ()) :: (nat, nat, unit) world; (t, w1) = task_new 9 w
   in \<exists>w4. run_job sample_env ctx_empty (RunTask (task_cell t) 9) w1 = Some w4 \<and> end_value w4 (task_cell t) = Some (Value (Plain 9))"
proof -
  let ?w = "snd (factory_new 0 2 ()) :: (nat, nat, unit) world"
  obtain t w1 where t: "task_new 9 ?w = (t, w1)" by (cases "task_new 9 ?w")
  have inv: "world_inv ?w" by (rule factory_new_inv) (simp add: clock_range_def)
  note n = task_new_queues[OF inv t]
  have i1: "world_inv w1" using task_new_step(1)[OF inv t] by (rule step_okD)
  have "call_fn sample_env 9 w1 = Some (Plain 9, w1)" by (simp add: sample_env_def)
  from create_task_resolves[OF inv t sample_env_ok i1 world_le_refl ctx_empty_ok this n(3)] t show ?thesis by simp
qed

text \<open>
  C24: \<open>map\<close> with a function and \<open>bind\<close> with the function that returns the same result as a
  resolved task give tasks that read the same, value or error, whenever their callbacks run;
  and one callback returns exactly when the other does.
\<close>

theorem map_is_resolved_bind:
  assumes "world_inv w" and "uses_library env" and "ctx_ok (pool w) ctx" and "returns_resolved env g f"
    and "is_write_once w c" and "end_value w c = None"
    and "is_tracking w t" and "link w t = None" and "is_write_once w e" and "end_value w e = None"
    and "\<forall>v u w1. map_fn env f v w = Some (u, w1) \<longrightarrow> end_value w1 c = None \<and> link w1 t = None"
  shows "(\<exists>w'. run_callback env (OnMap c f) ctx r w = Some w' \<and> cell_read c w' = Some (Some x))
    \<longleftrightarrow> (\<exists>w'. run_callback env (OnBind t e g) ctx r w = Some w' \<and> cell_read t w' = Some (Some x))"
proof (cases r)
  case (Err er)
  then show ?thesis
    using run_map_error[OF assms(1,3,5,6), of env f er] run_bind_error[OF assms(1,3,7-10), of env g er]
      map_reads[OF assms(1,2,3,5), of f r] by fastforce
next
  case (Value v)
  show ?thesis
  proof (cases "map_fn env f v w")
    case None
    then have "bind_fn env g v w = None" using assms(4) by (simp add: returns_resolved_def)
    with None Value show ?thesis by (simp add: run_callback_defs)
  next
    case (Some p)
    obtain u w1 where p: "map_fn env f v w = Some (u, w1)" using Some by (cases p) auto
    then have e: "end_value w1 c = None" "link w1 t = None" using assms(11) by simp_all
    from run_map_value[OF assms(1,2,3,5) p e(1)] run_resolved_bind[OF assms(1,2,7,4) p e(2), of e ctx]
      map_reads[OF assms(1,2,3,5), of f r] Value show ?thesis by fastforce
  qed
qed

text \<open>An environment in which \<open>bind\<close> returns resolved tasks.\<close>

definition resolved_env :: "(nat, nat, unit) environment" where
  "resolved_env = sample_env\<lparr>bind_fn := (\<lambda>f v w.
     let (s, w2) = value_source_new w in Some (value_source_create s, value_source_complete (add_plain f v) s w2))\<rparr>"

lemma resolved_env_ok: "uses_library resolved_env" "returns_resolved resolved_env f f"
proof -
  have b: "(client_step resolved_env)\<^sup>*\<^sup>* w w' \<and> task_ok w' t"
    if r: "bind_fn resolved_env f v w = Some (t, w')" for f v t and w w' :: "(nat, nat, unit) world"
  proof -
    obtain s w2 where s: "value_source_new w = (s, w2)" by (cases "value_source_new w")
    have w': "w' = value_source_complete (add_plain f v) s w2" "t = value_source_create s"
      using r s by (auto simp: resolved_env_def)
    have c: "cells w2 = cells w @ [WriteOnce \<lparr>wo_value = None, wo_callbacks = []\<rparr>]" "source_cell s = length (cells w)"
      using s by (auto simp: value_source_new_def write_once_new_def new_cell_def)
    have "client_step resolved_env w w2" using client_step.new_source[of resolved_env w] s by simp
    moreover have "client_step resolved_env w2 w'"
      using client_step.complete[of w2 s resolved_env] c by (simp add: w' is_write_once_def)
    moreover have "task_ok w' t"
      using c by (simp add: w' task_ok_def value_source_create_def write_defs write_result_to_value_def set_cell_def)
    ultimately show ?thesis by (meson converse_rtranclp_into_rtranclp r_into_rtranclp)
  qed
  then show "uses_library resolved_env" by (auto simp: uses_library_def) (auto simp: resolved_env_def sample_env_def)
  show "returns_resolved resolved_env f f" by (simp add: returns_resolved_def resolved_env_def sample_env_def)
qed

theorem map_is_resolved_bind_witness:
  "\<exists>w'. run_callback resolved_env (OnBind 3 2 5) ctx_empty (Value (Plain 3)) (sample_store sample_cells) = Some w'
    \<and> cell_read 3 w' = Some (Some (Value (Plain 8)))"
proof -
  have m: "\<exists>w'. run_callback resolved_env (OnMap 1 5) ctx_empty (Value (Plain 3)) (sample_store sample_cells) = Some w'
      \<and> cell_read 1 w' = Some (Some (Value (Plain 8)))"
    by (simp add: run_callback_defs write_defs write_result_to_value_def resolved_env_def sample_env_def cell_read.simps
        set_cell_def)
  show ?thesis
    by (rule map_is_resolved_bind[THEN iffD1, OF sample_store_ok resolved_env_ok(1) ctx_empty_ok resolved_env_ok(2) _ _ _ _ _ _ _ m])
      (simp_all add: is_write_once_def is_tracking_def end_value_def link_def resolved_env_def sample_env_def)
qed

end
