(* ===== verification/Poll_Thread.thy ===== *)
theory Poll_Thread
  imports Tasks
begin

text \<open>
  The poll thread as the factory starts it: the loop of \<open>begin_poll\<close> (\<open>Poll_Loop\<close>) over the two
  poll sources of the library (\<open>Timing_Poll_Source\<close>, \<open>Io_Poll_Source\<close>). The third interpretation
  of the contract \<open>poll_source\<close>: what the two sources owe is what the pair owes, and the jobs the
  loop queues are those of the polls it makes.

  The clock readings and the statuses the polls see are streams, one element for each poll.
\<close>

subsection \<open>The two sources as one\<close>

record ('f, 'a) lib_sources =
  ls_timers :: "('f, 'a) job timing_source"
  ls_reads :: "address io_source"
  ls_clock :: "nat \<Rightarrow> int"
  ls_status :: "nat \<Rightarrow> address \<Rightarrow> int"
  ls_polls :: nat

definition lib_poll :: "lib_source \<Rightarrow> ('f, 'a) lib_sources \<Rightarrow> ('f, 'a) job fn list \<times> ('f, 'a) lib_sources" where
  "lib_poll src s =
     (case src of
        TimingSource \<Rightarrow>
          let (jobs, t) = tps_poll (ls_clock s (ls_polls s)) (ls_timers s)
          in (map Some jobs, s\<lparr>ls_timers := t, ls_polls := Suc (ls_polls s)\<rparr>)
      | IoSource \<Rightarrow>
          let (jobs, r) = io_poll (ls_status s (ls_polls s)) FinishRead (ls_reads s)
          in (map Some jobs, s\<lparr>ls_reads := r, ls_polls := Suc (ls_polls s)\<rparr>))"

text \<open>It is the poll of \<open>Tasks\<close>, which leaves the jobs to be queued next.\<close>

lemma poll_source_is_lib_poll:
  fixes w :: "('f, 'a, 'os) world" and env :: "('f, 'a, 'os) environment" and now :: int
  defines "s \<equiv> \<lparr>ls_timers = timers w, ls_reads = io_source w, ls_clock = \<lambda>_. now,
      ls_status = \<lambda>_. aio_error_fn env (os_state w), ls_polls = 0\<rparr>"
  assumes "polled w = []"
  shows "poll_source env now src w =
      w\<lparr>polled := fst (lib_poll src s), timers := ls_timers (snd (lib_poll src s)),
        io_source := ls_reads (snd (lib_poll src s))\<rparr>"
    and "queue_polled (poll_source env now src w) = w\<lparr>pool := scheduler_queue_jobs ctx_empty (fst (lib_poll src s)) (pool w),
      timers := ls_timers (snd (lib_poll src s)), io_source := ls_reads (snd (lib_poll src s))\<rparr>"
  using assms(2) by (cases src; simp add: poll_source_def poll_jobs_def queue_polled_def lib_poll_def s_def split_def Let_def)+

definition timers_owed :: "('f, 'a) lib_sources \<Rightarrow> ('f, 'a) job multiset" where
  "timers_owed s = image_mset snd (tps_dues (ls_timers s))"

definition reads_owed :: "('f, 'a) lib_sources \<Rightarrow> ('f, 'a) job multiset" where
  "reads_owed s = image_mset (\<lambda>(cb, r). FinishRead cb r) (mset (in_flight_requests (ls_reads s)))"

definition lib_owed :: "('f, 'a) lib_sources \<Rightarrow> ('f, 'a) job fn multiset" where
  "lib_owed s = image_mset Some (timers_owed s + reads_owed s)"

definition lib_inv :: "('f, 'a) lib_sources \<Rightarrow> bool" where
  "lib_inv s \<longleftrightarrow> tps_inv (ls_timers s) \<and> (\<forall>n. clock_range (ls_clock s n))"

lemma lib_poll_inv: "lib_inv s \<Longrightarrow> lib_inv (snd (lib_poll src s))"
  by (cases src) (simp_all add: lib_inv_def lib_poll_def split_def Let_def timing.poll_inv)

lemma lib_poll_conserves:
  assumes "lib_inv s"
  shows "mset (fst (lib_poll src s)) + lib_owed (snd (lib_poll src s)) = lib_owed s"
proof (cases src)
  case TimingSource
  have "mset (fst (tps_poll (ls_clock s (ls_polls s)) (ls_timers s)))
      + image_mset snd (tps_dues (snd (tps_poll (ls_clock s (ls_polls s)) (ls_timers s)))) = timers_owed s"
    using assms by (simp add: lib_inv_def timers_owed_def timing.poll_conserves)
  from arg_cong[OF this, of "image_mset Some"] show ?thesis
    by (simp add: TimingSource lib_poll_def lib_owed_def timers_owed_def reads_owed_def split_def Let_def union_assoc [symmetric])
next
  case IoSource
  have "mset (fst (io_poll (ls_status s (ls_polls s)) FinishRead (ls_reads s)))
      + image_mset (\<lambda>(cb, r). FinishRead cb r)
          (mset (in_flight_requests (snd (io_poll (ls_status s (ls_polls s)) (FinishRead :: _ \<Rightarrow> _ \<Rightarrow> ('a, 'b) job) (ls_reads s))))) = reads_owed s"
    by (simp add: reads_owed_def reads.poll_conserves)
  from arg_cong[OF this, of "image_mset Some"] show ?thesis
    by (simp add: IoSource lib_poll_def lib_owed_def timers_owed_def reads_owed_def split_def Let_def union_ac)
qed

interpretation lib: poll_source lib_poll lib_owed lib_inv "\<lambda>src. True"
  by unfold_locales (simp_all add: lib_poll_inv lib_poll_conserves)

subsection \<open>The thread\<close>

lemma lib_frequencies: "0 \<le> lib_poll_frequency src \<and> lib_poll_frequency src < 10" "freq_ok (lib_poll_frequency src)"
  by (cases src; simp add: tps_poll_frequency_def io_poll_frequency_def freq_ok_def)+

text \<open>The poll thread of a factory made at \<open>t0\<close>, after the iterations at \<open>nows\<close>.\<close>

definition lib_poll_thread ::
  "int \<Rightarrow> int list \<Rightarrow> ('f, 'a) lib_sources \<Rightarrow> ('f, 'a) job worker_pool
    \<Rightarrow> (lib_source, ('f, 'a) job, ('f, 'a) lib_sources) poll_thread"
where
  "lib_poll_thread t0 nows s p = poll_loop lib_poll_frequency lib_poll nows (begin_poll t0 factory_poll_sources s p)"

lemma begin_lib_poll:
  assumes "clock_range t0" "pool_inv p"
  shows "wheel_sources (begin_poll t0 factory_poll_sources s p) = {#TimingSource, IoSource#}"
  using begin_poll_correct(2)[OF assms, of factory_poll_sources s] by (simp add: wheel_sources_def factory_poll_sources_def multiset.map_comp comp_def)

lemma lib_poll_thread_inv:
  assumes "clock_range t0" "\<forall>now \<in> set nows. clock_range now" "pool_inv p"
  shows "wheel_sources (lib_poll_thread t0 nows s p) = {#TimingSource, IoSource#}"
    and "pool_jobs (pt_pool (lib_poll_thread t0 nows s p)) = pool_jobs p
      + mset (fst (run_polls lib_poll (loop_polls lib_poll_frequency lib_poll nows (begin_poll t0 factory_poll_sources s p)) s))"
    and "pt_sources (lib_poll_thread t0 nows s p) =
      snd (run_polls lib_poll (loop_polls lib_poll_frequency lib_poll nows (begin_poll t0 factory_poll_sources s p)) s)"
  using poll_loop_inv[where freq = lib_poll_frequency and poll = lib_poll and nows = nows,
      OF begin_poll_correct(1)[OF assms(1,3), of factory_poll_sources s] assms(2)]
    begin_lib_poll[OF assms(1,3)] begin_poll_correct(3,4)[OF assms(1,3), of factory_poll_sources s]
  by (simp_all add: lib_frequencies(2) lib_poll_thread_def)

text \<open>The polls of the loop: both sources in each round.\<close>

lemma lib_loop_polls:
  assumes "clock_range t0" "\<forall>now \<in> set nows. clock_range now" "pool_inv p"
  shows "mset (loop_polls lib_poll_frequency lib_poll nows (begin_poll t0 factory_poll_sources s p))
      = repeat_mset (round_count t0 nows) {#TimingSource, IoSource#}"
  using loop_polls_rounds[where freq = lib_poll_frequency and poll = lib_poll,
      OF begin_poll_correct(1)[OF assms(1,3)] assms(2) _ begin_run_polls_due[OF assms(1,3)], of factory_poll_sources s]
    begin_poll_correct(5)[OF assms(1,3), of factory_poll_sources s] begin_lib_poll[OF assms(1,3), of s]
  by (simp add: lib_frequencies(1))

lemma completed_read_polled:
  assumes "IoSource \<in> set srcs" "(cb, r) \<in> set (in_flight_requests (ls_reads s))" "\<forall>n. is_completed (ls_status s n) r"
  shows "Some (FinishRead cb r) \<in> set (fst (run_polls lib_poll srcs s))"
  using assms
proof (induction srcs arbitrary: s)
  case (Cons src srcs)
  show ?case
  proof (cases src)
    case TimingSource
    have "ls_reads (snd (lib_poll src s)) = ls_reads s" "ls_status (snd (lib_poll src s)) = ls_status s"
      by (simp_all add: TimingSource lib_poll_def split_def Let_def)
    then show ?thesis
      using Cons.IH[of "snd (lib_poll src s)"] Cons.prems TimingSource
      by (simp add: run_polls_Cons del: run_polls.simps(2))
  next
    case IoSource
    have "Some (FinishRead cb r) \<in> set (fst (lib_poll src s))"
      using Cons.prems(2,3) by (force simp: IoSource lib_poll_def io_poll_eq split_def Let_def)
    then show ?thesis by (simp add: run_polls_Cons del: run_polls.simps(2))
  qed
qed simp

subsection \<open>Properties\<close>

text \<open>An example: a timer of zero ticks and a read that has completed when it is first polled.\<close>

definition sample_read :: in_flight_request where
  "sample_read = \<lparr>in_flight_read = \<lparr>request_buffer = 0, nbytes = Size 2, file_offset = Offset 8\<rparr>, control_block = 0\<rparr>"

definition sample_sources :: "(nat, nat) lib_sources" where
  "sample_sources = \<lparr>ls_timers = tps_schedule 120 (CompleteTimer 4) (tps_new 0), ls_reads = \<lparr>in_flight_requests = [(7, sample_read)]\<rparr>,
     ls_clock = \<lambda>n. 70000000, ls_status = \<lambda>n a. 0, ls_polls = 0\<rparr>"

text \<open>
  C7: However long the poll thread runs, both poll sources stay on its wheel, once each, and no
  job is lost, made up or queued twice on the way from the sources to the workers: the jobs in
  the pool and those the sources still owe are together the ones there were at the start.
\<close>

theorem poll_thread_conserves:
  assumes "clock_range t0" and "\<forall>now \<in> set nows. clock_range now" and "pool_inv p" and "lib_inv s"
  shows "wheel_sources (lib_poll_thread t0 nows s p) = {#TimingSource, IoSource#}
    \<and> pool_jobs (pt_pool (lib_poll_thread t0 nows s p)) + lib_owed (pt_sources (lib_poll_thread t0 nows s p))
      = pool_jobs p + lib_owed s"
  using lib_poll_thread_inv[OF assms(1-3)] lib.polls_conserve[OF assms(4)] by (simp add: union_assoc)

theorem poll_thread_conserves_witness:
  "pool_jobs (pt_pool (lib_poll_thread 0 [10000000, 60000000] sample_sources (snd (pool_new 2))))
      + lib_owed (pt_sources (lib_poll_thread 0 [10000000, 60000000] sample_sources (snd (pool_new 2))))
    = lib_owed sample_sources"
proof -
  have "lib_inv sample_sources"
    by (simp add: lib_inv_def sample_sources_def clock_range_def tps_schedule_correct(1) tps_new_correct(1))
  then show ?thesis
    using poll_thread_conserves[of 0 "[10000000, 60000000]" "snd (pool_new 2)" sample_sources]
    by (simp add: clock_range_def pool_new_correct)
qed

text \<open>
  The loop polls both sources of the library in each of its rounds, and a read whose
  completion the operating system reports is a job in the pool after the first round: nothing
  that has completed waits for a second one.
\<close>

theorem completed_read_is_queued:
  assumes "clock_range t0" and "\<forall>now \<in> set nows. clock_range now" and "pool_inv p"
    and "(cb, r) \<in> set (in_flight_requests (ls_reads s))" and "\<forall>n. is_completed (ls_status s n) r"
    and "0 < round_count t0 nows"
  shows "Some (FinishRead cb r) \<in># pool_jobs (pt_pool (lib_poll_thread t0 nows s p))"
proof -
  have "IoSource \<in># repeat_mset (round_count t0 nows) {#TimingSource, IoSource#}" using assms(6) by simp
  then have "IoSource \<in> set (loop_polls lib_poll_frequency lib_poll nows (begin_poll t0 factory_poll_sources s p))"
    unfolding lib_loop_polls[OF assms(1-3), of s, symmetric] by simp
  from completed_read_polled[OF this assms(4,5)] show ?thesis
    by (simp add: lib_poll_thread_inv(2)[OF assms(1-3)])
qed

theorem completed_read_is_queued_witness:
  "Some (FinishRead 7 sample_read) \<in># pool_jobs (pt_pool (lib_poll_thread 0 [10000000] sample_sources (snd (pool_new 2))))"
  using completed_read_is_queued[of 0 "[10000000]" "snd (pool_new 2)" 7 sample_read sample_sources]
  by (simp add: clock_range_def pool_new_correct is_completed_def EINPROGRESS_def sample_sources_def round_count_def)

end
