(* ===== verification/Cell_Blocking.thy ===== *)
theory Cell_Blocking
  imports Cells
begin

text \<open>
  The two places of \<open>write_once_cell.h\<close> (and, in the same shape, \<open>tracking_once_cell.h\<close>) where
  the cell's mutex does not make an operation one step: \<open>block\<close>, which waits on a condition
  variable once and then reads, and \<open>await\<close>, which appends to the vector of callbacks under a
  shared lock.

  A step is what happens between two points where another thread may act. Both machines have a
  flag for what the C++ standard library allows: a wait may wake without a notification, and
  two holders of a shared lock may run at once. With the flag off they are what the comments
  in the code assume.
\<close>

subsection \<open>\<open>block\<close>\<close>

text \<open>
  A blocked thread: before the check, in the wait, past the wait (or the check), and what
  \<open>value.value()\<close> did: it returned, or threw \<open>bad_optional_access\<close>. The writer stores the value
  under the unique lock and notifies after releasing it.
\<close>

datatype 'r blocker = Check | Waiting | Reading | Returned 'r | Threw

datatype writer = Storing | Notifying | Finished

record 'r block_machine =
  bm_value :: "'r option"
  bm_blockers :: "'r blocker list"
  bm_writer :: writer

definition bm_init :: "nat \<Rightarrow> 'r block_machine" where
  "bm_init n = \<lparr>bm_value = None, bm_blockers = replicate n Check, bm_writer = Storing\<rparr>"

fun check_value :: "'r option \<Rightarrow> 'r blocker" where
  "check_value None = Waiting"
| "check_value (Some r) = Reading"

fun read_value :: "'r option \<Rightarrow> 'r blocker" where
  "read_value None = Threw"
| "read_value (Some r) = Returned r"

fun wake :: "'r blocker \<Rightarrow> 'r blocker" where
  "wake Waiting = Reading"
| "wake pc = pc"

inductive block_step :: "bool \<Rightarrow> 'r \<Rightarrow> 'r block_machine \<Rightarrow> 'r block_machine \<Rightarrow> bool" for spurious r where
  check: "t < length (bm_blockers s) \<Longrightarrow> bm_blockers s ! t = Check \<Longrightarrow>
    block_step spurious r s (s\<lparr>bm_blockers := (bm_blockers s)[t := check_value (bm_value s)]\<rparr>)"
| spurious: "spurious \<Longrightarrow> t < length (bm_blockers s) \<Longrightarrow> bm_blockers s ! t = Waiting \<Longrightarrow>
    block_step spurious r s (s\<lparr>bm_blockers := (bm_blockers s)[t := wake (bm_blockers s ! t)]\<rparr>)"
| read: "t < length (bm_blockers s) \<Longrightarrow> bm_blockers s ! t = Reading \<Longrightarrow>
    block_step spurious r s (s\<lparr>bm_blockers := (bm_blockers s)[t := read_value (bm_value s)]\<rparr>)"
| store: "bm_writer s = Storing \<Longrightarrow> bm_value s = None \<Longrightarrow>
    block_step spurious r s (s\<lparr>bm_value := Some r, bm_writer := Notifying\<rparr>)"
| notify: "bm_writer s = Notifying \<Longrightarrow>
    block_step spurious r s (s\<lparr>bm_blockers := map wake (bm_blockers s), bm_writer := Finished\<rparr>)"

inductive block_reachable :: "bool \<Rightarrow> 'r \<Rightarrow> nat \<Rightarrow> 'r block_machine \<Rightarrow> bool" for spurious r n where
  start: "block_reachable spurious r n (bm_init n)"
| step: "block_reachable spurious r n s \<Longrightarrow> block_step spurious r s s' \<Longrightarrow> block_reachable spurious r n s'"

definition block_inv :: "bool \<Rightarrow> 'r \<Rightarrow> nat \<Rightarrow> 'r block_machine \<Rightarrow> bool" where
  "block_inv spurious r n s \<longleftrightarrow> length (bm_blockers s) = n
     \<and> bm_value s = (if bm_writer s = Storing then None else Some r)
     \<and> (\<forall>pc \<in> set (bm_blockers s). (pc = Waiting \<longrightarrow> bm_writer s \<noteq> Finished)
          \<and> (\<forall>v. pc = Returned v \<longrightarrow> v = r \<and> bm_writer s \<noteq> Storing)
          \<and> (\<not> spurious \<longrightarrow> pc \<noteq> Threw \<and> (pc = Reading \<longrightarrow> bm_writer s \<noteq> Storing)))"

lemma set_update_cases: "x \<in> set (xs[i := y]) \<Longrightarrow> x = y \<or> x \<in> set xs"
  using set_update_subset_insert[of xs i y] by auto

lemma block_step_inv:
  assumes "block_step spurious r s s'" "block_inv spurious r n s"
  shows "block_inv spurious r n s'"
  using assms
proof (induction rule: block_step.induct)
  case (check t s)
  then show ?case
    by (cases "bm_writer s") (auto simp: block_inv_def dest!: set_update_cases)
next
  case (spurious t s)
  then show ?case by (cases "bm_writer s") (auto simp: block_inv_def dest!: set_update_cases)
next
  case (read t s)
  have "Reading \<in> set (bm_blockers s)" using nth_mem[OF read(1)] read(2) by simp
  with read show ?case
    by (cases "bm_writer s") (auto simp: block_inv_def dest!: set_update_cases)
next
  case (store s)
  then show ?case by (auto simp: block_inv_def)
next
  case (notify s)
  have w: "wake pc = pc' \<Longrightarrow> (pc' = Waiting \<longrightarrow> False) \<and> (\<forall>v. pc' = Returned v \<longrightarrow> pc = Returned v)
      \<and> (pc' = Threw \<longrightarrow> pc = Threw)" for pc pc' :: "'r blocker"
    by (cases pc) auto
  have "\<forall>pc \<in> set (map wake (bm_blockers s)). (pc = Waiting \<longrightarrow> False) \<and> (\<forall>v. pc = Returned v \<longrightarrow> v = r)
      \<and> (\<not> spurious \<longrightarrow> pc \<noteq> Threw)"
  proof
    fix pc' assume "pc' \<in> set (map wake (bm_blockers s))"
    then obtain pc where pc: "pc \<in> set (bm_blockers s)" "wake pc = pc'" by auto
    then show "(pc' = Waiting \<longrightarrow> False) \<and> (\<forall>v. pc' = Returned v \<longrightarrow> v = r) \<and> (\<not> spurious \<longrightarrow> pc' \<noteq> Threw)"
      using notify(2) w[OF pc(2)] by (auto simp: block_inv_def)
  qed
  then show ?case using notify by (auto simp: block_inv_def)
qed

lemma block_reachable_inv: "block_reachable spurious r n s \<Longrightarrow> block_inv spurious r n s"
proof (induction rule: block_reachable.induct)
  case start
  then show ?case by (auto simp: block_inv_def bm_init_def)
next
  case (step s s')
  show ?case using block_step_inv[OF step(2,3)] .
qed

text \<open>The run a single spurious wake-up allows: check, wake, read.\<close>

lemma block_spurious_run:
  "block_reachable True r 1 \<lparr>bm_value = None, bm_blockers = [Threw], bm_writer = Storing\<rparr>"
proof -
  let ?s = "\<lambda>pc. \<lparr>bm_value = None, bm_blockers = [pc], bm_writer = Storing\<rparr> :: 'a block_machine"
  have "block_reachable True r 1 (?s Check)" using block_reachable.start[of True r 1] by (simp add: bm_init_def)
  moreover have "block_step True r (?s Check) (?s Waiting)" using block_step.check[of 0 "?s Check"] by simp
  moreover have "block_step True r (?s Waiting) (?s Reading)" using block_step.spurious[of True 0 "?s Waiting"] by simp
  moreover have "block_step True r (?s Reading) (?s Threw)" using block_step.read[of 0 "?s Reading"] by simp
  ultimately show ?thesis by (meson block_reachable.step)
qed

subsection \<open>\<open>await\<close>\<close>

text \<open>
  \<open>push_back\<close> as two accesses to the vector: it reads the vector, then stores it with one
  element more. \<open>exclusive\<close> says whether a second thread is kept out in between.
\<close>

datatype 'f pusher = Entering "'f callback" | Pushing "'f callback" "'f callback list" | Pushed "'f callback"

record 'f await_machine =
  am_callbacks :: "'f callback list"
  am_pushers :: "'f pusher list"

definition am_init :: "'f callback list \<Rightarrow> 'f await_machine" where
  "am_init cbs = \<lparr>am_callbacks = [], am_pushers = map Entering cbs\<rparr>"

fun is_pushing :: "'f pusher \<Rightarrow> bool" where
  "is_pushing (Pushing cb vs) = True"
| "is_pushing _ = False"

inductive await_step :: "bool \<Rightarrow> 'f await_machine \<Rightarrow> 'f await_machine \<Rightarrow> bool" for exclusive where
  load: "t < length (am_pushers s) \<Longrightarrow> am_pushers s ! t = Entering cb \<Longrightarrow>
    (exclusive \<Longrightarrow> \<forall>pc \<in> set (am_pushers s). \<not> is_pushing pc) \<Longrightarrow>
    await_step exclusive s (s\<lparr>am_pushers := (am_pushers s)[t := Pushing cb (am_callbacks s)]\<rparr>)"
| store: "t < length (am_pushers s) \<Longrightarrow> am_pushers s ! t = Pushing cb vs \<Longrightarrow>
    await_step exclusive s (s\<lparr>am_callbacks := vs @ [cb], am_pushers := (am_pushers s)[t := Pushed cb]\<rparr>)"

inductive await_reachable :: "bool \<Rightarrow> 'f callback list \<Rightarrow> 'f await_machine \<Rightarrow> bool" for exclusive cbs where
  start: "await_reachable exclusive cbs (am_init cbs)"
| step: "await_reachable exclusive cbs s \<Longrightarrow> await_step exclusive s s' \<Longrightarrow> await_reachable exclusive cbs s'"

fun pushed_callbacks :: "'f pusher \<Rightarrow> 'f callback multiset" where
  "pushed_callbacks (Pushed cb) = {#cb#}"
| "pushed_callbacks _ = {#}"

definition am_pushed :: "'f await_machine \<Rightarrow> 'f callback multiset" where
  "am_pushed s = (\<Sum>t<length (am_pushers s). pushed_callbacks (am_pushers s ! t))"

definition await_inv :: "'f await_machine \<Rightarrow> bool" where
  "await_inv s \<longleftrightarrow> mset (am_callbacks s) = am_pushed s
     \<and> (\<forall>t < length (am_pushers s). \<forall>cb vs. am_pushers s ! t = Pushing cb vs \<longrightarrow> vs = am_callbacks s
          \<and> (\<forall>u < length (am_pushers s). is_pushing (am_pushers s ! u) \<longrightarrow> u = t))"

lemma am_pushed_update:
  assumes "t < length (am_pushers s)"
  shows "am_pushed (s\<lparr>am_pushers := (am_pushers s)[t := pc]\<rparr>) + pushed_callbacks (am_pushers s ! t)
    = am_pushed s + pushed_callbacks pc"
  using sum_mset_update[OF assms, of pushed_callbacks pc] by (simp add: am_pushed_def)

lemma am_pushed_callbacks [simp]:
  "am_pushed (s\<lparr>am_callbacks := vs, am_pushers := pcs\<rparr>) = am_pushed (s\<lparr>am_pushers := pcs\<rparr>)"
  by (simp add: am_pushed_def)

lemma await_step_inv:
  assumes "await_step True s s'" "await_inv s"
  shows "await_inv s'"
  using assms
proof (induction rule: await_step.induct)
  case (load t s cb)
  have idle: "\<not> is_pushing (am_pushers s ! u)" if "u < length (am_pushers s)" for u
    using load(3) that by simp
  have none: "am_pushers s ! u \<noteq> Pushing c vs" if "u < length (am_pushers s)" for u c vs
    using idle[OF that] by auto
  have "mset (am_callbacks s) = am_pushed (s\<lparr>am_pushers := (am_pushers s)[t := Pushing cb (am_callbacks s)]\<rparr>)"
    using am_pushed_update[OF load(1), of "Pushing cb (am_callbacks s)"] load(2,4) by (simp add: await_inv_def)
  then show ?case
    using load(1) idle none by (auto simp: await_inv_def nth_list_update split: if_splits)
next
  case (store t s cb vs)
  have vs: "vs = am_callbacks s" using store by (simp add: await_inv_def)
  have idle: "\<not> is_pushing (am_pushers s ! u)" if "u < length (am_pushers s)" "u \<noteq> t" for u
    using store that by (auto simp: await_inv_def)
  have none: "am_pushers s ! u \<noteq> Pushing c xs" if "u < length (am_pushers s)" "u \<noteq> t" for u c xs
    using idle[OF that] by auto
  have "mset (vs @ [cb]) = am_pushed (s\<lparr>am_pushers := (am_pushers s)[t := Pushed cb]\<rparr>)"
    using am_pushed_update[OF store(1), of "Pushed cb"] store(2,3) by (simp add: await_inv_def vs)
  then show ?case using store(1) idle none by (auto simp: await_inv_def nth_list_update split: if_splits)
qed

lemma await_reachable_inv: "await_reachable True cbs s \<Longrightarrow> await_inv s"
proof (induction rule: await_reachable.induct)
  case start
  then show ?case by (auto simp: await_inv_def am_init_def am_pushed_def)
next
  case (step s s')
  show ?case using await_step_inv[OF step(2,3)] .
qed

text \<open>Two threads that both hold the shared lock: the second store drops the first callback.\<close>

lemma await_shared_run:
  "await_reachable False [c, d] \<lparr>am_callbacks = [d], am_pushers = [Pushed c, Pushed d]\<rparr>"
proof -
  let ?s = "\<lambda>vs ps. \<lparr>am_callbacks = vs, am_pushers = ps\<rparr> :: 'a await_machine"
  have "await_reachable False [c, d] (?s [] [Entering c, Entering d])"
    using await_reachable.start[of False "[c, d]"] by (simp add: am_init_def)
  moreover have "await_step False (?s [] [Entering c, Entering d]) (?s [] [Pushing c [], Entering d])"
    using await_step.load[of 0 "?s [] [Entering c, Entering d]" c False] by simp
  moreover have "await_step False (?s [] [Pushing c [], Entering d]) (?s [] [Pushing c [], Pushing d []])"
    using await_step.load[of 1 "?s [] [Pushing c [], Entering d]" d False] by simp
  moreover have "await_step False (?s [] [Pushing c [], Pushing d []]) (?s [c] [Pushed c, Pushing d []])"
    using await_step.store[of 0 "?s [] [Pushing c [], Pushing d []]" c "[]"] by simp
  moreover have "await_step False (?s [c] [Pushed c, Pushing d []]) (?s [d] [Pushed c, Pushed d])"
    using await_step.store[of 1 "?s [c] [Pushed c, Pushing d []]" d "[]"] by simp
  ultimately show ?thesis by (meson await_reachable.step)
qed

lemma block_can_throw: "\<exists>s. block_reachable True r 1 s \<and> bm_blockers s ! 0 = Threw \<and> bm_writer s = Storing"
  using block_spurious_run by (intro exI[of _ "\<lparr>bm_value = None, bm_blockers = [Threw], bm_writer = Storing\<rparr>"]) simp

subsection \<open>Properties\<close>

text \<open>
  C39: If waits wake only when notified, as the comment in \<open>block\<close> assumes, a blocked thread
  never throws, returns only the value written, and is not left waiting once the writer is
  done: the check and the start of the wait cannot miss the notification. With the spurious
  wake-ups the standard allows it can read the empty optional and throw before anything is
  written.
\<close>

theorem block_returns_written_value:
  assumes "block_reachable False r n s" and "t < n"
  shows "(bm_blockers s ! t \<noteq> Threw \<and> (\<forall>v. bm_blockers s ! t = Returned v \<longrightarrow> v = r)
      \<and> (bm_writer s = Finished \<longrightarrow> bm_blockers s ! t \<noteq> Waiting))
    \<and> (\<exists>s'. block_reachable True r 1 s' \<and> bm_blockers s' ! 0 = Threw \<and> bm_writer s' = Storing)"
proof -
  have inv: "block_inv False r n s" by (rule block_reachable_inv[OF assms(1)])
  then have "bm_blockers s ! t \<in> set (bm_blockers s)" using assms(2) by (simp add: block_inv_def)
  with inv have "bm_blockers s ! t \<noteq> Threw \<and> (\<forall>v. bm_blockers s ! t = Returned v \<longrightarrow> v = r)
      \<and> (bm_writer s = Finished \<longrightarrow> bm_blockers s ! t \<noteq> Waiting)"
    by (auto simp: block_inv_def)
  then show ?thesis using block_can_throw by (rule conjI)
qed

theorem block_returns_written_value_witness:
  "block_reachable False (7::nat) 1 \<lparr>bm_value = None, bm_blockers = [Waiting], bm_writer = Storing\<rparr>
    \<and> bm_blockers \<lparr>bm_value = None, bm_blockers = [Waiting], bm_writer = Storing\<rparr> ! 0 \<noteq> (Threw :: nat blocker)"
proof -
  let ?s = "\<lambda>pc. \<lparr>bm_value = None, bm_blockers = [pc], bm_writer = Storing\<rparr> :: nat block_machine"
  have "block_reachable False 7 1 (?s Check)" using block_reachable.start[of False 7 1] by (simp add: bm_init_def)
  moreover have "block_step False 7 (?s Check) (?s Waiting)" using block_step.check[of 0 "?s Check" False 7] by simp
  ultimately have "block_reachable False 7 1 (?s Waiting)" by (rule block_reachable.step)
  with block_returns_written_value[OF this, of 0] show ?thesis by simp
qed

text \<open>
  C40: If a thread that registers a callback keeps the others out, every \<open>await\<close> that returned
  has its callback in the cell, once. Under the shared lock the code takes, two threads can
  both return and leave only one callback behind.
\<close>

theorem await_needs_exclusive_lock:
  "(\<forall>s. await_reachable True cbs s \<longrightarrow> mset (am_callbacks s) = am_pushed s)
    \<and> (\<exists>s. await_reachable False [c, d] s \<and> am_pushed s = {#c, d#} \<and> am_callbacks s = [d])"
proof (intro conjI allI impI)
  show "mset (am_callbacks s) = am_pushed s" if "await_reachable True cbs s" for s
    using await_reachable_inv[OF that] by (simp add: await_inv_def)
  show "\<exists>s. await_reachable False [c, d] s \<and> am_pushed s = {#c, d#} \<and> am_callbacks s = [d]"
    using await_shared_run[of c d]
    by (intro exI[of _ "\<lparr>am_callbacks = [d], am_pushers = [Pushed c, Pushed d]\<rparr>"]) (simp add: am_pushed_def)
qed

theorem await_needs_exclusive_lock_witness:
  "\<exists>s. await_reachable False [OnMap 0 (1::nat), OnMap 0 2] s
    \<and> am_pushed s = {#OnMap 0 1, OnMap 0 2#} \<and> am_callbacks s = [OnMap 0 2]"
  using await_needs_exclusive_lock[of "[]" "OnMap 0 (1::nat)" "OnMap 0 2"] by blast

end
