(* ===== verification/Concurrent_Sum.thy ===== *)
theory Concurrent_Sum
  imports Tasks
begin

text \<open>
  \<open>examples/concurrency.cpp\<close>: a vector is summed by one task for each range of at most
  \<open>max_values_per_task\<close> values, a \<open>when_all\<close> of them and a \<open>map\<close> that adds up the results. The
  client's function is taken one library call at a time, so that the workers can run between
  its calls; \<open>concurrent_sum\<close> is the function run without interruption.

  The values are C++ \<open>int\<close>s. A sum that leaves their range is undefined behaviour: \<open>None\<close>.
\<close>

subsection \<open>The functions passed to the library\<close>

datatype sum_fn = SumRange nat nat | SumVec

definition int_add :: "int \<Rightarrow> int \<Rightarrow> int option" where
  "int_add a b = (if - 2147483648 \<le> a + b \<and> a + b \<le> 2147483647 then Some (a + b) else None)"

fun sum_loop :: "int list \<Rightarrow> int \<Rightarrow> int option" where
  "sum_loop [] acc = Some acc"
| "sum_loop (x # xs) acc = Option.bind (int_add acc x) (sum_loop xs)"

fun accumulate :: "int val list \<Rightarrow> int \<Rightarrow> int option" where
  "accumulate [] acc = Some acc"
| "accumulate (Plain x # vs) acc = Option.bind (int_add acc x) (accumulate vs)"
| "accumulate _ acc = None"

definition range_values :: "int list \<Rightarrow> nat \<Rightarrow> nat \<Rightarrow> int list" where
  "range_values values range_start range_end = take (range_end - range_start) (drop range_start values)"

fun sum_call :: "int list \<Rightarrow> sum_fn \<Rightarrow> int option" where
  "sum_call values (SumRange range_start range_end) = sum_loop (range_values values range_start range_end) 0"
| "sum_call values SumVec = None"

fun sum_map :: "sum_fn \<Rightarrow> int val \<Rightarrow> int option" where
  "sum_map SumVec (Vector sums) = accumulate sums 0"
| "sum_map _ _ = None"

definition sum_env :: "int list \<Rightarrow> (sum_fn, int, unit) environment" where
  "sum_env values =
     \<lparr>call_fn = (\<lambda>f w. map_option (\<lambda>v. (Plain v, w)) (sum_call values f)),
      map_fn = (\<lambda>f v w. map_option (\<lambda>g. (Plain g, w)) (sum_map f v)),
      bind_fn = (\<lambda>f v w. None),
      aio_error_fn = (\<lambda>os a. EINPROGRESS), aio_read_fn = (\<lambda>a cb os. (0, os))\<rparr>"

subsection \<open>The client\<close>

definition sum_range :: "nat \<Rightarrow> nat \<Rightarrow> (sum_fn, int, unit) world \<Rightarrow> task \<times> (sum_fn, int, unit) world" where
  "sum_range start end' w = factory_create (SumRange start end') w"

datatype sum_pc = InLoop nat "task list" | Combine "task list" | Continue task | Returned task

fun sum_next ::
  "nat \<Rightarrow> nat \<Rightarrow> sum_pc \<Rightarrow> (sum_fn, int, unit) world \<Rightarrow> (sum_pc \<times> (sum_fn, int, unit) world) option"
where
  "sum_next max_values_per_task n (InLoop i tasks) w =
     (if i < n then
        let range_end = (if n \<le> sz_add i max_values_per_task then n else sz_add i max_values_per_task);
            (t, w1) = sum_range i range_end w
        in Some (InLoop (sz_add i max_values_per_task) (tasks @ [t]), w1)
      else Some (Combine tasks, w))"
| "sum_next max_values_per_task n (Combine tasks) w =
     map_option (\<lambda>(t, w1). (Continue t, w1)) (factory_when_all tasks w)"
| "sum_next max_values_per_task n (Continue t) w =
     map_option (\<lambda>(t, w1). (Returned t, w1)) (task_map SumVec t w)"
| "sum_next max_values_per_task n (Returned t) w = None"

partial_function (option) run_sum ::
  "nat \<Rightarrow> nat \<Rightarrow> sum_pc \<Rightarrow> (sum_fn, int, unit) world \<Rightarrow> (task \<times> (sum_fn, int, unit) world) option"
where
  "run_sum max_values_per_task n pc w =
     (case pc of
        Returned t \<Rightarrow> Some (t, w)
      | _ \<Rightarrow> (case sum_next max_values_per_task n pc w of
                None \<Rightarrow> None
              | Some (pc1, w1) \<Rightarrow> run_sum max_values_per_task n pc1 w1))"

definition concurrent_sum ::
  "nat \<Rightarrow> int list \<Rightarrow> (sum_fn, int, unit) world \<Rightarrow> (task \<times> (sum_fn, int, unit) world) option"
where
  "concurrent_sum max_values_per_task values w =
     run_sum max_values_per_task (length values) (InLoop 0 []) w"

subsection \<open>The program\<close>

text \<open>\<open>std::iota\<close> of \<open>main\<close>, from 1.\<close>

definition summation_input :: "nat \<Rightarrow> int list" where
  "summation_input n = map (\<lambda>i. 1 + int i) [0..<n]"

text \<open>
  The vector that \<open>main\<close> makes for the number it was given. The cast to \<open>size_t\<close> wraps, and the
  constructor throws (\<open>None\<close>) if the length is above \<open>max_size()\<close>, the number of \<open>int\<close>s that
  \<open>PTRDIFF_MAX\<close> bytes hold.
\<close>

definition vector_max_size :: nat where
  "vector_max_size = 9223372036854775807 div 4"

definition main_values :: "int \<Rightarrow> int list option" where
  "main_values n =
     (let len = nat (n mod 18446744073709551616)
      in if len \<le> vector_max_size then Some (summation_input len) else None)"

text \<open>
  The last line of \<open>main\<close>: \<open>None\<close> while \<open>block\<close> has not returned, \<open>Some None\<close> if \<open>std::get\<close>
  throws, otherwise what is printed.
\<close>

fun get_int :: "int outcome \<Rightarrow> int option" where
  "get_int (Value (Plain x)) = Some x"
| "get_int _ = None"

definition main_shows :: "task \<Rightarrow> (sum_fn, int, unit) world \<Rightarrow> int option option" where
  "main_shows t w = map_option get_int (task_block t w)"

subsection \<open>The parts\<close>

definition part_fn :: "nat \<Rightarrow> nat \<Rightarrow> nat \<Rightarrow> sum_fn" where
  "part_fn m n i = SumRange (i * m) (min n ((i + 1) * m))"

definition part :: "int list \<Rightarrow> nat \<Rightarrow> nat \<Rightarrow> int" where
  "part values m i = sum_list (range_values values (i * m) (min (length values) ((i + 1) * m)))"

definition summable :: "int list \<Rightarrow> bool" where
  "summable values \<longleftrightarrow> (\<forall>v \<in> set values. 0 \<le> v) \<and> sum_list values \<le> 2147483647"

lemma sum_loop_correct:
  assumes "\<forall>x \<in> set xs. 0 \<le> x" "0 \<le> s" "s + sum_list xs \<le> 2147483647"
  shows "sum_loop xs s = Some (s + sum_list xs)"
  using assms
proof (induction xs arbitrary: s)
  case (Cons x xs)
  have "0 \<le> sum_list xs" using Cons.prems(1) by (intro sum_list_nonneg) simp
  then have "int_add s x = Some (s + x)" using Cons.prems by (simp add: int_add_def)
  then show ?case using Cons by (simp add: add.assoc)
qed simp

lemma accumulate_loop: "accumulate (map Plain xs) s = sum_loop xs s"
proof (induction xs arbitrary: s)
  case (Cons x xs)
  then show ?case by (cases "int_add s x") simp_all
qed simp

lemma part_eq: "part values m i = sum_list (take m (drop (i * m) values))"
proof -
  have "take (min (length values) ((i + 1) * m) - i * m) (drop (i * m) values) = take m (drop (i * m) values)"
    by (rule nth_equalityI) (auto simp: algebra_simps)
  then show ?thesis by (simp add: part_def range_values_def)
qed

lemma sum_list_split: "sum_list (xs :: int list) = sum_list (take k xs) + sum_list (drop k xs)"
  by (metis append_take_drop_id sum_list_append)

lemma sum_parts: "(\<Sum>i<k. part values m i) = sum_list (take (k * m) values)"
proof (induction k)
  case (Suc k)
  have "take (Suc k * m) values = take (k * m) values @ take m (drop (k * m) values)"
    using take_add[of "k * m" m "values"] by (simp add: add.commute)
  then show ?case using Suc by (simp add: part_eq)
qed simp

lemma sublist_sum:
  assumes "\<forall>x \<in> set xs. (0::int) \<le> x"
  shows "sum_list (take m (drop k xs)) \<le> sum_list xs" "0 \<le> sum_list (take m (drop k xs))"
proof -
  have nn: "0 \<le> sum_list ys" if "set ys \<subseteq> set xs" for ys using that assms by (intro sum_list_nonneg) auto
  have "0 \<le> sum_list (take k xs)" "0 \<le> sum_list (drop m (drop k xs))"
    by (auto intro!: nn dest: in_set_takeD in_set_dropD)
  then show "sum_list (take m (drop k xs)) \<le> sum_list xs"
    using sum_list_split[of xs k] sum_list_split[of "drop k xs" m] by linarith
  show "0 \<le> sum_list (take m (drop k xs))" by (auto intro!: nn dest: in_set_takeD in_set_dropD)
qed

lemma part_call:
  assumes "summable values"
  shows "sum_call values (part_fn m (length values) i) = Some (part values m i)" "0 \<le> part values m i"
proof -
  let ?r = "range_values values (i * m) (min (length values) ((i + 1) * m))"
  have nn: "\<forall>x \<in> set values. 0 \<le> x" and le: "sum_list values \<le> 2147483647" using assms by (auto simp: summable_def)
  show p: "0 \<le> part values m i" using sublist_sum(2)[OF nn] by (simp add: part_eq)
  have "\<forall>x \<in> set ?r. 0 \<le> x" using nn by (auto simp: range_values_def dest: in_set_takeD in_set_dropD)
  moreover have "sum_list ?r \<le> 2147483647"
    using sublist_sum(1)[OF nn, of m "i * m"] le part_eq[of "values" m i] unfolding part_def by linarith
  ultimately show "sum_call values (part_fn m (length values) i) = Some (part values m i)"
    using sum_loop_correct[of ?r 0] by (simp add: part_fn_def part_def)
qed

lemma sums_call:
  assumes "summable values" "length values \<le> k * m"
  shows "sum_map SumVec (Vector (map (\<lambda>i. Plain (part values m i)) [0..<k])) = Some (sum_list values)"
proof -
  let ?ps = "map (part values m) [0..<k]"
  have "(\<Sum>i<k. part values m i) = sum_list values" using assms(2) by (simp add: sum_parts)
  then have s: "sum_list ?ps = sum_list values" by (simp add: interv_sum_list_conv_sum_set_nat atLeast0LessThan)
  have "\<forall>x \<in> set ?ps. 0 \<le> x" using part_call(2)[OF assms(1)] by auto
  moreover have "0 + sum_list ?ps \<le> 2147483647" using assms(1) by (simp add: s summable_def)
  ultimately have "sum_loop ?ps 0 = Some (sum_list values)" using sum_loop_correct[of ?ps 0] s by simp
  then show ?thesis using accumulate_loop[of ?ps 0] by (simp add: comp_def)
qed

end
