(* ===== verification/Sum_View.thy ===== *)
theory Sum_View
  imports Concurrent_Sum Task_Laws
begin

text \<open>
  What the world looks like while \<open>examples/concurrency.cpp\<close> runs: how far every part of the sum
  has come determines the cells, the \<open>when_all\<close> context and the queued jobs (\<open>sum_view\<close>). Each call
  of the client and each turn of a worker moves one part on.
\<close>

subsection \<open>What the world looks like\<close>

datatype part_state = Created | Summed | Told | Counted

datatype sum_phase = Building | AllMade | MapMade bool

definition part_cell :: "(nat \<Rightarrow> int) \<Rightarrow> nat \<Rightarrow> bool \<Rightarrow> nat \<Rightarrow> part_state \<Rightarrow> (sum_fn, int) cell" where
  "part_cell s k reg i st =
     WriteOnce \<lparr>wo_value = (if st = Created then None else Some (Value (Plain (s i)))),
                wo_callbacks = (if reg \<and> st = Created then [OnWhenAll 0 i k] else [])\<rparr>"

fun part_jobs :: "(nat \<Rightarrow> int) \<Rightarrow> (nat \<Rightarrow> sum_fn) \<Rightarrow> nat \<Rightarrow> nat \<Rightarrow> part_state \<Rightarrow> (sum_fn, int) job fn multiset" where
  "part_jobs s f k i Created = {#Some (RunTask i (f i))#}"
| "part_jobs s f k i Told = {#Some (RunCallback (OnWhenAll 0 i k) (Value (Plain (s i))))#}"
| "part_jobs s f k i _ = {#}"

definition all_in :: "part_state list \<Rightarrow> bool" where
  "all_in sts \<longleftrightarrow> sts \<noteq> [] \<and> (\<forall>x \<in> set sts. x = Counted)"

definition parts_vector :: "(nat \<Rightarrow> int) \<Rightarrow> nat \<Rightarrow> int val" where
  "parts_vector s k = Vector (map (\<lambda>i. Plain (s i)) [0..<k])"

definition vector_cell :: "(nat \<Rightarrow> int) \<Rightarrow> nat \<Rightarrow> bool \<Rightarrow> bool \<Rightarrow> (sum_fn, int) cell" where
  "vector_cell s k mapped fl =
     WriteOnce \<lparr>wo_value = (if fl then Some (Value (parts_vector s k)) else None),
                wo_callbacks = (if mapped \<and> \<not> fl then [OnMap (k + 2) SumVec] else [])\<rparr>"

definition part_cells :: "(nat \<Rightarrow> int) \<Rightarrow> nat \<Rightarrow> bool \<Rightarrow> part_state list \<Rightarrow> (sum_fn, int) cell list" where
  "part_cells s k reg sts = map (\<lambda>i. part_cell s k reg i (sts ! i)) [0..<length sts]"

fun more_cells :: "(nat \<Rightarrow> int) \<Rightarrow> int \<Rightarrow> sum_phase \<Rightarrow> part_state list \<Rightarrow> (sum_fn, int) cell list" where
  "more_cells s tot Building sts = []"
| "more_cells s tot AllMade sts =
     [vector_cell s (length sts) False (all_in sts), WhenAll (length sts) [0..<length sts]]"
| "more_cells s tot (MapMade b) sts =
     [vector_cell s (length sts) True (all_in sts), WhenAll (length sts) [0..<length sts],
      WriteOnce \<lparr>wo_value = (if b then Some (Value (Plain tot)) else None), wo_callbacks = []\<rparr>]"

definition sum_jobs :: "(nat \<Rightarrow> int) \<Rightarrow> (nat \<Rightarrow> sum_fn) \<Rightarrow> sum_phase \<Rightarrow> part_state list \<Rightarrow> (sum_fn, int) job fn multiset" where
  "sum_jobs s f ph sts =
     (\<Sum>i<length sts. part_jobs s f (length sts) i (sts ! i))
     + (if ph = MapMade False \<and> all_in sts
        then {#Some (RunCallback (OnMap (length sts + 2) SumVec) (Value (parts_vector s (length sts))))#} else {#})"

definition sum_context :: "(nat \<Rightarrow> int) \<Rightarrow> part_state list \<Rightarrow> int when_all_context" where
  "sum_context s sts =
     \<lparr>resolved_values = map (\<lambda>i. if sts ! i = Counted then Plain (s i) else DefaultInit) [0..<length sts],
      num_resolved_cells = length (filter (\<lambda>st. st = Counted) sts), all_total_cells = length sts\<rparr>"

fun phase_ok :: "sum_phase \<Rightarrow> part_state list \<Rightarrow> bool" where
  "phase_ok Building sts \<longleftrightarrow> set sts \<subseteq> {Created, Summed}"
| "phase_ok AllMade sts \<longleftrightarrow> set sts \<subseteq> {Created, Told, Counted}"
| "phase_ok (MapMade b) sts \<longleftrightarrow> set sts \<subseteq> {Created, Told, Counted} \<and> (b \<longrightarrow> all_in sts)"

definition sum_view ::
  "(nat \<Rightarrow> int) \<Rightarrow> (nat \<Rightarrow> sum_fn) \<Rightarrow> int \<Rightarrow> sum_phase \<Rightarrow> part_state list \<Rightarrow> (sum_fn, int, unit) world \<Rightarrow> bool"
where
  "sum_view s f tot ph sts w \<longleftrightarrow>
     cells w = part_cells s (length sts) (ph \<noteq> Building) sts @ more_cells s tot ph sts
     \<and> all_contexts w = (if ph = Building then [] else [sum_context s sts])
     \<and> pool_inv (pool w) \<and> jobs_left w = sum_jobs s f ph sts \<and> workers (pool w) \<noteq> []
     \<and> tps_inv (timers w) \<and> tps_dues (timers w) = {#} \<and> in_flight_requests (io_source w) = []
     \<and> phase_ok ph sts \<and> polled w = [] \<and> hands_ok w"

lemma part_cells_length [simp]: "length (part_cells s k reg sts) = length sts"
  by (simp add: part_cells_def)

lemma part_cells_nth [simp]: "i < length sts \<Longrightarrow> part_cells s k reg sts ! i = part_cell s k reg i (sts ! i)"
  by (simp add: part_cells_def)

lemma sum_viewD:
  assumes "sum_view s f tot ph sts w"
  shows "cells w = part_cells s (length sts) (ph \<noteq> Building) sts @ more_cells s tot ph sts"
    and "all_contexts w = (if ph = Building then [] else [sum_context s sts])"
    and "pool_inv (pool w)" and "jobs_left w = sum_jobs s f ph sts"
    and "tps_inv (timers w)" and "tps_dues (timers w) = {#}" and "in_flight_requests (io_source w) = []"
    and "phase_ok ph sts" and "workers (pool w) \<noteq> []" and "polled w = []" and "hands_ok w"
  using assms by (simp_all add: sum_view_def)

subsection \<open>The client's calls\<close>

lemma part_cells_snoc:
  assumes "set sts \<subseteq> {Created, Summed}"
  shows "part_cells s (length (sts @ [Created])) False (sts @ [Created])
      = part_cells s (length sts) False sts @ [WriteOnce \<lparr>wo_value = None, wo_callbacks = []\<rparr>]"
  by (rule nth_equalityI) (auto simp: nth_append less_Suc_eq part_cells_def part_cell_def)

lemma part_jobs_building:
  "st \<in> {Created, Summed} \<Longrightarrow> part_jobs s f k i st = part_jobs s f k' i st"
  by auto

lemma create_view:
  assumes v: "sum_view s f tot Building sts w"
  shows "fst (task_new (f (length sts)) w) = \<lparr>task_cell = length sts\<rparr>"
    and "sum_view s f tot Building (sts @ [Created]) (snd (task_new (f (length sts)) w))"
proof -
  note d = sum_viewD[OF v]
  have len: "length (cells w) = length sts" by (simp add: d(1))
  let ?w1 = "snd (new_cell (WriteOnce \<lparr>wo_value = None, wo_callbacks = []\<rparr>) w)"
  have new: "task_new (f (length sts)) w = (\<lparr>task_cell = length sts\<rparr>, queue_job ctx_empty (RunTask (length sts) (f (length sts))) ?w1)"
    by (simp add: task_new_def write_once_new_def split_def Let_def len)
  show "fst (task_new (f (length sts)) w) = \<lparr>task_cell = length sts\<rparr>" by (simp add: new)
  let ?w2 = "queue_job ctx_empty (RunTask (length sts) (f (length sts))) ?w1"
  have st: "set sts \<subseteq> {Created, Summed}" using d(8) by simp
  have q: "pool_inv (pool ?w2)" "jobs_left ?w2 = add_mset (Some (RunTask (length sts) (f (length sts)))) (jobs_left w)"
    "workers (pool ?w2) \<noteq> []"
    and qw: "length (workers (pool ?w2)) = length (workers (pool w))"
    using queue_job_pool[of ?w1 ctx_empty] d(3,9) by (simp_all flip: length_greater_0_conv)
  have "(\<Sum>i<length sts. part_jobs s f (length sts) i (sts ! i)) = (\<Sum>i<length sts. part_jobs s f (Suc (length sts)) i (sts ! i))"
    using st by (intro sum.cong refl part_jobs_building) (auto dest: nth_mem)
  then have "jobs_left ?w2 = sum_jobs s f Building (sts @ [Created])"
    using q(2) d(4) by (simp add: sum_jobs_def nth_append)
  moreover have "cells ?w2 = part_cells s (length (sts @ [Created])) False (sts @ [Created])"
    by (simp add: d(1) part_cells_snoc[OF st] del: length_append)
  moreover have "same_rest w ?w2" using same_rest_trans[OF new_cell_simps(4) queue_job_frame(2)] .
  ultimately show "sum_view s f tot Building (sts @ [Created]) (snd (task_new (f (length sts)) w))"
    using q(1,3) qw d(2,5-8,10,11) by (simp add: new sum_view_def same_rest_def hands_ok_def)
qed

text \<open>\<open>when_all\<close> registers on the parts one after the other; a part that is already there is told at once.\<close>

definition told :: "part_state \<Rightarrow> part_state" where
  "told st = (if st = Summed then Told else st)"

definition half_registered :: "(nat \<Rightarrow> int) \<Rightarrow> nat \<Rightarrow> part_state list \<Rightarrow> (sum_fn, int) cell list" where
  "half_registered s l sts = map (\<lambda>i. part_cell s (length sts) (i < l) i (sts ! i)) [0..<length sts]"

lemma half_registered_0: "set sts \<subseteq> {Created, Summed} \<Longrightarrow> half_registered s 0 sts = part_cells s k False sts"
  by (auto simp: half_registered_def part_cells_def part_cell_def)

lemma half_registered_all:
  "half_registered s (length sts) sts = part_cells s (length (map told sts)) True (map told sts)"
  by (auto simp: half_registered_def part_cells_def part_cell_def told_def)

lemma half_registered_step:
  assumes "l < length sts"
  shows "half_registered s (Suc l) sts = (half_registered s l sts)[l := part_cell s (length sts) True l (sts ! l)]"
  using assms by (intro nth_equalityI) (auto simp: half_registered_def nth_list_update less_Suc_eq)

fun told_jobs :: "(nat \<Rightarrow> int) \<Rightarrow> nat \<Rightarrow> nat \<Rightarrow> part_state \<Rightarrow> (sum_fn, int) job fn multiset" where
  "told_jobs s k i Summed = {#Some (RunCallback (OnWhenAll 0 i k) (Value (Plain (s i))))#}"
| "told_jobs s k i _ = {#}"

lemma register_part:
  assumes "cells w = half_registered s l sts @ rest" "l < length sts" "pool_inv (pool w)" "set sts \<subseteq> {Created, Summed}"
  shows "\<exists>w'. cell_await l (OnWhenAll 0 l (length sts)) w = Some w' \<and> cells w' = half_registered s (Suc l) sts @ rest
    \<and> same_rest w w' \<and> pool_inv (pool w') \<and> jobs_left w' = jobs_left w + told_jobs s (length sts) l (sts ! l)
    \<and> length (workers (pool w')) = length (workers (pool w))"
proof -
  let ?k = "length sts" and ?cb = "OnWhenAll 0 l (length sts)"
  have hl: "length (half_registered s l sts) = ?k" by (simp add: half_registered_def)
  have c: "cells w ! l = part_cell s ?k False l (sts ! l)" using assms(1,2) hl by (simp add: nth_append half_registered_def)
  have upd: "half_registered s (Suc l) sts @ rest = (cells w)[l := part_cell s ?k True l (sts ! l)]"
    using assms(1,2) hl by (simp add: half_registered_step list_update_append)
  have "sts ! l \<in> {Created, Summed}" using assms(2,4) nth_mem by blast
  then consider "sts ! l = Created" | "sts ! l = Summed" by auto
  then show ?thesis
  proof cases
    case 1
    have "cell_await l ?cb w = Some (set_cell l (part_cell s ?k True l Created) w)"
      by (subst cell_await.simps) (simp add: c 1 part_cell_def write_once_await_def)
    then show ?thesis using assms(3) 1 by (simp add: upd)
  next
    case 2
    have a: "cell_await l ?cb w = Some (queue_job ctx_empty (RunCallback ?cb (Value (Plain (s l)))) w)"
      by (subst cell_await.simps) (simp add: c 2 part_cell_def write_once_await_def)
    have "(cells w)[l := part_cell s ?k True l Summed] = cells w"
      using c 2 by (intro list_update_same_conv[THEN iffD2]) (simp_all add: part_cell_def assms(1,2) hl less_Suc_eq trans_less_add1)
    then show ?thesis
      using a queue_job_pool[OF assms(3) ctx_empty_ok] 2 by (simp add: upd)
  qed
qed

lemma register_parts:
  assumes "cells w = half_registered s l sts @ rest" "l \<le> length sts" "pool_inv (pool w)" "set sts \<subseteq> {Created, Summed}"
  shows "\<exists>w'. await_each (map (\<lambda>i. (i, OnWhenAll 0 i (length sts))) [l..<length sts]) w = Some w'
    \<and> cells w' = half_registered s (length sts) sts @ rest \<and> same_rest w w' \<and> pool_inv (pool w')
    \<and> jobs_left w' = jobs_left w + (\<Sum>i\<in>{l..<length sts}. told_jobs s (length sts) i (sts ! i))
    \<and> length (workers (pool w')) = length (workers (pool w))"
  using assms
proof (induction "length sts - l" arbitrary: l w)
  case 0
  then show ?case by simp
next
  case (Suc d)
  then have l: "l < length sts" by simp
  from register_part[OF Suc.prems(1) l Suc.prems(3,4)] obtain w1 where
    w1: "cell_await l (OnWhenAll 0 l (length sts)) w = Some w1" "cells w1 = half_registered s (Suc l) sts @ rest"
      "same_rest w w1" "pool_inv (pool w1)"
      "jobs_left w1 = jobs_left w + told_jobs s (length sts) l (sts ! l)"
      "length (workers (pool w1)) = length (workers (pool w))" by blast
  have "d = length sts - Suc l" "Suc l \<le> length sts" using Suc(2) l by auto
  from Suc(1)[OF this(1) w1(2) this(2) w1(4) Suc.prems(4)] obtain w2 where
    w2: "await_each (map (\<lambda>i. (i, OnWhenAll 0 i (length sts))) [Suc l..<length sts]) w1 = Some w2"
      "cells w2 = half_registered s (length sts) sts @ rest" "same_rest w1 w2" "pool_inv (pool w2)"
      "jobs_left w2 = jobs_left w1 + (\<Sum>i\<in>{Suc l..<length sts}. told_jobs s (length sts) i (sts ! i))"
      "length (workers (pool w2)) = length (workers (pool w1))" by blast
  have "{l..<length sts} = insert l {Suc l..<length sts}" using l by auto
  then show ?case using w1 w2 l same_rest_trans[OF w1(3) w2(3)] by (simp add: upt_conv_Cons)
qed

lemma combine_view:
  assumes v: "sum_view s f tot Building sts w"
  shows "\<exists>w'. factory_when_all (map (\<lambda>i. \<lparr>task_cell = i\<rparr>) [0..<length sts]) w = Some (\<lparr>task_cell = Suc (length sts)\<rparr>, w')
    \<and> sum_view s f tot AllMade (map told sts) w'"
proof -
  note d = sum_viewD[OF v]
  let ?k = "length sts"
  have st: "set sts \<subseteq> {Created, Summed}" using d(8) by simp
  define w1 where "w1 = (snd (new_cell (WriteOnce \<lparr>wo_value = None, wo_callbacks = []\<rparr>) w))
    \<lparr>all_contexts := [\<lparr>resolved_values = replicate ?k DefaultInit, num_resolved_cells = 0, all_total_cells = ?k\<rparr>]\<rparr>"
  let ?u = "WriteOnce \<lparr>wo_value = None, wo_callbacks = []\<rparr> :: (sum_fn, int) cell"
  have cw: "cells w = half_registered s 0 sts" using d(1) half_registered_0[OF st, of s ?k] by simp
  then have c1: "cells w1 = half_registered s 0 sts @ [?u]" by (simp add: w1_def)
  have len: "length (cells w) = ?k" by (simp add: d(1))
  have ctx: "all_contexts w = []" using d(2) by simp
  have "pool_inv (pool w1)" using d(3) by (simp add: w1_def)
  from register_parts[OF c1 _ this st] obtain w2 where
    w2: "await_each (map (\<lambda>i. (i, OnWhenAll 0 i ?k)) [0..<?k]) w1 = Some w2"
      "cells w2 = half_registered s ?k sts @ [?u]" "same_rest w1 w2" "pool_inv (pool w2)"
      "jobs_left w2 = jobs_left w1 + (\<Sum>i\<in>{0..<?k}. told_jobs s ?k i (sts ! i))"
      "length (workers (pool w2)) = length (workers (pool w1))" by auto
  let ?w3 = "snd (new_cell (WhenAll ?k [0..<?k]) w2)"
  have ids: "map (\<lambda>i. ([0..<?k] ! i, OnWhenAll 0 i ?k)) [0..<?k] = map (\<lambda>i. (i, OnWhenAll 0 i ?k)) [0..<?k]" by simp
  have "all_contexts (snd (new_cell ?u w)) = []" by (simp add: new_cell_def ctx)
  then have "when_all_new [0..<?k] w = map_option (new_cell (WhenAll ?k [0..<?k]))
      (await_each (map (\<lambda>i. ([0..<?k] ! i, OnWhenAll 0 i ?k)) [0..<?k]) w1)"
    by (simp add: when_all_new_def write_once_new_def Let_def split_def w1_def len)
  then have "when_all_new [0..<?k] w = Some (new_cell (WhenAll ?k [0..<?k]) w2)"
    unfolding ids by (simp add: w2(1))
  moreover have "length (cells w2) = Suc ?k" using w2(2) by (simp add: half_registered_def)
  ultimately have r: "factory_when_all (map (\<lambda>i. \<lparr>task_cell = i\<rparr>) [0..<?k]) w = Some (\<lparr>task_cell = Suc ?k\<rparr>, ?w3)"
    by (simp add: factory_when_all_def task_when_all_def task_list_to_cell_list_eq comp_def new_cell_def)
  have none: "x = Created \<or> x = Summed" if "x \<in> set sts" for x using that st by auto
  have "told x \<noteq> Counted" if "x \<in> set sts" for x using none[OF that] by (auto simp: told_def)
  note told = this
  then have out: "\<not> all_in (map told sts)" by (cases sts) (simp_all add: all_in_def)
  have "part_jobs s f ?k i (map told sts ! i) = part_jobs s f ?k i (sts ! i) + told_jobs s ?k i (sts ! i)" if "i < ?k" for i
    using none[of "sts ! i"] that by (auto simp: told_def)
  then have jobs: "jobs_left w2 = sum_jobs s f AllMade (map told sts)"
    using w2(5) d(4) by (simp add: sum_jobs_def w1_def sum.distrib atLeast0LessThan)
  have "length (workers (pool w2)) \<noteq> 0" using w2(6) d(9) by (simp add: w1_def)
  then have rest: "all_contexts w2 = all_contexts w1" "timers w2 = timers w" "io_source w2 = io_source w"
    "workers (pool w2) \<noteq> []" "polled w2 = []" "hands_ok w2"
    using w2(3,6) d(10,11)
    by (simp_all add: same_rest_def w1_def new_cell_def hands_ok_def del: length_greater_0_conv) auto
  have "filter (\<lambda>st. st = Counted) (map told sts) = []" using told by (simp add: filter_empty_conv)
  moreover have "map (\<lambda>i. if map told sts ! i = Counted then Plain (s i) else DefaultInit) [0..<?k] = replicate ?k DefaultInit"
    using told by (intro replicate_eqI) auto
  ultimately have "all_contexts w1 = [sum_context s (map told sts)]"
    by (simp add: w1_def sum_context_def del: filter_map)
  moreover have "vector_cell s ?k False False = ?u" by (simp add: vector_cell_def)
  moreover have "phase_ok AllMade (map told sts)" using none by (auto simp: told_def)
  ultimately have "sum_view s f tot AllMade (map told sts) ?w3"
    using out w2(2,4) jobs rest d(5-7) by (simp add: sum_view_def half_registered_all new_cell_def hands_ok_def)
  with r show ?thesis by blast
qed

lemma map_view:
  assumes v: "sum_view s f tot AllMade sts w"
  shows "\<exists>w'. task_map SumVec \<lparr>task_cell = Suc (length sts)\<rparr> w = Some (\<lparr>task_cell = length sts + 2\<rparr>, w')
    \<and> sum_view s f tot (MapMade False) sts w'"
proof -
  note d = sum_viewD[OF v]
  let ?k = "length sts" and ?u = "WriteOnce \<lparr>wo_value = None, wo_callbacks = []\<rparr> :: (sum_fn, int) cell"
  let ?cb = "OnMap (?k + 2) SumVec"
  define w1 where "w1 = snd (new_cell ?u w)"
  have len: "length (cells w) = ?k + 2" by (simp add: d(1))
  have c: "cells w1 ! Suc ?k = WhenAll ?k [0..<?k]" "cells w1 ! ?k = vector_cell s ?k False (all_in sts)"
    by (simp_all add: w1_def d(1) nth_append)
  have t: "task_map SumVec \<lparr>task_cell = Suc ?k\<rparr> w = map_option (Pair \<lparr>task_cell = ?k + 2\<rparr>) (cell_await ?k ?cb w1)"
    using c(1) len by (simp add: task_map_def write_once_new_def split_def Let_def w1_def cell_await.simps[of "Suc ?k"])
  have p1: "pool_inv (pool w1)" using d(3) by (simp add: w1_def)
  have rest: "same_rest w w1" "pool w1 = pool w" "jobs_left w1 = jobs_left w" "cells w1 = cells w @ [?u]" by (simp_all add: w1_def)
  show ?thesis
  proof (cases "all_in sts")
    case True
    let ?w2 = "queue_job ctx_empty (RunCallback ?cb (Value (parts_vector s ?k))) w1"
    have "cell_await ?k ?cb w1 = Some ?w2"
      by (subst cell_await.simps) (simp add: c(2) True vector_cell_def write_once_await_def)
    moreover have "sum_view s f tot (MapMade False) sts ?w2"
      using d queue_job_pool[OF p1 ctx_empty_ok] rest same_rest_trans[OF rest(1) queue_job_frame(2)] True
      by (simp add: sum_view_def sum_jobs_def same_rest_def vector_cell_def hands_ok_def flip: length_greater_0_conv)
    ultimately show ?thesis using t by simp
  next
    case False
    let ?w2 = "set_cell ?k (vector_cell s ?k True False) w1"
    have "cell_await ?k ?cb w1 = Some ?w2"
      by (subst cell_await.simps) (simp add: c(2) False vector_cell_def write_once_await_def)
    moreover have "sum_view s f tot (MapMade False) sts ?w2"
      using d rest same_rest_trans[OF rest(1) set_cell_frame(3)] p1 False
      by (simp add: sum_view_def sum_jobs_def same_rest_def list_update_append hands_ok_def)
    ultimately show ?thesis using t by simp
  qed
qed

subsection \<open>The workers' turns\<close>

lemma part_cells_update:
  assumes "i < length sts"
  shows "part_cells s k reg (sts[i := x]) = (part_cells s k reg sts)[i := part_cell s k reg i x]"
  using assms by (intro nth_equalityI) (auto simp: part_cells_def nth_list_update)

lemma part_jobs_update:
  assumes "i < length sts"
  shows "(\<Sum>j<length sts. part_jobs s f (length sts) j (sts[i := x] ! j)) + part_jobs s f (length sts) i (sts ! i)
      = (\<Sum>j<length sts. part_jobs s f (length sts) j (sts ! j)) + part_jobs s f (length sts) i x"
  by (rule sum_index_update[OF assms])

lemma not_all_in:
  assumes "i < length sts" "sts ! i \<noteq> Counted"
  shows "\<not> all_in sts" "x \<noteq> Counted \<Longrightarrow> \<not> all_in (sts[i := x])"
  using assms by (auto simp: all_in_def dest: nth_mem) (metis assms(1) set_update_memI)

lemma phase_ok_update:
  assumes "phase_ok ph sts" "i < length sts" "sts ! i \<noteq> Counted" "x \<in> (if ph = Building then {Summed} else {Told, Counted})"
  shows "phase_ok ph (sts[i := x])"
proof -
  have "\<not> all_in sts" by (rule not_all_in(1)[OF assms(2,3)])
  then show ?thesis using assms(1,4) set_update_subset_insert[of sts i x] by (cases ph) auto
qed

lemma run_part:
  assumes v: "sum_view s f tot ph sts w" and i: "i < length sts" "sts ! i = Created"
    and p: "jobs_left w = add_mset (Some (RunTask i (f i))) (jobs_left (w\<lparr>at_hand := hs\<rparr>))"
      "set hs \<subseteq> set (at_hand w)" and ctx: "ctx_ok (pool w) ctx"
    and call: "\<And>u. call_fn env (f i) u = Some (Plain (s i), u)"
  shows "\<exists>w'. run_job env ctx (RunTask i (f i)) (w\<lparr>at_hand := hs\<rparr>) = Some w'
    \<and> sum_view s f tot ph (sts[i := if ph = Building then Summed else Told]) w'"
proof -
  note d = sum_viewD[OF v]
  have hs: "fst ` set hs \<subseteq> {..<length (workers (pool w))}" using d(11) p(2) by (auto simp: hands_ok_def)
  let ?k = "length sts" and ?w = "w\<lparr>at_hand := hs\<rparr>"
  define x where "x = (if ph = Building then Summed else Told)"
  have x: "x \<noteq> Created" "x \<noteq> Counted" "x \<in> (if ph = Building then {Summed} else {Told, Counted})" by (simp_all add: x_def)
  let ?c = "\<lparr>wo_value = None, wo_callbacks = (if ph = Building then [] else [OnWhenAll 0 i ?k])\<rparr>"
  let ?w' = "snd (write_result_to_value ctx (Value (Plain (s i))) i ?w)"
  have c: "i < length (cells ?w)" "cells ?w ! i = WriteOnce ?c"
    using i by (simp_all add: d(1) nth_append part_cell_def)
  note wr = write_empty[of ?w ctx i ?c "Value (Plain (s i))", OF _ _ c]
  have full: "part_cell s ?k (ph \<noteq> Building) i x = WriteOnce \<lparr>wo_value = Some (Value (Plain (s i))), wo_callbacks = []\<rparr>"
    using x(1) by (simp add: part_cell_def)
  have out: "\<not> all_in sts" "\<not> all_in (sts[i := x])" using not_all_in(1)[OF i(1)] not_all_in(2)[OF i(1), of x] i(2) x(2) by simp_all
  have "more_cells s tot ph (sts[i := x]) = more_cells s tot ph sts" using out by (cases ph) simp_all
  then have cells: "cells ?w' = part_cells s ?k (ph \<noteq> Building) (sts[i := x]) @ more_cells s tot ph (sts[i := x])"
    using wr(2) d(3) ctx i(1) by (simp add: d(1) full part_cells_update list_update_append)
  have "jobs_left ?w' + {#Some (RunTask i (f i))#} = jobs_left w + part_jobs s f ?k i x"
    using wr(5) p(1) d(3) ctx by (simp add: x_def)
  also have "\<dots> = sum_jobs s f ph (sts[i := x]) + {#Some (RunTask i (f i))#}"
    using part_jobs_update[OF i(1), of s f x] i(2) out by (simp add: d(4) sum_jobs_def)
  finally have jobs: "jobs_left ?w' = sum_jobs s f ph (sts[i := x])" by simp
  have "sum_context s (sts[i := x]) = sum_context s sts"
    using i count_update[OF i(1), of "\<lambda>st. st = Counted" x] x(2) by (auto simp: sum_context_def nth_list_update)
  moreover have "same_rest ?w ?w'" using wr(3) d(3) ctx by simp
  moreover have "phase_ok ph (sts[i := x])" using phase_ok_update[OF d(8) i(1) _ x(3)] i(2) by simp
  ultimately have "sum_view s f tot ph (sts[i := x]) ?w'"
    using cells jobs wr(4,6) ctx d(2,3,5-7,9,10) hs by (simp add: sum_view_def same_rest_def hands_ok_def flip: length_greater_0_conv)
  moreover have "run_job env ctx (RunTask i (f i)) ?w = Some ?w'" by (simp add: run_job_defs call write_defs)
  ultimately show ?thesis unfolding x_def by blast
qed

lemma all_in_count: "sts \<noteq> [] \<Longrightarrow> all_in sts \<longleftrightarrow> length sts \<le> length (filter (\<lambda>st. st = Counted) sts)"
  using count_all[of "\<lambda>st. st = Counted" sts] length_filter_le[of "\<lambda>st. st = Counted" sts]
  unfolding all_in_def by linarith

lemma sum_context_update:
  assumes "i < length sts" "sts ! i \<noteq> Counted" "length sts < size_max1"
  shows "(sum_context s sts)\<lparr>resolved_values := (resolved_values (sum_context s sts))[i := Plain (s i)],
      num_resolved_cells := sz_add (num_resolved_cells (sum_context s sts)) 1\<rparr> = sum_context s (sts[i := Counted])"
    and "all_total_cells (sum_context s sts) \<le> sz_add (num_resolved_cells (sum_context s sts)) 1 \<longleftrightarrow> all_in (sts[i := Counted])"
proof -
  let ?P = "\<lambda>st. st = Counted"
  have n: "length (filter ?P (sts[i := Counted])) = Suc (length (filter ?P sts))"
    using count_update[OF assms(1), of ?P Counted] assms(2) by simp
  then have "Suc (length (filter ?P sts)) \<le> length sts"
    using length_filter_le[of ?P "sts[i := Counted]"] by simp
  then have sz: "sz_add (length (filter ?P sts)) 1 = Suc (length (filter ?P sts))" using assms(3) by simp
  have "(map (\<lambda>j. if sts ! j = Counted then Plain (s j) else DefaultInit) [0..<length sts])[i := Plain (s i)]
      = map (\<lambda>j. if sts[i := Counted] ! j = Counted then Plain (s j) else DefaultInit) [0..<length sts]"
    using assms(1) by (intro nth_equalityI) (auto simp: nth_list_update)
  then show "(sum_context s sts)\<lparr>resolved_values := (resolved_values (sum_context s sts))[i := Plain (s i)],
      num_resolved_cells := sz_add (num_resolved_cells (sum_context s sts)) 1\<rparr> = sum_context s (sts[i := Counted])"
    using n sz by (simp add: sum_context_def)
  have "sts[i := Counted] \<noteq> []" using assms(1) by auto
  from all_in_count[OF this] n sz
  show "all_total_cells (sum_context s sts) \<le> sz_add (num_resolved_cells (sum_context s sts)) 1 \<longleftrightarrow> all_in (sts[i := Counted])"
    by (simp add: sum_context_def)
qed

lemma all_in_vector: "all_in sts \<Longrightarrow> Vector (resolved_values (sum_context s sts)) = parts_vector s (length sts)"
  by (auto simp: all_in_def sum_context_def parts_vector_def)

text \<open>A part that is told puts its sum into the vector; the last one fills the vector's cell.\<close>

lemma run_told:
  assumes v: "sum_view s f tot ph sts w" and i: "i < length sts" "sts ! i = Told" and k: "length sts < size_max1"
    and p: "jobs_left w = add_mset (Some (RunCallback (OnWhenAll 0 i (length sts)) (Value (Plain (s i))))) (jobs_left (w\<lparr>at_hand := hs\<rparr>))"
      "set hs \<subseteq> set (at_hand w)" and ctx: "ctx_ok (pool w) ctx"
  shows "\<exists>w'. run_job env ctx (RunCallback (OnWhenAll 0 i (length sts)) (Value (Plain (s i)))) (w\<lparr>at_hand := hs\<rparr>) = Some w'
    \<and> sum_view s f tot ph (sts[i := Counted]) w'"
proof -
  note d = sum_viewD[OF v]
  have hs: "fst ` set hs \<subseteq> {..<length (workers (pool w))}" using d(11) p(2) by (auto simp: hands_ok_def)
  let ?k = "length sts" and ?j = "Some (RunCallback (OnWhenAll 0 i (length sts)) (Value (Plain (s i))))"
  define sts' where "sts' = sts[i := Counted]"
  define w1 where "w1 = w\<lparr>at_hand := hs, all_contexts := [sum_context s sts']\<rparr>"
  have b: "ph \<noteq> Building" and out: "\<not> all_in sts" and m: "ph \<noteq> MapMade True"
    using d(8) i nth_mem[OF i(1)] by (cases ph; force simp: all_in_def)+
  have l: "length sts' = ?k" by (simp add: sts'_def)
  have ctxw: "all_contexts (w\<lparr>at_hand := hs\<rparr>) ! 0 = sum_context s sts" using d(2) b by simp
  have up: "(sum_context s sts)\<lparr>resolved_values := (resolved_values (sum_context s sts))[i := Plain (s i)],
      num_resolved_cells := sz_add (num_resolved_cells (sum_context s sts)) 1\<rparr> = sum_context s sts'"
    "all_total_cells (sum_context s sts) \<le> sz_add (num_resolved_cells (sum_context s sts)) 1 \<longleftrightarrow> all_in sts'"
    using sum_context_update[OF i(1) _ k] i(2) by (simp_all add: sts'_def)
  have commit: "commit_resolved_value 0 i (Plain (s i)) (w\<lparr>at_hand := hs\<rparr>) = (all_in sts', w1)"
    using d(2) b up by (simp add: commit_resolved_value_def Let_def ctxw w1_def)
  have parts: "part_cells s ?k True sts' = part_cells s ?k True sts"
    using i by (auto simp: part_cells_def part_cell_def sts'_def nth_list_update)
  have moved: "(\<Sum>j<?k. part_jobs s f ?k j (sts' ! j)) + {#?j#} = (\<Sum>j<?k. part_jobs s f ?k j (sts ! j))"
    using part_jobs_update[OF i(1), of s f Counted] i(2) by (simp add: sts'_def)
  then have jobs: "jobs_left (w\<lparr>at_hand := hs\<rparr>) = (\<Sum>j<?k. part_jobs s f ?k j (sts' ! j))"
    using p(1) d(4) out by (simp add: sum_jobs_def)
  have ok: "phase_ok ph sts'" using phase_ok_update[OF d(8) i(1)] i(2) b by (simp add: sts'_def)
  have u: "?k < length (cells w1)" "cells w1 ! ?k = vector_cell s ?k (ph = MapMade False) False"
    using b m out by (cases ph; simp add: w1_def d(1) nth_append)+
  show ?thesis
  proof (cases "all_in sts'")
    case False
    then have "run_job env ctx (RunCallback (OnWhenAll 0 i ?k) (Value (Plain (s i)))) (w\<lparr>at_hand := hs\<rparr>) = Some w1"
      by (simp add: run_job_defs run_callback_defs commit)
    moreover have "more_cells s tot ph sts' = more_cells s tot ph sts" using False out l by (cases ph) simp_all
    then have "sum_view s f tot ph sts' w1"
      using d b jobs hs ok False l parts by (simp add: sum_view_def w1_def sum_jobs_def hands_ok_def flip: length_greater_0_conv)
    ultimately show ?thesis unfolding sts'_def by blast
  next
    case True
    let ?w' = "snd (write_result_to_value ctx (Value (parts_vector s ?k)) ?k w1)"
    let ?c = "\<lparr>wo_value = None, wo_callbacks = (if ph = MapMade False then [OnMap (?k + 2) SumVec] else [])\<rparr>"
    have "cells w1 ! ?k = WriteOnce ?c" using u(2) by (simp add: vector_cell_def)
    note wr = write_empty[of w1 ctx ?k ?c "Value (parts_vector s ?k)", OF _ _ u(1) this]
    have w1: "pool w1 = pool w" "at_hand w1 = hs" "polled w1 = []" "jobs_left w1 = jobs_left (w\<lparr>at_hand := hs\<rparr>)"
      using d(10) by (simp_all add: w1_def)
    have "Vector (resolved_values (sum_context s sts')) = parts_vector s ?k" using all_in_vector[OF True, of s] l by simp
    then have r: "run_job env ctx (RunCallback (OnWhenAll 0 i ?k) (Value (Plain (s i)))) (w\<lparr>at_hand := hs\<rparr>) = Some ?w'"
      using True by (simp add: run_job_defs run_callback_defs commit write_defs w1_def)
    have "cells ?w' = part_cells s ?k True sts' @ more_cells s tot ph sts'"
      using wr(2) d(3) ctx w1 b m True l parts by (cases ph) (simp_all add: w1_def d(1) vector_cell_def list_update_append)
    moreover have "jobs_left ?w' = sum_jobs s f ph sts'"
      using wr(5) d(3) ctx w1 jobs True l by (simp add: sum_jobs_def)
    moreover have "same_rest w1 ?w'" using wr(3) d(3) ctx w1 by simp
    ultimately have "sum_view s f tot ph sts' ?w'"
      using wr(4,6) hs ctx w1 b d(3,5-7,9) ok l
      by (simp add: sum_view_def same_rest_def hands_ok_def flip: length_greater_0_conv) (simp add: w1_def)
    with r show ?thesis unfolding sts'_def by blast
  qed
qed

lemma run_sum_vec:
  assumes v: "sum_view s f tot (MapMade False) sts w" and all: "all_in sts"
    and p: "jobs_left w = add_mset (Some (RunCallback (OnMap (length sts + 2) SumVec) (Value (parts_vector s (length sts))))) (jobs_left (w\<lparr>at_hand := hs\<rparr>))"
      "set hs \<subseteq> set (at_hand w)" and ctx: "ctx_ok (pool w) ctx"
    and call: "\<And>u. map_fn env SumVec (parts_vector s (length sts)) u = Some (Plain tot, u)"
  shows "\<exists>w'. run_job env ctx (RunCallback (OnMap (length sts + 2) SumVec) (Value (parts_vector s (length sts)))) (w\<lparr>at_hand := hs\<rparr>) = Some w'
    \<and> sum_view s f tot (MapMade True) sts w'"
proof -
  note d = sum_viewD[OF v]
  have hs: "fst ` set hs \<subseteq> {..<length (workers (pool w))}" using d(11) p(2) by (auto simp: hands_ok_def)
  let ?k = "length sts" and ?w = "w\<lparr>at_hand := hs\<rparr>" and ?c = "\<lparr>wo_value = None, wo_callbacks = []\<rparr>"
  let ?w' = "snd (write_result_to_value ctx (Value (Plain tot)) (?k + 2) ?w)"
  have c: "?k + 2 < length (cells ?w)" "cells ?w ! (?k + 2) = WriteOnce ?c" by (simp_all add: d(1) nth_append)
  note wr = write_empty[of ?w ctx "?k + 2" ?c "Value (Plain tot)", OF _ _ c]
  have "cells ?w' = part_cells s ?k True sts @ more_cells s tot (MapMade True) sts"
    using wr(2) d(3) ctx by (simp add: d(1) list_update_append)
  moreover have "jobs_left ?w' = sum_jobs s f (MapMade True) sts"
    using wr(5) p(1) d(3,4) ctx all by (simp add: sum_jobs_def)
  moreover have "same_rest ?w ?w'" using wr(3) d(3) ctx by simp
  ultimately have "sum_view s f tot (MapMade True) sts ?w'"
    using wr(4,6) hs ctx d(2,3,5-10) all by (simp add: sum_view_def same_rest_def hands_ok_def flip: length_greater_0_conv)
  moreover have "run_job env ctx (RunCallback (OnMap (?k + 2) SumVec) (Value (parts_vector s ?k))) ?w = Some ?w'"
    by (simp add: run_job_defs run_callback_defs call write_defs)
  ultimately show ?thesis by blast
qed

lemma sum_jobs_cases:
  assumes "j \<in># sum_jobs s f ph sts" "phase_ok ph sts"
  obtains (part) i where "i < length sts" "sts ! i = Created" "j = Some (RunTask i (f i))"
    | (told) i where "i < length sts" "sts ! i = Told" "j = Some (RunCallback (OnWhenAll 0 i (length sts)) (Value (Plain (s i))))"
    | (vec) "ph = MapMade False" "all_in sts"
        "j = Some (RunCallback (OnMap (length sts + 2) SumVec) (Value (parts_vector s (length sts))))"
proof -
  consider i where "i < length sts" "j \<in># part_jobs s f (length sts) i (sts ! i)"
    | "ph = MapMade False" "all_in sts"
        "j = Some (RunCallback (OnMap (length sts + 2) SumVec) (Value (parts_vector s (length sts))))"
    using assms(1) by (auto simp: sum_jobs_def mem_sum_mset split: if_splits)
  then show ?thesis
  proof cases
    case (1 i)
    then show ?thesis using part[of i] told[of i] by (cases "sts ! i") auto
  qed (rule vec)
qed

text \<open>The work that is left: two steps for a part, one when it is summed, and those of the client and the map.\<close>

fun part_work :: "part_state \<Rightarrow> nat" where
  "part_work Created = 2"
| "part_work Summed = 1"
| "part_work Told = 1"
| "part_work Counted = 0"

fun phase_work :: "sum_phase \<Rightarrow> nat" where
  "phase_work Building = 3"
| "phase_work AllMade = 2"
| "phase_work (MapMade b) = (if b then 0 else 1)"

definition sum_work :: "sum_phase \<Rightarrow> part_state list \<Rightarrow> nat" where
  "sum_work ph sts = phase_work ph + sum_list (map part_work sts)"

lemma sum_work_update:
  assumes "i < length sts" "part_work x < part_work (sts ! i)"
  shows "sum_work ph (sts[i := x]) < sum_work ph sts"
proof -
  have "sum_list (map part_work (sts[i := x])) + part_work (sts ! i) = sum_list (map part_work sts) + part_work x"
    using assms(1)
  proof (induction sts arbitrary: i)
    case (Cons y ys)
    then show ?case using Cons.IH[of "i - 1"] by (cases i) auto
  qed simp
  then show ?thesis using assms(2) by (simp add: sum_work_def)
qed

text \<open>A turn takes a job, or runs the one in hand; only the latter gets the sum anywhere.\<close>

lemma hands_over_view:
  assumes v: "sum_view s f tot ph sts w" and h: "hands_over w w'" "polled w' = []"
  shows "sum_view s f tot ph sts w'"
proof -
  note d = sum_viewD[OF v]
  have "world_le w w'" using h(1) by (simp add: hands_over_def world_le_def)
  then have "hands_ok w'" using d(11) by (rule hands_ok_mono)
  then show ?thesis using d h by (simp add: sum_view_def hands_over_def flip: length_greater_0_conv)
qed

lemma run_view:
  assumes v: "sum_view s f tot ph sts w" and k: "length sts < size_max1" and ctx: "ctx_ok (pool w) ctx"
    and left: "jobs_left w = add_mset g (jobs_left (w\<lparr>at_hand := hs\<rparr>))" and hs: "set hs \<subseteq> set (at_hand w)"
    and part: "\<And>j u. j < length sts \<Longrightarrow> call_fn env (f j) u = Some (Plain (s j), u)"
    and vec: "\<And>u. ph \<noteq> Building \<Longrightarrow> map_fn env SumVec (parts_vector s (length sts)) u = Some (Plain tot, u)"
  shows "\<exists>j w' ph' sts'. g = Some j \<and> run_job env ctx j (w\<lparr>at_hand := hs\<rparr>) = Some w' \<and> sum_view s f tot ph' sts' w'
    \<and> length sts' = length sts \<and> (ph' = ph \<or> ph = MapMade False \<and> ph' = MapMade True) \<and> sum_work ph' sts' < sum_work ph sts"
proof -
  note d = sum_viewD[OF v]
  have "g \<in># sum_jobs s f ph sts" using left d(4) by (metis union_single_eq_member)
  from this d(8) show ?thesis
  proof (cases rule: sum_jobs_cases)
    case (part l)
    let ?x = "if ph = Building then Summed else Told"
    have "sum_work ph (sts[l := ?x]) < sum_work ph sts"
      using part(2) by (intro sum_work_update[OF part(1)]) simp
    then show ?thesis using run_part[OF v part(1,2) left[unfolded part(3)] hs ctx assms(6)[OF part(1)]] part(3)
      by (metis length_list_update)
  next
    case (told l)
    have "sum_work ph (sts[l := Counted]) < sum_work ph sts"
      using told(2) by (intro sum_work_update[OF told(1)]) simp
    then show ?thesis using run_told[OF v told(1,2) k left[unfolded told(3)] hs ctx, of env] told(3)
      by (metis length_list_update)
  next
    case vec
    have call: "map_fn env SumVec (parts_vector s (length sts)) u = Some (Plain tot, u)" for u using assms(7) vec(1) by simp
    have "sum_work (MapMade True) sts < sum_work ph sts" by (simp add: sum_work_def vec(1))
    then show ?thesis using run_sum_vec[OF v[unfolded vec(1)] vec(2) left[unfolded vec(3)] hs ctx call] vec(1,3) by blast
  qed
qed

lemma turn_view:
  assumes v: "sum_view s f tot ph sts w" and k: "length sts < size_max1" and i: "i < length (workers (pool w))"
    and part: "\<And>j u. j < length sts \<Longrightarrow> call_fn env (f j) u = Some (Plain (s j), u)"
    and vec: "\<And>u. ph \<noteq> Building \<Longrightarrow> map_fn env SumVec (parts_vector s (length sts)) u = Some (Plain tot, u)"
  shows "\<exists>w' ph' sts'. worker_turn env i rnd w = Some w' \<and> sum_view s f tot ph' sts' w'
    \<and> length sts' = length sts \<and> (ph' = ph \<or> ph = MapMade False \<and> ph' = MapMade True)
    \<and> (if map_of (at_hand w) i = None then ph' = ph \<and> sts' = sts else sum_work ph' sts' < sum_work ph sts)"
proof (cases "map_of (at_hand w) i")
  case None
  note d = sum_viewD[OF v]
  have "polled (fetch_job i rnd w) = []" using d(10) by (simp add: fetch_job_def split_def split: option.splits)
  from hands_over_view[OF v fetch_job_hands_over[OF d(3) i] this] None show ?thesis
    by (intro exI[of _ "fetch_job i rnd w"] exI[of _ ph] exI[of _ sts]) (simp add: worker_turn_def)
next
  case (Some g)
  note d = sum_viewD[OF v]
  let ?hs = "remove1 (i, g) (at_hand w)"
  have ctx: "ctx_ok (pool w) (worker_context (workers (pool w) ! i))"
    using d(3) i by (simp add: pool_inv_def ctx_ok_def ctx_worker_def)
  from run_view[OF v k ctx jobs_left_remove[OF Some] set_remove1_subset part vec] obtain j w' ph' sts' where
    "g = Some j" "run_job env (worker_context (workers (pool w) ! i)) j (w\<lparr>at_hand := ?hs\<rparr>) = Some w'"
    "sum_view s f tot ph' sts' w'" "length sts' = length sts" "ph' = ph \<or> ph = MapMade False \<and> ph' = MapMade True"
    "sum_work ph' sts' < sum_work ph sts" by blast
  then show ?thesis using Some
    by (intro exI[of _ w'] exI[of _ ph'] exI[of _ sts']) (simp add: worker_turn_def run_at_hand_def)
qed

lemma poll_view:
  assumes v: "sum_view s f tot ph sts w" and t: "clock_range now"
  shows "sum_view s f tot ph sts (poll_source env now src w)"
proof -
  note d = sum_viewD[OF v]
  show ?thesis
  proof (cases src)
    case TimingSource
    note poll = tps_poll_correct[OF d(5) t]
    have none: "fst (tps_poll now (timers w)) = []" using poll(2) d(6) by simp
    then have "poll_source env now src w = w\<lparr>timers := snd (tps_poll now (timers w)), polled := []\<rparr>"
      using d(10) TimingSource by (simp add: poll_source_def poll_jobs_def split_def Let_def)
    moreover have "jobs_left (w\<lparr>timers := snd (tps_poll now (timers w)), polled := []\<rparr>) = jobs_left w"
      using d(10) by (simp add: jobs_left_def held_def)
    ultimately show ?thesis using d poll(1,3) by (simp add: sum_view_def hands_ok_def)
  next
    case IoSource
    then have "poll_source env now src w = w"
      using d(7,10) by (simp add: poll_source_def poll_jobs_def io_poll_eq split_def Let_def)
    then show ?thesis using v by simp
  qed
qed

end
