(* ===== verification/Sum_Runs.thy ===== *)
theory Sum_Runs
  imports Sum_View
begin

text \<open>
  The runs of \<open>examples/concurrency.cpp\<close>: the client of \<open>Concurrent_Sum\<close>, the workers and the
  poll thread, one library call, one worker's turn or one poll at a time, in any order.
\<close>

subsection \<open>Runs\<close>

text \<open>
  The states the program can reach, with the number of steps that did something: the calls of
  the client and the turns that ran a job.
\<close>

inductive sum_runs ::
  "nat \<Rightarrow> int list \<Rightarrow> int \<Rightarrow> nat \<Rightarrow> sum_pc \<Rightarrow> (sum_fn, int, unit) world \<Rightarrow> bool"
  for m :: nat and "values" :: "int list" and t0 :: int
where
  start: "sum_runs m values t0 0 (InLoop 0 []) (snd (factory_new t0 10 ()))"
| client: "sum_runs m values t0 c pc w \<Longrightarrow> sum_next m (length values) pc w = Some (pc', w')
    \<Longrightarrow> sum_runs m values t0 (Suc c) pc' w'"
| turn: "sum_runs m values t0 c pc w \<Longrightarrow> i < length (workers (pool w))
    \<Longrightarrow> worker_turn (sum_env values) i rnd w = Some w'
    \<Longrightarrow> sum_runs m values t0 (if map_of (at_hand w) i = None then c else Suc c) pc w'"
| poll: "sum_runs m values t0 c pc w \<Longrightarrow> clock_range now
    \<Longrightarrow> sum_runs m values t0 c pc (poll_source (sum_env values) now src w)"

definition mk_tasks :: "nat \<Rightarrow> task list" where
  "mk_tasks k = map (\<lambda>i. \<lparr>task_cell = i\<rparr>) [0..<k]"

fun pc_ok :: "nat \<Rightarrow> nat \<Rightarrow> sum_pc \<Rightarrow> sum_phase \<Rightarrow> nat \<Rightarrow> bool" where
  "pc_ok m n (InLoop i tasks) ph k \<longleftrightarrow> ph = Building \<and> i = k * m \<and> tasks = mk_tasks k"
| "pc_ok m n (Combine tasks) ph k \<longleftrightarrow> ph = Building \<and> tasks = mk_tasks k \<and> n \<le> k * m"
| "pc_ok m n (Continue t) ph k \<longleftrightarrow> ph = AllMade \<and> t = \<lparr>task_cell = Suc k\<rparr> \<and> n \<le> k * m"
| "pc_ok m n (Returned t) ph k \<longleftrightarrow> (\<exists>b. ph = MapMade b) \<and> t = \<lparr>task_cell = k + 2\<rparr> \<and> n \<le> k * m"

definition sum_inv :: "nat \<Rightarrow> int list \<Rightarrow> sum_pc \<Rightarrow> sum_phase \<Rightarrow> part_state list \<Rightarrow> (sum_fn, int, unit) world \<Rightarrow> bool" where
  "sum_inv m values pc ph sts w \<longleftrightarrow>
     sum_view (part values m) (part_fn m (length values)) (sum_list values) ph sts w
     \<and> pc_ok m (length values) pc ph (length sts) \<and> (\<forall>j < length sts. j * m < length values)"

fun steps_left :: "nat \<Rightarrow> sum_pc \<Rightarrow> sum_phase \<Rightarrow> part_state list \<Rightarrow> nat" where
  "steps_left n (InLoop i tasks) ph sts = 3 * (n - length sts) + sum_work ph sts + 1"
| "steps_left n pc ph sts = sum_work ph sts"

definition range_args_ok :: "nat \<Rightarrow> int list \<Rightarrow> bool" where
  "range_args_ok m values \<longleftrightarrow> 0 < m \<and> m < size_max1 \<and> length values < size_half"

definition sum_args_ok :: "nat \<Rightarrow> int list \<Rightarrow> bool" where
  "sum_args_ok m values \<longleftrightarrow> range_args_ok m values \<and> summable values"

lemma few_parts:
  assumes "range_args_ok m values" "\<forall>j < k. j * m < length values"
  shows "k \<le> length values"
proof (cases k)
  case (Suc j)
  then have "j * m < length values" using assms(2) by simp
  moreover have "j * 1 \<le> j * m" using assms(1) by (intro mult_le_mono2) (simp add: range_args_ok_def)
  ultimately show ?thesis using Suc by linarith
qed simp

lemma loop_index:
  assumes "range_args_ok m values" "k * m < length values"
  shows "sz_add (k * m) m = Suc k * m"
proof -
  have "k * m + m < size_max1"
  proof (cases k)
    case 0
    then show ?thesis using assms(1) by (simp add: range_args_ok_def)
  next
    case (Suc j)
    then have "m \<le> k * m" by simp
    moreover have "length values < size_half" using assms(1) by (simp add: range_args_ok_def)
    ultimately have "k * m + m < 2 * size_half" using assms(2) by linarith
    then show ?thesis by simp
  qed
  then show ?thesis by (simp add: add.commute)
qed

lemma factory_inv:
  assumes "clock_range t0"
  shows "sum_inv m values (InLoop 0 []) Building [] (snd (factory_new t0 10 ()))"
  using assms
  by (simp add: sum_inv_def sum_view_def hands_ok_def factory_new_def create_scheduler_def split_def Let_def pool_new_correct jobs_left_def held_def
      tps_new_correct(1) tps_new_dues io_new_def part_cells_def sum_jobs_def mk_tasks_def flip: length_greater_0_conv)

lemma client_inv:
  assumes a: "range_args_ok m values" and inv: "sum_inv m values pc ph sts w" and pc: "\<nexists>t. pc = Returned t"
  shows "\<exists>pc' w' ph' sts'. sum_next m (length values) pc w = Some (pc', w') \<and> sum_inv m values pc' ph' sts' w'
    \<and> steps_left (length values) pc' ph' sts' < steps_left (length values) pc ph sts"
proof (cases pc)
  case (InLoop i tasks)
  let ?n = "length values" and ?k = "length sts"
  have v: "sum_view (part values m) (part_fn m ?n) (sum_list values) Building sts w" and i: "i = ?k * m" "tasks = mk_tasks ?k"
    and ph: "ph = Building" and few: "\<forall>j < ?k. j * m < ?n" using inv by (auto simp: sum_inv_def InLoop)
  show ?thesis
  proof (cases "?k * m < ?n")
    case True
    note sz = loop_index[OF a True]
    note cr = create_view[OF v]
    have f: "part_fn m ?n ?k = SumRange i (if ?n \<le> sz_add i m then ?n else sz_add i m)"
      using sz by (simp add: i part_fn_def min_def)
    have tasks: "tasks @ [\<lparr>task_cell = ?k\<rparr>] = mk_tasks (Suc ?k)" by (simp add: i mk_tasks_def)
    have "?k < ?n" using few_parts[OF a, of "Suc ?k"] few True by (auto simp: less_Suc_eq)
    moreover have "sum_next m ?n pc w = Some (InLoop (Suc ?k * m) (mk_tasks (Suc ?k)), snd (task_new (part_fn m ?n ?k) w))"
      using True cr(1) tasks sz by (simp add: InLoop f sum_range_def factory_create_def split_def Let_def) (simp add: i)
    moreover have "sum_inv m values (InLoop (Suc ?k * m) (mk_tasks (Suc ?k))) Building (sts @ [Created]) (snd (task_new (part_fn m ?n ?k) w))"
      using cr(2) few True by (auto simp: sum_inv_def less_Suc_eq)
    ultimately show ?thesis
      by (intro exI[of _ "InLoop (Suc ?k * m) (mk_tasks (Suc ?k))"] exI[of _ "snd (task_new (part_fn m ?n ?k) w)"]
          exI[of _ Building] exI[of _ "sts @ [Created]"]) (simp add: InLoop ph sum_work_def)
  next
    case False
    then show ?thesis using v few i
      by (intro exI[of _ "Combine (mk_tasks ?k)"] exI[of _ w] exI[of _ Building] exI[of _ sts]) (simp add: InLoop ph sum_inv_def)
  qed
next
  case (Combine tasks)
  let ?k = "length sts"
  have v: "sum_view (part values m) (part_fn m (length values)) (sum_list values) Building sts w"
    and c: "ph = Building" "tasks = mk_tasks ?k" "length values \<le> ?k * m" "\<forall>j < ?k. j * m < length values"
    using inv by (auto simp: sum_inv_def Combine)
  obtain w' where w': "factory_when_all tasks w = Some (\<lparr>task_cell = Suc ?k\<rparr>, w')"
    "sum_view (part values m) (part_fn m (length values)) (sum_list values) AllMade (map told sts) w'"
    using combine_view[OF v] by (auto simp: c(2) mk_tasks_def)
  have "part_work (told st) = part_work st" if "st \<in> set sts" for st
    using that sum_viewD(8)[OF v] by (auto simp: told_def)
  then have "map part_work (map told sts) = map part_work sts" by simp
  then have "sum_work AllMade (map told sts) < sum_work Building sts" unfolding sum_work_def by (simp del: map_map)
  then show ?thesis using w' c
    by (intro exI[of _ "Continue \<lparr>task_cell = Suc ?k\<rparr>"] exI[of _ w'] exI[of _ AllMade] exI[of _ "map told sts"])
      (simp add: Combine sum_inv_def)
next
  case (Continue t)
  let ?k = "length sts"
  have v: "sum_view (part values m) (part_fn m (length values)) (sum_list values) AllMade sts w"
    and c: "ph = AllMade" "t = \<lparr>task_cell = Suc ?k\<rparr>" "length values \<le> ?k * m" "\<forall>j < ?k. j * m < length values"
    using inv by (auto simp: sum_inv_def Continue)
  from map_view[OF v] obtain w' where "task_map SumVec t w = Some (\<lparr>task_cell = ?k + 2\<rparr>, w')"
    "sum_view (part values m) (part_fn m (length values)) (sum_list values) (MapMade False) sts w'" by (auto simp: c(2))
  then show ?thesis using c
    by (intro exI[of _ "Returned \<lparr>task_cell = ?k + 2\<rparr>"] exI[of _ w'] exI[of _ "MapMade False"] exI[of _ sts])
      (auto simp: Continue sum_inv_def sum_work_def)
next
  case (Returned t)
  then show ?thesis using pc by simp
qed

lemma turn_inv:
  assumes a: "sum_args_ok m values" and inv: "sum_inv m values pc ph sts w" and i: "i < length (workers (pool w))"
  shows "\<exists>w' ph' sts'. worker_turn (sum_env values) i rnd w = Some w' \<and> sum_inv m values pc ph' sts' w'
    \<and> (if map_of (at_hand w) i = None then ph' = ph \<and> sts' = sts
       else steps_left (length values) pc ph' sts' < steps_left (length values) pc ph sts)"
proof -
  let ?n = "length values" and ?k = "length sts"
  have v: "sum_view (part values m) (part_fn m ?n) (sum_list values) ph sts w" and pc: "pc_ok m ?n pc ph ?k"
    and few: "\<forall>j < ?k. j * m < ?n" using inv by (auto simp: sum_inv_def)
  have sm: "summable values" and ra: "range_args_ok m values" using a by (simp_all add: sum_args_ok_def)
  then have "?n < size_max1" by (simp add: range_args_ok_def)
  then have k: "?k < size_max1" using few_parts[OF ra few] by simp
  have part: "call_fn (sum_env values) (part_fn m ?n j) u = Some (Plain (part values m j), u)" for j u
    using part_call(1)[OF sm] by (simp add: sum_env_def)
  have "?n \<le> ?k * m" if "ph \<noteq> Building" using pc that by (cases pc) auto
  then have vec: "map_fn (sum_env values) SumVec (parts_vector (part values m) ?k) u = Some (Plain (sum_list values), u)" if "ph \<noteq> Building" for u
    using sums_call[OF sm, of ?k m] that by (simp add: sum_env_def parts_vector_def)
  from turn_view[OF v k i part vec, of rnd] obtain w' ph' sts' where
    w': "worker_turn (sum_env values) i rnd w = Some w'" "sum_view (part values m) (part_fn m ?n) (sum_list values) ph' sts' w'"
      "length sts' = ?k" "ph' = ph \<or> ph = MapMade False \<and> ph' = MapMade True"
      "if map_of (at_hand w) i = None then ph' = ph \<and> sts' = sts else sum_work ph' sts' < sum_work ph sts" by blast
  have "pc_ok m ?n pc ph' ?k" using pc w'(4) by (cases pc) auto
  then have "sum_inv m values pc ph' sts' w'" using w'(2,3) few by (simp add: sum_inv_def)
  moreover have "sum_work ph' sts' < sum_work ph sts \<Longrightarrow> steps_left ?n pc ph' sts' < steps_left ?n pc ph sts"
    using w'(3) by (cases pc) simp_all
  ultimately show ?thesis using w'(1,5) by (intro exI[of _ w'] exI[of _ ph'] exI[of _ sts']) (simp split: if_splits)
qed

lemma sum_runs_inv:
  assumes "sum_runs m values t0 c pc w" "sum_args_ok m values" "clock_range t0"
  shows "\<exists>ph sts. sum_inv m values pc ph sts w \<and> c + steps_left (length values) pc ph sts \<le> 3 * length values + 4"
  using assms
proof (induction rule: sum_runs.induct)
  case start
  show ?case
    using factory_inv[OF start(2), of m "values"]
    by (intro exI[of _ Building] exI[of _ "[]"]) (simp add: sum_work_def)
next
  case (client c pc w pc' w')
  then obtain ph sts where inv: "sum_inv m values pc ph sts w" "c + steps_left (length values) pc ph sts \<le> 3 * length values + 4"
    by blast
  have "\<nexists>t. pc = Returned t" "range_args_ok m values" using client(2,4) by (auto simp: sum_args_ok_def)
  from client_inv[OF this(2) inv(1) this(1)] obtain ph' sts' where
    "sum_inv m values pc' ph' sts' w'" "steps_left (length values) pc' ph' sts' < steps_left (length values) pc ph sts"
    using client(2) by auto
  then show ?case using inv(2) by (intro exI[of _ ph'] exI[of _ sts']) simp
next
  case (turn c pc w i rnd w')
  then obtain ph sts where inv: "sum_inv m values pc ph sts w" "c + steps_left (length values) pc ph sts \<le> 3 * length values + 4"
    by blast
  from turn_inv[OF turn(5) inv(1) turn(2), of rnd] turn(3) obtain ph' sts' where
    "sum_inv m values pc ph' sts' w'"
    "if map_of (at_hand w) i = None then ph' = ph \<and> sts' = sts
     else steps_left (length values) pc ph' sts' < steps_left (length values) pc ph sts" by (auto split: if_splits)
  then show ?case using inv(2) by (intro exI[of _ ph'] exI[of _ sts']) (simp split: if_splits)
next
  case (poll c pc w now src)
  then obtain ph sts where inv: "sum_inv m values pc ph sts w" "c + steps_left (length values) pc ph sts \<le> 3 * length values + 4"
    by blast
  then have "sum_inv m values pc ph sts (poll_source (sum_env values) now src w)"
    using poll_view[OF _ poll(2)] by (simp add: sum_inv_def)
  with inv(2) show ?case by blast
qed

subsection \<open>Properties\<close>

lemma settled_view:
  assumes "sum_view s f tot (MapMade b) sts w" "jobs_left w = {#}" "sts \<noteq> []"
  shows "b"
proof (rule ccontr)
  assume b: "\<not> b"
  note d = sum_viewD[OF assms(1)]
  have "part_jobs s f (length sts) i (sts ! i) = {#}" if "i < length sts" for i
    using d(4) assms(2) that by (simp add: sum_jobs_def sum.remove[of "{..<length sts}" i])
  then have "sts ! i = Counted" if "i < length sts" for i
    using that d(8) nth_mem[OF that] by (cases "sts ! i") force+
  then have "all_in sts" using assms(3) by (auto simp: all_in_def in_set_conv_nth)
  then show False using b d(4) assms(2) by (simp add: sum_jobs_def)
qed

text \<open>Either some worker has a job in hand, or any worker that looks for one takes one.\<close>

lemma job_in_reach:
  assumes v: "sum_view s f tot ph sts w" and ne: "jobs_left w \<noteq> {#}"
  shows "(\<exists>i < length (workers (pool w)). map_of (at_hand w) i \<noteq> None)
    \<or> (\<forall>i < length (workers (pool w)). \<forall>rnd. \<exists>w'. worker_turn env i rnd w = Some w' \<and> map_of (at_hand w') i \<noteq> None)"
proof (cases "at_hand w")
  case (Cons h hs)
  then have "fst h < length (workers (pool w))" "map_of (at_hand w) (fst h) \<noteq> None"
    using sum_viewD(11)[OF v] by (auto simp: hands_ok_def map_of_eq_None_iff)
  then show ?thesis by blast
next
  case Nil
  note d = sum_viewD[OF v]
  have jobs: "pool_jobs (pool w) \<noteq> {#}" using ne d(10) Nil by (simp add: jobs_left_def held_def)
  have "\<exists>w'. worker_turn env i rnd w = Some w' \<and> map_of (at_hand w') i \<noteq> None" if i: "i < length (workers (pool w))" for i rnd
  proof (cases "worker_next i rnd (pool w)")
    case (Pair res p)
    then obtain j where "res = Some j" using worker_next_correct[OF d(3) i Pair] jobs by (cases res) auto
    then show ?thesis using Pair Nil by (simp add: worker_turn_def fetch_job_def)
  qed
  then show ?thesis by blast
qed

lemma one_job_less:
  assumes run: "sum_runs m values t0 c pc w" and a: "sum_args_ok m values" and inv: "sum_inv m values pc ph sts w"
    and ne: "jobs_left w \<noteq> {#}"
  shows "\<exists>c' w' ph' sts'. sum_runs m values t0 c' pc w' \<and> sum_inv m values pc ph' sts' w'
    \<and> steps_left (length values) pc ph' sts' < steps_left (length values) pc ph sts"
proof -
  have runs: ?thesis if r: "sum_runs m values t0 c u v" "u = pc" and inv: "sum_inv m values pc ph sts v"
    and i: "i < length (workers (pool v))" "map_of (at_hand v) i \<noteq> None" for c u v i
    using turn_inv[OF a inv i(1), of 0] sum_runs.turn[OF r(1) i(1), of 0] i(2) r(2) by (auto split: if_splits)
  have v: "sum_view (part values m) (part_fn m (length values)) (sum_list values) ph sts w"
    using inv by (simp add: sum_inv_def)
  have i: "0 < length (workers (pool w))" using sum_viewD(9)[OF v] by simp
  from job_in_reach[OF v ne, of "sum_env values"] consider i where "i < length (workers (pool w))" "map_of (at_hand w) i \<noteq> None"
    | w' where "map_of (at_hand w) 0 = None" "worker_turn (sum_env values) 0 0 w = Some w'" "map_of (at_hand w') 0 \<noteq> None"
    using i by (cases "map_of (at_hand w) 0") blast+
  then show ?thesis
  proof cases
    case (1 i)
    then show ?thesis using runs[OF run refl inv] by blast
  next
    case (2 w')
    have "sum_inv m values pc ph sts w'" using turn_inv[OF a inv i, of 0] 2(1,2) by auto
    moreover have "0 < length (workers (pool w'))" using calculation sum_viewD(9) by (fastforce simp: sum_inv_def)
    ultimately show ?thesis using runs[OF sum_runs.turn[OF run i 2(2)] refl _ _ 2(3)] by blast
  qed
qed

lemma can_settle:
  assumes "sum_runs m values t0 c pc w" "sum_args_ok m values" "sum_inv m values pc ph sts w"
  shows "\<exists>c' t w'. sum_runs m values t0 c' (Returned t) w' \<and> jobs_left w' = {#}"
  using assms
proof (induction "steps_left (length values) pc ph sts" arbitrary: c pc w ph sts rule: less_induct)
  case less
  show ?case
  proof (cases "\<exists>t. pc = Returned t")
    case False
    have "range_args_ok m values" using less.prems(2) by (simp add: sum_args_ok_def)
    from client_inv[OF this less.prems(3) False] obtain pc' w' ph' sts' where
      "sum_next m (length values) pc w = Some (pc', w')" "sum_inv m values pc' ph' sts' w'"
      "steps_left (length values) pc' ph' sts' < steps_left (length values) pc ph sts" by blast
    with less.hyps[OF this(3) sum_runs.client[OF less.prems(1) this(1)] less.prems(2) this(2)] show ?thesis by blast
  next
    case True
    then obtain t where pc: "pc = Returned t" by blast
    show ?thesis
    proof (cases "jobs_left w = {#}")
      case False
      from one_job_less[OF less.prems False] obtain c' w' ph' sts' where
        w': "sum_runs m values t0 c' pc w'" "sum_inv m values pc ph' sts' w'"
          "steps_left (length values) pc ph' sts' < steps_left (length values) pc ph sts" by blast
      from less.hyps[OF w'(3,1) less.prems(2) w'(2)] show ?thesis .
    qed (use less.prems(1) pc in blast)
  qed
qed

text \<open>The function run without interruption.\<close>

lemma run_sum_returns:
  assumes "range_args_ok m values" "sum_inv m values pc ph sts w"
  shows "\<exists>r. run_sum m (length values) pc w = Some r"
  using assms
proof (induction "steps_left (length values) pc ph sts" arbitrary: pc w ph sts rule: less_induct)
  case less
  show ?case
  proof (cases "\<exists>t. pc = Returned t")
    case True
    then show ?thesis by (auto simp: run_sum.simps)
  next
    case False
    from client_inv[OF less.prems False] obtain pc' w' ph' sts' where
      n: "sum_next m (length values) pc w = Some (pc', w')" "sum_inv m values pc' ph' sts' w'"
      "steps_left (length values) pc' ph' sts' < steps_left (length values) pc ph sts" by blast
    have "run_sum m (length values) pc w = run_sum m (length values) pc' w'"
      using False n(1) by (subst run_sum.simps, cases pc) (simp_all del: sum_next.simps)
    with less.hyps[OF n(3) less.prems(1) n(2)] show ?thesis by simp
  qed
qed

text \<open>With no values per task the loop counter stays where it is.\<close>

lemma run_sum_stuck:
  assumes "run_sum 0 n (InLoop i tasks) w = Some r" "i < n" "n < size_max1"
  shows False
proof -
  let ?P = "\<lambda>(m :: nat) n' pc (u :: (sum_fn, int, unit) world) (r :: task \<times> (sum_fn, int, unit) world).
      m = 0 \<longrightarrow> n' = n \<longrightarrow> (\<nexists>tasks. pc = InLoop i tasks)"
  have "?P 0 n (InLoop i tasks) w r"
  proof (rule run_sum.raw_induct[where P = ?P, OF _ assms(1)])
    fix g :: "nat \<Rightarrow> nat \<Rightarrow> sum_pc \<Rightarrow> (sum_fn, int, unit) world \<Rightarrow> (task \<times> (sum_fn, int, unit) world) option"
    fix m n' pc u r
    assume IH: "\<And>m n' pc u r. g m n' pc u = Some r \<Longrightarrow> ?P m n' pc u r"
      and step: "(case pc of Returned t \<Rightarrow> Some (t, u)
        | _ \<Rightarrow> (case sum_next m n' pc u of None \<Rightarrow> None | Some (pc1, w1) \<Rightarrow> g m n' pc1 w1)) = Some r"
    have "sz_add i 0 = i" using assms(2,3) by simp
    show "?P m n' pc u r"
    proof (intro impI notI)
      assume m: "m = 0" "n' = n" and "\<exists>tasks. pc = InLoop i tasks"
      then obtain tasks where "pc = InLoop i tasks" by blast
      then have "g 0 n (InLoop i (tasks @ [fst (sum_range i i u)])) (snd (sum_range i i u)) = Some r"
        using step m assms(2) \<open>sz_add i 0 = i\<close> by (simp add: split_def Let_def)
      from IH[OF this] show False by simp
    qed
  qed
  then show False by simp
qed

lemma summation_input_ok:
  "n \<le> 65535 \<Longrightarrow> summable (summation_input n)" "2 * sum_list (summation_input n) = int n * (int n + 1)"
proof -
  show s: "2 * sum_list (summation_input n) = int n * (int n + 1)" for n
    by (induction n) (auto simp: summation_input_def algebra_simps)
  assume "n \<le> 65535"
  then have "int n * (int n + 1) \<le> 65535 * 65536" by (intro mult_mono) auto
  then show "summable (summation_input n)"
    using s[of n] by (auto simp: summable_def summation_input_def)
qed

lemma returned_result:
  assumes "sum_runs m values t0 c (Returned t) w" and "clock_range t0" and "sum_args_ok m values"
  shows "\<exists>c. cells w ! task_cell t = WriteOnce c
    \<and> (wo_value c = None \<or> values \<noteq> [] \<and> wo_value c = Some (Value (Plain (sum_list values))))
    \<and> (jobs_left w = {#} \<and> values \<noteq> [] \<longrightarrow> wo_value c \<noteq> None)"
proof -
  obtain ph sts where "sum_inv m values (Returned t) ph sts w" using sum_runs_inv[OF assms(1,3,2)] by blast
  then obtain b where t: "task_cell t = length sts + 2" and n: "length values \<le> length sts * m" "\<forall>j < length sts. j * m < length values"
    and v: "sum_view (part values m) (part_fn m (length values)) (sum_list values) (MapMade b) sts w"
    by (auto simp: sum_inv_def)
  have "sts = [] \<longleftrightarrow> values = []" using n by (cases sts) auto
  moreover have "sts \<noteq> []" if b using sum_viewD(8)[OF v] that by (simp add: all_in_def)
  moreover have "cells w ! task_cell t = WriteOnce \<lparr>wo_value = (if b then Some (Value (Plain (sum_list values))) else None), wo_callbacks = []\<rparr>"
    using sum_viewD(1)[OF v] by (simp add: t nth_append)
  ultimately show ?thesis using settled_view[OF v] by auto
qed





text \<open>
  The client returns from \<open>concurrent_sum\<close> exactly if it allows a task at least one value:
  with none the loop makes tasks of no values for ever.
\<close>

theorem concurrent_sum_returns:
  assumes "clock_range t0" and "m < size_max1" and "values \<noteq> []" and "length values < size_half"
  shows "(\<exists>r. concurrent_sum m values (snd (factory_new t0 10 ())) = Some r) \<longleftrightarrow> 0 < m"
proof (cases "m = 0")
  case True
  then show ?thesis
    using run_sum_stuck[of "length values" 0 "[]" "snd (factory_new t0 10 ())"] assms(3,4) by (auto simp: concurrent_sum_def)
next
  case False
  then have "range_args_ok m values" using assms by (simp add: range_args_ok_def)
  from run_sum_returns[OF this factory_inv[OF assms(1)]] False show ?thesis by (simp add: concurrent_sum_def)
qed

theorem concurrent_sum_returns_witness:
  "concurrent_sum 0 [3, 4] (snd (factory_new 0 10 ())) = None"
  using concurrent_sum_returns[of 0 0 "[3, 4]"]
  by (cases "concurrent_sum 0 [3, 4] (snd (factory_new 0 10 ()))") (auto simp: clock_range_def)

end
