(* ===== verification/Sum_Main.thy ===== *)
theory Sum_Main
  imports Sum_Runs
begin

text \<open>
  \<open>main\<close> of \<open>examples/concurrency.cpp\<close>, from the two numbers it reads to the line it prints.
\<close>

subsection \<open>Runs of the program\<close>

text \<open>
  The whole program, for the two numbers it reads: it dies when the vector is too long or
  \<open>std::get\<close> throws, and otherwise prints once \<open>block\<close> returns. \<open>block\<close> waits on a condition
  variable without a condition, so if a wait may end without a notification (\<open>spurious\<close>) it may
  find no result and throw, and the program dies of that too.
\<close>

datatype main_pc = Calling sum_pc | Printed int | Died

inductive main_runs :: "int \<Rightarrow> nat \<Rightarrow> int \<Rightarrow> bool \<Rightarrow> main_pc \<Rightarrow> (sum_fn, int, unit) world \<Rightarrow> bool"
  for n :: int and m :: nat and t0 :: int and spurious :: bool
where
  too_long: "main_values n = None \<Longrightarrow> main_runs n m t0 spurious Died (snd (factory_new t0 10 ()))"
| calls: "main_values n = Some values \<Longrightarrow> sum_runs m values t0 c pc w \<Longrightarrow> main_runs n m t0 spurious (Calling pc) w"
| prints: "main_runs n m t0 spurious (Calling (Returned t)) w \<Longrightarrow> main_shows t w = Some r
    \<Longrightarrow> main_runs n m t0 spurious (case r of Some x \<Rightarrow> Printed x | None \<Rightarrow> Died) w"
| wakes: "spurious \<Longrightarrow> main_runs n m t0 spurious (Calling (Returned t)) w \<Longrightarrow> main_shows t w = None
    \<Longrightarrow> main_runs n m t0 spurious Died w"

lemma main_callsE:
  assumes "main_runs n m t0 spurious (Calling pc) w"
  obtains "values" c where "main_values n = Some values" "sum_runs m values t0 c pc w"
  using assms by cases (auto split: option.splits)

lemma main_values_eq:
  assumes "- 2147483648 \<le> n" "n \<le> 65535"
  shows "main_values n = (if n < 0 then None else Some (summation_input (nat n)))"
proof (cases "n < 0")
  case True
  then have "n mod 18446744073709551616 = n + 18446744073709551616"
    using assms(1) by (subst mod_add_self2[symmetric]) (simp del: mod_add_self2)
  then show ?thesis using assms(1) True by (simp add: main_values_def vector_max_size_def Let_def)
next
  case False
  then show ?thesis using assms(2) by (simp add: main_values_def vector_max_size_def nat_le_iff)
qed

lemma main_args_ok:
  assumes "n \<le> 65535" "0 < m" "m < size_max1"
  shows "sum_args_ok m (summation_input (nat n))"
  using assms summation_input_ok(1)[of "nat n"] by (simp add: sum_args_ok_def range_args_ok_def summation_input_def)

lemma main_sum: "0 \<le> n \<Longrightarrow> sum_list (summation_input (nat n)) = n * (n + 1) div 2"
  using summation_input_ok(2)[of "nat n"] by simp

text \<open>With no values per task, the loop makes no progress, or there is nothing to loop over.\<close>

lemma no_progress: "sum_runs m values t0 c pc w \<Longrightarrow> m = 0 \<Longrightarrow> values \<noteq> [] \<Longrightarrow> \<exists>tasks. pc = InLoop 0 tasks"
  by (induction rule: sum_runs.induct) (auto simp: split_def Let_def)

lemma no_values_next: "sum_next m 0 pc w = sum_next 1 0 pc w"
  by (cases pc) simp_all

lemma no_values_runs: "sum_runs m values t0 c pc w \<Longrightarrow> values = [] \<Longrightarrow> sum_runs 1 [] t0 c pc w"
proof (induction rule: sum_runs.induct)
  case start
  show ?case by (rule sum_runs.start)
next
  case (client c pc w pc' w')
  have "sum_next 1 (length ([] :: int list)) pc w = Some (pc', w')"
    using client(2,4) no_values_next[of m pc w] by (simp del: sum_next.simps)
  with client(3)[OF client(4)] show ?case by (rule sum_runs.client)
next
  case (turn c pc w i rnd w')
  then have "worker_turn (sum_env []) i rnd w = Some w'" by simp
  from sum_runs.turn[OF turn(4)[OF turn(5)] turn(2) this] show ?case by simp
next
  case (poll c pc w now src)
  from sum_runs.poll[OF poll(3)[OF poll(4)] poll(2), of src] poll(4) show ?case by simp
qed

lemma main_returned:
  assumes run: "main_runs n m t0 spurious (Calling (Returned t)) w" and t0: "clock_range t0" and m: "m < size_max1"
    and n: "- 2147483648 \<le> n" "n \<le> 65535"
  shows "0 \<le> n" "0 < m \<or> n = 0"
    and "main_shows t w = None \<or> 0 < n \<and> main_shows t w = Some (Some (n * (n + 1) div 2))"
    and "jobs_left w = {#} \<Longrightarrow> 0 < n \<Longrightarrow> main_shows t w \<noteq> None"
proof -
  from run obtain "values" c where v: "main_values n = Some values" "sum_runs m values t0 c (Returned t) w" by (rule main_callsE)
  then show n0: "0 \<le> n" using main_values_eq[OF n] by (auto split: if_splits)
  then have vs: "values = summation_input (nat n)" using v(1) main_values_eq[OF n] by simp
  have ne: "values = [] \<longleftrightarrow> n = 0" using n0 by (auto simp: vs summation_input_def)
  show m0: "0 < m \<or> n = 0" using no_progress[OF v(2)] ne by (cases "m = 0") auto
  obtain m' where m': "sum_runs m' values t0 c (Returned t) w" "sum_args_ok m' values"
    using v(2) main_args_ok[OF n(2), of m] m m0 no_values_runs[OF v(2)] main_args_ok[OF n(2), of 1] ne
    by (cases "0 < m") (auto simp: vs)
  from returned_result[OF m'(1) t0 m'(2)] obtain c where c: "cells w ! task_cell t = WriteOnce c"
    "wo_value c = None \<or> values \<noteq> [] \<and> wo_value c = Some (Value (Plain (sum_list values)))"
    "jobs_left w = {#} \<and> values \<noteq> [] \<longrightarrow> wo_value c \<noteq> None" by blast
  have "cell_block (task_cell t) w = wo_value c" by (subst cell_block.simps) (simp add: c(1))
  then show "main_shows t w = None \<or> 0 < n \<and> main_shows t w = Some (Some (n * (n + 1) div 2))"
    "jobs_left w = {#} \<Longrightarrow> 0 < n \<Longrightarrow> main_shows t w \<noteq> None"
    using c(2,3) n0 ne main_sum[OF n0] by (auto simp: main_shows_def task_block_def vs)
qed

subsection \<open>Properties\<close>



end
