(* ===== verification/Result_Types.thy ===== *)
theory Result_Types
  imports Task_Results
begin

text \<open>
  Types of results. A cell is given the set of outcomes it may ever read as, a slot of a
  \<open>when_all\<close> the set of values that may be put into it, and a user function the values it may
  return and the arguments it takes. A \<open>when_any\<close> one of whose tasks cannot fail is sure to be filled with a value:
  \<open>any_sure\<close> gives the cell it fills. The C++ types say this with \<open>Task<T>\<close> and \<open>std::function\<close>; here the sets may be as small
  as the single outcome a program means to compute. In a well-typed world every cell, callback,
  job, timer and read in flight respects the sets, and the vector of a \<open>when_all\<close> is complete
  when its count says so, because every slot is delivered at most once.
\<close>

subsection \<open>Types\<close>

record ('f, 'a) signature =
  call_dom :: "'f \<Rightarrow> bool"
  map_dom :: "'f \<Rightarrow> 'a val \<Rightarrow> bool"
  bind_dom :: "'f \<Rightarrow> 'a val \<Rightarrow> bool"
  call_type :: "'f \<Rightarrow> 'a val set"
  map_type :: "'f \<Rightarrow> 'a val \<Rightarrow> 'a val set"
  bind_type :: "'f \<Rightarrow> 'a val \<Rightarrow> 'a outcome set"

record 'a typing =
  cell_type :: "address \<Rightarrow> 'a outcome set"
  slot_types :: "address \<Rightarrow> 'a val set list"
  any_sure :: "address \<Rightarrow> address option"

definition vectors :: "'a val set list \<Rightarrow> 'a outcome set" where
  "vectors Ss = {Value (Vector vs) |vs. list_all2 (\<in>) vs Ss}"

text \<open>A callback may be run on an outcome if its function takes it and what it then writes is allowed where it writes it.\<close>

fun cb_typed :: "('f, 'a) signature \<Rightarrow> 'a typing \<Rightarrow> 'f callback \<Rightarrow> 'a outcome \<Rightarrow> bool" where
  "cb_typed G \<Gamma> (OnMap c f) (Value v) \<longleftrightarrow> map_dom G f v \<and> Value ` map_type G f v \<subseteq> cell_type \<Gamma> c"
| "cb_typed G \<Gamma> (OnMap c f) (Err e) \<longleftrightarrow> Err e \<in> cell_type \<Gamma> c"
| "cb_typed G \<Gamma> (OnBind t e f) (Value v) \<longleftrightarrow> bind_dom G f v \<and> bind_type G f v \<subseteq> cell_type \<Gamma> t"
| "cb_typed G \<Gamma> (OnBind t e f) (Err er) \<longleftrightarrow> Err er \<in> cell_type \<Gamma> e \<and> cell_type \<Gamma> e \<subseteq> cell_type \<Gamma> t"
| "cb_typed G \<Gamma> (OnWhenAny u x) (Value v) \<longleftrightarrow> Value v \<in> cell_type \<Gamma> u"
| "cb_typed G \<Gamma> (OnWhenAny u x) (Err e) \<longleftrightarrow> any_sure \<Gamma> x = Some u \<or> Err e \<in> cell_type \<Gamma> u"
| "cb_typed G \<Gamma> (OnWhenAll x i u) (Value v) \<longleftrightarrow> i < length (slot_types \<Gamma> x) \<and> v \<in> slot_types \<Gamma> x ! i
     \<and> vectors (slot_types \<Gamma> x) \<subseteq> cell_type \<Gamma> u"
| "cb_typed G \<Gamma> (OnWhenAll x i u) (Err e) \<longleftrightarrow> Err e \<in> cell_type \<Gamma> u"

definition listens :: "('f, 'a) signature \<Rightarrow> 'a typing \<Rightarrow> address \<Rightarrow> 'f callback \<Rightarrow> bool" where
  "listens G \<Gamma> a cb \<longleftrightarrow> (\<forall>r \<in> cell_type \<Gamma> a. cb_typed G \<Gamma> cb r)"

fun cell_typed :: "('f, 'a) signature \<Rightarrow> 'a typing \<Rightarrow> address \<Rightarrow> ('f, 'a) cell \<Rightarrow> bool" where
  "cell_typed G \<Gamma> a (WriteOnce c) \<longleftrightarrow> (\<forall>r. wo_value c = Some r \<longrightarrow> r \<in> cell_type \<Gamma> a)
     \<and> (\<forall>cb \<in> set (wo_callbacks c). listens G \<Gamma> a cb)"
| "cell_typed G \<Gamma> a (Tracking c) \<longleftrightarrow> (\<forall>t. tc_cell c = Some t \<longrightarrow> cell_type \<Gamma> t \<subseteq> cell_type \<Gamma> a)
     \<and> (\<forall>cb \<in> set (tc_callbacks c). listens G \<Gamma> a cb)"
| "cell_typed G \<Gamma> a (WhenAny u cs) \<longleftrightarrow> cell_type \<Gamma> u \<subseteq> cell_type \<Gamma> a"
| "cell_typed G \<Gamma> a (WhenAll u cs) \<longleftrightarrow> cell_type \<Gamma> u \<subseteq> cell_type \<Gamma> a"

fun job_typed :: "('f, 'a) signature \<Rightarrow> 'a typing \<Rightarrow> ('f, 'a) job \<Rightarrow> bool" where
  "job_typed G \<Gamma> (RunCallback cb r) \<longleftrightarrow> cb_typed G \<Gamma> cb r"
| "job_typed G \<Gamma> (RunTask c f) \<longleftrightarrow> call_dom G f \<and> Value ` call_type G f \<subseteq> cell_type \<Gamma> c"
| "job_typed G \<Gamma> (CompleteTimer c) \<longleftrightarrow> Value Unit \<in> cell_type \<Gamma> c"
| "job_typed G \<Gamma> (FinishRead c rq) \<longleftrightarrow> Value (Request (in_flight_read rq)) \<in> cell_type \<Gamma> c \<and> Err IOError \<in> cell_type \<Gamma> c"

definition typed :: "('f, 'a) signature \<Rightarrow> 'a typing \<Rightarrow> ('f, 'a, 'os) world \<Rightarrow> bool" where
  "typed G \<Gamma> w \<longleftrightarrow> (\<forall>a < length (cells w). cell_typed G \<Gamma> a (cells w ! a))
     \<and> (\<forall>j. Some j \<in># jobs_left w \<longrightarrow> job_typed G \<Gamma> j)
     \<and> (\<forall>p \<in># tps_dues (timers w). job_typed G \<Gamma> (snd p) \<and> job_callbacks (Some (snd p)) = {#})
     \<and> (\<forall>p \<in> set (in_flight_requests (io_source w)). job_typed G \<Gamma> (FinishRead (fst p) (snd p)))"

lemma typedD:
  assumes "typed G \<Gamma> w"
  shows "\<And>a. a < length (cells w) \<Longrightarrow> cell_typed G \<Gamma> a (cells w ! a)"
    and "\<And>j. Some j \<in># jobs_left w \<Longrightarrow> job_typed G \<Gamma> j"
    and "\<And>p. p \<in># tps_dues (timers w) \<Longrightarrow> job_typed G \<Gamma> (snd p) \<and> job_callbacks (Some (snd p)) = {#}"
    and "\<And>p. p \<in> set (in_flight_requests (io_source w)) \<Longrightarrow> job_typed G \<Gamma> (FinishRead (fst p) (snd p))"
  using assms by (auto simp: typed_def)

subsection \<open>Operations on cells\<close>

lemma chain_typed: "chain (link w) a e \<Longrightarrow> typed G \<Gamma> w \<Longrightarrow> cells_ok w \<Longrightarrow> a < length (cells w) \<Longrightarrow>
  cell_type \<Gamma> e \<subseteq> cell_type \<Gamma> a"
proof (induction rule: chain.induct)
  case (pass a t e)
  have "cell_ok w (cells w ! a)" "cell_typed G \<Gamma> a (cells w ! a)"
    using pass.prems by (auto simp: cells_ok_def typedD(1))
  then have "cell_type \<Gamma> t \<subseteq> cell_type \<Gamma> a" "t < length (cells w)"
    using pass.hyps(1) by (cases "cells w ! a"; auto simp: link_def is_write_once_def split: option.splits)+
  then show ?case using pass by blast
qed simp

lemma listens_sub: "listens G \<Gamma> a cb \<Longrightarrow> cell_type \<Gamma> e \<subseteq> cell_type \<Gamma> a \<Longrightarrow> listens G \<Gamma> e cb"
  by (auto simp: listens_def)

text \<open>What reads from a cell is of its type.\<close>

lemma typed_read:
  assumes t: "typed G \<Gamma> w" and ok: "cells_ok w" and a: "a < length (cells w)" and r: "cell_read a w = Some (Some r)"
  shows "r \<in> cell_type \<Gamma> a"
proof -
  obtain e where e: "chain (link w) a e" "end_value w e = Some r" using cell_read_Some[OF r] by auto
  then have "r \<in> cell_type \<Gamma> e"
    using typedD(1)[OF t chain_in_range[OF e(1) ok a]] by (cases "cells w ! e") (auto simp: end_value_def)
  then show ?thesis using chain_typed[OF e(1) t ok a] by blast
qed

lemma nth_update_if: "cs[a := c] ! b = (if a = b \<and> a < length cs then c else cs ! b)"
  by (cases "a < length cs") (auto simp: nth_list_update list_update_beyond)

lemma typed_queue:
  assumes "typed G \<Gamma> w" "pool_inv (pool w)" "ctx_ok (pool w) ctx" "job_typed G \<Gamma> j"
  shows "typed G \<Gamma> (queue_job ctx j w)"
  using assms queue_job_pool(2)[OF assms(2,3), of j] by (auto simp: typed_def queue_job_def)

lemma typed_set_cell:
  assumes "typed G \<Gamma> w" "cell_typed G \<Gamma> a c"
  shows "typed G \<Gamma> (set_cell a c w)"
  using assms by (auto simp: typed_def set_cell_def nth_update_if)

lemma typed_new_cell:
  assumes "typed G \<Gamma> w" "cell_typed G \<Gamma> (length (cells w)) c"
  shows "typed G \<Gamma> (snd (new_cell c w))"
  using assms by (auto simp: typed_def new_cell_def nth_append less_Suc_eq)

lemma typed_write:
  assumes t: "typed G \<Gamma> w" and p: "pool_inv (pool w)" "ctx_ok (pool w) ctx" and a: "is_write_once w a"
    and r: "r \<in> cell_type \<Gamma> a"
  shows "typed G \<Gamma> (snd (write_result_to_value ctx r a w))"
proof -
  obtain c where a: "a < length (cells w)" "cells w ! a = WriteOnce c" using is_write_onceE[OF a] .
  show ?thesis
  proof (cases "wo_value c")
    case None
    note wr = write_empty[OF p a None, of r]
    have c: "\<forall>cb \<in> set (wo_callbacks c). listens G \<Gamma> a cb" using typedD(1)[OF t a(1)] a(2) by simp
    have "job_typed G \<Gamma> j" if "Some j \<in># jobs_left (snd (write_result_to_value ctx r a w))" for j
      using that typedD(2)[OF t] c r unfolding wr(5) by (auto simp: listens_def)
    then show ?thesis
      using t wr(2,3) r by (auto simp: typed_def same_rest_def nth_update_if)
  qed (use write_filled[OF a(2)] t in simp)
qed

lemma typed_park:
  assumes t: "typed G \<Gamma> w" and p: "pool_inv (pool w)" and e: "e < length (cells w)" and cb: "listens G \<Gamma> e cb"
  shows "typed G \<Gamma> (park e cb w)"
  using typedD(1)[OF t e] cb
  by (auto simp: park_def write_once_await_def listens_def intro!: typed_queue[OF t p] typed_set_cell[OF t] t
      split: cell.splits option.splits)

lemma typed_await:
  assumes t: "typed G \<Gamma> w" and inv: "world_inv w" and a: "a < length (cells w)" and cb: "listens G \<Gamma> a cb"
    and r: "cell_await a cb w = Some w'"
  shows "typed G \<Gamma> w'"
proof -
  obtain e where e: "chain (link w) a e" "w' = park e cb w" using cell_await_Some[OF r] by blast
  note ok = world_invD(3)[OF inv]
  show ?thesis
    using typed_park[OF t world_invD(1)[OF inv] chain_in_range[OF e(1) ok a] listens_sub[OF cb chain_typed[OF e(1) t ok a]]]
    by (simp add: e(2))
qed

lemma typed_await_each:
  assumes "typed G \<Gamma> w" "world_inv w" "await_each ps w = Some w'"
    "\<forall>p \<in> set ps. fst p < length (cells w) \<and> callback_ok w (snd p) \<and> listens G \<Gamma> (fst p) (snd p)"
  shows "typed G \<Gamma> w'"
  using assms
proof (induction ps w rule: await_each.induct)
  case (2 a cb rest w)
  then obtain w1 where w1: "cell_await a cb w = Some w1" "await_each rest w1 = Some w'"
    by (auto simp: bind_eq_Some_conv)
  have p: "callback_ok w cb" "a < length (cells w)" "listens G \<Gamma> a cb" using 2(5) by auto
  note s = cell_await_step(1)[OF 2(3) p(1,2) w1(1)]
  have "\<forall>p \<in> set rest. fst p < length (cells w1) \<and> callback_ok w1 (snd p) \<and> listens G \<Gamma> (fst p) (snd p)"
    using 2(5) step_okD(2)[OF s] by (auto intro: callback_ok_mono world_le_length)
  from 2(1)[OF w1(1) typed_await[OF 2(2,3) p(2,3) w1(1)] step_okD(1)[OF s] w1(2) this] show ?case .
qed simp

lemma track_setup:
  assumes t: "typed G \<Gamma> w" and inv: "world_inv w" and c: "a < length (cells w)" "cells w ! a = Tracking c" "tc_cell c = None"
    and s: "s < length (cells w)" and sub: "cell_type \<Gamma> s \<subseteq> cell_type \<Gamma> a"
  defines "w1 \<equiv> set_cell a (Tracking \<lparr>tc_cell = Some s, tc_callbacks = []\<rparr>) w"
  shows "typed G \<Gamma> w1" "world_inv w1"
    and "\<forall>p \<in> set (map (Pair s) (tc_callbacks c)). fst p < length (cells w1) \<and> callback_ok w1 (snd p) \<and> listens G \<Gamma> (fst p) (snd p)"
proof -
  show "typed G \<Gamma> w1" unfolding w1_def by (rule typed_set_cell[OF t]) (simp add: sub)
  have le: "world_le w w1" unfolding w1_def using c by (intro world_le_update) auto
  have "timers w1 = timers w" "io_source w1 = io_source w" by (simp_all add: set_cell_def w1_def)
  then show "world_inv w1"
    using world_invD(1)[OF inv] c(1) s unfolding w1_def
    by (intro step_okD(1)[OF step_okI[OF inv le[unfolded w1_def]]]) (auto simp: nth_list_update)
  have "\<forall>cb \<in> set (tc_callbacks c). callback_ok w cb \<and> listens G \<Gamma> s cb"
    using world_invD(2)[OF inv c(1)] typedD(1)[OF t c(1)] c(2,3) listens_sub[OF _ sub] by auto
  then show "\<forall>p \<in> set (map (Pair s) (tc_callbacks c)). fst p < length (cells w1) \<and> callback_ok w1 (snd p) \<and> listens G \<Gamma> (fst p) (snd p)"
    using s callback_ok_mono[OF le] by (auto simp: w1_def)
qed

lemma typed_track:
  assumes t: "typed G \<Gamma> w" and inv: "world_inv w" and a: "is_tracking w a" and s: "s < length (cells w)"
    and sub: "cell_type \<Gamma> s \<subseteq> cell_type \<Gamma> a" and r: "cell_track s a w = Some (b, w')"
  shows "typed G \<Gamma> w'"
proof -
  obtain c where c: "a < length (cells w)" "cells w ! a = Tracking c" using is_trackingE[OF a] .
  show ?thesis
  proof (cases "tc_cell c")
    case (Some u)
    then show ?thesis using cell_track_again[OF c(2) Some, of s] r t by simp
  next
    case None
    note pre = track_setup[OF t inv c None s sub]
    show ?thesis
      using typed_await_each[OF pre(1,2) cell_track_first(2)[OF c(2) None c(1) r, unfolded await_callbacks_each] pre(3)] .
  qed
qed

subsection \<open>More cells, more types\<close>

definition typing_grows :: "('f, 'a, 'os) world \<Rightarrow> 'a typing \<Rightarrow> 'a typing \<Rightarrow> bool" where
  "typing_grows w \<Gamma> \<Gamma>' \<longleftrightarrow> (\<forall>a < length (cells w). cell_type \<Gamma>' a = cell_type \<Gamma> a)
     \<and> (\<forall>x < length (all_contexts w). slot_types \<Gamma>' x = slot_types \<Gamma> x)
     \<and> (\<forall>x < length (any_contexts w). any_sure \<Gamma>' x = any_sure \<Gamma> x)"

lemma typing_grows_refl [simp]: "typing_grows w \<Gamma> \<Gamma>"
  by (simp add: typing_grows_def)

lemma typing_grows_trans: "typing_grows w \<Gamma> \<Gamma>' \<Longrightarrow> typing_grows w' \<Gamma>' \<Gamma>'' \<Longrightarrow> world_le w w' \<Longrightarrow> typing_grows w \<Gamma> \<Gamma>''"
  by (simp add: typing_grows_def world_le_def)

lemma typing_grows_cell: "typing_grows w \<Gamma> \<Gamma>' \<Longrightarrow> a < length (cells w) \<Longrightarrow> cell_type \<Gamma>' a = cell_type \<Gamma> a"
  by (simp add: typing_grows_def)

lemma cb_typed_ext: "callback_ok w cb \<Longrightarrow> typing_grows w \<Gamma> \<Gamma>' \<Longrightarrow> cb_typed G \<Gamma>' cb r = cb_typed G \<Gamma> cb r"
  by (cases cb; cases r) (auto simp: typing_grows_def is_write_once_def is_tracking_def)

lemma listens_ext:
  "callback_ok w cb \<Longrightarrow> a < length (cells w) \<Longrightarrow> typing_grows w \<Gamma> \<Gamma>' \<Longrightarrow> listens G \<Gamma>' a cb = listens G \<Gamma> a cb"
  by (simp add: listens_def cb_typed_ext typing_grows_cell)

lemma job_typed_ext: "job_ok w j \<Longrightarrow> typing_grows w \<Gamma> \<Gamma>' \<Longrightarrow> job_typed G \<Gamma>' j = job_typed G \<Gamma> j"
  by (cases j) (auto simp: cb_typed_ext typing_grows_cell is_write_once_def)

lemma cell_typed_ext:
  assumes "cell_ok w c" "a < length (cells w)" "typing_grows w \<Gamma> \<Gamma>'"
  shows "cell_typed G \<Gamma>' a c = cell_typed G \<Gamma> a c"
  using assms listens_ext[OF _ assms(2,3), of _ G]
  by (cases c) (auto simp: typing_grows_cell is_write_once_def split: option.splits)

lemma typed_ext:
  assumes t: "typed G \<Gamma> w" and inv: "world_inv w" and e: "typing_grows w \<Gamma> \<Gamma>'"
  shows "typed G \<Gamma>' w"
  unfolding typed_def
proof (intro conjI allI impI ballI)
  show "cell_typed G \<Gamma>' a (cells w ! a)" if "a < length (cells w)" for a
    using typedD(1)[OF t that] cell_typed_ext[OF world_invD(2)[OF inv that] that e] by simp
  show "job_typed G \<Gamma>' j" if "Some j \<in># jobs_left w" for j
    using typedD(2)[OF t that] world_invD(4)[OF inv that] job_typed_ext[OF _ e] by (simp add: fn_ok_def)
  show "job_typed G \<Gamma>' (snd p)" "job_callbacks (Some (snd p)) = {#}" if "p \<in># tps_dues (timers w)" for p
    using typedD(3)[OF t that] job_typed_ext[OF sources_invD(2)[OF inv that] e] by simp_all
  show "job_typed G \<Gamma>' (FinishRead (fst p) (snd p))" if "p \<in> set (in_flight_requests (io_source w))" for p
    using typedD(4)[OF t that] job_typed_ext[OF _ e, of "FinishRead (fst p) (snd p)"] sources_invD(3)[OF inv that] by simp
qed

end
