(* ===== verification/Result_Contexts.thy ===== *)
theory Result_Contexts
  imports Result_Types
begin

text \<open>
  The contexts that \<open>when_all\<close> and \<open>when_any\<close> share between their callbacks. A slot of a
  \<open>when_all\<close> is delivered at most once, and the slots filled hold values of their types. A
  \<open>when_any\<close> with a task that cannot fail keeps a callback that will be run on a value until
  its cell is filled, so its count of errors never reaches the number of its tasks.
\<close>

subsection \<open>Contexts of \<open>when_all\<close>\<close>

fun is_slot :: "address \<Rightarrow> nat \<Rightarrow> 'f callback \<Rightarrow> bool" where
  "is_slot x i (OnWhenAll y j u) \<longleftrightarrow> x = y \<and> i = j"
| "is_slot x i _ \<longleftrightarrow> False"

definition slot_count :: "address \<Rightarrow> nat \<Rightarrow> 'f callback multiset \<Rightarrow> nat" where
  "slot_count x i M = size (filter_mset (is_slot x i) M)"

text \<open>
  The slots that are filled hold values of their types and are not delivered again; the others
  are delivered at most once.
\<close>

definition context_typed :: "'a val set list \<Rightarrow> (nat \<Rightarrow> nat) \<Rightarrow> 'a when_all_context \<Rightarrow> bool" where
  "context_typed Ss cnt c \<longleftrightarrow> length (resolved_values c) = length Ss \<and> all_total_cells c = length Ss
     \<and> length Ss < size_max1 \<and> (\<forall>i. cnt i \<le> 1)
     \<and> (\<exists>D \<subseteq> {..<length Ss}. num_resolved_cells c = card D \<and> (\<forall>i \<in> D. resolved_values c ! i \<in> Ss ! i \<and> cnt i = 0))"

text \<open>The callbacks in \<open>M\<close> are those that are being run.\<close>

definition contexts_typed :: "'a typing \<Rightarrow> 'f callback multiset \<Rightarrow> ('f, 'a, 'os) world \<Rightarrow> bool" where
  "contexts_typed \<Gamma> M w \<longleftrightarrow> (\<forall>x < length (all_contexts w).
     context_typed (slot_types \<Gamma> x) (\<lambda>i. slot_count x i (M + callback_tokens w)) (all_contexts w ! x))"

lemma slot_count_simps [simp]:
  "slot_count x i {#} = 0" "slot_count x i (M + N) = slot_count x i M + slot_count x i N"
  "slot_count x i (add_mset cb M) = (if is_slot x i cb then 1 else 0) + slot_count x i M"
  by (simp_all add: slot_count_def)

lemma slot_count_0: "\<forall>cb \<in># M. \<not> is_slot x i cb \<Longrightarrow> slot_count x i M = 0"
  by (induction M) auto

lemma context_typed_mono: "context_typed Ss cnt c \<Longrightarrow> \<forall>i. cnt' i \<le> cnt i \<Longrightarrow> context_typed Ss cnt' c"
  unfolding context_typed_def by (metis le_0_eq le_trans)

lemma contexts_typed_mono:
  assumes "contexts_typed \<Gamma> M w" "all_contexts w' = all_contexts w"
    "\<forall>x i. slot_count x i (M' + callback_tokens w') \<le> slot_count x i (M + callback_tokens w)"
  shows "contexts_typed \<Gamma> M' w'"
  unfolding contexts_typed_def
proof (intro allI impI)
  fix x assume "x < length (all_contexts w')"
  then have "context_typed (slot_types \<Gamma> x) (\<lambda>i. slot_count x i (M + callback_tokens w)) (all_contexts w' ! x)"
    using assms(1,2) by (simp add: contexts_typed_def)
  then show "context_typed (slot_types \<Gamma> x) (\<lambda>i. slot_count x i (M' + callback_tokens w')) (all_contexts w' ! x)"
    by (rule context_typed_mono) (use assms(3) in blast)
qed

lemma contexts_typed_ext: "contexts_typed \<Gamma> M w \<Longrightarrow> typing_grows w \<Gamma> \<Gamma>' \<Longrightarrow> contexts_typed \<Gamma>' M w"
  by (simp add: contexts_typed_def typing_grows_def)

lemma tokens_ok:
  assumes inv: "world_inv w" and cb: "cb \<in># callback_tokens w"
  shows "callback_ok w cb"
proof -
  consider a where "a < length (cells w)" "cb \<in> set (cell_callbacks (cells w ! a))"
    | j where "j \<in># jobs_left w" "cb \<in># job_callbacks j"
    using cb by (auto simp: callback_tokens_def pending_def queued_def mem_sum_mset)
  then show ?thesis
  proof cases
    case (1 a)
    then show ?thesis using world_invD(2)[OF inv 1(1)] by (cases "cells w ! a") auto
  next
    case (2 j)
    then show ?thesis using world_invD(4)[OF inv 2(1)] by (cases j rule: job_callbacks.cases) (auto simp: fn_ok_def)
  qed
qed

lemma fresh_slots: "world_inv w \<Longrightarrow> slot_count (length (all_contexts w)) i (callback_tokens w) = 0"
proof (rule slot_count_0, intro ballI)
  fix cb assume "world_inv w" "cb \<in># callback_tokens w"
  from tokens_ok[OF this] show "\<not> is_slot (length (all_contexts w)) i cb" by (cases cb) auto
qed

subsection \<open>Contexts of \<open>when_any\<close>\<close>

definition error_free :: "'a typing \<Rightarrow> address \<Rightarrow> bool" where
  "error_free \<Gamma> a \<longleftrightarrow> (\<forall>e. Err e \<notin> cell_type \<Gamma> a)"

definition value_job :: "address \<Rightarrow> address \<Rightarrow> ('f, 'a) job fn \<Rightarrow> bool" where
  "value_job u x j \<longleftrightarrow> (\<exists>v. j = Some (RunCallback (OnWhenAny u x) (Value v)))"

definition sure_token :: "'a typing \<Rightarrow> address \<Rightarrow> address \<Rightarrow> ('f, 'a, 'os) world \<Rightarrow> bool" where
  "sure_token \<Gamma> u x w \<longleftrightarrow> (\<exists>a < length (cells w). error_free \<Gamma> a \<and> OnWhenAny u x \<in> set (cell_callbacks (cells w ! a)))
     \<or> (\<exists>j. j \<in># jobs_left w \<and> value_job u x j)"

definition sure_le :: "'a typing \<Rightarrow> ('f, 'a, 'os) world \<Rightarrow> ('f, 'a, 'os) world \<Rightarrow> bool" where
  "sure_le \<Gamma> w w' \<longleftrightarrow> (\<forall>u x. sure_token \<Gamma> u x w \<longrightarrow> sure_token \<Gamma> u x w')"

lemma sure_le_refl [simp]: "sure_le \<Gamma> w w"
  by (simp add: sure_le_def)

lemma sure_le_trans: "sure_le \<Gamma> u v \<Longrightarrow> sure_le \<Gamma> v w \<Longrightarrow> sure_le \<Gamma> u w"
  by (simp add: sure_le_def)

lemma sure_le_frame:
  assumes "\<And>a. a < length (cells w) \<Longrightarrow> a < length (cells w') \<and> set (cell_callbacks (cells w ! a)) \<subseteq> set (cell_callbacks (cells w' ! a))"
    and "\<And>j. j \<in># jobs_left w \<Longrightarrow> j \<in># jobs_left w'"
  shows "sure_le \<Gamma> w w'"
  unfolding sure_le_def
proof (intro allI impI)
  fix u x assume "sure_token \<Gamma> u x w"
  then consider a where "a < length (cells w)" "error_free \<Gamma> a" "OnWhenAny u x \<in> set (cell_callbacks (cells w ! a))"
    | j where "j \<in># jobs_left w" "value_job u x j" by (auto simp: sure_token_def)
  then show "sure_token \<Gamma> u x w'"
  proof cases
    case (1 a)
    then show ?thesis using assms(1)[OF 1(1)] unfolding sure_token_def by blast
  next
    case (2 j)
    then show ?thesis using assms(2)[OF 2(1)] unfolding sure_token_def by blast
  qed
qed

lemma sure_write:
  assumes p: "pool_inv (pool w)" "ctx_ok (pool w) ctx" and a: "is_write_once w a" and r: "r \<in> cell_type \<Gamma> a"
  shows "sure_le \<Gamma> w (snd (write_result_to_value ctx r a w))"
proof -
  obtain c where a: "a < length (cells w)" "cells w ! a = WriteOnce c" using is_write_onceE[OF a] .
  show ?thesis
  proof (cases "wo_value c")
    case None
    note wr = write_empty[OF p a None, of r]
    let ?w = "snd (write_result_to_value ctx r a w)"
    show ?thesis
      unfolding sure_le_def
    proof (intro allI impI)
      fix u x assume "sure_token \<Gamma> u x w"
      then consider b where "b < length (cells w)" "error_free \<Gamma> b" "OnWhenAny u x \<in> set (cell_callbacks (cells w ! b))"
        | j where "j \<in># jobs_left w" "value_job u x j" by (auto simp: sure_token_def)
      then show "sure_token \<Gamma> u x ?w"
      proof cases
        case (1 b)
        show ?thesis
        proof (cases "b = a")
          case True
          then obtain v where "r = Value v" using r 1(2) by (cases r) (auto simp: error_free_def)
          then have "Some (RunCallback (OnWhenAny u x) (Value v)) \<in># jobs_left ?w" using 1(3) wr(5) True a(2) by auto
          then show ?thesis unfolding sure_token_def value_job_def by blast
        next
          case False
          then have "b < length (cells ?w)" "cells ?w ! b = cells w ! b" using wr(2) 1(1) by auto
          then show ?thesis using 1 unfolding sure_token_def by metis
        qed
      next
        case (2 j)
        then have "j \<in># jobs_left ?w" using wr(5) by simp
        then show ?thesis using 2 unfolding sure_token_def by blast
      qed
    qed
  qed (use write_filled[OF a(2)] in simp)
qed

lemma sure_park:
  assumes p: "pool_inv (pool w)" and e: "e < length (cells w)"
  shows "sure_le \<Gamma> w (park e cb w)"
  using e queue_job_pool(2)[OF p ctx_empty_ok]
  by (intro sure_le_frame) (auto simp: park_def write_once_await_def set_cell_def nth_update_if queue_job_frame
      split: cell.splits option.splits)

lemma park_sure:
  assumes t: "typed G \<Gamma> w" and p: "pool_inv (pool w)" and e: "e < length (cells w)" "link w e = None" "error_free \<Gamma> e"
  shows "sure_token \<Gamma> u x (park e (OnWhenAny u x) w)"
proof -
  let ?cb = "OnWhenAny u x" and ?w = "park e (OnWhenAny u x) w"
  consider r c where "cells w ! e = WriteOnce c" "wo_value c = Some r" | "?cb \<in> set (cell_callbacks (cells ?w ! e))" "e < length (cells ?w)"
  proof (cases "cells w ! e")
    case (WriteOnce c)
    then show ?thesis using that e(1) by (cases "wo_value c") (auto simp: park_def write_once_await_def set_cell_def)
  qed (use that e(1,2) in \<open>auto simp: park_def set_cell_def link_def\<close>)
  then show ?thesis
  proof cases
    case (1 r c)
    then have "r \<in> cell_type \<Gamma> e" using typedD(1)[OF t e(1)] by simp
    then obtain v where "r = Value v" using e(3) by (cases r) (auto simp: error_free_def)
    then have "Some (RunCallback ?cb (Value v)) \<in># jobs_left ?w"
      using 1 queue_job_pool(2)[OF p ctx_empty_ok, of "RunCallback ?cb (Value v)"] by (simp add: park_def write_once_await_def)
    then show ?thesis unfolding sure_token_def value_job_def by blast
  next
    case 2
    then show ?thesis using e(3) unfolding sure_token_def by blast
  qed
qed

lemma sure_await:
  assumes t: "typed G \<Gamma> w" and inv: "world_inv w" and a: "a < length (cells w)" and r: "cell_await a cb w = Some w'"
  shows "sure_le \<Gamma> w w'" and "cb = OnWhenAny u x \<Longrightarrow> error_free \<Gamma> a \<Longrightarrow> sure_token \<Gamma> u x w'"
proof -
  obtain e where e: "chain (link w) a e" "w' = park e cb w" using cell_await_Some[OF r] by blast
  note ok = world_invD(3)[OF inv] and p = world_invD(1)[OF inv]
  note re = chain_in_range[OF e(1) ok a]
  show "sure_le \<Gamma> w w'" using sure_park[OF p re] by (simp add: e(2))
  assume cb: "cb = OnWhenAny u x" and ef: "error_free \<Gamma> a"
  have "error_free \<Gamma> e" using ef chain_typed[OF e(1) t ok a] by (auto simp: error_free_def)
  from park_sure[OF t p re chain_end[OF e(1)] this] show "sure_token \<Gamma> u x w'" by (simp add: e(2) cb)
qed

lemma sure_await_each:
  assumes "typed G \<Gamma> w" "world_inv w" "await_each ps w = Some w'"
    "\<forall>p \<in> set ps. fst p < length (cells w) \<and> callback_ok w (snd p) \<and> listens G \<Gamma> (fst p) (snd p)"
  shows "sure_le \<Gamma> w w' \<and> (\<forall>a u x. (a, OnWhenAny u x) \<in> set ps \<and> error_free \<Gamma> a \<longrightarrow> sure_token \<Gamma> u x w')"
  using assms
proof (induction ps w rule: await_each.induct)
  case (2 a cb rest w)
  then obtain w1 where w1: "cell_await a cb w = Some w1" "await_each rest w1 = Some w'"
    by (auto simp: bind_eq_Some_conv)
  have p: "callback_ok w cb" "a < length (cells w)" "listens G \<Gamma> a cb" using 2(5) by auto
  note s = cell_await_step(1)[OF 2(3) p(1,2) w1(1)]
  have "\<forall>p \<in> set rest. fst p < length (cells w1) \<and> callback_ok w1 (snd p) \<and> listens G \<Gamma> (fst p) (snd p)"
    using 2(5) step_okD(2)[OF s] by (auto intro: callback_ok_mono world_le_length)
  note IH = 2(1)[OF w1(1) typed_await[OF 2(2,3) p(2,3) w1(1)] step_okD(1)[OF s] w1(2) this]
  have "sure_le \<Gamma> w w'" using sure_await(1)[OF 2(2,3) p(2) w1(1)] IH by (blast intro: sure_le_trans)
  moreover have "sure_token \<Gamma> u x w'" if "(b, OnWhenAny u x) \<in> set ((a, cb) # rest)" "error_free \<Gamma> b" for b u x
    using that sure_await(2)[OF 2(2,3) p(2) w1(1), of u x] IH by (auto simp: sure_le_def)
  ultimately show ?case by blast
qed simp

lemma sure_track:
  assumes t: "typed G \<Gamma> w" and inv: "world_inv w" and a: "is_tracking w a" and s: "s < length (cells w)"
    and sub: "cell_type \<Gamma> s \<subseteq> cell_type \<Gamma> a" and r: "cell_track s a w = Some (b, w')"
  shows "sure_le \<Gamma> w w'"
proof -
  obtain c where c: "a < length (cells w)" "cells w ! a = Tracking c" using is_trackingE[OF a] .
  show ?thesis
  proof (cases "tc_cell c")
    case (Some u)
    then show ?thesis using cell_track_again[OF c(2) Some, of s] r by simp
  next
    case None
    note pre = track_setup[OF t inv c None s sub]
    let ?w1 = "set_cell a (Tracking \<lparr>tc_cell = Some s, tc_callbacks = []\<rparr>) w"
    note each = sure_await_each[OF pre(1,2) cell_track_first(2)[OF c(2) None c(1) r, unfolded await_callbacks_each] pre(3)]
    show ?thesis
      unfolding sure_le_def
    proof (intro allI impI)
      fix u x assume "sure_token \<Gamma> u x w"
      then consider d where "d < length (cells w)" "error_free \<Gamma> d" "OnWhenAny u x \<in> set (cell_callbacks (cells w ! d))"
        | j where "j \<in># jobs_left w" "value_job u x j" by (auto simp: sure_token_def)
      then show "sure_token \<Gamma> u x w'"
      proof cases
        case (1 d)
        show ?thesis
        proof (cases "d = a")
          case True
          then have "(s, OnWhenAny u x) \<in> set (map (Pair s) (tc_callbacks c))" "error_free \<Gamma> s"
            using 1 c(2) sub by (auto simp: error_free_def)
          then show ?thesis using each by blast
        next
          case False
          then have "d < length (cells ?w1)" "cells ?w1 ! d = cells w ! d" using 1(1) by (simp_all add: set_cell_def)
          then have "sure_token \<Gamma> u x ?w1" using 1 unfolding sure_token_def by metis
          then show ?thesis using each by (simp add: sure_le_def)
        qed
      next
        case (2 j)
        then have "sure_token \<Gamma> u x ?w1" unfolding sure_token_def by (auto simp: set_cell_def)
        then show ?thesis using each by (simp add: sure_le_def)
      qed
    qed
  qed
qed

fun is_any :: "address \<Rightarrow> 'f callback \<Rightarrow> bool" where
  "is_any x (OnWhenAny u y) \<longleftrightarrow> x = y"
| "is_any x _ \<longleftrightarrow> False"

definition any_count :: "address \<Rightarrow> 'f callback multiset \<Rightarrow> nat" where
  "any_count x M = size (filter_mset (is_any x) M)"

lemma any_count_simps [simp]:
  "any_count x {#} = 0" "any_count x (M + N) = any_count x M + any_count x N"
  "any_count x (add_mset cb M) = (if is_any x cb then 1 else 0) + any_count x M"
  by (simp_all add: any_count_def)

lemma any_count_0: "\<forall>cb \<in># M. \<not> is_any x cb \<Longrightarrow> any_count x M = 0"
  by (induction M) auto

lemma any_count_replicate: "any_count y (replicate_mset n (OnWhenAny u x)) = (if y = x then n else 0)"
  by (induction n) auto

text \<open>The job \<open>h\<close> is the one that is being run. The errors counted and those that may come are
  no more than the tasks, and one of those that may come brings a value instead.\<close>

definition any_typed ::
  "'a typing \<Rightarrow> ('f, 'a) job fn \<Rightarrow> ('f, 'a, 'os) world \<Rightarrow> address \<Rightarrow> address \<Rightarrow> bool"
where
  "any_typed \<Gamma> h w x u \<longleftrightarrow> is_write_once w u \<and> (end_value w u \<noteq> None \<or>
     (sure_token \<Gamma> u x w \<or> value_job u x h)
     \<and> num_erroneous_cells (any_contexts w ! x) + any_count x (job_callbacks h + callback_tokens w)
         \<le> any_total_cells (any_contexts w ! x)
     \<and> any_total_cells (any_contexts w ! x) < size_max1)"

definition anys_typed :: "'a typing \<Rightarrow> ('f, 'a) job fn \<Rightarrow> ('f, 'a, 'os) world \<Rightarrow> bool" where
  "anys_typed \<Gamma> h w \<longleftrightarrow> (\<forall>x < length (any_contexts w). \<forall>u. any_sure \<Gamma> x = Some u \<longrightarrow> any_typed \<Gamma> h w x u)"

lemma end_value_le: "world_le w w' \<Longrightarrow> is_write_once w u \<Longrightarrow> end_value w u = Some r \<Longrightarrow> end_value w' u = Some r"
  by (elim is_write_onceE) (cases "cells w' ! u"; force simp: world_le_def end_value_def)

lemma any_typed_mono:
  assumes "any_typed \<Gamma> h w x u" "world_le w w'"
    and "any_contexts w' ! x = any_contexts w ! x"
    and "any_count x (job_callbacks h' + callback_tokens w') \<le> any_count x (job_callbacks h + callback_tokens w)"
    and "sure_token \<Gamma> u x w \<or> value_job u x h \<Longrightarrow> sure_token \<Gamma> u x w' \<or> value_job u x h'"
  shows "any_typed \<Gamma> h' w' x u"
proof -
  have "is_write_once w u" using assms(1) by (simp add: any_typed_def)
  note wo = is_write_once_mono[OF assms(2) this] and filled = end_value_le[OF assms(2) this]
  from assms(1) show ?thesis unfolding any_typed_def using wo filled assms(3-5) by auto
qed

lemma anys_typed_mono:
  assumes "anys_typed \<Gamma> h w" "world_le w w'" "any_contexts w' = any_contexts w"
    and "\<forall>x. any_count x (job_callbacks h' + callback_tokens w') \<le> any_count x (job_callbacks h + callback_tokens w)"
    and "\<And>u x. sure_token \<Gamma> u x w \<or> value_job u x h \<Longrightarrow> sure_token \<Gamma> u x w' \<or> value_job u x h'"
  shows "anys_typed \<Gamma> h' w'"
  unfolding anys_typed_def
proof (intro allI impI)
  fix x u assume "x < length (any_contexts w')" "any_sure \<Gamma> x = Some u"
  then have "any_typed \<Gamma> h w x u" using assms(1,3) by (simp add: anys_typed_def)
  then show "any_typed \<Gamma> h' w' x u" using assms by (intro any_typed_mono[OF _ assms(2)]) auto
qed

lemma sure_token_ext: "typing_grows w \<Gamma> \<Gamma>' \<Longrightarrow> sure_token \<Gamma>' u x w = sure_token \<Gamma> u x w"
  unfolding sure_token_def error_free_def by (metis typing_grows_cell)

lemma anys_typed_ext: "anys_typed \<Gamma> h w \<Longrightarrow> typing_grows w \<Gamma> \<Gamma>' \<Longrightarrow> anys_typed \<Gamma>' h w"
  unfolding anys_typed_def any_typed_def by (simp add: sure_token_ext) (simp add: typing_grows_def)

lemma fresh_any: "world_inv w \<Longrightarrow> any_count (length (any_contexts w)) (callback_tokens w) = 0"
proof (rule any_count_0, intro ballI)
  fix cb assume "world_inv w" "cb \<in># callback_tokens w"
  from tokens_ok[OF this] show "\<not> is_any (length (any_contexts w)) cb" by (cases cb) auto
qed

text \<open>A write on the cell of a sure \<open>when_any\<close> settles it.\<close>

lemma any_typed_filled: "is_write_once w u \<Longrightarrow> end_value w u \<noteq> None \<Longrightarrow> any_typed \<Gamma> h w x u"
  by (simp add: any_typed_def)

end
