(* ===== verification/Result_Clients.thy ===== *)
theory Result_Clients
  imports Result_Contexts
begin

text \<open>
  Well-typed worlds, and the calls of a client that keep them so: each call only has to give the
  cells it makes types that fit the types of the tasks and functions it is given.
\<close>

subsection \<open>Well-typed worlds and client calls\<close>

definition well_typed :: "('f, 'a) signature \<Rightarrow> 'a typing \<Rightarrow> ('f, 'a, 'os) world \<Rightarrow> bool" where
  "well_typed G \<Gamma> w \<longleftrightarrow> world_inv w \<and> typed G \<Gamma> w \<and> contexts_typed \<Gamma> {#} w
     \<and> anys_typed \<Gamma> None w"

lemma well_typedD:
  assumes "well_typed G \<Gamma> w"
  shows "world_inv w" "typed G \<Gamma> w" "contexts_typed \<Gamma> {#} w" "pool_inv (pool w)" "cells_ok w" "anys_typed \<Gamma> None w"
  using assms world_invD[of w] by (simp_all add: well_typed_def)

lemma well_typedI:
  assumes "well_typed G \<Gamma> w" "step_ok w w'" "typed G \<Gamma> w'"
    and "any_contexts w' = any_contexts w" "all_contexts w' = all_contexts w"
    and "callback_tokens w' = M + callback_tokens w" "\<forall>x i. slot_count x i M = 0" "\<forall>x. any_count x M = 0"
    and "sure_le \<Gamma> w w'"
  shows "well_typed G \<Gamma> w'"
proof -
  have "anys_typed \<Gamma> None w'"
    using assms(6,8,9) by (intro anys_typed_mono[OF well_typedD(6)[OF assms(1)] step_okD(2)[OF assms(2)] assms(4)])
      (auto simp: sure_le_def value_job_def)
  moreover have "contexts_typed \<Gamma> {#} w'"
    using assms(6,7) by (intro contexts_typed_mono[OF well_typedD(3)[OF assms(1)] assms(5)]) simp
  ultimately show ?thesis using assms(2,3) by (simp add: well_typed_def step_okD(1))
qed

lemma sure_new_cell: "sure_le \<Gamma> w (snd (new_cell c w))"
  by (rule sure_le_frame) (simp_all add: new_cell_def nth_append)

lemma sure_same: "cells w' = cells w \<Longrightarrow> jobs_left w' = jobs_left w \<Longrightarrow> sure_le \<Gamma> w w'"
  by (rule sure_le_frame) simp_all

lemma sure_queue: "pool_inv (pool w) \<Longrightarrow> ctx_ok (pool w) ctx \<Longrightarrow> sure_le \<Gamma> w (queue_job ctx j w)"
  by (rule sure_le_frame) (simp_all add: queue_job_pool(2))

lemma wt_write_once:
  assumes wt: "well_typed G \<Gamma> w" and n: "write_once_new w = (a, w')"
  shows "well_typed G \<Gamma> w'" "any_contexts w' = any_contexts w" "all_contexts w' = all_contexts w" "step_ok w w'"
proof -
  let ?c = "WriteOnce \<lparr>wo_value = None, wo_callbacks = []\<rparr> :: ('a, 'b) cell"
  note s = write_once_new_step[OF well_typedD(1)[OF wt] n]
  have "typed G \<Gamma> w'" "sure_le \<Gamma> w w'"
    using typed_new_cell[OF well_typedD(2)[OF wt], of ?c] sure_new_cell[of \<Gamma> w ?c] n
    by (simp_all add: write_once_new_def)
  then show "well_typed G \<Gamma> w'"
    using s(4,7) by (intro well_typedI[OF wt s(1), of "{#}"]) (simp_all add: same_rest_def)
  show "any_contexts w' = any_contexts w" "all_contexts w' = all_contexts w" "step_ok w w'"
    using s(1,7) by (simp_all add: same_rest_def)
qed

lemma wt_tracking:
  assumes wt: "well_typed G \<Gamma> w" and n: "tracking_new w = (a, w')"
  shows "well_typed G \<Gamma> w'"
proof -
  let ?c = "Tracking \<lparr>tc_cell = None, tc_callbacks = []\<rparr> :: ('a, 'b) cell"
  note s = tracking_new_step[OF well_typedD(1)[OF wt] n]
  have "typed G \<Gamma> w'" "sure_le \<Gamma> w w'"
    using typed_new_cell[OF well_typedD(2)[OF wt], of ?c] sure_new_cell[of \<Gamma> w ?c] n
    by (simp_all add: tracking_new_def)
  then show "well_typed G \<Gamma> w'"
    using s(4,7) by (intro well_typedI[OF wt s(1), of "{#}"]) (simp_all add: same_rest_def)
qed

lemma wt_await:
  assumes wt: "well_typed G \<Gamma> w" and a: "a < length (cells w)" and cb: "callback_ok w cb" "listens G \<Gamma> a cb"
    "\<forall>x i. \<not> is_slot x i cb" "\<forall>x. \<not> is_any x cb" and r: "cell_await a cb w = Some w'"
  shows "well_typed G \<Gamma> w'"
proof -
  note s = cell_await_step[OF well_typedD(1)[OF wt] cb(1) a r]
  have "same_rest w w'" using cell_await_Some[OF r] park_same_rest[of w _ cb] by auto
  then show ?thesis
    using s(2) cb(3,4) typed_await[OF well_typedD(2,1)[OF wt] a cb(2) r] sure_await(1)[OF well_typedD(2,1)[OF wt] a r]
    by (intro well_typedI[OF wt s(1), of "{#cb#}"]) (simp_all add: same_rest_def)
qed

lemma wt_write:
  assumes wt: "well_typed G \<Gamma> w" and ctx: "ctx_ok (pool w) ctx" and a: "is_write_once w a" "r \<in> cell_type \<Gamma> a"
  shows "well_typed G \<Gamma> (snd (write_result_to_value ctx r a w))"
  using write_result_step[OF well_typedD(1)[OF wt] ctx a(1), of r] write_contexts[OF well_typedD(4)[OF wt] ctx a(1), of r]
    typed_write[OF well_typedD(2,4)[OF wt] ctx a] sure_write[OF well_typedD(4)[OF wt] ctx a]
  by (intro well_typedI[OF wt, of _ "{#}"]) simp_all

lemma wt_create:
  assumes wt: "well_typed G \<Gamma> w" and d: "call_dom G f" and f: "Value ` call_type G f \<subseteq> cell_type \<Gamma> (length (cells w))"
  shows "well_typed G \<Gamma> (snd (task_new f w))"
proof -
  obtain a w1 where w1: "write_once_new w = (a, w1)" by (cases "write_once_new w")
  note n = write_once_new_step[OF well_typedD(1)[OF wt] w1]
  note wt1 = wt_write_once(1)[OF wt w1]
  let ?w2 = "queue_job ctx_empty (RunTask a f) w1"
  have "step_ok w1 ?w2" using n by (intro queue_job_step) (auto dest: step_okD)
  moreover have "callback_tokens ?w2 = {#} + callback_tokens w1"
    using queue_job_tokens[OF well_typedD(1)[OF wt1] ctx_empty_ok, of "RunTask a f"] by simp
  moreover have "typed G \<Gamma> ?w2"
    using typed_queue[OF well_typedD(2,4)[OF wt1] ctx_empty_ok, of "RunTask a f"] d f n(3) by simp
  moreover have "any_contexts ?w2 = any_contexts w1" "all_contexts ?w2 = all_contexts w1" by (simp_all add: queue_job_def)
  moreover have "sure_le \<Gamma> w1 ?w2" by (rule sure_queue[OF well_typedD(4)[OF wt1] ctx_empty_ok])
  ultimately have "well_typed G \<Gamma> ?w2" using well_typedI[OF wt1, of ?w2 "{#}"] by simp
  then show ?thesis by (simp add: task_new_def w1)
qed

lemma wt_map:
  assumes wt: "well_typed G \<Gamma> w" and ok: "task_ok w t" and r: "task_map f t w = Some (t', w')"
    and l: "listens G \<Gamma> (task_cell t) (OnMap (length (cells w)) f)"
  shows "well_typed G \<Gamma> w'"
proof -
  obtain a w1 where w1: "write_once_new w = (a, w1)" by (cases "write_once_new w")
  note n = write_once_new_step[OF well_typedD(1)[OF wt] w1]
  have aw: "cell_await (task_cell t) (OnMap a f) w1 = Some w'" using r w1 by (auto simp: task_map_def)
  have "callback_ok w1 (OnMap a f)" "task_cell t < length (cells w1)"
    using n(2) task_ok_mono[OF step_okD(2)[OF n(1)] ok] by (auto simp: task_ok_def)
  from wt_await[OF wt_write_once(1)[OF wt w1] this(2,1) _ _ _ aw] l n(3) show ?thesis by simp
qed

lemma wt_bind:
  assumes wt: "well_typed G \<Gamma> w" and ok: "task_ok w t" and r: "task_bind f t w = Some (t', w')"
    and l: "listens G \<Gamma> (task_cell t) (OnBind (length (cells w)) (Suc (length (cells w))) f)"
  shows "well_typed G \<Gamma> w'"
proof -
  obtain a w1 where w1: "tracking_new w = (a, w1)" by (cases "tracking_new w")
  obtain e w2 where w2: "write_once_new w1 = (e, w2)" by (cases "write_once_new w1")
  note n1 = tracking_new_step[OF well_typedD(1)[OF wt] w1]
  note wt1 = wt_tracking[OF wt w1]
  note n2 = write_once_new_step[OF well_typedD(1)[OF wt1] w2]
  have aw: "cell_await (task_cell t) (OnBind a e f) w2 = Some w'" using r w1 w2 by (auto simp: task_bind_def)
  have "callback_ok w2 (OnBind a e f)" "task_cell t < length (cells w2)"
    using is_tracking_mono[OF step_okD(2)[OF n2(1)] n1(2)] n2(2)
      task_ok_mono[OF step_okD(2)[OF step_ok_trans[OF n1(1) n2(1)]] ok] by (auto simp: task_ok_def)
  from wt_await[OF wt_write_once(1)[OF wt1 w2] this(2,1) _ _ _ aw] l n1(3,5) n2(3) show ?thesis by simp
qed

lemma wt_when_any:
  assumes wt: "well_typed G \<Gamma> w" and cs: "\<forall>c \<in> set cs. c < length (cells w)" and r: "when_any_new cs w = Some (a, w')"
    and l: "\<forall>c \<in> set cs. listens G \<Gamma> c (OnWhenAny (length (cells w)) (length (any_contexts w)))"
    and a: "cell_type \<Gamma> (length (cells w)) \<subseteq> cell_type \<Gamma> a"
    and sure: "any_sure \<Gamma> (length (any_contexts w)) \<noteq> None \<longrightarrow> any_sure \<Gamma> (length (any_contexts w)) = Some (length (cells w))
      \<and> (\<exists>c \<in> set cs. error_free \<Gamma> c) \<and> length cs < size_max1"
  shows "well_typed G \<Gamma> w'"
proof -
  obtain u w1 where w1: "write_once_new w = (u, w1)" by (cases "write_once_new w")
  note n = write_once_new_step[OF well_typedD(1)[OF wt] w1]
  note wt1 = wt_write_once(1)[OF wt w1]
  let ?c = "\<lparr>num_erroneous_cells = 0, any_total_cells = length cs\<rparr>"
  define w2 where "w2 = w1\<lparr>any_contexts := any_contexts w1 @ [?c]\<rparr>"
  let ?x = "length (any_contexts w1)"
  obtain w3 where w3: "await_each (map (\<lambda>c. (c, OnWhenAny u ?x)) cs) w2 = Some w3"
    and a': "(a, w') = new_cell (WhenAny u cs) w3"
    using r w1 by (auto simp: when_any_new_def w2_def)
  have x: "?x = length (any_contexts w)" using n(7) by (simp add: same_rest_def)
  have t2: "typed G \<Gamma> w2" using well_typedD(2)[OF wt1] by (simp add: typed_def w2_def)
  have i2: "world_inv w2" using contexts_step(1)[OF well_typedD(1)[OF wt1], of w2] by (auto simp: w2_def step_ok_def)
  have "is_write_once w2 u" using n(2) by (simp add: is_write_once_def w2_def)
  then have ps: "\<forall>p \<in> set (map (\<lambda>c. (c, OnWhenAny u ?x)) cs). fst p < length (cells w2) \<and> callback_ok w2 (snd p) \<and> listens G \<Gamma> (fst p) (snd p)"
    using cs n(3,5) l x by (auto simp: w2_def)
  from typed_await_each[OF t2 i2 w3 this] have t3: "typed G \<Gamma> w3" .
  note each = sure_await_each[OF t2 i2 w3 ps]
  have "a = length (cells w3)" using a' by (simp add: new_cell_def)
  then have "typed G \<Gamma> (snd (new_cell (WhenAny u cs) w3))" using a n(3) by (intro typed_new_cell[OF t3]) simp
  then have t: "typed G \<Gamma> w'" using a' by (metis snd_conv)
  have s3: "sure_le \<Gamma> w3 w'" using sure_new_cell[of \<Gamma> w3 "WhenAny u cs"] a' by (metis snd_conv)
  have "sure_le \<Gamma> w w1" using sure_new_cell[of \<Gamma> w] w1 by (metis snd_conv write_once_new_def)
  moreover have "sure_le \<Gamma> w1 w2" by (rule sure_same) (simp_all add: w2_def)
  ultimately have le: "sure_le \<Gamma> w w'" using each s3 by (blast intro: sure_le_trans)
  have "\<forall>p \<in> set (map (\<lambda>c. (c, OnWhenAny u ?x)) cs). fst p < length (cells w2) \<and> callback_ok w2 (snd p)" using ps by blast
  from await_each_step[OF i2 this w3] have s23: "step_ok w2 w3" by blast
  have "world_le w3 w'" using a' by (auto simp: world_le_def new_cell_def nth_append)
  then have w2_le: "world_le w2 w'" using step_okD(2)[OF s23] by (rule world_le_trans[rotated])
  have "all_contexts w' = all_contexts w3" "any_contexts w' = any_contexts w3" using a' by (simp_all add: new_cell_def)
  then have ctx: "all_contexts w' = all_contexts w" "any_contexts w' = any_contexts w @ [?c]"
    using await_each_same_rest[OF w3] n(7) by (simp_all add: same_rest_def w2_def)
  note s = when_any_new_step[OF well_typedD(1)[OF wt] cs r]
  have "contexts_typed \<Gamma> {#} w'"
    using s(3) by (intro contexts_typed_mono[OF well_typedD(3)[OF wt] ctx(1)])
      (auto intro!: slot_count_0 split: if_splits)
  moreover have "anys_typed \<Gamma> None w'"
    unfolding anys_typed_def
  proof (intro allI impI)
    fix y v assume y: "y < length (any_contexts w')" and v: "any_sure \<Gamma> y = Some v"
    have new: "any_count y (callback_tokens w') = (if y = length (any_contexts w) then length cs else 0) + any_count y (callback_tokens w)"
      by (simp add: s(3) any_count_replicate)
    from y consider "y < length (any_contexts w)" | "y = length (any_contexts w)" using ctx(2) by fastforce
    then show "any_typed \<Gamma> None w' y v"
    proof cases
      case 1
      then have "any_typed \<Gamma> None w y v" using well_typedD(6)[OF wt] v by (simp add: anys_typed_def)
      then show ?thesis
      proof (rule any_typed_mono[OF _ step_okD(2)[OF s(1)]])
        show "any_contexts w' ! y = any_contexts w ! y" using 1 by (simp add: ctx(2) nth_append)
        show "any_count y (job_callbacks None + callback_tokens w') \<le> any_count y (job_callbacks None + callback_tokens w)"
          using new 1 by simp
        show "sure_token \<Gamma> v y w' \<or> value_job v y None" if "sure_token \<Gamma> v y w \<or> value_job v y None"
          using that le by (auto simp: sure_le_def value_job_def)
      qed
    next
      case 2
      then have sure': "any_sure \<Gamma> (length (any_contexts w)) = Some v" using v by simp
      then have u: "v = u" "length cs < size_max1" using sure n(3) by simp_all
      obtain c where c: "c \<in> set cs" "error_free \<Gamma> c" using sure sure' by blast
      have "(c, OnWhenAny u ?x) \<in> set (map (\<lambda>c. (c, OnWhenAny u ?x)) cs)" using c(1) by simp
      then have "sure_token \<Gamma> u ?x w3" using each c(2) by blast
      then have "sure_token \<Gamma> u y w'" using s3 x 2 by (simp add: sure_le_def)
      moreover have "is_write_once w' u"
        using is_write_once_mono[OF w2_le] \<open>is_write_once w2 u\<close> by blast
      moreover have "any_count y (callback_tokens w') = length cs" using new fresh_any[OF well_typedD(1)[OF wt]] 2 by simp
      ultimately show ?thesis using u 2 by (simp add: any_typed_def ctx(2))
    qed
  qed
  ultimately show ?thesis using t s(1) by (simp add: well_typed_def step_okD(1))
qed

lemma slot_count_slots:
  "slot_count y j (mset (map (\<lambda>i. OnWhenAll x i u) [0..<n])) = (if y = x \<and> j < n then 1 else 0)"
  by (induction n) (auto simp: less_Suc_eq)

lemma wt_when_all:
  assumes wt: "well_typed G \<Gamma> w" and cs: "\<forall>c \<in> set cs. c < length (cells w)" and r: "when_all_new cs w = Some (a, w')"
    and l: "\<forall>i < length cs. listens G \<Gamma> (cs ! i) (OnWhenAll (length (all_contexts w)) i (length (cells w)))"
    and a: "cell_type \<Gamma> (length (cells w)) \<subseteq> cell_type \<Gamma> a"
    and n: "length (slot_types \<Gamma> (length (all_contexts w))) = length cs" "length cs < size_max1"
  shows "well_typed G \<Gamma> w'"
proof -
  obtain u w1 where w1: "write_once_new w = (u, w1)" by (cases "write_once_new w")
  note s1 = write_once_new_step[OF well_typedD(1)[OF wt] w1]
  note wt1 = wt_write_once(1)[OF wt w1]
  let ?c = "\<lparr>resolved_values = replicate (length cs) DefaultInit, num_resolved_cells = 0, all_total_cells = length cs\<rparr>"
  define w2 where "w2 = w1\<lparr>all_contexts := all_contexts w1 @ [?c]\<rparr>"
  let ?x = "length (all_contexts w1)"
  let ?ps = "map (\<lambda>i. (cs ! i, OnWhenAll ?x i u)) [0..<length cs]"
  obtain w3 where w3: "await_each ?ps w2 = Some w3" and a': "(a, w') = new_cell (WhenAll u cs) w3"
    using r w1 by (auto simp: when_all_new_def w2_def)
  have x: "?x = length (all_contexts w)" using s1(7) by (simp add: same_rest_def)
  have t2: "typed G \<Gamma> w2" using well_typedD(2)[OF wt1] by (simp add: typed_def w2_def)
  have i2: "world_inv w2" using contexts_step(1)[OF well_typedD(1)[OF wt1], of w2] by (auto simp: w2_def step_ok_def)
  have "is_write_once w2 u" using s1(2) by (simp add: is_write_once_def w2_def)
  then have ps: "\<forall>p \<in> set ?ps. fst p < length (cells w2) \<and> callback_ok w2 (snd p) \<and> listens G \<Gamma> (fst p) (snd p)"
    using cs s1(3,5) l x by (auto simp: w2_def less_SucI)
  from typed_await_each[OF t2 i2 w3 this] have t3: "typed G \<Gamma> w3" .
  have "a = length (cells w3)" using a' by (simp add: new_cell_def)
  then have "typed G \<Gamma> (snd (new_cell (WhenAll u cs) w3))" using a s1(3) by (intro typed_new_cell[OF t3]) simp
  then have t: "typed G \<Gamma> w'" using a' by (metis snd_conv)
  have "all_contexts w' = all_contexts w3" using a' by (simp add: new_cell_def)
  then have ctx: "all_contexts w' = all_contexts w @ [?c]"
    using await_each_same_rest[OF w3] s1(7) by (simp add: same_rest_def w2_def)
  note s = when_all_new_step[OF well_typedD(1)[OF wt] cs r]
  have old: "slot_count y i (callback_tokens w') = slot_count y i (callback_tokens w)" if "y < length (all_contexts w)" for y i
    using that by (simp add: s(3) slot_count_slots del: mset_map)
  have new: "slot_count (length (all_contexts w)) i (callback_tokens w') = (if i < length cs then 1 else 0)" for i
    using fresh_slots[OF well_typedD(1)[OF wt]] by (simp add: s(3) slot_count_slots del: mset_map)
  have "contexts_typed \<Gamma> {#} w'"
    unfolding contexts_typed_def
  proof (intro allI impI)
    fix y assume "y < length (all_contexts w')"
    then consider "y < length (all_contexts w)" | "y = length (all_contexts w)" using ctx by (auto simp: less_Suc_eq)
    then show "context_typed (slot_types \<Gamma> y) (\<lambda>i. slot_count y i ({#} + callback_tokens w')) (all_contexts w' ! y)"
    proof cases
      case 1
      then show ?thesis using well_typedD(3)[OF wt] old by (simp add: contexts_typed_def ctx nth_append)
    next
      case 2
      then show ?thesis using n new by (auto simp: context_typed_def ctx)
    qed
  qed
  moreover have "anys_typed \<Gamma> None w'"
  proof (rule anys_typed_mono[OF well_typedD(6)[OF wt] step_okD(2)[OF s(1)]])
    have "sure_le \<Gamma> w w1" using sure_new_cell[of \<Gamma> w] w1 by (metis snd_conv write_once_new_def)
    moreover have "sure_le \<Gamma> w1 w2" by (rule sure_same) (simp_all add: w2_def)
    moreover have "sure_le \<Gamma> w3 w'" using sure_new_cell[of \<Gamma> w3 "WhenAll u cs"] a' by (metis snd_conv)
    ultimately have "sure_le \<Gamma> w w'" using sure_await_each[OF t2 i2 w3 ps] by (blast intro: sure_le_trans)
    then show "sure_token \<Gamma> v y w' \<or> value_job v y None" if "sure_token \<Gamma> v y w \<or> value_job v y None" for v y
      using that by (auto simp: sure_le_def value_job_def)
    have "any_contexts w' = any_contexts w3" using a' by (simp add: new_cell_def)
    then show "any_contexts w' = any_contexts w" using await_each_same_rest[OF w3] s1(7) by (simp add: same_rest_def w2_def)
    show "\<forall>y. any_count y (job_callbacks None + callback_tokens w') \<le> any_count y (job_callbacks None + callback_tokens w)"
      by (auto simp: s(3) simp del: mset_map intro!: any_count_0)
  qed
  ultimately show ?thesis using t s(1) by (simp add: well_typed_def step_okD(1))
qed

text \<open>Sources.\<close>

lemma wt_source: "well_typed G \<Gamma> w \<Longrightarrow> well_typed G \<Gamma> (snd (value_source_new w))"
  using wt_write_once(1)[of G \<Gamma> w "fst (write_once_new w)" "snd (write_once_new w)"]
  by (simp add: value_source_new_def split_def Let_def)

lemma wt_timer:
  assumes wt: "well_typed G \<Gamma> w" and u: "Value Unit \<in> cell_type \<Gamma> (length (cells w))"
  shows "well_typed G \<Gamma> (snd (timer_after d w))"
proof -
  obtain vs w1 where w1: "value_source_new w = (vs, w1)" by (cases "value_source_new w")
  note n = value_source_new_step[OF well_typedD(1)[OF wt] w1]
  have wt1: "well_typed G \<Gamma> w1" using wt_source[OF wt] w1 by simp
  let ?j = "CompleteTimer (source_cell vs) :: ('a, 'b) job"
  define w2 where "w2 = w1\<lparr>timers := tps_schedule d ?j (timers w1)\<rparr>"
  note i1 = well_typedD(1)[OF wt1]
  note sch = tps_schedule_correct[OF sources_invD(1)[OF i1], of d ?j]
  have "step_ok w1 w2"
    using sch n(2) sources_invD[OF i1] world_invD(1)[OF i1] by (intro sources_step[OF i1]) (auto simp: w2_def)
  moreover have "typed G \<Gamma> w2" using well_typedD(2)[OF wt1] sch(2) u n(4) by (auto simp: typed_def w2_def)
  moreover have "callback_tokens w2 = {#} + callback_tokens w1" "any_contexts w2 = any_contexts w1" "all_contexts w2 = all_contexts w1"
    by (simp_all add: callback_tokens_def pending_def queued_def w2_def)
  moreover have "sure_le \<Gamma> w1 w2" by (rule sure_same) (simp_all add: w2_def)
  ultimately have "well_typed G \<Gamma> w2" by (intro well_typedI[OF wt1, of w2 "{#}"]) simp_all
  then show ?thesis by (simp add: timer_after_def w1 w2_def)
qed

lemma wt_read:
  assumes wt: "well_typed G \<Gamma> w"
    and u: "Value (Request req) \<in> cell_type \<Gamma> (length (cells w))" "Err IOError \<in> cell_type \<Gamma> (length (cells w))"
  shows "well_typed G \<Gamma> (snd (io_read env fd req w))"
proof -
  obtain vs w1 where w1: "value_source_new w = (vs, w1)" by (cases "value_source_new w")
  note n = value_source_new_step[OF well_typedD(1)[OF wt] w1]
  have wt1: "well_typed G \<Gamma> w1" using wt_source[OF wt] w1 by simp
  let ?rq = "(source_cell vs, \<lparr>in_flight_read = req, control_block = length (aiocbs w1)\<rparr>)"
  obtain t w2 where r: "io_read env fd req w = (t, w2)" by (cases "io_read env fd req w")
  obtain cbs os where w2: "w2 = w1\<lparr>io_source := (io_source w1)\<lparr>in_flight_requests := in_flight_requests (io_source w1) @ [?rq]\<rparr>,
      aiocbs := cbs, os_state := os\<rparr>"
    using r w1 by (auto simp: io_read_def value_source_create_def queue_read_def enqueue_and_start_read_def
        Let_def split: prod.splits)
  note i1 = well_typedD(1)[OF wt1]
  have "step_ok w1 w2"
    using n(2) sources_invD[OF i1] world_invD(1)[OF i1] by (intro sources_step[OF i1]) (auto simp: w2)
  moreover have "typed G \<Gamma> w2" using well_typedD(2)[OF wt1] u n(4) by (auto simp: typed_def w2)
  moreover have "callback_tokens w2 = {#} + callback_tokens w1" "any_contexts w2 = any_contexts w1" "all_contexts w2 = all_contexts w1"
    by (simp_all add: callback_tokens_def pending_def queued_def w2)
  moreover have "sure_le \<Gamma> w1 w2" by (rule sure_same) (simp_all add: w2)
  ultimately show ?thesis using well_typedI[OF wt1, of w2 "{#}"] by (simp add: r)
qed

end
