(* ===== verification/Client_Types.thy ===== *)
theory Client_Types
  imports Result_Clients
begin

text \<open>
  Types for clients. A client that makes its tasks with the calls of the library knows the type
  of each of them: a computed set of outcomes, from the types of the tasks and of the functions
  it was made with. \<open>typed_client\<close> records what a client knows; every call keeps what it knows
  true of the world.
\<close>

subsection \<open>Types of the calls\<close>

definition values_of :: "'a outcome set \<Rightarrow> 'a val set" where
  "values_of S = {v. Value v \<in> S}"

definition errors_of :: "'a outcome set \<Rightarrow> 'a outcome set" where
  "errors_of S = {r \<in> S. \<exists>e. r = Err e}"

definition create_outcomes :: "('f, 'a) signature \<Rightarrow> 'f \<Rightarrow> 'a outcome set" where
  "create_outcomes G f = Value ` call_type G f"

definition map_outcomes :: "('f, 'a) signature \<Rightarrow> 'f \<Rightarrow> 'a outcome set \<Rightarrow> 'a outcome set" where
  "map_outcomes G f S = (\<Union>v \<in> values_of S. Value ` map_type G f v) \<union> errors_of S"

definition bind_outcomes :: "('f, 'a) signature \<Rightarrow> 'f \<Rightarrow> 'a outcome set \<Rightarrow> 'a outcome set" where
  "bind_outcomes G f S = (\<Union>v \<in> values_of S. bind_type G f v) \<union> errors_of S"

text \<open>A \<open>when_any\<close> fails only if all its tasks can.\<close>

definition may_fail :: "'a outcome set \<Rightarrow> bool" where
  "may_fail S \<longleftrightarrow> errors_of S \<noteq> {}"

definition when_any_outcomes :: "'a outcome set list \<Rightarrow> 'a outcome set" where
  "when_any_outcomes Ss = (\<Union>S \<in> set Ss. Value ` values_of S) \<union> (if \<forall>S \<in> set Ss. may_fail S then \<Union>S \<in> set Ss. errors_of S else {})"

definition when_all_outcomes :: "'a outcome set list \<Rightarrow> 'a outcome set" where
  "when_all_outcomes Ss = vectors (map values_of Ss) \<union> (\<Union>S \<in> set Ss. errors_of S)"

definition read_outcomes :: "read_request \<Rightarrow> 'a outcome set" where
  "read_outcomes req = {Value (Request req), Err IOError}"

lemma listens_map:
  "\<forall>v \<in> values_of S. map_dom G f v \<Longrightarrow> cell_type \<Gamma> a = S \<Longrightarrow> cell_type \<Gamma> c = map_outcomes G f S \<Longrightarrow> listens G \<Gamma> a (OnMap c f)"
  unfolding listens_def
proof (intro ballI)
  fix r assume "\<forall>v \<in> values_of S. map_dom G f v" "cell_type \<Gamma> a = S" "cell_type \<Gamma> c = map_outcomes G f S" "r \<in> cell_type \<Gamma> a"
  then show "cb_typed G \<Gamma> (OnMap c f) r" by (cases r) (auto simp: map_outcomes_def values_of_def errors_of_def)
qed

lemma listens_bind:
  "\<forall>v \<in> values_of S. bind_dom G f v \<Longrightarrow> cell_type \<Gamma> a = S \<Longrightarrow> cell_type \<Gamma> t = bind_outcomes G f S \<Longrightarrow> cell_type \<Gamma> e = errors_of S \<Longrightarrow>
   listens G \<Gamma> a (OnBind t e f)"
  unfolding listens_def
proof (intro ballI)
  fix r assume "\<forall>v \<in> values_of S. bind_dom G f v" "cell_type \<Gamma> a = S" "cell_type \<Gamma> t = bind_outcomes G f S" "cell_type \<Gamma> e = errors_of S" "r \<in> cell_type \<Gamma> a"
  then show "cb_typed G \<Gamma> (OnBind t e f) r" by (cases r) (auto simp: bind_outcomes_def values_of_def errors_of_def)
qed

lemma listens_when_any:
  assumes "cell_type \<Gamma> a = S" "S \<in> set Ss" "cell_type \<Gamma> u = when_any_outcomes Ss"
    and "any_sure \<Gamma> x = (if \<forall>S \<in> set Ss. may_fail S then None else Some u)"
  shows "listens G \<Gamma> a (OnWhenAny u x)"
  unfolding listens_def
proof (intro ballI)
  fix r assume "r \<in> cell_type \<Gamma> a"
  then show "cb_typed G \<Gamma> (OnWhenAny u x) r"
    using assms by (cases r) (auto simp: when_any_outcomes_def values_of_def errors_of_def)
qed

lemma error_free_iff: "error_free \<Gamma> a \<longleftrightarrow> \<not> may_fail (cell_type \<Gamma> a)"
  by (auto simp: error_free_def may_fail_def errors_of_def)

lemma listens_when_all:
  assumes "cell_type \<Gamma> a = Ss ! i" "i < length Ss" "slot_types \<Gamma> x = map values_of Ss" "cell_type \<Gamma> u = when_all_outcomes Ss"
  shows "listens G \<Gamma> a (OnWhenAll x i u)"
  unfolding listens_def
proof (intro ballI)
  fix r assume r: "r \<in> cell_type \<Gamma> a"
  have "Ss ! i \<in> set Ss" using assms(2) by simp
  then show "cb_typed G \<Gamma> (OnWhenAll x i u) r"
    using r assms by (cases r) (auto simp: when_all_outcomes_def values_of_def errors_of_def)
qed

subsection \<open>What a client knows\<close>

text \<open>A client holds tasks, and sources that it may complete.\<close>

datatype 'a claim = is_source: SourceOf (outcomes: "'a outcome set") | TaskOf (outcomes: "'a outcome set")

type_synonym 'a claims = "address \<rightharpoonup> 'a claim"

definition task_type :: "'a claims \<Rightarrow> task \<Rightarrow> 'a outcome set option" where
  "task_type \<Delta> t = map_option outcomes (\<Delta> (task_cell t))"

lemma task_type_new: "task_type (\<Delta>(task_cell t \<mapsto> TaskOf S)) t = Some S"
  by (simp add: task_type_def)

inductive typed_client ::
  "('f, 'a) signature \<Rightarrow> ('f, 'a, 'os) environment \<Rightarrow> 'a claims \<times> ('f, 'a, 'os) world \<Rightarrow> 'a claims \<times> ('f, 'a, 'os) world \<Rightarrow> bool"
  for G env where
  create: "call_dom G f \<Longrightarrow> factory_create f w = (t, w') \<Longrightarrow> typed_client G env (\<Delta>, w) (\<Delta>(task_cell t \<mapsto> TaskOf (create_outcomes G f)), w')"
| map_task: "task_type \<Delta> t = Some S \<Longrightarrow> \<forall>v \<in> values_of S. map_dom G f v \<Longrightarrow> task_map f t w = Some (t', w') \<Longrightarrow>
    typed_client G env (\<Delta>, w) (\<Delta>(task_cell t' \<mapsto> TaskOf (map_outcomes G f S)), w')"
| bind_task: "task_type \<Delta> t = Some S \<Longrightarrow> \<forall>v \<in> values_of S. bind_dom G f v \<Longrightarrow> task_bind f t w = Some (t', w') \<Longrightarrow>
    typed_client G env (\<Delta>, w) (\<Delta>(task_cell t' \<mapsto> TaskOf (bind_outcomes G f S)), w')"
| when_any: "map (task_type \<Delta>) ts = map Some Ss \<Longrightarrow> length ts < size_max1 \<Longrightarrow> factory_when_any ts w = Some (t', w') \<Longrightarrow>
    typed_client G env (\<Delta>, w) (\<Delta>(task_cell t' \<mapsto> TaskOf (when_any_outcomes Ss)), w')"
| when_all: "map (task_type \<Delta>) ts = map Some Ss \<Longrightarrow> length ts < size_max1 \<Longrightarrow> factory_when_all ts w = Some (t', w') \<Longrightarrow>
    typed_client G env (\<Delta>, w) (\<Delta>(task_cell t' \<mapsto> TaskOf (when_all_outcomes Ss)), w')"
| new_source: "factory_value_source w = (s, w') \<Longrightarrow> typed_client G env (\<Delta>, w) (\<Delta>(source_cell s \<mapsto> SourceOf S), w')"
| complete: "\<Delta> (source_cell s) = Some (SourceOf S) \<Longrightarrow> Value v \<in> S \<Longrightarrow>
    typed_client G env (\<Delta>, w) (\<Delta>, value_source_complete v s w)"
| error: "\<Delta> (source_cell s) = Some (SourceOf S) \<Longrightarrow> Err e \<in> S \<Longrightarrow>
    typed_client G env (\<Delta>, w) (\<Delta>, value_source_error e s w)"
| timer: "timer_after d w = (t, w') \<Longrightarrow> typed_client G env (\<Delta>, w) (\<Delta>(task_cell t \<mapsto> TaskOf {Value Unit}), w')"
| read: "io_read env fd req w = (t, w') \<Longrightarrow> read_outcomes req \<subseteq> S \<Longrightarrow>
    typed_client G env (\<Delta>, w) (\<Delta>(task_cell t \<mapsto> TaskOf S), w')"
| system: "typed_client G env (\<Delta>, w) (\<Delta>, w\<lparr>buffers := b, os_state := s\<rparr>)"

subsection \<open>What the client knows is true\<close>

definition claim_true :: "'a typing \<Rightarrow> ('f, 'a, 'os) world \<Rightarrow> address \<Rightarrow> 'a claim \<Rightarrow> bool" where
  "claim_true \<Gamma> w a c \<longleftrightarrow> a < length (cells w) \<and> cell_type \<Gamma> a = outcomes c \<and> (is_source c \<longrightarrow> is_write_once w a)"

definition claims_true ::
  "('f, 'a) signature \<Rightarrow> 'a claims \<Rightarrow> 'a typing \<Rightarrow> ('f, 'a, 'os) world \<Rightarrow> bool"
where
  "claims_true G \<Delta> \<Gamma> w \<longleftrightarrow> well_typed G \<Gamma> w \<and> (\<forall>a c. \<Delta> a = Some c \<longrightarrow> claim_true \<Gamma> w a c)"

lemma claims_trueD:
  "claims_true G \<Delta> \<Gamma> w \<Longrightarrow> well_typed G \<Gamma> w"
  "claims_true G \<Delta> \<Gamma> w \<Longrightarrow> \<Delta> a = Some c \<Longrightarrow> claim_true \<Gamma> w a c"
  by (simp_all add: claims_true_def)

lemma task_typeD:
  assumes "claims_true G \<Delta> \<Gamma> w" "task_type \<Delta> t = Some S"
  shows "task_cell t < length (cells w)" "task_ok w t" "cell_type \<Gamma> (task_cell t) = S"
  using assms by (auto simp: task_type_def task_ok_def claim_true_def dest: claims_trueD(2))

definition advances :: "('f, 'a) signature \<Rightarrow> 'a typing \<Rightarrow> ('f, 'a, 'os) world \<Rightarrow> 'a typing \<Rightarrow> ('f, 'a, 'os) world \<Rightarrow> bool" where
  "advances G \<Gamma> w \<Gamma>' w' \<longleftrightarrow> well_typed G \<Gamma>' w' \<and> typing_grows w \<Gamma> \<Gamma>' \<and> world_le w w'"

lemma advances_refl: "well_typed G \<Gamma> w \<Longrightarrow> advances G \<Gamma> w \<Gamma> w"
  by (simp add: advances_def)

lemma advances_trans: "advances G \<Gamma> u \<Gamma>' v \<Longrightarrow> advances G \<Gamma>' v \<Gamma>'' w \<Longrightarrow> advances G \<Gamma> u \<Gamma>'' w"
  by (auto simp: advances_def intro: world_le_trans typing_grows_trans)

lemma advances_same: "well_typed G \<Gamma> w' \<Longrightarrow> step_ok w w' \<Longrightarrow> advances G \<Gamma> w \<Gamma> w'"
  by (simp add: advances_def step_okD)

lemma wt_retype: "well_typed G \<Gamma> w \<Longrightarrow> typing_grows w \<Gamma> \<Gamma>' \<Longrightarrow> advances G \<Gamma> w \<Gamma>' w"
  using typed_ext[of G \<Gamma> w \<Gamma>'] contexts_typed_ext[of \<Gamma> "{#}" w \<Gamma>'] anys_typed_ext[of \<Gamma> None w \<Gamma>'] by (simp add: advances_def well_typed_def)

lemma claims_true_advances:
  assumes "claims_true G \<Delta> \<Gamma> w" "advances G \<Gamma> w \<Gamma>' w'"
  shows "claims_true G \<Delta> \<Gamma>' w'"
  unfolding claims_true_def
proof (intro conjI allI impI)
  show "well_typed G \<Gamma>' w'" using assms(2) by (simp add: advances_def)
  fix a c assume "\<Delta> a = Some c"
  from claims_trueD(2)[OF assms(1) this] assms(2) show "claim_true \<Gamma>' w' a c"
    by (auto simp: claim_true_def advances_def typing_grows_def intro: is_write_once_mono dest: world_le_length)
qed

lemma advances_write:
  assumes adv: "advances G \<Gamma> w \<Gamma>' w1" and ctx: "ctx_ok (pool w) ctx" and a: "is_write_once w a" "r \<in> cell_type \<Gamma> a"
  shows "advances G \<Gamma> w \<Gamma>' (snd (write_result_to_value ctx r a w1))"
proof -
  have wt: "well_typed G \<Gamma>' w1" and le: "world_le w w1" and g: "typing_grows w \<Gamma> \<Gamma>'" using adv by (auto simp: advances_def)
  have ok: "ctx_ok (pool w1) ctx" "is_write_once w1 a" using ctx_ok_mono[OF le ctx] is_write_once_mono[OF le a(1)] .
  have "r \<in> cell_type \<Gamma>' a" using a typing_grows_cell[OF g, of a] by (simp add: is_write_once_def)
  from advances_same[OF wt_write[OF wt ok this] write_result_step(1)[OF well_typedD(1)[OF wt] ok]] adv
  show ?thesis by (rule advances_trans[rotated])
qed

lemma claims_true_new:
  assumes "claims_true G \<Delta> \<Gamma> w" "advances G \<Gamma> w \<Gamma>' w'" "claim_true \<Gamma>' w' a c"
  shows "claims_true G (\<Delta>(a \<mapsto> c)) \<Gamma>' w'"
  using claims_true_advances[OF assms(1,2)] assms(3) by (auto simp: claims_true_def)

lemma new_claim:
  assumes "claims_true G \<Delta> \<Gamma> w" "advances G \<Gamma> w \<Gamma>' w'" "claim_true \<Gamma>' w' a c"
  shows "\<exists>\<Gamma>'. advances G \<Gamma> w \<Gamma>' w' \<and> claims_true G (\<Delta>(a \<mapsto> c)) \<Gamma>' w'"
  using assms claims_true_new[OF assms] by blast

text \<open>Types for the cells about to be made.\<close>

definition extend_types ::
  "('f, 'a, 'os) world \<Rightarrow> 'a outcome set list \<Rightarrow> 'a val set list \<Rightarrow> address option \<Rightarrow> 'a typing \<Rightarrow> 'a typing"
where
  "extend_types w Ts Ss u \<Gamma> =
     \<lparr>cell_type = (\<lambda>a. if length (cells w) \<le> a \<and> a < length (cells w) + length Ts then Ts ! (a - length (cells w)) else cell_type \<Gamma> a),
      slot_types = (\<lambda>x. if x = length (all_contexts w) then Ss else slot_types \<Gamma> x),
      any_sure = (\<lambda>x. if x = length (any_contexts w) then u else any_sure \<Gamma> x)\<rparr>"

lemma extend_types_simps [simp]:
  "a < length (cells w) \<Longrightarrow> cell_type (extend_types w Ts Ss u \<Gamma>) a = cell_type \<Gamma> a"
  "cell_type (extend_types w (T # Ts) Ss u \<Gamma>) (length (cells w)) = T"
  "cell_type (extend_types w (T # T' # Ts) Ss u \<Gamma>) (Suc (length (cells w))) = T'"
  "slot_types (extend_types w Ts Ss u \<Gamma>) (length (all_contexts w)) = Ss"
  "any_sure (extend_types w Ts Ss u \<Gamma>) (length (any_contexts w)) = u"
  "typing_grows w \<Gamma> (extend_types w Ts Ss u \<Gamma>)"
  by (simp_all add: extend_types_def typing_grows_def)

lemma advances_extended:
  assumes "claims_true G \<Delta> \<Gamma> w" "step_ok w w'"
    and "well_typed G (extend_types w Ts Ss u \<Gamma>) w \<Longrightarrow> well_typed G (extend_types w Ts Ss u \<Gamma>) w'"
  shows "advances G \<Gamma> w (extend_types w Ts Ss u \<Gamma>) w'"
proof -
  have r: "advances G \<Gamma> w (extend_types w Ts Ss u \<Gamma>) w"
    by (rule wt_retype[OF claims_trueD(1)[OF assms(1)] extend_types_simps(6)])
  then have "well_typed G (extend_types w Ts Ss u \<Gamma>) w" by (simp add: advances_def)
  from assms(3)[OF this] have "advances G (extend_types w Ts Ss u \<Gamma>) w (extend_types w Ts Ss u \<Gamma>) w'"
    using assms(2) by (rule advances_same)
  with r show ?thesis by (rule advances_trans)
qed

lemma task_typesD:
  assumes "claims_true G \<Delta> \<Gamma> w" "map (task_type \<Delta>) ts = map Some Ss"
  shows "length Ss = length ts" "\<And>i. i < length ts \<Longrightarrow> cell_type \<Gamma> (task_cell (ts ! i)) = Ss ! i" "\<forall>t \<in> set ts. task_ok w t"
proof -
  show l: "length Ss = length ts" using arg_cong[OF assms(2), of length] by simp
  have "task_type \<Delta> (ts ! i) = Some (Ss ! i)" if "i < length ts" for i
    using arg_cong[OF assms(2), of "\<lambda>xs. xs ! i"] that l by simp
  from task_typeD[OF assms(1) this] show "\<And>i. i < length ts \<Longrightarrow> cell_type \<Gamma> (task_cell (ts ! i)) = Ss ! i"
    "\<forall>t \<in> set ts. task_ok w t" by (auto simp: in_set_conv_nth)
qed

text \<open>Where the combinators put their cells.\<close>

lemma await_each_length: "await_each ps w = Some w' \<Longrightarrow> length (cells w') = length (cells w)"
proof (induction ps w rule: await_each.induct)
  case (2 a cb rest w)
  then obtain w1 where w1: "cell_await a cb w = Some w1" "await_each rest w1 = Some w'"
    by (auto simp: bind_eq_Some_conv)
  obtain e where "w1 = park e cb w" using cell_await_Some[OF w1(1)] by blast
  then have "length (cells w1) = length (cells w)"
    by (simp add: park_def write_once_await_def set_cell_def queue_job_def split: cell.splits option.splits)
  then show ?case using 2(1)[OF w1] by simp
qed simp

lemma when_any_made:
  assumes "world_inv w" "\<forall>t \<in> set ts. task_ok w t" "task_when_any ts w = Some (t', w')"
  shows "task_cell t' = Suc (length (cells w))" "task_ok w' t'"
proof -
  obtain a where a: "when_any_new (map task_cell ts) w = Some (a, w')" "t' = \<lparr>task_cell = a\<rparr>"
    using assms(3) by (auto simp: task_when_any_def task_list_to_cell_list_eq)
  have "\<forall>c \<in> set (map task_cell ts). c < length (cells w)" using assms(2) by (auto simp: task_ok_def)
  from when_any_new_step(2)[OF assms(1) this a(1)] show "task_ok w' t'" by (simp add: a(2) task_ok_def)
  show "task_cell t' = Suc (length (cells w))"
    using a by (auto simp: when_any_new_def write_once_new_def new_cell_def dest: await_each_length split: option.splits)
qed

lemma when_all_made:
  assumes "world_inv w" "\<forall>t \<in> set ts. task_ok w t" "task_when_all ts w = Some (t', w')"
  shows "task_cell t' = Suc (length (cells w))" "task_ok w' t'"
proof -
  obtain a where a: "when_all_new (map task_cell ts) w = Some (a, w')" "t' = \<lparr>task_cell = a\<rparr>"
    using assms(3) by (auto simp: task_when_all_def task_list_to_cell_list_eq)
  have "\<forall>c \<in> set (map task_cell ts). c < length (cells w)" using assms(2) by (auto simp: task_ok_def)
  from when_all_new_step(2)[OF assms(1) this a(1)] show "task_ok w' t'" by (simp add: a(2) task_ok_def)
  show "task_cell t' = Suc (length (cells w))"
    using a by (auto simp: when_all_new_def write_once_new_def new_cell_def dest: await_each_length split: option.splits)
qed

lemma when_any_step: "world_inv w \<Longrightarrow> \<forall>t \<in> set ts. task_ok w t \<Longrightarrow> task_when_any ts w = Some (t', w') \<Longrightarrow> step_ok w w'"
  using client_step_ok[OF client_step.when_any] by blast

lemma when_all_step: "world_inv w \<Longrightarrow> \<forall>t \<in> set ts. task_ok w t \<Longrightarrow> task_when_all ts w = Some (t', w') \<Longrightarrow> step_ok w w'"
  using client_step_ok[OF client_step.when_all] by blast

lemma made_at:
  "factory_create f w = (t, w') \<Longrightarrow> task_cell t = length (cells w)"
  "task_map f t w = Some (t', w') \<Longrightarrow> task_cell t' = length (cells w)"
  "task_bind f t w = Some (t', w') \<Longrightarrow> task_cell t' = length (cells w)"
  "factory_value_source w = (s, w') \<Longrightarrow> source_cell s = length (cells w)"
  "timer_after d w = (t, w') \<Longrightarrow> task_cell t = length (cells w)"
  "io_read env fd req w = (t, w') \<Longrightarrow> task_cell t = length (cells w)"
  by (auto simp: factory_create_def task_new_def task_map_def task_bind_def factory_value_source_def timer_after_def io_read_def
      value_source_new_def value_source_create_def write_once_new_def tracking_new_def new_cell_def Let_def split: prod.splits)

lemma when_any_listens:
  assumes cl: "claims_true G \<Delta> \<Gamma> w" and ts: "map (task_type \<Delta>) ts = map Some Ss" and n: "length ts < size_max1"
  defines "u \<equiv> if \<forall>S \<in> set Ss. may_fail S then None else Some (length (cells w))"
  defines "\<Gamma>' \<equiv> extend_types w [when_any_outcomes Ss, when_any_outcomes Ss] [] u \<Gamma>"
  shows "t \<in> set ts \<Longrightarrow> listens G \<Gamma>' (task_cell t) (OnWhenAny (length (cells w)) (length (any_contexts w)))"
    and "u \<noteq> None \<Longrightarrow> (\<exists>t \<in> set ts. error_free \<Gamma>' (task_cell t)) \<and> length ts < size_max1"
proof -
  note t = task_typesD[OF cl ts]
  have ty: "cell_type \<Gamma>' (task_cell (ts ! i)) = Ss ! i" "Ss ! i \<in> set Ss" if "i < length ts" for i
    using t(1) t(2)[OF that] t(3) that by (simp_all add: task_ok_def \<Gamma>'_def)
  show "listens G \<Gamma>' (task_cell t) (OnWhenAny (length (cells w)) (length (any_contexts w)))" if "t \<in> set ts"
  proof -
    obtain i where i: "i < length ts" "t = ts ! i" using \<open>t \<in> set ts\<close> by (metis in_set_conv_nth)
    show ?thesis by (rule listens_when_any[of _ _ "Ss ! i" Ss]) (simp_all add: i ty \<Gamma>'_def[symmetric], simp_all add: \<Gamma>'_def u_def)
  qed
  assume "u \<noteq> None"
  then have "\<not> (\<forall>S \<in> set Ss. may_fail S)" by (simp add: u_def split: if_splits)
  then obtain i where i: "i < length ts" "\<not> may_fail (Ss ! i)" using t(1) by (metis in_set_conv_nth)
  then have "error_free \<Gamma>' (task_cell (ts ! i))" using ty(1) by (simp add: error_free_iff)
  then show "(\<exists>t \<in> set ts. error_free \<Gamma>' (task_cell t)) \<and> length ts < size_max1" using i(1) n by (meson nth_mem)
qed

text \<open>Buffers and the system's state are not the library's.\<close>

lemma system_typed:
  assumes wt: "well_typed G \<Gamma> w"
  shows "advances G \<Gamma> w \<Gamma> (w\<lparr>buffers := b, os_state := s\<rparr>)"
proof -
  let ?w = "w\<lparr>buffers := b, os_state := s\<rparr>"
  note inv = well_typedD(1)[OF wt]
  have st: "step_ok w ?w" using sources_invD[OF inv] world_invD(1)[OF inv] by (intro sources_step[OF inv]) auto
  have "well_typed G \<Gamma> ?w"
    using well_typedD(2)[OF wt]
    by (intro well_typedI[OF wt st, of "{#}"]) (simp_all add: typed_def callback_tokens_def pending_def queued_def sure_same)
  then show ?thesis using st by (rule advances_same)
qed

lemma typed_client_claims:
  assumes "typed_client G env p q" "claims_true G (fst p) \<Gamma> (snd p)"
  shows "\<exists>\<Gamma>'. advances G \<Gamma> (snd p) \<Gamma>' (snd q) \<and> claims_true G (fst q) \<Gamma>' (snd q)"
  using assms
proof (induction rule: typed_client.induct)
  case (create f w t w' \<Delta>)
  then have cl: "claims_true G \<Delta> \<Gamma> w" and t: "task_new f w = (t, w')" by (simp_all add: factory_create_def)
  note s = task_new_step[OF well_typedD(1)[OF claims_trueD(1)[OF cl]] t]
  have adv: "advances G \<Gamma> w (extend_types w [create_outcomes G f] [] None \<Gamma>) w'"
    using wt_create[of G _ w f] t create(1) by (intro advances_extended[OF cl s(1)]) (simp add: create_outcomes_def)
  have "task_cell t = length (cells w)" by (rule made_at(1)[OF create(2)])
  then have "claim_true (extend_types w [create_outcomes G f] [] None \<Gamma>) w' (task_cell t) (TaskOf (create_outcomes G f))" using s(2) by (simp add: claim_true_def task_ok_def)
  from new_claim[OF cl adv this] show ?case by (simp del: fun_upd_apply)
next
  case (map_task \<Delta> t S f w t' w')
  then have cl: "claims_true G \<Delta> \<Gamma> w" by simp
  note t = task_typeD[OF cl map_task(1)]
  note s = task_map_step[OF well_typedD(1)[OF claims_trueD(1)[OF cl]] t(2) map_task(3)]
  let ?\<Gamma> = "extend_types w [map_outcomes G f S] [] None \<Gamma>"
  have l: "listens G ?\<Gamma> (task_cell t) (OnMap (length (cells w)) f)" using t map_task(2) by (intro listens_map) simp_all
  have adv: "advances G \<Gamma> w ?\<Gamma> w'" by (rule advances_extended[OF cl s(1) wt_map[OF _ t(2) map_task(3) l]])
  have "task_cell t' = length (cells w)" by (rule made_at(2)[OF map_task(3)])
  then have "claim_true ?\<Gamma> w' (task_cell t') (TaskOf (map_outcomes G f S))" using s(2) by (simp add: claim_true_def task_ok_def)
  from new_claim[OF cl adv this] show ?case by (simp del: fun_upd_apply)
next
  case (bind_task \<Delta> t S f w t' w')
  then have cl: "claims_true G \<Delta> \<Gamma> w" by simp
  note t = task_typeD[OF cl bind_task(1)]
  note s = task_bind_step[OF well_typedD(1)[OF claims_trueD(1)[OF cl]] t(2) bind_task(3)]
  let ?\<Gamma> = "extend_types w [bind_outcomes G f S, errors_of S] [] None \<Gamma>"
  have l: "listens G ?\<Gamma> (task_cell t) (OnBind (length (cells w)) (Suc (length (cells w))) f)"
    using t bind_task(2) by (intro listens_bind) simp_all
  have adv: "advances G \<Gamma> w ?\<Gamma> w'" by (rule advances_extended[OF cl s(1) wt_bind[OF _ t(2) bind_task(3) l]])
  have "task_cell t' = length (cells w)" by (rule made_at(3)[OF bind_task(3)])
  then have "claim_true ?\<Gamma> w' (task_cell t') (TaskOf (bind_outcomes G f S))" using s(2) by (simp add: claim_true_def task_ok_def)
  from new_claim[OF cl adv this] show ?case by (simp del: fun_upd_apply)
next
  case (when_any \<Delta> ts Ss w t' w')
  then have cl: "claims_true G \<Delta> \<Gamma> w" and r: "task_when_any ts w = Some (t', w')" by (simp_all add: factory_when_any_def)
  note inv = well_typedD(1)[OF claims_trueD(1)[OF cl]] and ok = task_typesD(3)[OF cl when_any(1)]
  note s = when_any_step[OF inv ok r] and made = when_any_made[OF inv ok r]
  obtain a where a: "when_any_new (map task_cell ts) w = Some (a, w')" "t' = \<lparr>task_cell = a\<rparr>"
    using r by (auto simp: task_when_any_def task_list_to_cell_list_eq)
  define u where "u = (if \<forall>S \<in> set Ss. may_fail S then None else Some (length (cells w)))"
  let ?T = "when_any_outcomes Ss"
  let ?\<Gamma> = "extend_types w [?T, ?T] [] u \<Gamma>"
  note l = when_any_listens[OF cl when_any(1,2), folded u_def]
  have cs: "\<forall>c \<in> set (map task_cell ts). c < length (cells w)" using ok by (auto simp: task_ok_def)
  have "well_typed G ?\<Gamma> w'" if wt: "well_typed G ?\<Gamma> w"
  proof (rule wt_when_any[OF wt cs a(1)])
    show "\<forall>c \<in> set (map task_cell ts). listens G ?\<Gamma> c (OnWhenAny (length (cells w)) (length (any_contexts w)))"
      using l(1) by simp
    show "cell_type ?\<Gamma> (length (cells w)) \<subseteq> cell_type ?\<Gamma> a" using made(1) a(2) by simp
    show "any_sure ?\<Gamma> (length (any_contexts w)) \<noteq> None \<longrightarrow> any_sure ?\<Gamma> (length (any_contexts w)) = Some (length (cells w))
        \<and> (\<exists>c \<in> set (map task_cell ts). error_free ?\<Gamma> c) \<and> length (map task_cell ts) < size_max1"
      using l(2) by (cases u) (simp_all add: u_def split: if_splits)
  qed
  from advances_extended[OF cl s this] have adv: "advances G \<Gamma> w ?\<Gamma> w'" .
  have "claim_true ?\<Gamma> w' (task_cell t') (TaskOf ?T)" using made by (simp add: claim_true_def task_ok_def)
  from new_claim[OF cl adv this] show ?case by (simp del: fun_upd_apply)
next
  case (when_all \<Delta> ts Ss w t' w')
  then have cl: "claims_true G \<Delta> \<Gamma> w" and r: "task_when_all ts w = Some (t', w')" by (simp_all add: factory_when_all_def)
  note t = task_typesD[OF cl when_all(1)] and inv = well_typedD(1)[OF claims_trueD(1)[OF cl]]
  note s = when_all_step[OF inv t(3) r] and made = when_all_made[OF inv t(3) r]
  obtain a where a: "when_all_new (map task_cell ts) w = Some (a, w')" "t' = \<lparr>task_cell = a\<rparr>"
    using r by (auto simp: task_when_all_def task_list_to_cell_list_eq)
  let ?T = "when_all_outcomes Ss"
  let ?\<Gamma> = "extend_types w [?T, ?T] (map values_of Ss) None \<Gamma>"
  have l: "listens G ?\<Gamma> (task_cell (ts ! i)) (OnWhenAll (length (all_contexts w)) i (length (cells w)))" if "i < length ts" for i
    using t that by (intro listens_when_all) (simp_all add: task_ok_def)
  have cs: "\<forall>c \<in> set (map task_cell ts). c < length (cells w)" using t(3) by (auto simp: task_ok_def)
  have "well_typed G ?\<Gamma> w'" if wt: "well_typed G ?\<Gamma> w"
  proof (rule wt_when_all[OF wt cs a(1)])
    show "cell_type ?\<Gamma> (length (cells w)) \<subseteq> cell_type ?\<Gamma> a" using made(1) a(2) by simp
  qed (use l t(1) when_all(2) in simp_all)
  from advances_extended[OF cl s this] have adv: "advances G \<Gamma> w ?\<Gamma> w'" .
  have "claim_true ?\<Gamma> w' (task_cell t') (TaskOf ?T)" using made by (simp add: claim_true_def task_ok_def)
  from new_claim[OF cl adv this] show ?case by (simp del: fun_upd_apply)
next
  case (new_source w s w' \<Delta> S)
  then have cl: "claims_true G \<Delta> \<Gamma> w" and v: "value_source_new w = (s, w')" by (simp_all add: factory_value_source_def)
  note n = value_source_new_step[OF well_typedD(1)[OF claims_trueD(1)[OF cl]] v]
  have adv: "advances G \<Gamma> w (extend_types w [S] [] None \<Gamma>) w'"
    using wt_source[of G _ w] v by (intro advances_extended[OF cl n(1)]) simp
  have "claim_true (extend_types w [S] [] None \<Gamma>) w' (source_cell s) (SourceOf S)"
    using n(2,4) by (auto simp: claim_true_def is_write_once_def)
  from new_claim[OF cl adv this] show ?case by (simp del: fun_upd_apply)
next
  case (complete \<Delta> s S v w)
  then have cl: "claims_true G \<Delta> \<Gamma> w" by simp
  have "is_write_once w (source_cell s)" "Value v \<in> cell_type \<Gamma> (source_cell s)"
    using claims_trueD(2)[OF cl complete(1)] complete(2) by (simp_all add: claim_true_def)
  from advances_write[OF advances_refl[OF claims_trueD(1)[OF cl]] ctx_empty_ok this]
  have adv: "advances G \<Gamma> w \<Gamma> (value_source_complete v s w)" by (simp add: write_defs)
  then show ?case using claims_true_advances[OF cl adv] by (simp del: fun_upd_apply) blast
next
  case (error \<Delta> s S e w)
  then have cl: "claims_true G \<Delta> \<Gamma> w" by simp
  have "is_write_once w (source_cell s)" "Err e \<in> cell_type \<Gamma> (source_cell s)"
    using claims_trueD(2)[OF cl error(1)] error(2) by (simp_all add: claim_true_def)
  from advances_write[OF advances_refl[OF claims_trueD(1)[OF cl]] ctx_empty_ok this]
  have adv: "advances G \<Gamma> w \<Gamma> (value_source_error e s w)" by (simp add: write_defs)
  then show ?case using claims_true_advances[OF cl adv] by (simp del: fun_upd_apply) blast
next
  case (timer d w t w' \<Delta>)
  then have cl: "claims_true G \<Delta> \<Gamma> w" by simp
  note s = timer_after_step[OF well_typedD(1)[OF claims_trueD(1)[OF cl]] timer(1)]
  have adv: "advances G \<Gamma> w (extend_types w [{Value Unit}] [] None \<Gamma>) w'"
    using wt_timer[of G _ w d] timer(1) by (intro advances_extended[OF cl s(1)]) simp
  have "task_cell t = length (cells w)" by (rule made_at(5)[OF timer(1)])
  then have "claim_true (extend_types w [{Value Unit}] [] None \<Gamma>) w' (task_cell t) (TaskOf {Value Unit})" using s(2) by (simp add: claim_true_def task_ok_def)
  from new_claim[OF cl adv this] show ?case by (simp del: fun_upd_apply)
next
  case (read fd req w t w' S \<Delta>)
  then have cl: "claims_true G \<Delta> \<Gamma> w" by simp
  note s = io_read_step[OF well_typedD(1)[OF claims_trueD(1)[OF cl]] read(1)]
  have adv: "advances G \<Gamma> w (extend_types w [S] [] None \<Gamma>) w'"
    using wt_read[of G _ w req env fd] read(1,2) by (intro advances_extended[OF cl s(1)]) (simp add: read_outcomes_def)
  have "task_cell t = length (cells w)" by (rule made_at(6)[OF read(1)])
  then have "claim_true (extend_types w [S] [] None \<Gamma>) w' (task_cell t) (TaskOf S)"
    using s(2) by (simp add: claim_true_def task_ok_def)
  from new_claim[OF cl adv this] show ?case by (simp del: fun_upd_apply)
next
  case (system \<Delta> w s b)
  then have cl: "claims_true G \<Delta> \<Gamma> w" by simp
  have adv: "advances G \<Gamma> w \<Gamma> (w\<lparr>buffers := b, os_state := s\<rparr>)" by (rule system_typed[OF claims_trueD(1)[OF cl]])
  show ?case using adv claims_true_advances[OF cl adv] by auto
qed

lemma typed_clients_claims:
  "(typed_client G env)\<^sup>*\<^sup>* p q \<Longrightarrow> claims_true G (fst p) \<Gamma> (snd p) \<Longrightarrow>
   \<exists>\<Gamma>'. advances G \<Gamma> (snd p) \<Gamma>' (snd q) \<and> claims_true G (fst q) \<Gamma>' (snd q)"
proof (induction rule: rtranclp_induct)
  case base
  then show ?case using advances_refl claims_trueD(1) by blast
next
  case (step q q')
  then obtain \<Gamma>' where q: "advances G \<Gamma> (snd p) \<Gamma>' (snd q)" "claims_true G (fst q) \<Gamma>' (snd q)" by blast
  from typed_client_claims[OF step(2) q(2)] q(1) show ?case by (blast intro: advances_trans)
qed

end
