(* ===== verification/Waiting.thy ===== *)
theory Waiting
  imports Client_Types
begin

text \<open>
  What an unresolved cell is waiting for. A cell is \<open>coming\<close> if it is filled, if work that will fill
  it is on its way (a job, a timer, a read), or if callbacks that will fill it are registered, all
  of them on cells that are coming themselves; a cell that passes another on is coming with it.
  The predicate is inductive, so such a cell never waits for itself, however indirectly. \<open>B\<close> is a
  set of cells that are taken to be coming: the sources of the client.
\<close>

subsection \<open>Cells whose result is coming\<close>

fun fills :: "'f callback \<Rightarrow> address" where
  "fills (OnMap c f) = c"
| "fills (OnBind t e f) = t"
| "fills (OnWhenAny u x) = u"
| "fills (OnWhenAll x i u) = u"

fun job_fills :: "('f, 'a) job \<Rightarrow> address" where
  "job_fills (RunCallback cb r) = fills cb"
| "job_fills (RunTask c f) = c"
| "job_fills (CompleteTimer c) = c"
| "job_fills (FinishRead c rq) = c"

definition working :: "('f, 'a, 'os) world \<Rightarrow> address \<Rightarrow> bool" where
  "working w c \<longleftrightarrow> (\<exists>j. Some j \<in># jobs_left w \<and> job_fills j = c)
     \<or> (\<exists>p. p \<in># tps_dues (timers w) \<and> job_fills (snd p) = c)
     \<or> (\<exists>p \<in> set (in_flight_requests (io_source w)). fst p = c)"

definition placed :: "('f, 'a, 'os) world \<Rightarrow> address \<Rightarrow> address \<Rightarrow> bool" where
  "placed w e c \<longleftrightarrow> e < length (cells w) \<and> (\<exists>cb \<in> set (cell_callbacks (cells w ! e)). fills cb = c)"

inductive coming :: "address set \<Rightarrow> ('f, 'a, 'os) world \<Rightarrow> address \<Rightarrow> bool" for B w where
  assumed: "c < length (cells w) \<Longrightarrow> link w c = None \<Longrightarrow> c \<in> B \<Longrightarrow> coming B w c"
| filled: "c < length (cells w) \<Longrightarrow> link w c = None \<Longrightarrow> end_value w c \<noteq> None \<Longrightarrow> coming B w c"
| waits: "c < length (cells w) \<Longrightarrow> link w c = None \<Longrightarrow> working w c \<or> (\<exists>e. placed w e c) \<Longrightarrow>
    (\<And>e. placed w e c \<Longrightarrow> coming B w e) \<Longrightarrow> coming B w c"
| linked: "c < length (cells w) \<Longrightarrow> link w c = Some t \<Longrightarrow> coming B w t \<Longrightarrow> coming B w c"

inductive_cases coming_linkedE: "coming B w c"

lemma coming_in_range: "coming B w c \<Longrightarrow> c < length (cells w)"
  by (induction rule: coming.induct) auto

lemma coming_link: "coming B w c \<Longrightarrow> link w c = Some t \<Longrightarrow> coming B w t"
  by (erule coming.cases) auto

lemma coming_chain: "chain (link w) a e \<Longrightarrow> coming B w a \<Longrightarrow> coming B w e"
  by (induction rule: chain.induct) (auto intro: coming_link)

lemma coming_mono: "coming B w c \<Longrightarrow> B \<subseteq> B' \<Longrightarrow> coming B' w c"
  by (induction rule: coming.induct) (auto intro: coming.intros)

text \<open>
  How an operation keeps cells coming: it only has to be said what becomes of a cell that is
  taken to be coming, and of a cell that waits.
\<close>

lemma coming_transfer:
  assumes "coming B w c"
    and len: "length (cells w) \<le> length (cells w')"
    and link: "\<And>c t. c < length (cells w) \<Longrightarrow> link w c = Some t \<Longrightarrow> link w' c = Some t"
    and assumed: "\<And>c. c < length (cells w) \<Longrightarrow> link w c = None \<Longrightarrow> c \<in> B \<Longrightarrow> coming B' w' c"
    and filled: "\<And>c. c < length (cells w) \<Longrightarrow> link w c = None \<Longrightarrow> end_value w c \<noteq> None \<Longrightarrow> coming B' w' c"
    and waits: "\<And>c. c < length (cells w) \<Longrightarrow> link w c = None \<Longrightarrow> working w c \<or> (\<exists>e. placed w e c) \<Longrightarrow>
      (\<And>e. placed w e c \<Longrightarrow> coming B w e) \<Longrightarrow> (\<And>e. placed w e c \<Longrightarrow> coming B' w' e) \<Longrightarrow> coming B' w' c"
  shows "coming B' w' c"
  using assms(1)
proof (induction rule: coming.induct)
  case (linked c t)
  then show ?case using len link by (intro coming.linked[of c w' t]) auto
qed (use assumed filled waits in blast)+

text \<open>The most frequent case: nothing that an old cell waits for is taken away or added.\<close>

lemma coming_frame:
  assumes "coming B w c"
    and len: "length (cells w) \<le> length (cells w')"
    and link: "\<And>c. c < length (cells w) \<Longrightarrow> link w' c = link w c"
    and filled: "\<And>c. c < length (cells w) \<Longrightarrow> end_value w c \<noteq> None \<Longrightarrow> end_value w' c \<noteq> None"
    and working: "\<And>c. c < length (cells w) \<Longrightarrow> working w c \<Longrightarrow> working w' c"
    and placed: "\<And>c e. c < length (cells w) \<Longrightarrow> working w c \<or> (\<exists>e. placed w e c) \<Longrightarrow> placed w' e c \<longleftrightarrow> placed w e c"
  shows "coming B w' c"
  using assms(1)
proof (rule coming_transfer)
  fix c assume c: "c < length (cells w)" "link w c = None" and wk: "working w c \<or> (\<exists>e. placed w e c)"
    and IH: "\<And>e. placed w e c \<Longrightarrow> coming B w' e"
  have "c < length (cells w')" "link w' c = None" using c link len by auto
  moreover have "working w' c \<or> (\<exists>e. placed w' e c)" using wk working[OF c(1)] placed[OF c(1) wk] by blast
  moreover have "coming B w' e" if "placed w' e c" for e using that placed[OF c(1) wk] IH by blast
  ultimately show "coming B w' c" by (rule coming.waits)
next
  fix c assume "c < length (cells w)" "link w c = None" "c \<in> B"
  then show "coming B w' c" using len link by (intro coming.assumed) auto
next
  fix c assume "c < length (cells w)" "link w c = None" "end_value w c \<noteq> None"
  then show "coming B w' c" using len link filled by (intro coming.filled) auto
qed (use len link in auto)

subsection \<open>A coming cell is resolved when all work is done\<close>

definition idle :: "('f, 'a, 'os) world \<Rightarrow> bool" where
  "idle w \<longleftrightarrow> jobs_left w = {#} \<and> tps_dues (timers w) = {#} \<and> in_flight_requests (io_source w) = []"

lemma idle_not_working: "idle w \<Longrightarrow> \<not> working w c"
  by (simp add: idle_def working_def)

lemma placed_unresolved:
  assumes "world_inv w" "placed w e c"
  shows "link w e = None" "end_value w e = None"
  using assms world_invD(2)[OF assms(1), of e]
  by (cases "cells w ! e"; auto simp: placed_def link_def end_value_def split: option.splits)+

lemma coming_resolved:
  assumes "coming B w c" "world_inv w" "idle w" "\<forall>b \<in> B. end_value w b \<noteq> None"
  shows "\<exists>e r. chain (link w) c e \<and> end_value w e = Some r"
  using assms(1)
proof (induction rule: coming.induct)
  case (waits c)
  then obtain e where e: "placed w e c" using idle_not_working[OF assms(3)] by blast
  note un = placed_unresolved[OF assms(2) e]
  from waits(5)[OF e] obtain d r where "chain (link w) e d" "end_value w d = Some r" by blast
  then have "d = e" using un(1) by (auto elim: chainE)
  then show ?case using un(2) \<open>end_value w d = Some r\<close> by simp
next
  case (linked c t)
  then show ?case by (blast intro: chain.pass)
qed (use assms(4) in \<open>auto intro: chain.stop\<close>)

end
