(* ===== verification/Waiting_Steps.thy ===== *)
theory Waiting_Steps
  imports Waiting
begin

text \<open>
  What the operations on cells do to the cells that are coming: making cells, registering
  callbacks, filling, tracking, and moving work between the sources and the pool.
\<close>

subsection \<open>The same cells, more work\<close>

lemma coming_more_work:
  assumes "coming B w c" "cells w' = cells w" "\<And>c. working w c \<Longrightarrow> working w' c"
  shows "coming B w' c"
  using assms(1) by (rule coming_frame) (simp_all add: assms placed_def link_def end_value_def)

lemma working_queue:
  "pool_inv (pool w) \<Longrightarrow> ctx_ok (pool w) ctx \<Longrightarrow> working (queue_job ctx j w) c \<longleftrightarrow> working w c \<or> job_fills j = c"
  using queue_job_pool(2)[of w ctx j] queue_job_frame(2)[of w ctx j] by (auto simp: working_def same_rest_def)

subsection \<open>New cells\<close>

lemma coming_new_cell:
  assumes "coming B w c" "cell_callbacks x = []"
  shows "coming B (snd (new_cell x w)) c"
  using assms(1)
proof (rule coming_frame)
  show "placed (snd (new_cell x w)) e d \<longleftrightarrow> placed w e d" for e d
    using assms(2) by (auto simp: placed_def nth_append less_Suc_eq)
qed (auto simp: link_def end_value_def nth_append working_def new_cell_def)

subsection \<open>Registering callbacks\<close>

lemma park_waiting:
  assumes p: "pool_inv (pool w)" and e: "e < length (cells w)" "link w e = None"
  shows "working (park e cb w) c \<longleftrightarrow> working w c \<or> (c = fills cb \<and> end_value w e \<noteq> None)"
    and "placed (park e cb w) d c \<longleftrightarrow> placed w d c \<or> (d = e \<and> c = fills cb \<and> end_value w e = None)"
proof -
  consider (filled) k r where "cells w ! e = WriteOnce k" "wo_value k = Some r"
    | (empty) k where "cells w ! e = WriteOnce k" "wo_value k = None"
    | (track) k where "cells w ! e = Tracking k" "tc_cell k = None"
    using e(2) by (cases "cells w ! e") (auto simp: link_def)
  then have "(working (park e cb w) c \<longleftrightarrow> working w c \<or> (c = fills cb \<and> end_value w e \<noteq> None))
    \<and> (placed (park e cb w) d c \<longleftrightarrow> placed w d c \<or> (d = e \<and> c = fills cb \<and> end_value w e = None))"
  proof cases
    case filled
    then show ?thesis
      by (auto simp: park_def write_once_await_def working_queue[OF p ctx_empty_ok] end_value_def placed_def)
  next
    case empty
    then show ?thesis
      using e(1) by (auto simp: park_def write_once_await_def set_cell_def end_value_def placed_def working_def nth_list_update)
  next
    case track
    then show ?thesis
      using e(1) by (auto simp: park_def set_cell_def end_value_def placed_def working_def nth_list_update)
  qed
  then show "working (park e cb w) c \<longleftrightarrow> working w c \<or> (c = fills cb \<and> end_value w e \<noteq> None)"
    "placed (park e cb w) d c \<longleftrightarrow> placed w d c \<or> (d = e \<and> c = fills cb \<and> end_value w e = None)" by auto
qed

lemma await_each_waiting:
  assumes "await_each ps w = Some w'" "world_inv w"
    and "\<forall>p \<in> set ps. fst p < length (cells w) \<and> callback_ok w (snd p)"
  shows "link w' = link w" "\<And>d. end_value w' d = end_value w d" "length (cells w') = length (cells w)"
    and "working w' c \<longleftrightarrow> working w c
      \<or> (\<exists>p \<in> set ps. c = fills (snd p) \<and> (\<exists>e. chain (link w) (fst p) e \<and> end_value w e \<noteq> None))"
    and "placed w' d c \<longleftrightarrow> placed w d c \<or> (\<exists>p \<in> set ps. c = fills (snd p) \<and> chain (link w) (fst p) d \<and> end_value w d = None)"
    and "\<forall>p \<in> set ps. \<exists>e. chain (link w) (fst p) e"
proof -
  have "(\<forall>p \<in> set ps. \<exists>e. chain (link w) (fst p) e) \<and> link w' = link w \<and> length (cells w') = length (cells w) \<and> (working w' c \<longleftrightarrow> working w c
      \<or> (\<exists>p \<in> set ps. c = fills (snd p) \<and> (\<exists>e. chain (link w) (fst p) e \<and> end_value w e \<noteq> None)))
    \<and> (placed w' d c \<longleftrightarrow> placed w d c \<or> (\<exists>p \<in> set ps. c = fills (snd p) \<and> chain (link w) (fst p) d \<and> end_value w d = None))"
    using assms
  proof (induction ps w rule: await_each.induct)
    case (2 a cb rest w)
    then obtain w1 where w1: "cell_await a cb w = Some w1" "await_each rest w1 = Some w'"
      by (auto simp: bind_eq_Some_conv)
    have p: "callback_ok w cb" "a < length (cells w)" using 2(4) by auto
    note s = cell_await_step[OF 2(3) p w1(1)]
    obtain e where e: "chain (link w) a e" "w1 = park e cb w" using cell_await_Some[OF w1(1)] by blast
    have re: "e < length (cells w)" using chain_in_range[OF e(1) world_invD(3)[OF 2(3)] p(2)] .
    note pk = park_waiting[OF world_invD(1)[OF 2(3)] re chain_end[OF e(1)], of cb, folded e(2)]
    have ev: "end_value w1 x = end_value w x" for x by (simp add: e(2) end_value_park)
    have only: "chain (link w) a x \<longleftrightarrow> x = e" for x using chain_unique[OF e(1)] e(1) by blast
    have "\<forall>p \<in> set rest. fst p < length (cells w1) \<and> callback_ok w1 (snd p)"
      using 2(4) step_okD(2)[OF s(1)] by (auto intro: callback_ok_mono world_le_length)
    from 2(1)[OF w1 step_okD(1)[OF s(1)] this] s(3) ev only pk
    have *: "\<forall>p \<in> set rest. \<exists>e. chain (link w) (fst p) e" "link w' = link w" "length (cells w') = length (cells w1)"
      "working w' c \<longleftrightarrow> working w1 c \<or> (\<exists>p \<in> set rest. c = fills (snd p) \<and> (\<exists>e. chain (link w) (fst p) e \<and> end_value w e \<noteq> None))"
      "placed w' d c \<longleftrightarrow> placed w1 d c \<or> (\<exists>p \<in> set rest. c = fills (snd p) \<and> chain (link w) (fst p) d \<and> end_value w d = None)"
      by auto
    have "length (cells w1) = length (cells w)"
      by (simp add: e(2) park_def write_once_await_def set_cell_def queue_job_def split: cell.splits option.splits)
    then show ?case using * pk only e(1) by auto
  qed simp
  then show "link w' = link w" "length (cells w') = length (cells w)"
    "working w' c \<longleftrightarrow> working w c \<or> (\<exists>p \<in> set ps. c = fills (snd p) \<and> (\<exists>e. chain (link w) (fst p) e \<and> end_value w e \<noteq> None))"
    "placed w' d c \<longleftrightarrow> placed w d c \<or> (\<exists>p \<in> set ps. c = fills (snd p) \<and> chain (link w) (fst p) d \<and> end_value w d = None)"
    "\<forall>p \<in> set ps. \<exists>e. chain (link w) (fst p) e"
    by auto
  show "end_value w' d = end_value w d" for d using await_each_end_value[OF assms(1)] .
qed

text \<open>Callbacks that fill a cell no one works for yet, on cells that are coming.\<close>

lemma coming_await_each:
  assumes r: "await_each ps w = Some w'" and inv: "world_inv w"
    and ps: "\<forall>p \<in> set ps. fst p < length (cells w) \<and> callback_ok w (snd p) \<and> fills (snd p) = u"
    and fresh: "\<not> working w u" "\<And>e. \<not> placed w e u"
  shows "coming B w c \<Longrightarrow> coming B w' c"
    and "ps \<noteq> [] \<Longrightarrow> \<forall>p \<in> set ps. coming B w (fst p) \<Longrightarrow> u < length (cells w) \<Longrightarrow> link w u = None \<Longrightarrow> coming B w' u"
proof -
  have "\<forall>p \<in> set ps. fst p < length (cells w) \<and> callback_ok w (snd p)" using ps by blast
  note aw = await_each_waiting[OF r inv this]
  have keep: "coming B w' c" if "coming B w c" for c
    using that
  proof (rule coming_frame)
    fix d e assume "working w d \<or> (\<exists>e. placed w e d)"
    then have "d \<noteq> u" using fresh by blast
    then have "\<not> (\<exists>p \<in> set ps. d = fills (snd p) \<and> chain (link w) (fst p) e \<and> end_value w e = None)" using ps by blast
    then show "placed w' e d \<longleftrightarrow> placed w e d" using aw(5)[of e d] by blast
  next
    show "working w d \<Longrightarrow> working w' d" for d using aw(4)[of d] by blast
  qed (simp_all add: aw(1,2,3))
  then show "coming B w c \<Longrightarrow> coming B w' c" .
  assume ne: "ps \<noteq> []" and cm: "\<forall>p \<in> set ps. coming B w (fst p)" and u: "u < length (cells w)" "link w u = None"
  have places: "coming B w' e" if "placed w' e u" for e
  proof -
    from that aw(5)[of e u] fresh(2) obtain p where p: "p \<in> set ps" "chain (link w) (fst p) e" by blast
    then have "coming B w e" using cm coming_chain[OF p(2)] by blast
    then show ?thesis by (rule keep)
  qed
  obtain p where p: "p \<in> set ps" "fills (snd p) = u" using ne ps by (cases ps) auto
  then obtain e where e: "chain (link w) (fst p) e" using aw(6) by blast
  have "working w' u \<or> (\<exists>e. placed w' e u)"
  proof (cases "end_value w e")
    case None
    then have "placed w' e u" using aw(5)[of e u] p e by blast
    then show ?thesis by blast
  next
    case (Some r)
    then have "working w' u" using aw(4)[of u] p e by blast
    then show ?thesis ..
  qed
  moreover have "u < length (cells w')" "link w' u = None" using u aw(1,3) by simp_all
  ultimately show "coming B w' u" using places by - (rule coming.waits)
qed

subsection \<open>Filling a cell\<close>

lemma same_rest_working:
  "same_rest w w' \<Longrightarrow> jobs_left w' = jobs_left w + N \<Longrightarrow>
   working w' c \<longleftrightarrow> working w c \<or> (\<exists>j. Some j \<in># N \<and> job_fills j = c)"
  by (auto simp: working_def same_rest_def)

text \<open>The cell that is written stops being assumed; what waited for it has a job now.\<close>

lemma coming_write:
  assumes cm: "coming (insert a B) w c" and p: "pool_inv (pool w)" "ctx_ok (pool w) ctx" and a: "is_write_once w a"
  shows "coming B (snd (write_result_to_value ctx r a w)) c"
proof -
  obtain x where x: "a < length (cells w)" "cells w ! a = WriteOnce x" using is_write_onceE[OF a] .
  let ?w = "snd (write_result_to_value ctx r a w)"
  have la: "link w a = None" using x by (simp add: link_def)
  show ?thesis
  proof (cases "wo_value x")
    case (Some r0)
    then have w: "?w = w" and fa: "end_value w a \<noteq> None" using write_filled[OF x(2)] x(2) by (simp_all add: end_value_def)
    show ?thesis
      unfolding w using cm
    proof (rule coming_transfer)
      fix d assume d: "d < length (cells w)" "link w d = None" "d \<in> insert a B"
      then show "coming B w d" using coming.filled[OF x(1) la fa] coming.assumed[of d w B] by blast
    next
      fix d assume "d < length (cells w)" "link w d = None" "working w d \<or> (\<exists>e. placed w e d)" "\<And>e. placed w e d \<Longrightarrow> coming B w e"
      then show "coming B w d" by (rule coming.waits)
    qed (simp_all add: coming.filled)
  next
    case None
    note wr = write_empty[OF p x None, of r]
    have len: "length (cells ?w) = length (cells w)" by (simp add: wr(2))
    have lk: "link ?w d = link w d" for d using la by (simp add: link_update[OF wr(2)])
    have ev: "end_value ?w d \<noteq> None" if "d = a \<or> end_value w d \<noteq> None" for d
      using that x(1) by (cases "d = a") (auto simp: end_value_def wr(2))
    have wk: "working ?w d \<longleftrightarrow> working w d \<or> placed w a d" for d
      using same_rest_working[OF wr(3,5), of d] x by (auto simp: placed_def)
    have pl: "placed ?w e d \<longleftrightarrow> placed w e d \<and> e \<noteq> a" for e d
      using x by (auto simp: placed_def wr(2) nth_list_update)
    have filled: "coming B ?w d" if "d < length (cells w)" "link w d = None" "d = a \<or> end_value w d \<noteq> None" for d
      using that len lk ev[OF that(3)] by (intro coming.filled) simp_all
    show ?thesis
      using cm
    proof (rule coming_transfer)
      fix d assume d: "d < length (cells w)" "link w d = None" "d \<in> insert a B"
      show "coming B ?w d"
      proof (cases "d = a")
        case False
        then show ?thesis using d len lk by (intro coming.assumed) simp_all
      qed (use filled d in blast)
    next
      fix d assume d: "d < length (cells w)" "link w d = None" and wt: "working w d \<or> (\<exists>e. placed w e d)"
        and IH: "\<And>e. placed w e d \<Longrightarrow> coming B ?w e"
      have "d < length (cells ?w)" "link ?w d = None" using d len lk by simp_all
      moreover have "working ?w d \<or> (\<exists>e. placed ?w e d)" using wt wk pl by blast
      moreover have "coming B ?w e" if "placed ?w e d" for e using that pl IH by blast
      ultimately show "coming B ?w d" by (rule coming.waits)
    qed (use len lk filled in simp_all)
  qed
qed

lemma coming_insert: "coming B w c \<Longrightarrow> coming (insert a B) w c"
  by (erule coming_mono) blast

subsection \<open>A job that leaves the hand\<close>

lemma coming_take:
  assumes cm: "coming B w c" and take: "jobs_left w = add_mset (Some j) (jobs_left (w\<lparr>at_hand := hs\<rparr>))"
    and u: "u = job_fills j"
  shows "coming (insert u B) (w\<lparr>at_hand := hs\<rparr>) c"
    and "working (w\<lparr>at_hand := hs\<rparr>) u \<or> (\<exists>e. placed w e u) \<or> end_value w u \<noteq> None \<Longrightarrow> coming B (w\<lparr>at_hand := hs\<rparr>) c"
proof -
  let ?w = "w\<lparr>at_hand := hs\<rparr>"
  have f: "link ?w = link w" "\<And>d. end_value ?w d = end_value w d" "placed ?w = placed w"
    by (simp_all add: link_def end_value_def placed_def fun_eq_iff)
  have wk: "working ?w d \<longleftrightarrow> working w d" if "d \<noteq> u" for d
    using that take u by (auto simp: working_def)
  have waits: "coming B' ?w d" if "d < length (cells w)" "link w d = None" "working ?w d \<or> (\<exists>e. placed w e d)"
    "\<And>e. placed w e d \<Longrightarrow> coming B' ?w e" for d B'
  proof -
    have "d < length (cells ?w)" "link ?w d = None" "working ?w d \<or> (\<exists>e. placed ?w e d)" using that(1-3) f by simp_all
    moreover have "coming B' ?w e" if "placed ?w e d" for e using that f(3) \<open>\<And>e. placed w e d \<Longrightarrow> coming B' ?w e\<close> by simp
    ultimately show ?thesis by (rule coming.waits)
  qed
  have filled: "coming B' ?w d" if "d < length (cells w)" "link w d = None" "end_value w d \<noteq> None" for d B'
    using that by (intro coming.filled) (simp_all add: f)
  have assumed: "coming B' ?w d" if "d < length (cells w)" "link w d = None" "d \<in> B'" for d B'
    using that by (intro coming.assumed) (simp_all add: f)
  show "coming (insert u B) ?w c"
    using cm
  proof (rule coming_transfer)
    fix d assume d: "d < length (cells w)" "link w d = None" "working w d \<or> (\<exists>e. placed w e d)"
      and IH: "\<And>e. placed w e d \<Longrightarrow> coming (insert u B) ?w e"
    show "coming (insert u B) ?w d"
    proof (cases "d = u")
      case True
      then show ?thesis using d by (intro coming.assumed) (simp_all add: f)
    next
      case False
      then show ?thesis using waits d IH wk by blast
    qed
  qed (simp_all add: f filled assumed)
  assume more: "working ?w u \<or> (\<exists>e. placed w e u) \<or> end_value w u \<noteq> None"
  show "coming B ?w c"
    using cm
  proof (rule coming_transfer)
    fix d assume d: "d < length (cells w)" "link w d = None" "working w d \<or> (\<exists>e. placed w e d)"
      and IH: "\<And>e. placed w e d \<Longrightarrow> coming B ?w e"
    show "coming B ?w d"
    proof (cases "end_value w d = None")
      case True
      then show ?thesis using waits[OF d(1,2) _ IH] d(3) wk[of d] more by (cases "d = u") auto
    next
      case False
      then show ?thesis using d filled by blast
    qed
  qed (simp_all add: f filled assumed)
qed

subsection \<open>Tracking\<close>

lemma track_waiting:
  fixes w :: "('f, 'a, 'os) world"
  assumes inv: "world_inv w" and t: "is_tracking w t" "link w t = None" and a: "a < length (cells w)"
    and r: "cell_track a t w = Some (b, w')"
  shows "link w' = (link w)(t := Some a)" "\<And>d. end_value w' d = end_value w d" "length (cells w') = length (cells w)"
    and "working w' d \<longleftrightarrow> working w d \<or> (placed w t d \<and> (\<exists>e. chain (link w') a e \<and> end_value w e \<noteq> None))"
    and "placed w' e d \<longleftrightarrow> (placed w e d \<and> e \<noteq> t) \<or> (placed w t d \<and> chain (link w') a e \<and> end_value w e = None)"
    and "placed w t d \<Longrightarrow> \<exists>e. chain (link w') a e"
proof -
  obtain c where c: "t < length (cells w)" "cells w ! t = Tracking c" using is_trackingE[OF t(1)] .
  have None: "tc_cell c = None" using t(2) c(2) by (simp add: link_def)
  let ?y = "Tracking \<lparr>tc_cell = Some a, tc_callbacks = []\<rparr> :: ('f, 'a) cell"
  let ?w = "set_cell t ?y w" and ?ps = "map (Pair a) (tc_callbacks c)"
  note first = cell_track_first[OF c(2) None c(1) r, unfolded await_callbacks_each]
  have le: "world_le w ?w" using c None by (intro world_le_update) auto
  have "timers ?w = timers w" "io_source ?w = io_source w" by (simp_all add: set_cell_def)
  then have taken: "step_ok w ?w"
    using world_invD(1)[OF inv] c(1) a by (intro step_okI[OF inv le]) (auto simp: nth_list_update)
  have "\<forall>cb \<in> set (tc_callbacks c). callback_ok w cb" using world_invD(2)[OF inv c(1)] c(2) None by simp
  then have "\<forall>p \<in> set ?ps. fst p < length (cells ?w) \<and> callback_ok ?w (snd p)"
    using a callback_ok_mono[OF le] by auto
  note aw = await_each_waiting[OF first(2) step_okD(1)[OF taken] this]
  have lk: "link ?w = (link w)(t := Some a)" using c(1) by (intro ext) (simp add: link_update)
  have ev: "end_value ?w d = end_value w d" for d using c by (cases "d = t") (auto simp: end_value_def)
  have wk: "working ?w d \<longleftrightarrow> working w d" for d by (simp add: working_def set_cell_def)
  have pl: "placed ?w e d \<longleftrightarrow> placed w e d \<and> e \<noteq> t" for e d
    using c by (auto simp: placed_def nth_list_update)
  have cbs: "placed w t d \<longleftrightarrow> (\<exists>p \<in> set ?ps. d = fills (snd p))" for d using c by (auto simp: placed_def)
  show l: "link w' = (link w)(t := Some a)" using aw(1) lk by simp
  show "length (cells w') = length (cells w)" "\<And>d. end_value w' d = end_value w d" using aw(2,3) ev by simp_all
  show "working w' d \<longleftrightarrow> working w d \<or> (placed w t d \<and> (\<exists>e. chain (link w') a e \<and> end_value w e \<noteq> None))"
    using aw(4)[of d] aw(1) by (auto simp: wk ev cbs)
  show "placed w' e d \<longleftrightarrow> (placed w e d \<and> e \<noteq> t) \<or> (placed w t d \<and> chain (link w') a e \<and> end_value w e = None)"
    using aw(5)[of e d] aw(1) by (auto simp: pl ev cbs)
  show "placed w t d \<Longrightarrow> \<exists>e. chain (link w') a e" using aw(6) aw(1) by (auto simp: cbs)
qed

text \<open>The cell that is made to track stops being assumed; its target must not wait for it.\<close>

lemma coming_track:
  assumes inv: "world_inv w" and t: "is_tracking w t" "link w t = None" "\<not> working w t" "\<And>e. \<not> placed w e t"
    and a: "coming {} w a" and r: "cell_track a t w = Some (b, w')" and cm: "coming (insert t B) w c"
  shows "coming B w' c"
proof -
  note tr = track_waiting[OF inv t(1,2) coming_in_range[OF a] r]
  have "end_value w t = None" using t(1) by (cases "cells w ! t") (auto simp: is_tracking_def end_value_def)
  then have nt: "\<not> coming {} w t" using t by (auto elim: coming.cases)
  have rt: "t < length (cells w)" using t(1) by (simp add: is_tracking_def)
  have filled: "coming B w' d" if "d < length (cells w)" "link w d = None" "d \<noteq> t" "end_value w d \<noteq> None" for d B
    using that tr by (intro coming.filled) simp_all
  have old: "coming {} w' d" if "coming {} w d" for d
    using that
  proof (rule coming_transfer)
    fix d assume d: "d < length (cells w)" "link w d = None" and wt: "working w d \<or> (\<exists>e. placed w e d)"
      and cm: "\<And>e. placed w e d \<Longrightarrow> coming {} w e" and IH: "\<And>e. placed w e d \<Longrightarrow> coming {} w' e"
    have np: "\<not> placed w t d" using cm nt by blast
    have "d \<noteq> t" using wt t by blast
    then have "d < length (cells w')" "link w' d = None" using d tr by simp_all
    moreover have "working w' d \<or> (\<exists>e. placed w' e d)" using wt np tr(4)[of d] tr(5)[of _ d] by blast
    moreover have "coming {} w' e" if "placed w' e d" for e using that tr(5)[of e d] np IH by blast
    ultimately show "coming {} w' d" by (rule coming.waits)
  next
    fix d assume d: "d < length (cells w)" "link w d = None" "end_value w d \<noteq> None"
    moreover have "d \<noteq> t" using d(3) \<open>end_value w t = None\<close> by blast
    ultimately show "coming {} w' d" by (intro filled)
  next
    show "link w' d = Some s" if "link w d = Some s" for d s using that t(2) tr(1) by auto
  qed (use tr in simp_all)
  have target: "coming B w' a" by (rule coming_mono[OF old[OF a]]) blast
  have tracked: "coming B w' t" using rt tr target by (intro coming.linked[of t w' a]) simp_all
  show ?thesis
    using cm
  proof (rule coming_transfer)
    fix d assume d: "d < length (cells w)" "link w d = None" "d \<in> insert t B"
    show "coming B w' d"
    proof (cases "d = t")
      case False
      then show ?thesis using d tr by (intro coming.assumed) simp_all
    qed (use tracked in simp)
  next
    fix d assume d: "d < length (cells w)" "link w d = None" and wt: "working w d \<or> (\<exists>e. placed w e d)"
      and IH: "\<And>e. placed w e d \<Longrightarrow> coming B w' e"
    have "d \<noteq> t" using wt t by blast
    then have "d < length (cells w')" "link w' d = None" using d tr by simp_all
    moreover have "working w' d \<or> (\<exists>e. placed w' e d)" using wt tr(4)[of d] tr(5)[of _ d] tr(6)[of d] by blast
    moreover have "coming B w' e" if "placed w' e d" for e
    proof (cases "placed w e d")
      case False
      then have "chain (link w') a e" using that tr(5)[of e d] by blast
      then show ?thesis using target by (rule coming_chain)
    qed (rule IH)
    ultimately show "coming B w' d" by (rule coming.waits)
  next
    fix d assume d: "d < length (cells w)" "link w d = None" "end_value w d \<noteq> None"
    moreover have "d \<noteq> t" using d(3) \<open>end_value w t = None\<close> by blast
    ultimately show "coming B w' d" by (intro filled)
  next
    show "link w' d = Some s" if "link w d = Some s" for d s using that t(2) tr(1) by auto
  qed (use tr in simp_all)
qed

end
