(* ===== verification/Waiting_Counts.thy ===== *)
theory Waiting_Counts
  imports Waiting_Steps
begin

text \<open>
  The combining cells never count past the callbacks that are left: as long as a \<open>when_any\<close> or
  \<open>when_all\<close> is unresolved, the callbacks still owed to it and those it has counted are at least
  as many as its tasks, so the last of them fills its cell. A \<open>bind\<close> is owed one callback at most.
\<close>

subsection \<open>Counters\<close>

fun counter :: "'f callback \<Rightarrow> (address + address) option" where
  "counter (OnWhenAny u x) = Some (Inl x)"
| "counter (OnWhenAll x i u) = Some (Inr x)"
| "counter _ = None"

fun counted :: "('f, 'a, 'os) world \<Rightarrow> address + address \<Rightarrow> nat" where
  "counted w (Inl x) = num_erroneous_cells (any_contexts w ! x)"
| "counted w (Inr x) = num_resolved_cells (all_contexts w ! x)"

fun goal :: "('f, 'a, 'os) world \<Rightarrow> address + address \<Rightarrow> nat" where
  "goal w (Inl x) = any_total_cells (any_contexts w ! x)"
| "goal w (Inr x) = all_total_cells (all_contexts w ! x)"

fun is_context :: "('f, 'a, 'os) world \<Rightarrow> address + address \<Rightarrow> bool" where
  "is_context w (Inl x) \<longleftrightarrow> x < length (any_contexts w)"
| "is_context w (Inr x) \<longleftrightarrow> x < length (all_contexts w)"

fun is_bind :: "address \<Rightarrow> 'f callback \<Rightarrow> bool" where
  "is_bind t (OnBind s e f) \<longleftrightarrow> t = s"
| "is_bind t _ \<longleftrightarrow> False"

definition owed :: "address + address \<Rightarrow> 'f callback multiset \<Rightarrow> nat" where
  "owed k M = size (filter_mset (\<lambda>cb. counter cb = Some k) M)"

definition binds :: "address \<Rightarrow> 'f callback multiset \<Rightarrow> nat" where
  "binds t M = size (filter_mset (is_bind t) M)"

lemma owed_simps [simp]:
  "owed k {#} = 0" "owed k (M + N) = owed k M + owed k N"
  "owed k (add_mset cb M) = (if counter cb = Some k then 1 else 0) + owed k M"
  by (simp_all add: owed_def)

lemma binds_simps [simp]:
  "binds t {#} = 0" "binds t (M + N) = binds t M + binds t N"
  "binds t (add_mset cb M) = (if is_bind t cb then 1 else 0) + binds t M"
  by (simp_all add: binds_def)

lemma owed_pos: "0 < owed k M \<longleftrightarrow> (\<exists>cb \<in># M. counter cb = Some k)"
  by (induction M) auto

lemma binds_pos: "0 < binds t M \<longleftrightarrow> (\<exists>cb \<in># M. is_bind t cb)"
  by (induction M) auto

lemma counter_ok: "callback_ok w cb \<Longrightarrow> counter cb = Some k \<Longrightarrow> is_context w k \<and> is_write_once w (fills cb)"
  by (cases cb) auto

lemma bind_ok: "callback_ok w cb \<Longrightarrow> is_bind t cb \<Longrightarrow> is_tracking w t"
  by (cases cb) auto

subsection \<open>Nothing is counted past what is owed\<close>

definition enough :: "('f, 'a, 'os) world \<Rightarrow> 'f callback multiset \<Rightarrow> 'f callback \<Rightarrow> address + address \<Rightarrow> bool" where
  "enough w M cb k \<longleftrightarrow> end_value w (fills cb) \<noteq> None \<or> (counted w k < goal w k \<and> goal w k \<le> owed k M + counted w k \<and> goal w k < size_max1)"

definition balanced :: "'f callback multiset \<Rightarrow> ('f, 'a, 'os) world \<Rightarrow> bool" where
  "balanced M w \<longleftrightarrow> (\<forall>cb \<in># M. \<forall>k. counter cb = Some k \<longrightarrow> enough w M cb k)
     \<and> (\<forall>cb \<in># M. \<forall>cb' \<in># M. counter cb = counter cb' \<and> counter cb \<noteq> None \<longrightarrow> fills cb = fills cb')
     \<and> (\<forall>t. binds t M \<le> 1)"

lemma balancedD:
  assumes "balanced M w"
  shows "cb \<in># M \<Longrightarrow> counter cb = Some k \<Longrightarrow> enough w M cb k"
    and "cb \<in># M \<Longrightarrow> cb' \<in># M \<Longrightarrow> counter cb = Some k \<Longrightarrow> counter cb' = Some k \<Longrightarrow> fills cb = fills cb'"
    and "binds t M \<le> 1"
  using assms unfolding balanced_def by (blast, metis option.distinct(1), blast)

lemma balancedI:
  assumes "\<And>cb k. cb \<in># M \<Longrightarrow> counter cb = Some k \<Longrightarrow> enough w M cb k"
    and "\<And>cb cb' k. cb \<in># M \<Longrightarrow> cb' \<in># M \<Longrightarrow> counter cb = Some k \<Longrightarrow> counter cb' = Some k \<Longrightarrow> fills cb = fills cb'"
    and "\<And>t. binds t M \<le> 1"
  shows "balanced M w"
  unfolding balanced_def
proof (intro conjI ballI allI impI)
  fix cb cb' assume cb: "cb \<in># M" "cb' \<in># M" and "counter cb = counter cb' \<and> counter cb \<noteq> None"
  then obtain k where "counter cb = Some k" "counter cb' = Some k" by (metis option.exhaust)
  with cb show "fills cb = fills cb'" by (rule assms(2))
next
  show "binds t M \<le> 1" for t by (rule assms(3))
qed (rule assms(1))

text \<open>What is owed may be delivered only where it does not count.\<close>

lemma balanced_le:
  assumes b: "balanced M w" and sub: "M' \<subseteq># M" and owed: "\<And>k. owed k M' = owed k M"
    and w: "\<And>cb k. cb \<in># M' \<Longrightarrow> counter cb = Some k \<Longrightarrow> enough w M cb k \<Longrightarrow> enough w' M cb k"
  shows "balanced M' w'"
proof (rule balancedI)
  have in_M: "cb \<in># M" if "cb \<in># M'" for cb using sub that by (rule mset_subset_eqD)
  fix cb k assume cb: "cb \<in># M'" "counter cb = Some k"
  from w[OF cb balancedD(1)[OF b in_M[OF cb(1)] cb(2)]] owed show "enough w' M' cb k" by (simp add: enough_def)
  fix cb' assume "cb' \<in># M'" "counter cb' = Some k"
  then show "fills cb = fills cb'" using balancedD(2)[OF b in_M in_M] cb by blast
next
  fix t
  have "filter_mset (is_bind t) M' \<subseteq># filter_mset (is_bind t) M" using sub by (rule multiset_filter_mono)
  then have "binds t M' \<le> binds t M" unfolding binds_def by (rule size_mset_mono)
  then show "binds t M' \<le> 1" using balancedD(3)[OF b, of t] by simp
qed

lemma balanced_add:
  assumes b: "balanced M w"
    and w: "\<And>cb k. cb \<in># M \<Longrightarrow> counter cb = Some k \<Longrightarrow> enough w M cb k \<Longrightarrow> enough w' M cb k"
    and new: "\<And>cb k. cb \<in># N \<Longrightarrow> counter cb = Some k \<Longrightarrow> owed k M = 0 \<and> fills cb = u \<and> counted w' k < goal w' k \<and> goal w' k \<le> owed k N + counted w' k \<and> goal w' k < size_max1"
    and binds: "\<And>t. binds t (M + N) \<le> 1"
  shows "balanced (M + N) w'"
proof (rule balancedI)
  fix cb k assume cb: "cb \<in># M + N" "counter cb = Some k"
  show "enough w' (M + N) cb k"
  proof (cases "cb \<in># M")
    case True
    from w[OF this cb(2) balancedD(1)[OF b this cb(2)]] show ?thesis by (auto simp: enough_def)
  next
    case False
    then show ?thesis using new[of cb k] cb by (auto simp: enough_def)
  qed
  fix cb' assume cb': "cb' \<in># M + N" "counter cb' = Some k"
  have old: "0 < owed k M" if "d \<in># M" "counter d = Some k" for d using that by (auto simp: owed_pos)
  consider "cb \<in># N" "cb' \<in># N" | "cb \<in># M" "cb' \<in># M"
    using old new[of _ k] cb cb' by fastforce
  then show "fills cb = fills cb'"
  proof cases
    case 1
    then show ?thesis using new cb(2) cb'(2) by metis
  next
    case 2
    then show ?thesis using balancedD(2)[OF b] cb(2) cb'(2) by blast
  qed
qed (rule binds)

subsection \<open>The invariant\<close>

definition same_counts :: "('f, 'a, 'os) world \<Rightarrow> ('f, 'a, 'os) world \<Rightarrow> bool" where
  "same_counts w w' \<longleftrightarrow> (\<forall>k. is_context w k \<longrightarrow> counted w' k = counted w k \<and> goal w' k = goal w k)"

text \<open>All that the timing wheels hold completes a timer.\<close>

definition only_timers :: "('f, 'a, 'os) world \<Rightarrow> bool" where
  "only_timers w \<longleftrightarrow> (\<forall>p \<in># tps_dues (timers w). \<exists>c. snd p = CompleteTimer c)"

definition lively :: "('f, 'a, 'os) world \<Rightarrow> bool" where
  "lively w \<longleftrightarrow> world_inv w \<and> balanced (callback_tokens w) w \<and> only_timers w"

lemma livelyD: "lively w \<Longrightarrow> world_inv w" "lively w \<Longrightarrow> balanced (callback_tokens w) w" "lively w \<Longrightarrow> only_timers w"
  by (simp_all add: lively_def)

lemma same_rest_counts:
  assumes "same_rest w w'"
  shows "same_counts w w'"
proof -
  have "counted w' k = counted w k \<and> goal w' k = goal w k" for k
    using assms by (cases k) (auto simp: same_rest_def)
  then show ?thesis by (auto simp: same_counts_def)
qed

lemma enough_mono:
  assumes "enough w M cb k" "callback_ok w cb" "counter cb = Some k" "world_le w w'" "same_counts w w'"
  shows "enough w' M cb k"
proof -
  note ok = counter_ok[OF assms(2,3)]
  have "counted w' k = counted w k" "goal w' k = goal w k" using ok assms(5) by (auto simp: same_counts_def)
  moreover have "end_value w' (fills cb) \<noteq> None" if "end_value w (fills cb) \<noteq> None"
    using that ok end_value_le[OF assms(4), of "fills cb"] by auto
  ultimately show ?thesis using assms(1) by (auto simp: enough_def)
qed

lemma lively_step:
  assumes "lively w" "step_ok w w'" "same_counts w w'" "only_timers w'" "callback_tokens w' \<subseteq># callback_tokens w"
    "\<And>k. owed k (callback_tokens w') = owed k (callback_tokens w)"
  shows "lively w'"
  unfolding lively_def
proof (intro conjI)
  show "world_inv w'" using assms(2) by (rule step_okD)
  show "only_timers w'" by (rule assms(4))
  note inv = livelyD(1)[OF assms(1)]
  show "balanced (callback_tokens w') w'"
    using balanced_le[OF livelyD(2)[OF assms(1)] assms(5,6)]
      enough_mono[OF _ tokens_ok[OF inv mset_subset_eqD[OF assms(5)]] _ step_okD(2)[OF assms(2)] assms(3)] by blast
qed

lemma lively_add:
  assumes "lively w" "step_ok w w'" "same_counts w w'" "only_timers w'" "callback_tokens w' = callback_tokens w + N"
    and new: "\<And>cb k. cb \<in># N \<Longrightarrow> counter cb = Some k \<Longrightarrow>
      owed k (callback_tokens w) = 0 \<and> fills cb = u \<and> counted w' k < goal w' k \<and> goal w' k \<le> owed k N + counted w' k \<and> goal w' k < size_max1"
    and binds: "\<And>t. binds t (callback_tokens w + N) \<le> 1"
  shows "lively w'"
  unfolding lively_def
proof (intro conjI)
  show "world_inv w'" using assms(2) by (rule step_okD)
  show "only_timers w'" by (rule assms(4))
  show "balanced (callback_tokens w') w'"
    unfolding assms(5)
    using balanced_add[OF livelyD(2)[OF assms(1)] _ new binds]
      enough_mono[OF _ tokens_ok[OF livelyD(1)[OF assms(1)]] _ step_okD(2)[OF assms(2)] assms(3)] by blast
qed

lemma fresh_owed:
  assumes "world_inv w" "\<not> is_context w k"
  shows "owed k (callback_tokens w) = 0"
proof (rule ccontr)
  assume "owed k (callback_tokens w) \<noteq> 0"
  then obtain cb where "cb \<in># callback_tokens w" "counter cb = Some k" using owed_pos[of k] by auto
  then show False using counter_ok tokens_ok[OF assms(1)] assms(2) by blast
qed

lemma fresh_binds:
  assumes "world_inv w" "\<not> is_tracking w t"
  shows "binds t (callback_tokens w) = 0"
proof (rule ccontr)
  assume "binds t (callback_tokens w) \<noteq> 0"
  then obtain cb where "cb \<in># callback_tokens w" "is_bind t cb" using binds_pos[of t] by auto
  then show False using bind_ok tokens_ok[OF assms(1)] assms(2) by blast
qed

subsection \<open>Who works for a cell\<close>

lemma token_waits:
  assumes "cb \<in># callback_tokens w"
  shows "working w (fills cb) \<or> (\<exists>e. placed w e (fills cb))"
proof -
  consider a where "a < length (cells w)" "cb \<in> set (cell_callbacks (cells w ! a))"
    | j where "j \<in># jobs_left w" "cb \<in># job_callbacks j"
    using assms by (auto simp: callback_tokens_def pending_def queued_def mem_sum_mset)
  then show ?thesis
  proof cases
    case (1 a)
    then show ?thesis by (auto simp: placed_def)
  next
    case (2 j)
    then obtain r where "j = Some (RunCallback cb r)" by (cases j rule: job_callbacks.cases) auto
    then show ?thesis using 2(1) by (auto simp: working_def)
  qed
qed

lemma waits_token:
  assumes inv: "world_inv w" and tm: "only_timers w" and t: "is_tracking w t" and wt: "working w t \<or> (\<exists>e. placed w e t)"
  shows "0 < binds t (callback_tokens w)"
proof -
  have wo: "\<not> is_write_once w t" using t by (cases "cells w ! t") (auto simp: is_tracking_def is_write_once_def)
  have bind: "is_bind t cb" if "callback_ok w cb" "fills cb = t" for cb using that wo by (cases cb) auto
  from wt consider j where "Some j \<in># jobs_left w" "job_fills j = t"
    | p where "p \<in># tps_dues (timers w)" "job_fills (snd p) = t"
    | p where "p \<in> set (in_flight_requests (io_source w))" "fst p = t"
    | e cb where "e < length (cells w)" "cb \<in> set (cell_callbacks (cells w ! e))" "fills cb = t"
    by (auto simp: working_def placed_def)
  then have "\<exists>cb \<in># callback_tokens w. is_bind t cb"
  proof cases
    case (1 j)
    then have ok: "job_ok w j" using world_invD(4)[OF inv 1(1)] by (simp add: fn_ok_def)
    then obtain cb r where j: "j = RunCallback cb r" using wo 1(2) by (cases j) auto
    then have "cb \<in># queued w" using 1(1) by (force simp: queued_def)
    then show ?thesis using bind[of cb] ok 1(2) j by (auto simp: callback_tokens_def)
  next
    case (2 p)
    then have "job_ok w (snd p)" using inv by (simp add: world_inv_def sources_ok_def)
    then show ?thesis using wo 2 tm by (auto simp: only_timers_def)
  next
    case (3 p)
    then show ?thesis using inv wo by (auto simp: world_inv_def sources_ok_def)
  next
    case (4 e cb)
    then have "cb \<in># pending w" by (auto simp: pending_def mem_sum_mset)
    moreover have "callback_ok w cb" using 4 world_invD(2)[OF inv 4(1)] by (cases "cells w ! e") auto
    ultimately show ?thesis using bind[of cb] 4(3) by (auto simp: callback_tokens_def)
  qed
  then show ?thesis by (simp add: binds_pos)
qed

end
