(* ===== verification/Waiting_Calls.thy ===== *)
theory Waiting_Calls
  imports Waiting_Counts
begin

text \<open>
  The calls of a client keep every cell coming, and what they make is coming if what it was made
  from is. Each call is put together from steps that do (\<open>keeps\<close>).
\<close>

subsection \<open>Steps that keep cells coming\<close>

definition keeps :: "('f, 'a, 'os) world \<Rightarrow> ('f, 'a, 'os) world \<Rightarrow> bool" where
  "keeps w w' \<longleftrightarrow> step_ok w w' \<and> lively w' \<and> (\<forall>B c. coming B w c \<longrightarrow> coming B w' c)"

lemma keepsD:
  assumes "keeps w w'"
  shows "step_ok w w'" "lively w'" "coming B w c \<Longrightarrow> coming B w' c"
  using assms by (simp_all add: keeps_def)

lemma keeps_refl: "lively w \<Longrightarrow> keeps w w"
  by (simp add: keeps_def livelyD)

lemma keeps_trans: "keeps u v \<Longrightarrow> keeps v w \<Longrightarrow> keeps u w"
  unfolding keeps_def using step_ok_trans by blast

text \<open>No one works for a cell that was just made.\<close>

definition unowed :: "('f, 'a, 'os) world \<Rightarrow> address \<Rightarrow> bool" where
  "unowed w u \<longleftrightarrow> \<not> working w u \<and> (\<forall>e. \<not> placed w e u)"

lemma unowed_fresh:
  assumes inv: "world_inv w" and u: "length (cells w) \<le> u"
  shows "unowed w u"
proof -
  have cb: "fills cb < length (cells w)" if "callback_ok w cb" for cb
    using that by (cases cb) (auto simp: is_write_once_def is_tracking_def)
  then have job: "job_fills j < length (cells w)" if "job_ok w j" for j
    using that by (cases j) (auto simp: is_write_once_def)
  have "\<not> working w u"
  proof
    assume "working w u"
    then consider j where "Some j \<in># jobs_left w" "job_fills j = u"
      | p where "p \<in># tps_dues (timers w)" "job_fills (snd p) = u"
      | p where "p \<in> set (in_flight_requests (io_source w))" "fst p = u"
      by (auto simp: working_def)
    then show False
    proof cases
      case (1 j)
      then show False using world_invD(4)[OF inv 1(1)] job[of j] u by (simp add: fn_ok_def)
    next
      case (2 p)
      then show False using sources_invD(2)[OF inv 2(1)] job[of "snd p"] u by simp
    next
      case (3 p)
      then show False using sources_invD(3)[OF inv 3(1)] u by (simp add: is_write_once_def)
    qed
  qed
  moreover have "\<not> placed w e u" for e
  proof
    assume "placed w e u"
    then obtain x where x: "e < length (cells w)" "x \<in> set (cell_callbacks (cells w ! e))" "fills x = u"
      by (auto simp: placed_def)
    have "callback_ok w x" using x(2) world_invD(2)[OF inv x(1)] by (cases "cells w ! e") auto
    then show False using cb[of x] x(3) u by simp
  qed
  ultimately show ?thesis by (simp add: unowed_def)
qed

lemma unowed_new_cell: "cell_callbacks c = [] \<Longrightarrow> unowed (snd (new_cell c w)) u \<longleftrightarrow> unowed w u"
  by (auto simp: unowed_def working_def placed_def new_cell_def nth_append less_Suc_eq)

lemma keeps_new_cell:
  assumes "lively w" "cell_ok w c" "cell_callbacks c = []"
  shows "keeps w (snd (new_cell c w))"
  unfolding keeps_def
proof (intro conjI allI impI)
  let ?w = "snd (new_cell c w)"
  show st: "step_ok w ?w" by (rule new_cell_step[OF livelyD(1)[OF assms(1)] assms(2)])
  have "callback_tokens ?w = callback_tokens w"
    using pending_new[of c w] assms(3) by (simp add: callback_tokens_def queued_def)
  moreover have "only_timers ?w" using livelyD(3)[OF assms(1)] same_rest_sources[OF new_cell_simps(4)[of w c]] by (simp add: only_timers_def)
  ultimately show "lively ?w" using lively_step[OF assms(1) st same_rest_counts[OF new_cell_simps(4)]] by simp
  show "coming B ?w d" if "coming B w d" for B d using that assms(3) by (rule coming_new_cell)
qed

lemma keeps_same_cells:
  assumes "lively w" "step_ok w w'" "same_counts w w'" "cells w' = cells w" "callback_tokens w' = callback_tokens w"
    "only_timers w'" "\<And>c. working w c \<Longrightarrow> working w' c"
  shows "keeps w w'"
  unfolding keeps_def
proof (intro conjI allI impI)
  show "step_ok w w'" by (rule assms(2))
  show "lively w'" using lively_step[OF assms(1-3,6)] by (simp add: assms(5))
  show "coming B w' d" if "coming B w d" for B d using that assms(4,7) by (rule coming_more_work)
qed

lemma keeps_queue:
  assumes l: "lively w" and ctx: "ctx_ok (pool w) ctx" and j: "job_ok w j" "job_callbacks (Some j) = {#}"
  shows "keeps w (queue_job ctx j w)"
proof -
  note inv = livelyD(1)[OF l]
  have "callback_tokens (queue_job ctx j w) = callback_tokens w" using queue_job_tokens[OF inv ctx, of j] j(2) by simp
  moreover have "only_timers (queue_job ctx j w)" using livelyD(3)[OF l] by (simp add: only_timers_def queue_job_def)
  ultimately show ?thesis
    using working_queue[OF world_invD(1)[OF inv] ctx, of j]
    by (intro keeps_same_cells[OF l queue_job_step[OF inv ctx j(1)] same_rest_counts]) simp_all
qed

lemma keeps_await_each:
  assumes l: "lively w" and r: "await_each ps w = Some w'"
    and ps: "\<forall>p \<in> set ps. fst p < length (cells w) \<and> callback_ok w (snd p) \<and> fills (snd p) = u"
    and u: "unowed w u"
    and N: "N = mset (map snd ps)"
    and new: "\<And>cb k. cb \<in># N \<Longrightarrow> counter cb = Some k \<Longrightarrow>
      owed k (callback_tokens w) = 0 \<and> counted w k < goal w k \<and> goal w k \<le> owed k N + counted w k \<and> goal w k < size_max1"
    and binds: "\<And>t. binds t (callback_tokens w + N) \<le> 1"
  shows "keeps w w'"
proof -
  note inv = livelyD(1)[OF l] and sr = await_each_same_rest[OF r]
  have "\<forall>p \<in> set ps. fst p < length (cells w) \<and> callback_ok w (snd p)" using ps by blast
  from await_each_step[OF inv this r] have st: "step_ok w w'" "callback_tokens w' = callback_tokens w + N" by (simp_all add: N)
  note sc = same_rest_counts[OF sr]
  have ok: "callback_ok w cb \<and> fills cb = u" if "cb \<in># N" for cb using that ps by (auto simp: N)
  have ot: "only_timers w'" using livelyD(3)[OF l] same_rest_sources[OF sr] by (simp add: only_timers_def)
  have "lively w'"
  proof (rule lively_add[OF l st(1) sc ot st(2) _ binds])
    fix cb k assume cb: "cb \<in># N" "counter cb = Some k"
    have "counted w' k = counted w k" "goal w' k = goal w k"
      using counter_ok[OF _ cb(2)] ok[OF cb(1)] sc by (auto simp: same_counts_def)
    then show "owed k (callback_tokens w) = 0 \<and> fills cb = u \<and> counted w' k < goal w' k \<and> goal w' k \<le> owed k N + counted w' k \<and> goal w' k < size_max1"
      using new[OF cb] ok[OF cb(1)] by simp
  qed
  then show ?thesis
    using st(1) coming_await_each(1)[OF r inv ps] u by (auto simp: keeps_def unowed_def)
qed

lemma coming_made:
  assumes l: "lively w" and r: "await_each ps w = Some w'"
    and ps: "\<forall>p \<in> set ps. fst p < length (cells w) \<and> callback_ok w (snd p) \<and> fills (snd p) = u"
    and u: "unowed w u" "u < length (cells w)" "link w u = None"
    and cm: "ps \<noteq> []" "\<forall>p \<in> set ps. coming B w (fst p)"
  shows "coming B w' u"
  using coming_await_each(2)[OF r livelyD(1)[OF l] ps] u cm by (simp add: unowed_def)

subsection \<open>Filling\<close>

lemma lively_write:
  assumes l: "lively w" and ctx: "ctx_ok (pool w) ctx" and a: "is_write_once w a"
  shows "lively (snd (write_result_to_value ctx r a w))" "same_counts w (snd (write_result_to_value ctx r a w))"
proof -
  note inv = livelyD(1)[OF l] and wr = write_result_step[OF livelyD(1)[OF l] ctx a, of r]
  let ?w = "snd (write_result_to_value ctx r a w)"
  obtain c where c: "a < length (cells w)" "cells w ! a = WriteOnce c" using is_write_onceE[OF a] .
  have sr: "same_rest w ?w"
    using write_filled[OF c(2)] write_empty(3)[OF world_invD(1)[OF inv] ctx c] by (cases "wo_value c") auto
  then show "same_counts w ?w" by (rule same_rest_counts)
  have "only_timers ?w" using livelyD(3)[OF l] same_rest_sources[OF sr] by (simp add: only_timers_def)
  then show "lively ?w" using lively_step[OF l wr(1) same_rest_counts[OF sr]] wr(2) by simp
qed

lemma keeps_write:
  assumes l: "lively w" and ctx: "ctx_ok (pool w) ctx" and a: "is_write_once w a"
  shows "keeps w (snd (write_result_to_value ctx r a w))"
proof -
  note inv = livelyD(1)[OF l]
  have "coming B (snd (write_result_to_value ctx r a w)) c" if "coming B w c" for B c
    using coming_write[OF coming_insert[OF that] world_invD(1)[OF inv] ctx a] .
  then show ?thesis
    using write_result_step(1)[OF inv ctx a] lively_write(1)[OF l ctx a] by (simp add: keeps_def)
qed

end
