(* ===== verification/Waiting_Clients.thy ===== *)
theory Waiting_Clients
  imports Waiting_Calls
begin

text \<open>
  What a client may rely on: a task made with the calls of the library from tasks whose results
  are coming has a result coming too. \<open>live_client\<close> records which tasks a client relies on and
  which of its sources are still open.
\<close>

subsection \<open>The calls one by one\<close>

lemma coming_worked:
  assumes "u < length (cells w)" "link w u = None" "working w u" "\<And>e. \<not> placed w e u"
  shows "coming B w u"
proof (rule coming.waits)
  show "coming B w e" if "placed w e u" for e using that assms(4) by blast
qed (use assms in simp_all)

lemma new_write_once:
  assumes l: "lively w" and n: "write_once_new w = (a, w1)"
  shows "keeps w w1" "a = length (cells w)" "is_write_once w1 a" "link w1 a = None" "a < length (cells w1)" "unowed w1 a"
    "callback_tokens w1 = callback_tokens w" "same_rest w w1"
proof -
  note st = write_once_new_step[OF livelyD(1)[OF l] n]
  have w1: "w1 = snd (new_cell (WriteOnce \<lparr>wo_value = None, wo_callbacks = []\<rparr>) w)" using n by (simp add: write_once_new_def new_cell_def)
  show "keeps w w1" unfolding w1 by (rule keeps_new_cell[OF l]) simp_all
  show "unowed w1 a" unfolding w1 using unowed_fresh[OF livelyD(1)[OF l]] st(3) by (subst unowed_new_cell) simp_all
  show "a = length (cells w)" "is_write_once w1 a" "link w1 a = None" "a < length (cells w1)"
    "callback_tokens w1 = callback_tokens w" "same_rest w w1"
    using st(2-5,7) by (simp_all add: link_def)
qed

lemma new_tracking:
  assumes l: "lively w" and n: "tracking_new w = (a, w1)"
  shows "keeps w w1" "a = length (cells w)" "is_tracking w1 a" "link w1 a = None" "a < length (cells w1)" "unowed w1 a"
    "callback_tokens w1 = callback_tokens w"
proof -
  note st = tracking_new_step[OF livelyD(1)[OF l] n]
  have w1: "w1 = snd (new_cell (Tracking \<lparr>tc_cell = None, tc_callbacks = []\<rparr>) w)" using n by (simp add: tracking_new_def new_cell_def)
  show "keeps w w1" unfolding w1 by (rule keeps_new_cell[OF l]) simp_all
  show "unowed w1 a" unfolding w1 using unowed_fresh[OF livelyD(1)[OF l]] st(3) by (subst unowed_new_cell) simp_all
  show "a = length (cells w)" "is_tracking w1 a" "link w1 a = None" "a < length (cells w1)" "callback_tokens w1 = callback_tokens w"
    using st(2-5) by (simp_all add: link_def)
qed

lemma create_waiting:
  assumes l: "lively w" and r: "task_new f w = (t, w')"
  shows "keeps w w'" "coming B w' (task_cell t)"
proof -
  obtain a w1 where n: "write_once_new w = (a, w1)" by (cases "write_once_new w")
  note nw = new_write_once[OF l n]
  note l1 = keepsD(2)[OF nw(1)]
  have t: "t = \<lparr>task_cell = a\<rparr>" "w' = queue_job ctx_empty (RunTask a f) w1" using r n by (auto simp: task_new_def)
  have k: "keeps w1 w'" unfolding t(2) using nw(3) by (intro keeps_queue[OF l1 ctx_empty_ok]) simp_all
  show "keeps w w'" using nw(1) k by (rule keeps_trans)
  have "a < length (cells w')" "link w' a = None" "\<not> placed w' e a" for e
    using nw(4-6) by (simp_all add: t(2) link_def unowed_def placed_def)
  moreover have "working w' a"
    using working_queue[OF world_invD(1)[OF livelyD(1)[OF l1]] ctx_empty_ok, of "RunTask a f" a] by (simp add: t(2))
  ultimately show "coming B w' (task_cell t)" unfolding t(1) by (simp add: coming_worked)
qed

lemma await_one: "cell_await a cb w = Some w' \<Longrightarrow> await_each [(a, cb)] w = Some w'"
  by simp

lemma link_keeps: "await_each ps w = Some w' \<Longrightarrow> world_inv w \<Longrightarrow>
  \<forall>p \<in> set ps. fst p < length (cells w) \<and> callback_ok w (snd p) \<Longrightarrow> link w' = link w"
  by (rule await_each_waiting(1))

lemma map_waiting:
  assumes l: "lively w" and ok: "task_ok w t" and r: "task_map f t w = Some (t', w')"
  shows "keeps w w'" "coming B w (task_cell t) \<Longrightarrow> coming B w' (task_cell t')"
proof -
  obtain a w1 where n: "write_once_new w = (a, w1)" by (cases "write_once_new w")
  note nw = new_write_once[OF l n]
  note l1 = keepsD(2)[OF nw(1)] and st = keepsD(1)[OF nw(1)]
  have t': "t' = \<lparr>task_cell = a\<rparr>" and "cell_await (task_cell t) (OnMap a f) w1 = Some w'" using r n by (auto simp: task_map_def)
  from await_one[OF this(2)] have aw: "await_each [(task_cell t, OnMap a f)] w1 = Some w'" .
  have ps: "\<forall>p \<in> set [(task_cell t, OnMap a f)]. fst p < length (cells w1) \<and> callback_ok w1 (snd p) \<and> fills (snd p) = a"
    using nw(3) task_ok_mono[OF step_okD(2)[OF st] ok] by (simp add: task_ok_def)
  have "keeps w1 w'"
    using balancedD(3)[OF livelyD(2)[OF l1]] by (intro keeps_await_each[OF l1 aw ps nw(6) refl]) auto
  then show "keeps w w'" using nw(1) by (rule keeps_trans[rotated])
  assume "coming B w (task_cell t)"
  then have "coming B w1 (task_cell t)" by (rule keepsD(3)[OF nw(1)])
  then show "coming B w' (task_cell t')" unfolding t' using coming_made[OF l1 aw ps nw(6,5,4)] by simp
qed

lemma bind_waiting:
  assumes l: "lively w" and ok: "task_ok w t" and r: "task_bind f t w = Some (t', w')"
  shows "keeps w w'" "coming B w (task_cell t) \<Longrightarrow> coming B w' (task_cell t')"
proof -
  obtain a w1 where n: "tracking_new w = (a, w1)" by (cases "tracking_new w")
  note nt = new_tracking[OF l n]
  note l1 = keepsD(2)[OF nt(1)]
  obtain e w2 where n2: "write_once_new w1 = (e, w2)" by (cases "write_once_new w1")
  note nw = new_write_once[OF l1 n2]
  have k: "keeps w w2" using nt(1) nw(1) by (rule keeps_trans)
  note l2 = keepsD(2)[OF k] and st = keepsD(1)[OF k]
  have t': "t' = \<lparr>task_cell = a\<rparr>" and "cell_await (task_cell t) (OnBind a e f) w2 = Some w'"
    using r n n2 by (auto simp: task_bind_def)
  from await_one[OF this(2)] have aw: "await_each [(task_cell t, OnBind a e f)] w2 = Some w'" .
  have w2: "w2 = snd (new_cell (WriteOnce \<lparr>wo_value = None, wo_callbacks = []\<rparr>) w1)" using n2 by (simp add: write_once_new_def new_cell_def)
  have tr: "is_tracking w2 a" using is_tracking_mono[OF step_okD(2)[OF keepsD(1)[OF nw(1)]] nt(3)] .
  have ps: "\<forall>p \<in> set [(task_cell t, OnBind a e f)]. fst p < length (cells w2) \<and> callback_ok w2 (snd p) \<and> fills (snd p) = a"
    using nw(3) tr task_ok_mono[OF step_okD(2)[OF st] ok] by (simp add: task_ok_def)
  have ua: "unowed w2 a" unfolding w2 using nt(6) by (subst unowed_new_cell) simp_all
  have "\<not> is_tracking w a" using nt(2) by (simp add: is_tracking_def)
  from fresh_binds[OF livelyD(1)[OF l] this] have "binds a (callback_tokens w2) = 0" using nw(7) nt(7) by simp
  then have "keeps w2 w'"
    using balancedD(3)[OF livelyD(2)[OF l2]] by (intro keeps_await_each[OF l2 aw ps ua refl]) auto
  then show "keeps w w'" using k by (rule keeps_trans[rotated])
  have "a < length (cells w2)" "link w2 a = None" using tr nt(4,5) by (simp_all add: is_tracking_def w2 link_def nth_append)
  note made = coming_made[OF l2 aw ps ua this]
  assume "coming B w (task_cell t)"
  then have "coming B w2 (task_cell t)" by (rule keepsD(3)[OF k])
  then show "coming B w' (task_cell t')" unfolding t' using made by simp
qed

text \<open>The two combining cells are made in the same way.\<close>

lemma owed_all: "\<forall>p \<in> set ps. counter (snd p) = Some k \<Longrightarrow> owed k (mset (map snd ps)) = length ps"
  by (induction ps) auto

lemma combining_waiting:
  assumes l: "lively w" and n: "write_once_new w = (u, w1)"
    and w2: "step_ok w1 w2" "cells w2 = cells w1" "jobs_left w2 = jobs_left w1" "timers w2 = timers w1" "io_source w2 = io_source w1" "same_counts w1 w2"
    and aw: "await_each ps w2 = Some w3" and a: "(a, w') = new_cell C w3" and C: "C = WhenAny u cs \<or> C = WhenAll u cs"
    and ps: "\<forall>p \<in> set ps. fst p < length (cells w) \<and> callback_ok w2 (snd p) \<and> fills (snd p) = u \<and> counter (snd p) = Some k"
    and new: "\<not> is_context w k" "counted w2 k = 0" "goal w2 k = length ps" "goal w2 k < size_max1"
  shows "keeps w w'" "ps \<noteq> [] \<Longrightarrow> \<forall>p \<in> set ps. coming B w (fst p) \<Longrightarrow> coming B w' a"
proof -
  note nw = new_write_once[OF l n]
  note l1 = keepsD(2)[OF nw(1)]
  have "callback_tokens w2 = callback_tokens w1" by (simp add: callback_tokens_def pending_def queued_def w2)
  moreover have "only_timers w2" using livelyD(3)[OF l1] by (simp add: only_timers_def w2)
  ultimately have k2: "keeps w1 w2" using w2 by (intro keeps_same_cells[OF l1]) (simp_all add: working_def)
  have k: "keeps w w2" using nw(1) k2 by (rule keeps_trans)
  note l2 = keepsD(2)[OF k]
  have uu: "unowed w2 u" using nw(6) by (simp add: unowed_def working_def placed_def w2)
  have ps2: "\<forall>p \<in> set ps. fst p < length (cells w2) \<and> callback_ok w2 (snd p) \<and> fills (snd p) = u"
    using ps world_le_length[OF step_okD(2)[OF keepsD(1)[OF k]]] by blast
  have nb: "binds t (mset (map snd ps)) = 0" for t
  proof (rule ccontr)
    assume "binds t (mset (map snd ps)) \<noteq> 0"
    then have "0 < binds t (mset (map snd ps))" by simp
    then obtain cb where "cb \<in># mset (map snd ps)" "is_bind t cb" unfolding binds_pos by blast
    moreover from this(1) have "counter cb = Some k" using ps by auto
    ultimately show False by (cases cb) auto
  qed
  have tok: "callback_tokens w2 = callback_tokens w" using nw(7) \<open>callback_tokens w2 = callback_tokens w1\<close> by simp
  have k3: "keeps w2 w3"
  proof (rule keeps_await_each[OF l2 aw ps2 uu refl])
    fix cb k' assume "cb \<in># mset (map snd ps)" "counter cb = Some k'"
    then have "k' = k" "ps \<noteq> []" using ps by auto
    then show "owed k' (callback_tokens w2) = 0 \<and> counted w2 k' < goal w2 k'
      \<and> goal w2 k' \<le> owed k' (mset (map snd ps)) + counted w2 k' \<and> goal w2 k' < size_max1"
      using fresh_owed[OF livelyD(1)[OF l] new(1)] new(2-4) tok owed_all[of ps k] ps by simp
  qed (use nb balancedD(3)[OF livelyD(2)[OF l2]] in simp)
  have wo: "is_write_once w3 u"
    using is_write_once_mono[OF step_okD(2)[OF keepsD(1)[OF k3]] is_write_once_mono[OF step_okD(2)[OF w2(1)] nw(3)]] .
  have w': "w' = snd (new_cell C w3)" "a = length (cells w3)" using a by (simp_all add: new_cell_def)
  have k4: "keeps w3 w'" unfolding w'(1) using wo C by (intro keeps_new_cell[OF keepsD(2)[OF k3]]) auto
  show "keeps w w'" using k k3 k4 by (blast intro: keeps_trans)
  assume ne: "ps \<noteq> []" and "\<forall>p \<in> set ps. coming B w (fst p)"
  then have "\<forall>p \<in> set ps. coming B w2 (fst p)" using keepsD(3)[OF k] by blast
  moreover have "u < length (cells w2)" "link w2 u = None" using nw(4,5) by (simp_all add: w2 link_def)
  ultimately have "coming B w3 u" using ne by (intro coming_made[OF l2 aw ps2 uu])
  then have u: "coming B w' u" by (rule keepsD(3)[OF k4])
  show "coming B w' a"
    using C by (intro coming.linked[OF _ _ u]) (auto simp: w' link_def)
qed

lemma when_any_waiting:
  fixes w w' :: "('f, 'a, 'os) world"
  assumes l: "lively w" and ok: "\<forall>t \<in> set ts. task_ok w t" and len: "length ts < size_max1" and r: "task_when_any ts w = Some (t', w')"
  shows "keeps w w'" "ts \<noteq> [] \<Longrightarrow> \<forall>t \<in> set ts. coming B w (task_cell t) \<Longrightarrow> coming B w' (task_cell t')"
proof -
  obtain a where "when_any_new (map task_cell ts) w = Some (a, w')" and t': "t' = \<lparr>task_cell = a\<rparr>"
    using r by (auto simp: task_when_any_def task_list_to_cell_list_eq)
  moreover obtain u w1 where n: "write_once_new w = (u, w1)" by (cases "write_once_new w")
  define w2 where "w2 = w1\<lparr>any_contexts := any_contexts w1 @ [\<lparr>num_erroneous_cells = 0, any_total_cells = length ts\<rparr>]\<rparr>"
  let ?x = "length (any_contexts w1)"
  define ps :: "(address \<times> 'f callback) list" where "ps = map (\<lambda>c. (c, OnWhenAny u ?x)) (map task_cell ts)"
  ultimately obtain w3 where aw: "await_each ps w2 = Some w3" and a: "(a, w') = new_cell (WhenAny u (map task_cell ts)) w3"
    by (auto simp: when_any_new_def n w2_def)
  note nw = new_write_once[OF l n]
  note inv1 = livelyD(1)[OF keepsD(2)[OF nw(1)]]
  have w2: "step_ok w1 w2" "cells w2 = cells w1" "jobs_left w2 = jobs_left w1" "timers w2 = timers w1" "io_source w2 = io_source w1"
    using contexts_step(1)[OF inv1, of w2] by (auto simp: w2_def)
  have sc: "same_counts w1 w2"
    unfolding same_counts_def
  proof (intro allI impI)
    fix k assume "is_context w1 k"
    then show "counted w2 k = counted w1 k \<and> goal w2 k = goal w1 k" by (cases k) (simp_all add: w2_def nth_append)
  qed
  have "callback_ok w2 (OnWhenAny u ?x)" using is_write_once_mono[OF step_okD(2)[OF w2(1)] nw(3)] by (simp add: w2_def)
  then have ps: "\<forall>p \<in> set ps. fst p < length (cells w) \<and> callback_ok w2 (snd p) \<and> fills (snd p) = u \<and> counter (snd p) = Some (Inl ?x)"
    using ok by (auto simp: ps_def task_ok_def)
  have "\<not> is_context w (Inl ?x)" using nw(8) by (simp add: same_rest_def)
  moreover have "counted w2 (Inl ?x) = 0" "goal w2 (Inl ?x) = length ps" "goal w2 (Inl ?x) < size_max1"
    using len by (simp_all add: w2_def ps_def)
  ultimately have c: "keeps w w'" "\<And>B. ps \<noteq> [] \<Longrightarrow> \<forall>p \<in> set ps. coming B w (fst p) \<Longrightarrow> coming B w' a"
    using combining_waiting[OF l n w2 sc aw a _ ps] by blast+
  show "keeps w w'" by (rule c(1))
  show "ts \<noteq> [] \<Longrightarrow> \<forall>t \<in> set ts. coming B w (task_cell t) \<Longrightarrow> coming B w' (task_cell t')"
    using c(2)[of B] by (simp add: ps_def t')
qed

lemma when_all_waiting:
  fixes w w' :: "('f, 'a, 'os) world"
  assumes l: "lively w" and ok: "\<forall>t \<in> set ts. task_ok w t" and len: "length ts < size_max1" and r: "task_when_all ts w = Some (t', w')"
  shows "keeps w w'" "ts \<noteq> [] \<Longrightarrow> \<forall>t \<in> set ts. coming B w (task_cell t) \<Longrightarrow> coming B w' (task_cell t')"
proof -
  obtain a where "when_all_new (map task_cell ts) w = Some (a, w')" and t': "t' = \<lparr>task_cell = a\<rparr>"
    using r by (auto simp: task_when_all_def task_list_to_cell_list_eq)
  moreover obtain u w1 where n: "write_once_new w = (u, w1)" by (cases "write_once_new w")
  define w2 where "w2 = w1\<lparr>all_contexts := all_contexts w1
    @ [\<lparr>resolved_values = replicate (length ts) DefaultInit, num_resolved_cells = 0, all_total_cells = length ts\<rparr>]\<rparr>"
  let ?x = "length (all_contexts w1)"
  define ps :: "(address \<times> 'f callback) list" where "ps = map (\<lambda>i. (map task_cell ts ! i, OnWhenAll ?x i u)) [0..<length (map task_cell ts)]"
  ultimately obtain w3 where aw: "await_each ps w2 = Some w3" and a: "(a, w') = new_cell (WhenAll u (map task_cell ts)) w3"
    by (auto simp: when_all_new_def n w2_def)
  note nw = new_write_once[OF l n]
  note inv1 = livelyD(1)[OF keepsD(2)[OF nw(1)]]
  have w2: "step_ok w1 w2" "cells w2 = cells w1" "jobs_left w2 = jobs_left w1" "timers w2 = timers w1" "io_source w2 = io_source w1"
    using contexts_step(1)[OF inv1, of w2] by (auto simp: w2_def)
  have sc: "same_counts w1 w2"
    unfolding same_counts_def
  proof (intro allI impI)
    fix k assume "is_context w1 k"
    then show "counted w2 k = counted w1 k \<and> goal w2 k = goal w1 k" by (cases k) (simp_all add: w2_def nth_append)
  qed
  have "callback_ok w2 (OnWhenAll ?x i u)" for i using is_write_once_mono[OF step_okD(2)[OF w2(1)] nw(3)] by (simp add: w2_def)
  then have ps: "\<forall>p \<in> set ps. fst p < length (cells w) \<and> callback_ok w2 (snd p) \<and> fills (snd p) = u \<and> counter (snd p) = Some (Inr ?x)"
    using ok by (auto simp: ps_def task_ok_def)
  have "\<not> is_context w (Inr ?x)" using nw(8) by (simp add: same_rest_def)
  moreover have "counted w2 (Inr ?x) = 0" "goal w2 (Inr ?x) = length ps" "goal w2 (Inr ?x) < size_max1"
    using len by (simp_all add: w2_def ps_def)
  ultimately have c: "keeps w w'" "\<And>B. ps \<noteq> [] \<Longrightarrow> \<forall>p \<in> set ps. coming B w (fst p) \<Longrightarrow> coming B w' a"
    using combining_waiting[OF l n w2 sc aw a _ ps] by blast+
  show "keeps w w'" by (rule c(1))
  show "ts \<noteq> [] \<Longrightarrow> \<forall>t \<in> set ts. coming B w (task_cell t) \<Longrightarrow> coming B w' (task_cell t')"
    using c(2)[of B] by (auto simp: ps_def t')
qed

end
