(* ===== verification/Live_Clients.thy ===== *)
theory Live_Clients
  imports Waiting_Clients
begin

text \<open>
  Clients that can rely on their tasks. \<open>live_client\<close> are the calls of the library with what the
  client relies on: the set \<open>K\<close> of its tasks and the set \<open>U\<close> of its sources that are still open.
  A combination of no tasks is a call like any other, but its task is not one to rely on.
\<close>

subsection \<open>Sources, timers and reads\<close>

lemma timer_waiting:
  assumes l: "lively w" and r: "timer_after d w = (t, w')"
  shows "keeps w w'" "coming B w' (task_cell t)"
proof -
  obtain a w1 where n: "write_once_new w = (a, w1)" by (cases "write_once_new w")
  note nw = new_write_once[OF l n]
  note l1 = keepsD(2)[OF nw(1)]
  let ?j = "CompleteTimer a :: ('a, 'b) job"
  have t: "t = \<lparr>task_cell = a\<rparr>" "w' = w1\<lparr>timers := tps_schedule d ?j (timers w1)\<rparr>"
    using r n by (auto simp: timer_after_def value_source_new_def value_source_create_def)
  note inv1 = livelyD(1)[OF l1]
  note sch = tps_schedule_correct[OF sources_invD(1)[OF inv1], of d ?j]
  have "step_ok w1 w'"
    using sch nw(3) sources_invD[OF inv1] world_invD(1)[OF inv1] by (intro sources_step[OF inv1]) (auto simp: t)
  moreover have "same_counts w1 w'" unfolding same_counts_def
  proof (intro allI impI)
    show "counted w' k = counted w1 k \<and> goal w' k = goal w1 k" for k by (cases k) (simp_all add: t)
  qed
  moreover have "only_timers w'" using livelyD(3)[OF l1] sch(2) by (simp add: only_timers_def t)
  moreover have "callback_tokens w' = callback_tokens w1" by (simp add: callback_tokens_def pending_def queued_def t)
  moreover have wk: "working w' c \<longleftrightarrow> working w1 c \<or> c = a" for c using sch(2) by (simp add: working_def t Bex_def) (metis job_fills.simps(3) snd_conv)
  ultimately have "keeps w1 w'" by (intro keeps_same_cells[OF l1]) (simp_all add: t)
  with nw(1) show "keeps w w'" by (rule keeps_trans)
  have "\<not> placed w' e a" for e using nw(6) by (simp add: t unowed_def placed_def)
  then show "coming B w' (task_cell t)"
    using nw(4,5) wk[of a] by (intro coming_worked) (simp_all add: t link_def)
qed

lemma read_waiting:
  assumes l: "lively w" and r: "io_read env fd req w = (t, w')"
  shows "keeps w w'" "coming B w' (task_cell t)"
proof -
  obtain a w1 where n: "write_once_new w = (a, w1)" by (cases "write_once_new w")
  note nw = new_write_once[OF l n]
  note l1 = keepsD(2)[OF nw(1)]
  let ?rq = "(a, \<lparr>in_flight_read = req, control_block = length (aiocbs w1)\<rparr>)"
  obtain cbs os where t: "t = \<lparr>task_cell = a\<rparr>"
    "w' = w1\<lparr>io_source := (io_source w1)\<lparr>in_flight_requests := in_flight_requests (io_source w1) @ [?rq]\<rparr>,
              aiocbs := cbs, os_state := os\<rparr>"
    using r n by (auto simp: io_read_def value_source_create_def value_source_new_def queue_read_def
        enqueue_and_start_read_def Let_def split: prod.splits)
  note inv1 = livelyD(1)[OF l1]
  have "step_ok w1 w'"
    using nw(3) sources_invD[OF inv1] world_invD(1)[OF inv1] by (intro sources_step[OF inv1]) (auto simp: t)
  moreover have "same_counts w1 w'" unfolding same_counts_def
  proof (intro allI impI)
    show "counted w' k = counted w1 k \<and> goal w' k = goal w1 k" for k by (cases k) (simp_all add: t)
  qed
  moreover have "only_timers w'" using livelyD(3)[OF l1] by (simp add: only_timers_def t)
  moreover have "callback_tokens w' = callback_tokens w1" by (simp add: callback_tokens_def pending_def queued_def t)
  moreover have wk: "working w' c \<longleftrightarrow> working w1 c \<or> c = a" for c by (auto simp: working_def t)
  ultimately have "keeps w1 w'" by (intro keeps_same_cells[OF l1]) (simp_all add: t)
  with nw(1) show "keeps w w'" by (rule keeps_trans)
  have "\<not> placed w' e a" for e using nw(6) by (simp add: t unowed_def placed_def)
  then show "coming B w' (task_cell t)"
    using nw(4,5) wk[of a] by (intro coming_worked) (simp_all add: t link_def)
qed

lemma system_waiting: "lively w \<Longrightarrow> keeps w (w\<lparr>buffers := b, os_state := s\<rparr>)"
proof -
  assume l: "lively w"
  note inv = livelyD(1)[OF l]
  let ?w = "w\<lparr>buffers := b, os_state := s\<rparr>"
  have "step_ok w ?w" using sources_invD[OF inv] world_invD(1)[OF inv] by (intro sources_step[OF inv]) auto
  moreover have "same_counts w ?w" unfolding same_counts_def
  proof (intro allI impI)
    show "counted ?w k = counted w k \<and> goal ?w k = goal w k" for k by (cases k) simp_all
  qed
  ultimately show "keeps w ?w"
    using livelyD(3)[OF l] by (intro keeps_same_cells[OF l]) (simp_all add: only_timers_def callback_tokens_def pending_def queued_def working_def)
qed

subsection \<open>Clients\<close>

type_synonym ('f, 'a, 'os) client_state = "address set \<times> address set \<times> ('f, 'a, 'os) world"

definition rely :: "bool \<Rightarrow> task \<Rightarrow> address set \<Rightarrow> address set" where
  "rely b t K = (if b then insert (task_cell t) K else K)"

abbreviation relied :: "address set \<Rightarrow> task \<Rightarrow> bool" where
  "relied K t \<equiv> task_cell t \<in> K"

inductive live_client ::
  "('f, 'a, 'os) environment \<Rightarrow> ('f, 'a, 'os) client_state \<Rightarrow> ('f, 'a, 'os) client_state \<Rightarrow> bool"
  for env where
  create: "factory_create f w = (t, w') \<Longrightarrow> live_client env (K, U, w) (rely True t K, U, w')"
| map_task: "task_ok w t \<Longrightarrow> task_map f t w = Some (t', w') \<Longrightarrow>
    live_client env (K, U, w) (rely (relied K t) t' K, U, w')"
| bind_task: "task_ok w t \<Longrightarrow> task_bind f t w = Some (t', w') \<Longrightarrow>
    live_client env (K, U, w) (rely (relied K t) t' K, U, w')"
| when_any: "\<forall>t \<in> set ts. task_ok w t \<Longrightarrow> length ts < size_max1 \<Longrightarrow> factory_when_any ts w = Some (t', w') \<Longrightarrow>
    live_client env (K, U, w) (rely (ts \<noteq> [] \<and> (\<forall>t \<in> set ts. relied K t)) t' K, U, w')"
| when_all: "\<forall>t \<in> set ts. task_ok w t \<Longrightarrow> length ts < size_max1 \<Longrightarrow> factory_when_all ts w = Some (t', w') \<Longrightarrow>
    live_client env (K, U, w) (rely (ts \<noteq> [] \<and> (\<forall>t \<in> set ts. relied K t)) t' K, U, w')"
| new_source: "factory_value_source w = (s, w') \<Longrightarrow>
    live_client env (K, U, w) (rely True (value_source_create s) K, insert (source_cell s) U, w')"
| complete: "is_write_once w (source_cell s) \<Longrightarrow>
    live_client env (K, U, w) (K, U - {source_cell s}, value_source_complete v s w)"
| complete_ctx: "is_write_once w (source_cell s) \<Longrightarrow> ctx_ok (pool w) ctx \<Longrightarrow>
    live_client env (K, U, w) (K, U - {source_cell s}, value_source_complete_ctx ctx v s w)"
| error: "is_write_once w (source_cell s) \<Longrightarrow>
    live_client env (K, U, w) (K, U - {source_cell s}, value_source_error e s w)"
| error_ctx: "is_write_once w (source_cell s) \<Longrightarrow> ctx_ok (pool w) ctx \<Longrightarrow>
    live_client env (K, U, w) (K, U - {source_cell s}, value_source_error_ctx ctx e s w)"
| timer: "timer_after d w = (t, w') \<Longrightarrow> live_client env (K, U, w) (rely True t K, U, w')"
| read: "io_read env fd req w = (t, w') \<Longrightarrow> live_client env (K, U, w) (rely True t K, U, w')"
| system: "live_client env (K, U, w) (K, U, w\<lparr>buffers := b, os_state := s\<rparr>)"

fun world_of :: "('f, 'a, 'os) client_state \<Rightarrow> ('f, 'a, 'os) world" where
  "world_of (K, U, w) = w"

text \<open>A result is coming for all that the client relies on.\<close>

fun served :: "('f, 'a, 'os) client_state \<Rightarrow> bool" where
  "served (K, U, w) \<longleftrightarrow> (\<forall>c \<in> K. coming U w c)"

lemma served_rely:
  assumes "\<forall>c \<in> K. coming U w c" "keeps w w'" "b \<Longrightarrow> coming U' w' (task_cell t)" "U \<subseteq> U'"
  shows "served (rely b t K, U', w')"
proof -
  have "coming U' w' c" if "c \<in> K" for c
    using that assms(1) by (intro coming_mono[OF keepsD(3)[OF assms(2)] assms(4)]) blast
  then show ?thesis using assms(3) by (auto simp: rely_def)
qed

lemma served_made:
  assumes "keeps w w'" "served (K, U, w) \<Longrightarrow> b \<Longrightarrow> coming U w' (task_cell t)"
  shows "keeps w w' \<and> (served (K, U, w) \<longrightarrow> served (rely b t K, U, w'))"
  using assms(1) served_rely[OF _ assms(1), of K U b U t] assms(2) by auto

lemma served_fill:
  assumes "\<forall>c \<in> K. coming U w c" "lively w" "ctx_ok (pool w) ctx" "is_write_once w a"
  shows "served (K, U - {a}, snd (write_result_to_value ctx r a w))"
proof -
  have "coming (insert a (U - {a})) w c" if "c \<in> K" for c
    using that assms(1) by (intro coming_mono[of U w c "insert a (U - {a})"]) blast+
  then show ?thesis using coming_write[OF _ world_invD(1)[OF livelyD(1)[OF assms(2)]] assms(3,4)] by simp
qed

lemma fill_keeps:
  assumes "lively w" "ctx_ok (pool w) ctx" "is_write_once w a"
  shows "keeps w (snd (write_result_to_value ctx r a w))
    \<and> (served (K, U, w) \<longrightarrow> served (K, U - {a}, snd (write_result_to_value ctx r a w)))"
proof
  show "keeps w (snd (write_result_to_value ctx r a w))" by (rule keeps_write[OF assms])
  show "served (K, U, w) \<longrightarrow> served (K, U - {a}, snd (write_result_to_value ctx r a w))"
    using served_fill[OF _ assms, of K U r] by (simp only: served.simps) blast
qed

lemma live_client_keeps:
  assumes "live_client env p q" "lively (world_of p)"
  shows "keeps (world_of p) (world_of q) \<and> (served p \<longrightarrow> served q)"
  using assms
proof (induction rule: live_client.induct)
  case (create f w t w' K U)
  then have "lively w" "task_new f w = (t, w')" by (simp_all add: factory_create_def)
  note cw = create_waiting[OF this]
  have "keeps w w' \<and> (served (K, U, w) \<longrightarrow> served (rely True t K, U, w'))"
    by (rule served_made[OF cw(1)]) (simp add: cw(2))
  then show ?case by simp
next
  case (map_task w t f t' w' K U)
  then have l: "lively w" by simp
  note m = map_waiting[OF l map_task(1,2)]
  have "keeps w w' \<and> (served (K, U, w) \<longrightarrow> served (rely (relied K t) t' K, U, w'))"
    by (rule served_made[OF m(1)]) (simp add: m(2))
  then show ?case by simp
next
  case (bind_task w t f t' w' K U)
  then have l: "lively w" by simp
  note m = bind_waiting[OF l bind_task(1,2)]
  have "keeps w w' \<and> (served (K, U, w) \<longrightarrow> served (rely (relied K t) t' K, U, w'))"
    by (rule served_made[OF m(1)]) (simp add: m(2))
  then show ?case by simp
next
  case (when_any ts w t' w' K U)
  then have l: "lively w" and r: "task_when_any ts w = Some (t', w')" by (simp_all add: factory_when_any_def)
  note m = when_any_waiting[OF l when_any(1,2) r]
  have "keeps w w' \<and> (served (K, U, w) \<longrightarrow> served (rely (ts \<noteq> [] \<and> (\<forall>t \<in> set ts. relied K t)) t' K, U, w'))"
    by (rule served_made[OF m(1)]) (simp add: m(2))
  then show ?case by simp
next
  case (when_all ts w t' w' K U)
  then have l: "lively w" and r: "task_when_all ts w = Some (t', w')" by (simp_all add: factory_when_all_def)
  note m = when_all_waiting[OF l when_all(1,2) r]
  have "keeps w w' \<and> (served (K, U, w) \<longrightarrow> served (rely (ts \<noteq> [] \<and> (\<forall>t \<in> set ts. relied K t)) t' K, U, w'))"
    by (rule served_made[OF m(1)]) (simp add: m(2))
  then show ?case by simp
next
  case (new_source w s w' K U)
  then have l: "lively w" and n: "write_once_new w = (source_cell s, w')"
    by (auto simp: factory_value_source_def value_source_new_def split: prod.splits)
  note nw = new_write_once[OF l n]
  have "coming (insert (source_cell s) U) w' (source_cell s)" using nw(4,5) by (intro coming.assumed) simp_all
  then have c: "coming (insert (source_cell s) U) w' (task_cell (value_source_create s))" by (simp add: value_source_create_def)
  have "served (rely True (value_source_create s) K, insert (source_cell s) U, w')" if "served (K, U, w)"
    by (rule served_rely[OF _ nw(1), of K U]) (use that c in auto)
  then show ?case using nw(1) by simp
next
  case (complete w s K U v)
  then have "lively w" by simp
  from fill_keeps[OF this ctx_empty_ok complete(1), of "Value v" K U] show ?case unfolding write_defs world_of.simps .
next
  case (complete_ctx w s ctx K U v)
  then have "lively w" by simp
  from fill_keeps[OF this complete_ctx(2,1), of "Value v" K U] show ?case unfolding write_defs world_of.simps .
next
  case (error w s K U e)
  then have "lively w" by simp
  from fill_keeps[OF this ctx_empty_ok error(1), of "Err e" K U] show ?case unfolding write_defs world_of.simps .
next
  case (error_ctx w s ctx K U e)
  then have "lively w" by simp
  from fill_keeps[OF this error_ctx(2,1), of "Err e" K U] show ?case unfolding write_defs world_of.simps .
next
  case (timer d w t w' K U)
  then have l: "lively w" by simp
  note m = timer_waiting[OF l timer(1)]
  have "keeps w w' \<and> (served (K, U, w) \<longrightarrow> served (rely True t K, U, w'))"
    by (rule served_made[OF m(1)]) (simp add: m(2))
  then show ?case by simp
next
  case (read fd req w t w' K U)
  then have l: "lively w" by simp
  note m = read_waiting[OF l read(1)]
  have "keeps w w' \<and> (served (K, U, w) \<longrightarrow> served (rely True t K, U, w'))"
    by (rule served_made[OF m(1)]) (simp add: m(2))
  then show ?case by simp
next
  case (system K U w b s)
  then have l: "lively w" by simp
  note m = system_waiting[OF l, of b s]
  then show ?case using keepsD(3)[OF m] by auto
qed

lemma live_clients_keep:
  "(live_client env)\<^sup>*\<^sup>* p q \<Longrightarrow> lively (world_of p) \<Longrightarrow> keeps (world_of p) (world_of q) \<and> (served p \<longrightarrow> served q)"
proof (induction rule: rtranclp_induct)
  case base
  then show ?case by (simp add: keeps_refl)
next
  case (step q q')
  then have q: "keeps (world_of p) (world_of q)" "served p \<longrightarrow> served q" by simp_all
  from live_client_keeps[OF step(2) keepsD(2)[OF q(1)]] q show ?case by (blast intro: keeps_trans)
qed

end
