(* ===== verification/Live_Runs.thy ===== *)
theory Live_Runs
  imports Live_Clients
begin

text \<open>
  No result is lost: whatever the workers, the poll thread, the operating system and the client
  do, and in whatever order, a task that a client relies on is resolved by the time all jobs,
  timers and reads are done and the client's open sources are filled.
\<close>

subsection \<open>User functions\<close>

text \<open>
  A user function that gives a task must be able to rely on it, knowing no other task and leaving
  no source of its own open. (One that returns the task of its own \<open>bind\<close> would wait for itself.)
\<close>

definition live_env :: "('f, 'a, 'os) environment \<Rightarrow> bool" where
  "live_env env \<longleftrightarrow>
     (\<forall>f w v w'. call_fn env f w = Some (v, w') \<longrightarrow> (\<exists>K U. (live_client env)\<^sup>*\<^sup>* ({}, {}, w) (K, U, w')))
     \<and> (\<forall>f x w v w'. map_fn env f x w = Some (v, w') \<longrightarrow> (\<exists>K U. (live_client env)\<^sup>*\<^sup>* ({}, {}, w) (K, U, w')))
     \<and> (\<forall>f x w t w'. bind_fn env f x w = Some (t, w') \<longrightarrow>
          (\<exists>K. (live_client env)\<^sup>*\<^sup>* ({}, {}, w) (K, {}, w') \<and> relied K t))"

lemma live_envD:
  assumes "live_env env" "lively w"
  shows "call_fn env f w = Some (v, w') \<Longrightarrow> keeps w w'"
    and "map_fn env f x w = Some (v, w') \<Longrightarrow> keeps w w'"
    and "bind_fn env f x w = Some (t, w') \<Longrightarrow> keeps w w'"
    and "bind_fn env f x w = Some (t, w') \<Longrightarrow> coming {} w' (task_cell t)"
proof -
  have k: "keeps w w'" if "(live_client env)\<^sup>*\<^sup>* ({}, {}, w) (K, U, w')" for K U
    using live_clients_keep[OF that] assms(2) by simp
  show "call_fn env f w = Some (v, w') \<Longrightarrow> keeps w w'" "map_fn env f x w = Some (v, w') \<Longrightarrow> keeps w w'"
    using assms(1) k unfolding live_env_def by blast+
  assume "bind_fn env f x w = Some (t, w')"
  then obtain K where K: "(live_client env)\<^sup>*\<^sup>* ({}, {}, w) (K, {}, w')" "relied K t" using assms(1) unfolding live_env_def by blast
  from k[OF K(1)] show "keeps w w'" .
  from live_clients_keep[OF K(1)] assms(2) K(2) show "coming {} w' (task_cell t)" by simp
qed

subsection \<open>The \<open>bind\<close> that is being run\<close>

lemma binds_replicate [simp]: "binds t (replicate_mset n (OnWhenAny u x)) = 0"
  by (induction n) auto

lemma binds_all [simp]: "binds t (image_mset (\<lambda>i. OnWhenAll x i u) M) = 0"
  by (induction M) auto

lemma track_live:
  assumes l: "lively w" and t: "is_tracking w t" and a: "a < length (cells w)" and r: "cell_track a t w = Some (b, w')"
  shows "lively w'" "step_ok w w'"
proof -
  note inv = livelyD(1)[OF l]
  note st = cell_track_step[OF inv t a r]
  show "step_ok w w'" by (rule st(1))
  obtain c where c: "t < length (cells w)" "cells w ! t = Tracking c" using is_trackingE[OF t] .
  have sr: "same_rest w w'"
  proof (cases "tc_cell c")
    case (Some u)
    then show ?thesis using cell_track_again[OF c(2) Some, of a] r by simp
  next
    case None
    note first = cell_track_first(2)[OF c(2) None c(1) r, unfolded await_callbacks_each]
    show ?thesis using set_cell_frame(3) await_each_same_rest[OF first] by (rule same_rest_trans)
  qed
  have "only_timers w'" using livelyD(3)[OF l] same_rest_sources[OF sr] by (simp add: only_timers_def)
  then show "lively w'" using lively_step[OF l st(1) same_rest_counts[OF sr]] st(2) by simp
qed

lemma track_coming:
  assumes l: "lively w" and t: "is_tracking w t" "binds t (callback_tokens w) = 0"
    and a: "coming {} w a" and r: "cell_track a t w = Some (b, w')" and cm: "coming (insert t B) w c"
  shows "coming B w' c"
proof (cases "link w t")
  case None
  have nw: "\<not> working w t" "\<And>e. \<not> placed w e t" using waits_token[OF livelyD(1,3)[OF l] t(1)] t(2) by auto
  show ?thesis by (rule coming_track[OF livelyD(1)[OF l] t(1) None nw a r cm])
next
  case (Some s)
  obtain x where x: "cells w ! t = Tracking x" using is_trackingE[OF t(1)] by blast
  then have "w' = w" using cell_track_again[OF x, of s a] Some r by (simp add: link_def)
  moreover have "coming B w c"
    using cm
  proof (rule coming_transfer)
    fix d assume d: "d < length (cells w)" "link w d = None" "working w d \<or> (\<exists>e. placed w e d)" "\<And>e. placed w e d \<Longrightarrow> coming B w e"
    then show "coming B w d" by (rule coming.waits)
  next
    fix d assume d: "d < length (cells w)" "link w d = None" "d \<in> insert t B"
    then have "d \<in> B" using Some by auto
    then show "coming B w d" using d(1,2) by (intro coming.assumed)
  qed (simp_all add: coming.filled)
  ultimately show ?thesis by simp
qed

text \<open>The calls of a client give no tracking cell that is there a second callback.\<close>

lemma live_client_binds:
  assumes "live_client env p q" "lively (world_of p)" "is_tracking (world_of p) t"
  shows "binds t (callback_tokens (world_of q)) \<le> binds t (callback_tokens (world_of p))"
  using assms
proof (induction rule: live_client.induct)
  case (create f w t' w' K U)
  obtain a w1 where n: "write_once_new w = (a, w1)" by (cases "write_once_new w")
  from create have l: "lively w" by simp
  note nw = new_write_once[OF l n]
  have "callback_tokens w' = callback_tokens w1"
    using create(1) n queue_job_tokens[OF livelyD(1)[OF keepsD(2)[OF nw(1)]] ctx_empty_ok, of "RunTask a f"]
    by (auto simp: factory_create_def task_new_def)
  then show ?case using nw(7) by simp
next
  case (map_task w t' f t'' w' K U)
  then show ?case using task_map_step(3)[OF livelyD(1), of w t' f t'' w'] by simp
next
  case (bind_task w t' f t'' w' K U)
  have "task_cell t'' = length (cells w)" using made_at(3)[OF bind_task(2)] .
  then have "task_cell t'' \<noteq> t" using bind_task(4) by (auto simp: is_tracking_def)
  then show ?case using task_bind_step(3)[OF livelyD(1), of w t' f t'' w'] bind_task by simp
next
  case (when_any ts w t' w' K U)
  then obtain a where a: "when_any_new (map task_cell ts) w = Some (a, w')"
    by (auto simp: factory_when_any_def task_when_any_def task_list_to_cell_list_eq)
  have "\<forall>c \<in> set (map task_cell ts). c < length (cells w)" using when_any(1) by (simp add: task_ok_def)
  from when_any_new_step(3)[OF livelyD(1) this a] when_any show ?case by simp
next
  case (when_all ts w t' w' K U)
  then obtain a where a: "when_all_new (map task_cell ts) w = Some (a, w')"
    by (auto simp: factory_when_all_def task_when_all_def task_list_to_cell_list_eq)
  have "\<forall>c \<in> set (map task_cell ts). c < length (cells w)" using when_all(1) by (simp add: task_ok_def)
  from when_all_new_step(3)[OF livelyD(1) this a] when_all show ?case by simp
next
  case (new_source w s w' K U)
  then have "write_once_new w = (source_cell s, w')" by (auto simp: factory_value_source_def value_source_new_def split: prod.splits)
  then show ?case using new_write_once(7)[of w "source_cell s" w'] new_source by simp
next
  case (complete w s K U v)
  then show ?case using write_result_step(2)[OF livelyD(1) ctx_empty_ok complete(1)] by (simp add: write_defs)
next
  case (complete_ctx w s ctx K U v)
  then show ?case using write_result_step(2)[OF livelyD(1) complete_ctx(2,1)] by (simp add: write_defs)
next
  case (error w s K U e)
  then show ?case using write_result_step(2)[OF livelyD(1) ctx_empty_ok error(1)] by (simp add: write_defs)
next
  case (error_ctx w s ctx K U e)
  then show ?case using write_result_step(2)[OF livelyD(1) error_ctx(2,1)] by (simp add: write_defs)
next
  case (timer d w t' w' K U)
  obtain a w1 where n: "write_once_new w = (a, w1)" by (cases "write_once_new w")
  note nw = new_write_once[OF _ n]
  have "callback_tokens w' = callback_tokens w1"
    using timer(1) n by (auto simp: timer_after_def value_source_new_def callback_tokens_def pending_def queued_def)
  then show ?case using nw(7) timer by simp
next
  case (read fd req w t' w' K U)
  obtain a w1 where n: "write_once_new w = (a, w1)" by (cases "write_once_new w")
  note nw = new_write_once[OF _ n]
  have "callback_tokens w' = callback_tokens w1"
    using read(1) n by (auto simp: io_read_def value_source_new_def callback_tokens_def pending_def queued_def Let_def split: prod.splits)
  then show ?case using nw(7) read by simp
next
  case (system K U w b s)
  then show ?case by (simp add: callback_tokens_def pending_def queued_def)
qed

lemma live_clients_binds:
  "(live_client env)\<^sup>*\<^sup>* p q \<Longrightarrow> lively (world_of p) \<Longrightarrow> is_tracking (world_of p) t \<Longrightarrow>
   binds t (callback_tokens (world_of q)) \<le> binds t (callback_tokens (world_of p))"
proof (induction rule: rtranclp_induct)
  case (step q q')
  note k = live_clients_keep[OF step(1,4)]
  have "is_tracking (world_of q) t" using is_tracking_mono[OF step_okD(2)[OF keepsD(1)[OF conjunct1[OF k]]] step(5)] .
  from live_client_binds[OF step(2) keepsD(2)[OF conjunct1[OF k]] this] step show ?case by simp
qed simp

subsection \<open>The counter that is being run\<close>

text \<open>\<open>w1\<close> is \<open>w\<close> without a job that counts, and with its counter changed.\<close>

definition takes_count :: "('f, 'a, 'os) world \<Rightarrow> 'f callback \<Rightarrow> address + address \<Rightarrow> ('f, 'a, 'os) world \<Rightarrow> bool" where
  "takes_count w cb k w1 \<longleftrightarrow> counter cb = Some k \<and> callback_tokens w = add_mset cb (callback_tokens w1) \<and> step_ok w w1
     \<and> only_timers w1 \<and> goal w1 k = goal w k
     \<and> (\<forall>k'. is_context w k' \<and> k' \<noteq> k \<longrightarrow> counted w1 k' = counted w k' \<and> goal w1 k' = goal w k')"

lemma takes_countD:
  assumes "takes_count w cb k w1"
  shows "counter cb = Some k" "callback_tokens w = add_mset cb (callback_tokens w1)" "step_ok w w1"
    "only_timers w1" "goal w1 k = goal w k"
    "\<And>k'. is_context w k' \<Longrightarrow> k' \<noteq> k \<Longrightarrow> counted w1 k' = counted w k' \<and> goal w1 k' = goal w k'"
  using assms by (simp_all add: takes_count_def)

lemma takes_count_other:
  assumes l: "lively w" and tc: "takes_count w cb k w1" and cb': "cb' \<in># callback_tokens w1" "counter cb' = Some k'" "k' \<noteq> k"
    and w': "world_le w1 w'" "same_counts w1 w'"
  shows "enough w' (callback_tokens w1) cb' k'"
proof -
  note t = takes_countD[OF tc] and inv = livelyD(1)[OF l]
  have in_w: "cb' \<in># callback_tokens w" using cb'(1) t(2) by simp
  from balancedD(1)[OF livelyD(2)[OF l] in_w cb'(2)] have e: "enough w (callback_tokens w1) cb' k'"
    using t(1,2) cb'(3) by (simp add: enough_def)
  note ok = counter_ok[OF tokens_ok[OF inv in_w] cb'(2)]
  have "enough w1 (callback_tokens w1) cb' k'"
    using e t(6)[of k'] ok cb'(3) end_value_le[OF step_okD(2)[OF t(3)], of "fills cb'"] by (auto simp: enough_def)
  moreover have "callback_ok w1 cb'" by (rule tokens_ok[OF step_okD(1)[OF t(3)] cb'(1)])
  ultimately show ?thesis using cb'(2) w' by (rule enough_mono)
qed

lemma takes_count_balanced:
  assumes l: "lively w" and tc: "takes_count w cb k w1" and w': "world_le w1 w'" "same_counts w1 w'"
    and u: "\<And>cb'. cb' \<in># callback_tokens w1 \<Longrightarrow> counter cb' = Some k \<Longrightarrow> fills cb' = fills cb \<Longrightarrow> enough w' (callback_tokens w1) cb' k"
  shows "balanced (callback_tokens w1) w'"
proof (rule balancedI)
  note t = takes_countD[OF tc] and b = livelyD(2)[OF l]
  fix cb' k' assume cb': "cb' \<in># callback_tokens w1" "counter cb' = Some k'"
  show "enough w' (callback_tokens w1) cb' k'"
  proof (cases "k' = k")
    case True
    then have "fills cb' = fills cb" using balancedD(2)[OF b, of cb' cb k] cb' t(1,2) by simp
    then show ?thesis using u cb' True by simp
  qed (rule takes_count_other[OF l tc cb' _ w'])
  show "fills cb' = fills cb''" if "cb'' \<in># callback_tokens w1" "counter cb'' = Some k'" for cb''
    using balancedD(2)[OF b, of cb' cb'' k'] cb' that t(2) by simp
next
  show "binds t (callback_tokens w1) \<le> 1" for t
    using balancedD(3)[OF livelyD(2)[OF l], of t] takes_countD(2)[OF tc] by simp
qed

lemma count_filled:
  assumes l: "lively w" and tc: "takes_count w cb k w1" and ctx: "ctx_ok (pool w1) ctx" and u: "is_write_once w1 (fills cb)"
  shows "lively (snd (write_result_to_value ctx r (fills cb) w1))"
proof -
  note t = takes_countD[OF tc] and inv1 = step_okD(1)[OF takes_countD(3)[OF tc]]
  let ?w = "snd (write_result_to_value ctx r (fills cb) w1)"
  note wr = write_result_step[OF inv1 ctx u, of r]
  obtain c where c: "fills cb < length (cells w1)" "cells w1 ! fills cb = WriteOnce c" using is_write_onceE[OF u] .
  have sr: "same_rest w1 ?w"
    using write_filled[OF c(2)] write_empty(3)[OF world_invD(1)[OF inv1] ctx c] by (cases "wo_value c") auto
  have "end_value ?w (fills cb) \<noteq> None"
    using end_value_write[OF world_invD(1)[OF inv1] ctx u, of r] by (auto split: option.splits)
  then have "balanced (callback_tokens w1) ?w"
    by (intro takes_count_balanced[OF l tc step_okD(2)[OF wr(1)] same_rest_counts[OF sr]]) (simp add: enough_def)
  moreover have "only_timers ?w" using t(4) same_rest_sources[OF sr] by (simp add: only_timers_def)
  ultimately show ?thesis using wr step_okD(1)[OF wr(1)] by (simp add: lively_def)
qed

lemma count_one:
  assumes l: "lively w" and tc: "takes_count w cb k w1"
    and one: "end_value w (fills cb) = None \<Longrightarrow> counted w1 k = counted w k + 1 \<and> counted w k + 1 < goal w k"
  shows "lively w1" "end_value w (fills cb) = None \<Longrightarrow> working w1 (fills cb) \<or> (\<exists>e. placed w1 e (fills cb))"
proof -
  note t = takes_countD[OF tc] and b = livelyD(2)[OF l]
  have cb: "cb \<in># callback_tokens w" using t(2) by simp
  note ok = counter_ok[OF tokens_ok[OF livelyD(1)[OF l] cb] t(1)]
  have e: "goal w k \<le> owed k (callback_tokens w1) + counted w1 k" "counted w1 k < goal w k" "goal w k < size_max1"
    if un: "end_value w (fills cb) = None"
    using one[OF un] balancedD(1)[OF b cb t(1)] un t(1,2) by (auto simp: enough_def)
  have "enough w1 (callback_tokens w1) cb' k" if "fills cb' = fills cb" for cb'
  proof (cases "end_value w (fills cb) = None")
    case True
    then show ?thesis using e t(5) by (simp add: enough_def)
  next
    case False
    then show ?thesis using end_value_le[OF step_okD(2)[OF t(3)], of "fills cb"] ok that by (auto simp: enough_def)
  qed
  then have "balanced (callback_tokens w1) w1"
    by (intro takes_count_balanced[OF l tc]) (simp_all add: same_counts_def)
  then show "lively w1" using step_okD(1)[OF t(3)] t(4) by (simp add: lively_def)
  assume "end_value w (fills cb) = None"
  from e(1,2)[OF this] have "0 < owed k (callback_tokens w1)" by simp
  then obtain cb' where cb': "cb' \<in># callback_tokens w1" "counter cb' = Some k" unfolding owed_pos by blast
  then have "fills cb' = fills cb" using balancedD(2)[OF b, of cb' cb k] cb t(1,2) by simp
  then show "working w1 (fills cb) \<or> (\<exists>e. placed w1 e (fills cb))" using token_waits[OF cb'(1)] by simp
qed

end
