(* ===== verification/Live_Jobs.thy ===== *)
theory Live_Jobs
  imports Live_Runs
begin

text \<open>
  Running a job keeps every cell coming: the cell the job was to fill is filled, tracks a cell
  that is coming, or has another callback left.
\<close>

subsection \<open>Taking a job\<close>

definition taken :: "('f, 'a) job \<Rightarrow> ('f, 'a, 'os) world \<Rightarrow> ('f, 'a, 'os) world \<Rightarrow> bool" where
  "taken j w w0 \<longleftrightarrow> (\<exists>hs. w0 = w\<lparr>at_hand := hs\<rparr> \<and> set hs \<subseteq> set (at_hand w)) \<and> jobs_left w = add_mset (Some j) (jobs_left w0)"

lemma taken_facts:
  assumes l: "lively w" and tk: "taken j w w0"
  shows "step_ok w w0" "job_ok w0 j" "callback_tokens w = job_callbacks (Some j) + callback_tokens w0" "only_timers w0"
    "same_counts w w0" "coming B w c \<Longrightarrow> coming (insert (job_fills j) B) w0 c"
    "working w0 (job_fills j) \<or> (\<exists>e. placed w0 e (job_fills j)) \<or> end_value w (job_fills j) \<noteq> None \<Longrightarrow> coming B w c \<Longrightarrow> coming B w0 c"
proof -
  obtain hs where w0: "w0 = w\<lparr>at_hand := hs\<rparr>" and hs: "set hs \<subseteq> set (at_hand w)" and p: "jobs_left w = add_mset (Some j) (jobs_left w0)"
    using tk by (auto simp: taken_def)
  note inv = livelyD(1)[OF l]
  show st: "step_ok w w0"
    using sources_invD[OF inv] world_invD(1)[OF inv] p hs by (intro sources_step[OF inv]) (auto simp: w0 image_iff)
  show "job_ok w0 j" using fn_ok_mono[OF step_okD(2)[OF st] world_invD(4)[OF inv], of "Some j"] p by (simp add: fn_ok_def)
  show "callback_tokens w = job_callbacks (Some j) + callback_tokens w0"
    by (simp add: callback_tokens_def pending_def queued_def p) (simp add: w0)
  show "only_timers w0" using livelyD(3)[OF l] by (simp add: w0 only_timers_def)
  show "same_counts w w0" unfolding same_counts_def
  proof (intro allI impI)
    show "counted w0 k = counted w k \<and> goal w0 k = goal w k" for k by (cases k) (simp_all add: w0)
  qed
  show "coming B w c \<Longrightarrow> coming (insert (job_fills j) B) w0 c" unfolding w0 using coming_take(1)[OF _ p[unfolded w0] refl] .
  show "working w0 (job_fills j) \<or> (\<exists>e. placed w0 e (job_fills j)) \<or> end_value w (job_fills j) \<noteq> None \<Longrightarrow> coming B w c \<Longrightarrow> coming B w0 c"
    unfolding w0 using coming_take(2)[OF _ p[unfolded w0] refl] by (simp add: placed_def)
qed

lemma run_at_hand_taken:
  assumes f: "map_of (at_hand w) i = Some f" and inv: "world_inv w" and i: "i < length (workers (pool w))"
  obtains j w0 where "taken j w w0" "ctx_ok (pool w0) (worker_context (workers (pool w) ! i))"
    "run_at_hand env i f w = run_job env (worker_context (workers (pool w) ! i)) j w0"
proof -
  obtain j w0 where "f = Some j" "w0 = w\<lparr>at_hand := remove1 (i, f) (at_hand w)\<rparr>"
    "jobs_left w = add_mset f (jobs_left w0)" "ctx_ok (pool w0) (worker_context (workers (pool w) ! i))"
    "run_at_hand env i f w = run_job env (worker_context (workers (pool w) ! i)) j w0"
    using run_at_handE[OF f inv i] .
  then show ?thesis using that[of j w0] set_remove1_subset[of "(i, f)" "at_hand w"] by (auto simp: taken_def)
qed

text \<open>Only the jobs of combining cells count.\<close>

lemma taken_lively:
  assumes l: "lively w" and tk: "taken j w w0" and none: "\<forall>cb \<in># job_callbacks (Some j). counter cb = None"
  shows "lively w0"
proof -
  note t = taken_facts[OF l tk]
  have "owed k (job_callbacks (Some j)) = 0" for k
    using none owed_pos[of k "job_callbacks (Some j)"] by auto
  then show ?thesis using t(3) by (intro lively_step[OF l t(1,5,4)]) simp_all
qed

lemma fill_after:
  assumes k: "keeps w0 w1" and ctx: "ctx_ok (pool w0) ctx" and u: "is_write_once w0 u" and cm: "coming (insert u B) w0 c"
  shows "coming B (snd (write_result_to_value ctx r u w1)) c"
proof -
  note k' = keepsD[OF k]
  from coming_write[OF k'(3)[OF cm] world_invD(1)[OF livelyD(1)[OF k'(2)]] ctx_ok_mono[OF step_okD(2)[OF k'(1)] ctx]
      is_write_once_mono[OF step_okD(2)[OF k'(1)] u]] show ?thesis .
qed

text \<open>A job that runs user code and then fills its cell.\<close>

lemma taken_fill:
  assumes l: "lively w" and tk: "taken j w w0" and none: "\<forall>cb \<in># job_callbacks (Some j). counter cb = None"
    and k: "keeps w0 w1" and ctx: "ctx_ok (pool w0) ctx" and u: "is_write_once w0 (job_fills j)"
  shows "keeps w (snd (write_result_to_value ctx r (job_fills j) w1))"
proof -
  note t = taken_facts[OF l tk] and k' = keepsD[OF k]
  let ?w = "snd (write_result_to_value ctx r (job_fills j) w1)"
  have "keeps w1 ?w"
    by (rule keeps_write[OF k'(2) ctx_ok_mono[OF step_okD(2)[OF k'(1)] ctx] is_write_once_mono[OF step_okD(2)[OF k'(1)] u]])
  note k2 = keepsD[OF this]
  have "step_ok w ?w" using t(1) k'(1) k2(1) by (blast intro: step_ok_trans)
  moreover have "coming B ?w c" if "coming B w c" for B c using fill_after[OF k ctx u t(6)[OF that]] .
  ultimately show ?thesis using k2(2) by (simp add: keeps_def)
qed

subsection \<open>Counting jobs\<close>

lemma counted_keeps:
  assumes l: "lively w" and tk: "taken (RunCallback cb r) w w0" and tc: "takes_count w cb k w1"
    and w1: "cells w1 = cells w0" "pool w1 = pool w0" "jobs_left w1 = jobs_left w0" "timers w1 = timers w0" "io_source w1 = io_source w0"
    and ctx: "ctx_ok (pool w0) ctx"
  shows "keeps w (snd (write_result_to_value ctx r' (fills cb) w1))"
    and "(end_value w (fills cb) = None \<Longrightarrow> counted w1 k = counted w k + 1 \<and> counted w k + 1 < goal w k) \<Longrightarrow> keeps w w1"
proof -
  note t = taken_facts[OF l tk] and c = takes_countD[OF tc]
  have wk: "working w1 d = working w0 d" for d by (simp add: working_def w1)
  note more = coming_more_work[OF _ w1(1), unfolded wk]
  have inv1: "world_inv w1" using c(3) by (rule step_okD)
  have cb: "callback_ok w cb" using tokens_ok[OF livelyD(1)[OF l], of cb] c(2) by simp
  have u: "is_write_once w1 (fills cb)" using is_write_once_mono[OF step_okD(2)[OF c(3)]] counter_ok[OF cb c(1)] by blast
  have ctx1: "ctx_ok (pool w1) ctx" using ctx by (simp add: w1)
  let ?w = "snd (write_result_to_value ctx r' (fills cb) w1)"
  have "coming B ?w d" if "coming B w d" for B d
    using coming_write[OF more[OF t(6)[OF that]] world_invD(1)[OF inv1] ctx1] u by simp
  then show "keeps w ?w"
    using count_filled[OF l tc ctx1 u] step_ok_trans[OF c(3) write_result_step(1)[OF inv1 ctx1 u]] by (simp add: keeps_def)
  assume "end_value w (fills cb) = None \<Longrightarrow> counted w1 k = counted w k + 1 \<and> counted w k + 1 < goal w k"
  note one = count_one[OF l tc this]
  have "working w0 (fills cb) \<or> (\<exists>e. placed w0 e (fills cb)) \<or> end_value w (fills cb) \<noteq> None"
    using one(2) by (auto simp: wk placed_def w1)
  then have "coming B w1 d" if "coming B w d" for B d using more t(7)[OF _ that] by simp
  then show "keeps w w1" using one(1) c(3) by (simp add: keeps_def)
qed

lemma log_error_takes:
  assumes l: "lively w" and tk: "taken (RunCallback (OnWhenAny u x) r) w w0"
  shows "takes_count w (OnWhenAny u x) (Inl x) (snd (log_error x w0))"
    and "end_value w u = None \<Longrightarrow> counted (snd (log_error x w0)) (Inl x) = counted w (Inl x) + 1
      \<and> (fst (log_error x w0) \<longleftrightarrow> goal w (Inl x) \<le> counted w (Inl x) + 1)"
proof -
  note t = taken_facts[OF l tk]
  let ?w1 = "snd (log_error x w0)"
  have same: "any_contexts w0 = any_contexts w" "all_contexts w0 = all_contexts w" using tk by (auto simp: taken_def)
  have x: "x < length (any_contexts w)" using t(2) same by simp
  have f: "cells ?w1 = cells w0" "jobs_left ?w1 = jobs_left w0" "timers ?w1 = timers w0" "all_contexts ?w1 = all_contexts w0"
    by (simp_all add: log_error_def Let_def)
  have tok: "callback_tokens ?w1 = callback_tokens w0" by (simp add: callback_tokens_def pending_def queued_def f)
  have other: "counted ?w1 k' = counted w k' \<and> goal ?w1 k' = goal w k'" if "k' \<noteq> Inl x" for k'
    using that by (cases k') (auto simp: log_error_def Let_def same)
  show "takes_count w (OnWhenAny u x) (Inl x) ?w1"
    unfolding takes_count_def
    using t(3,4) tok step_ok_trans[OF t(1) log_error_step[OF step_okD(1)[OF t(1)], of x]] x other
    by (simp add: only_timers_def f) (simp add: log_error_def Let_def same)
  assume un: "end_value w u = None"
  have "OnWhenAny u x \<in># callback_tokens w" using t(3) by simp
  from balancedD(1)[OF livelyD(2)[OF l] this, of "Inl x"] un
  have "num_erroneous_cells (any_contexts w ! x) + 1 < size_max1" by (simp add: enough_def)
  then show "counted ?w1 (Inl x) = counted w (Inl x) + 1 \<and> (fst (log_error x w0) \<longleftrightarrow> goal w (Inl x) \<le> counted w (Inl x) + 1)"
    using x by (simp add: log_error_def Let_def same)
qed

lemma commit_takes:
  assumes l: "lively w" and tk: "taken (RunCallback (OnWhenAll x i u) r) w w0"
  shows "takes_count w (OnWhenAll x i u) (Inr x) (snd (commit_resolved_value x i v w0))"
    and "end_value w u = None \<Longrightarrow> counted (snd (commit_resolved_value x i v w0)) (Inr x) = counted w (Inr x) + 1
      \<and> (fst (commit_resolved_value x i v w0) \<longleftrightarrow> goal w (Inr x) \<le> counted w (Inr x) + 1)"
proof -
  note t = taken_facts[OF l tk]
  let ?w1 = "snd (commit_resolved_value x i v w0)"
  have same: "any_contexts w0 = any_contexts w" "all_contexts w0 = all_contexts w" using tk by (auto simp: taken_def)
  have x: "x < length (all_contexts w)" using t(2) same by simp
  have f: "cells ?w1 = cells w0" "jobs_left ?w1 = jobs_left w0" "timers ?w1 = timers w0" "any_contexts ?w1 = any_contexts w0"
    by (simp_all add: commit_resolved_value_def Let_def)
  have tok: "callback_tokens ?w1 = callback_tokens w0" by (simp add: callback_tokens_def pending_def queued_def f)
  have other: "counted ?w1 k' = counted w k' \<and> goal ?w1 k' = goal w k'" if "k' \<noteq> Inr x" for k'
    using that by (cases k') (auto simp: commit_resolved_value_def Let_def same)
  show "takes_count w (OnWhenAll x i u) (Inr x) ?w1"
    unfolding takes_count_def
    using t(3,4) tok step_ok_trans[OF t(1) commit_step[OF step_okD(1)[OF t(1)], of x i v]] x other
    by (simp add: only_timers_def f) (simp add: commit_resolved_value_def Let_def same)
  assume un: "end_value w u = None"
  have "OnWhenAll x i u \<in># callback_tokens w" using t(3) by simp
  from balancedD(1)[OF livelyD(2)[OF l] this, of "Inr x"] un
  have "num_resolved_cells (all_contexts w ! x) + 1 < size_max1" by (simp add: enough_def)
  then show "counted ?w1 (Inr x) = counted w (Inr x) + 1 \<and> (fst (commit_resolved_value x i v w0) \<longleftrightarrow> goal w (Inr x) \<le> counted w (Inr x) + 1)"
    using x by (simp add: commit_resolved_value_def Let_def same)
qed

lemma taken_counts:
  assumes l: "lively w" and tk: "taken (RunCallback cb r) w w0" and k: "counter cb = Some k"
  shows "takes_count w cb k w0"
proof -
  note t = taken_facts[OF l tk]
  have "cb \<in># callback_tokens w" using t(3) by simp
  from counter_ok[OF tokens_ok[OF livelyD(1)[OF l] this] k] have "is_context w k" by blast
  then show ?thesis using t(1,3,4,5) k by (simp add: takes_count_def same_counts_def)
qed

subsection \<open>All jobs\<close>

text \<open>What a \<open>bind\<close> callback is about to track: the task its function gave, or the error cell.\<close>

lemma bound_task_ready:
  assumes l: "lively w" and env: "live_env env" and t: "is_tracking w t" "binds t (callback_tokens w) = 0"
    and f: "bind_fn env f v w = Some (tk, w1)"
  shows "keeps w w1" "coming {} w1 (task_cell tk)" "binds t (callback_tokens w1) = 0"
proof -
  obtain K where "(live_client env)\<^sup>*\<^sup>* ({}, {}, w) (K, {}, w1)" using env f unfolding live_env_def by blast
  from live_clients_binds[OF this, of t] l t show "binds t (callback_tokens w1) = 0" by simp
qed (rule live_envD(3,4)[OF env l f])+

lemma error_cell_ready:
  fixes w :: "('f, 'a, 'os) world" and er :: async_error
  assumes l: "lively w" and ctx: "ctx_ok (pool w) ctx" and e: "is_write_once w e" and t: "binds t (callback_tokens w) = 0"
  defines "w1 \<equiv> snd (write_result_to_value ctx (Err er) e w)"
  shows "keeps w w1" "coming {} w1 e" "binds t (callback_tokens w1) = 0"
proof -
  show k: "keeps w w1" unfolding w1_def by (rule keeps_write[OF l ctx e])
  have "is_write_once w1 e" by (rule is_write_once_mono[OF step_okD(2)[OF keepsD(1)[OF k]] e])
  then have "link w1 e = None" "e < length (cells w1)" by (auto elim: is_write_onceE simp: link_def)
  moreover have "end_value w1 e \<noteq> None"
    using end_value_write[OF world_invD(1)[OF livelyD(1)[OF l]] ctx e] by (auto simp: w1_def split: option.splits)
  ultimately show "coming {} w1 e" by (intro coming.filled)
  show "binds t (callback_tokens w1) = 0" using write_result_step(2)[OF livelyD(1)[OF l] ctx e] t by (simp add: w1_def)
qed

lemma bind_start:
  assumes l: "lively w" and tk: "taken (RunCallback (OnBind t e f) r) w w0"
  shows "lively w0" "is_tracking w0 t" "is_write_once w0 e" "binds t (callback_tokens w0) = 0"
  using taken_lively[OF l tk] taken_facts(2,3)[OF l tk] balancedD(3)[OF livelyD(2)[OF l], of t] by simp_all

lemma bind_keeps:
  assumes l: "lively w" and env: "live_env env" and ctx: "ctx_ok (pool w0) ctx"
    and tk: "taken (RunCallback (OnBind t e f) r) w w0" and run: "run_bind_callback env t e f ctx r w0 = Some w'"
  shows "keeps w w'"
proof -
  note tf = taken_facts[OF l tk]
  note s = bind_start[OF l tk]
  obtain a w1 b where k: "keeps w0 w1" and cm: "coming {} w1 a" and b1: "binds t (callback_tokens w1) = 0"
    and tr: "cell_track a t w1 = Some (b, w')"
  proof (cases r)
    case (Value v)
    then obtain tk w1 b where f: "bind_fn env f v w0 = Some (tk, w1)" "cell_track (task_cell tk) t w1 = Some (b, w')"
      using run by (auto simp: run_bind_callback_def bind_eq_Some_conv)
    from that[OF bound_task_ready[OF s(1) env s(2,4) f(1)] f(2)] show ?thesis .
  next
    case (Err er)
    then obtain b where "cell_track e t (snd (write_result_to_value ctx (Err er) e w0)) = Some (b, w')"
      using run by (auto simp: run_bind_callback_def write_defs bind_eq_Some_conv)
    from that[OF error_cell_ready[OF s(1) ctx s(3,4)] this] show ?thesis .
  qed
  have t1: "is_tracking w1 t" by (rule is_tracking_mono[OF step_okD(2)[OF keepsD(1)[OF k]] s(2)])
  note tl = track_live[OF keepsD(2)[OF k] t1 coming_in_range[OF cm] tr]
  have "coming B w' c" if "coming B w c" for B c
    using track_coming[OF keepsD(2)[OF k] t1 b1 cm tr] keepsD(3)[OF k tf(6)[OF that]] by simp
  moreover have "step_ok w w'" using tf(1) keepsD(1)[OF k] tl(2) by (blast intro: step_ok_trans)
  ultimately show ?thesis using tl(1) by (simp add: keeps_def)
qed

lemma run_callback_keeps:
  assumes l: "lively w" and env: "live_env env" and ctx: "ctx_ok (pool w0) ctx"
    and tk: "taken (RunCallback cb r) w w0" and run: "run_callback env cb ctx r w0 = Some w'"
  shows "keeps w w'"
proof (cases cb)
  case (OnMap c f)
  note tk' = tk[unfolded OnMap]
  note fill = taken_fill[OF l tk' _ _ ctx, simplified]
  have l0: "lively w0" by (rule taken_lively[OF l tk']) simp
  have c: "is_write_once w0 c" using taken_facts(2)[OF l tk'] by simp
  show ?thesis
  proof (cases r)
    case (Value v)
    then obtain g w1 where m: "map_fn env f v w0 = Some (g, w1)" and w': "w' = snd (cell_write_ctx ctx g c w1)"
      using run OnMap by (auto simp: run_callback_defs split: option.splits)
    show ?thesis using fill[OF live_envD(2)[OF env l0 m] c] by (simp add: w' write_defs)
  next
    case (Err e)
    then show ?thesis using run OnMap fill[OF keeps_refl[OF l0] c] by (auto simp: run_callback_defs write_defs)
  qed
next
  case (OnBind t e f)
  then show ?thesis using bind_keeps[OF l env ctx tk[unfolded OnBind]] run by (simp add: run_callback_def)
next
  case (OnWhenAny u x)
  note tk' = tk[unfolded OnWhenAny]
  show ?thesis
  proof (cases r)
    case (Value v)
    then show ?thesis
      using run OnWhenAny counted_keeps(1)[OF l tk' taken_counts[OF l tk'] refl refl refl refl refl ctx] by (auto simp: run_callback_defs write_defs)
  next
    case (Err e)
    note lt = log_error_takes[OF l tk']
    have f: "cells (snd (log_error x w0)) = cells w0" "pool (snd (log_error x w0)) = pool w0"
      "jobs_left (snd (log_error x w0)) = jobs_left w0"
      "timers (snd (log_error x w0)) = timers w0" "io_source (snd (log_error x w0)) = io_source w0"
      by (simp_all add: log_error_def Let_def)
    note ck = counted_keeps[OF l tk' lt(1) f ctx]
    have w': "w' = (if fst (log_error x w0) then snd (write_result_to_value ctx (Err e) u (snd (log_error x w0))) else snd (log_error x w0))"
      using run OnWhenAny Err by (auto simp: run_callback_defs write_defs split_def Let_def)
    show ?thesis
    proof (cases "fst (log_error x w0)")
      case True
      then show ?thesis using ck(1) w' by simp
    next
      case False
      then have "keeps w (snd (log_error x w0))" using lt(2) by (intro ck(2)) auto
      then show ?thesis using w' False by simp
    qed
  qed
next
  case (OnWhenAll x i u)
  note tk' = tk[unfolded OnWhenAll]
  show ?thesis
  proof (cases r)
    case (Err e)
    then show ?thesis
      using run OnWhenAll counted_keeps(1)[OF l tk' taken_counts[OF l tk'] refl refl refl refl refl ctx] by (auto simp: run_callback_defs write_defs)
  next
    case (Value v)
    let ?w1 = "snd (commit_resolved_value x i v w0)"
    note lt = commit_takes[OF l tk', of v]
    have f: "cells ?w1 = cells w0" "pool ?w1 = pool w0" "jobs_left ?w1 = jobs_left w0" "timers ?w1 = timers w0" "io_source ?w1 = io_source w0"
      by (simp_all add: commit_resolved_value_def Let_def)
    note ck = counted_keeps[OF l tk' lt(1) f ctx]
    have w': "w' = (if fst (commit_resolved_value x i v w0)
        then snd (write_result_to_value ctx (Value (Vector (resolved_values (all_contexts ?w1 ! x)))) u ?w1) else ?w1)"
      using run OnWhenAll Value by (auto simp: run_callback_defs write_defs split_def Let_def)
    show ?thesis
    proof (cases "fst (commit_resolved_value x i v w0)")
      case True
      then show ?thesis using ck(1) w' by simp
    next
      case False
      then have "keeps w ?w1" using lt(2) by (intro ck(2)) auto
      then show ?thesis using w' False by simp
    qed
  qed
qed

lemma run_job_keeps:
  assumes l: "lively w" and env: "live_env env" and ctx: "ctx_ok (pool w0) ctx"
    and tk: "taken j w w0" and run: "run_job env ctx j w0 = Some w'"
  shows "keeps w w'"
proof (cases j)
  case (RunCallback cb r)
  then show ?thesis using run_callback_keeps[OF l env ctx tk[unfolded RunCallback]] run by (simp add: run_job_def)
next
  case (RunTask c f)
  note tk' = tk[unfolded RunTask]
  have l0: "lively w0" by (rule taken_lively[OF l tk']) simp
  have c: "is_write_once w0 c" using taken_facts(2)[OF l tk'] by simp
  obtain v w1 where m: "call_fn env f w0 = Some (v, w1)" and w': "w' = snd (cell_write_ctx ctx v c w1)"
    using run RunTask by (auto simp: run_job_defs split: option.splits)
  show ?thesis using taken_fill[OF l tk' _ live_envD(1)[OF env l0 m] ctx] c by (simp add: w' write_defs)
next
  case (CompleteTimer c)
  note tk' = tk[unfolded CompleteTimer]
  have l0: "lively w0" by (rule taken_lively[OF l tk']) simp
  show ?thesis
    using run CompleteTimer taken_fill[OF l tk' _ keeps_refl[OF l0] ctx] taken_facts(2)[OF l tk'] by (auto simp: run_job_defs write_defs)
next
  case (FinishRead c rq)
  note tk' = tk[unfolded FinishRead]
  have l0: "lively w0" by (rule taken_lively[OF l tk']) simp
  show ?thesis
    using run FinishRead taken_fill[OF l tk' _ keeps_refl[OF l0] ctx_empty_ok] taken_facts(2)[OF l tk']
    by (cases "read_result (aio_error_fn env (os_state w0)) rq") (auto simp: run_job_defs finish_read_def read_callback_def write_defs)
qed

end
