(* ===== verification/Liveness.thy ===== *)
theory Liveness
  imports Live_Jobs
begin

text \<open>
  No result is lost: whatever the workers, the poll thread, the operating system and the client
  do, and in whatever order, the tasks a client relies on are resolved once all jobs, timers and
  reads are done and the sources the client left open are filled. A caller of \<open>block\<close> never waits
  for something that no one will do. This holds as long as no two calls of \<open>await\<close> overlap on one
  cell, which the code does not ensure; \<open>lossy_run\<close> says what happens otherwise.
\<close>

subsection \<open>Turns and polls\<close>

lemma hands_over_keeps:
  assumes l: "lively w" and h: "hands_over w w'"
  shows "keeps w w'"
proof -
  note st = hands_over_step[OF livelyD(1)[OF l] h]
  have "same_counts w w'" unfolding same_counts_def
  proof (intro allI impI)
    show "counted w' k = counted w k \<and> goal w' k = goal w k" for k using h by (cases k) (simp_all add: hands_over_def)
  qed
  moreover have "only_timers w'" using livelyD(3)[OF l] h by (simp add: only_timers_def hands_over_def)
  moreover have "working w' c \<longleftrightarrow> working w c" for c using h by (simp add: working_def hands_over_def)
  moreover have "cells w' = cells w" using h by (simp add: hands_over_def)
  ultimately show ?thesis using st by (intro keeps_same_cells[OF l]) simp_all
qed

lemma worker_turn_keeps:
  assumes l: "lively w" and env: "live_env env" and i: "i < length (workers (pool w))" and r: "worker_turn env i rnd w = Some w'"
  shows "keeps w w'"
  using r
proof (cases rule: worker_turn_cases)
  case 1
  then show ?thesis using hands_over_keeps[OF l fetch_job_hands_over[OF world_invD(1)[OF livelyD(1)[OF l]] i]] by simp
next
  case (2 f)
  from 2(1) livelyD(1)[OF l] i obtain j w0 where "taken j w w0" "ctx_ok (pool w0) (worker_context (workers (pool w) ! i))"
    "run_at_hand env i f w = run_job env (worker_context (workers (pool w) ! i)) j w0" by (rule run_at_hand_taken)
  then show ?thesis using run_job_keeps[OF l env] 2(2) by metis
qed

lemma poll_jobs_keeps:
  assumes l: "lively w" and t: "clock_range now" and none: "polled w = []"
  shows "keeps w (poll_jobs env now src w)"
proof -
  note inv = livelyD(1)[OF l] and only = livelyD(3)[OF l]
  let ?w = "poll_jobs env now src w"
  note st = poll_jobs_step[OF inv t none, of env src]
  obtain jobs where j: "jobs_left ?w = jobs_left w + mset (map Some jobs)"
      "\<forall>j \<in> set jobs. job_callbacks (Some j) = {#}" "only_timers ?w" "same_counts w ?w" "cells ?w = cells w"
    and wk: "\<And>c. working w c \<Longrightarrow> working ?w c"
  proof (cases src)
    case TimingSource
    obtain jobs s where p: "tps_poll now (timers w) = (jobs, s)" by (cases "tps_poll now (timers w)")
    note poll = tps_poll_correct(2,3)[OF sources_invD(1)[OF inv] t, unfolded p fst_conv snd_conv]
    have w: "?w = w\<lparr>timers := s, polled := map Some jobs\<rparr>"
      using p TimingSource by (simp add: poll_jobs_def)
    then have ts: "timers ?w = s" "io_source ?w = io_source w" by simp_all
    from w have q: "jobs_left ?w = jobs_left w + mset (map Some jobs)" using poll_jobs_left[OF none, of env now src] by simp
    have sum: "mset jobs + image_mset snd (tps_dues s) = image_mset snd (tps_dues (timers w))"
      using expired_remaining[of "tps_ticks now (timers w)" "tps_dues (timers w)"] poll by simp
    have mem: "j \<in> set jobs \<or> j \<in># image_mset snd (tps_dues s) \<longleftrightarrow> j \<in># image_mset snd (tps_dues (timers w))" for j
      using arg_cong[OF sum, of set_mset] by auto
    have ct: "\<exists>c. j = CompleteTimer c" if "j \<in># image_mset snd (tps_dues (timers w))" for j
      using that only by (auto simp: only_timers_def)
    show ?thesis
    proof (rule that[of jobs])
      show "\<forall>j \<in> set jobs. job_callbacks (Some j) = {#}" using ct mem by fastforce
      show "only_timers ?w" using ct mem by (fastforce simp: only_timers_def w)
      show "same_counts w ?w" unfolding same_counts_def
      proof (intro allI impI)
        show "counted ?w k = counted w k \<and> goal ?w k = goal w k" for k by (cases k) (simp_all add: w)
      qed
      show "working ?w c" if wk: "working w c" for c
      proof -
        from wk consider "\<exists>j. Some j \<in># jobs_left w \<and> job_fills j = c" | p where "p \<in># tps_dues (timers w)" "job_fills (snd p) = c"
          | "\<exists>p \<in> set (in_flight_requests (io_source w)). fst p = c" unfolding working_def by auto
        then show ?thesis
        proof cases
          case 1
          then show ?thesis by (auto simp: working_def q ts)
        next
          case (2 p)
          then have "snd p \<in> set jobs \<or> snd p \<in># image_mset snd (tps_dues s)" using mem[of "snd p"] by simp
          then show ?thesis using 2(2) by (force simp: working_def q ts)
        next
          case 3
          then show ?thesis by (simp add: working_def w)
        qed
      qed
    qed (simp_all add: q, simp_all add: w)
  next
    case IoSource
    let ?st = "aio_error_fn env (os_state w)"
    let ?p = "io_poll ?st FinishRead (io_source w) :: ('a, 'b) job list \<times> address io_source"
    obtain jobs s where p: "?p = (jobs, s)" by (cases ?p)
    have w: "?w = w\<lparr>io_source := s, polled := map Some jobs\<rparr>"
      using p IoSource by (simp add: poll_jobs_def)
    then have ts: "timers ?w = timers w" "io_source ?w = s" by simp_all
    from w have q: "jobs_left ?w = jobs_left w + mset (map Some jobs)" using poll_jobs_left[OF none, of env now src] by simp
    have jobs: "jobs = map (\<lambda>(cb, r). FinishRead cb r) (filter (\<lambda>(cb, r). is_completed ?st r) (in_flight_requests (io_source w)))"
      and s: "in_flight_requests s = filter (\<lambda>(cb, r). \<not> is_completed ?st r) (in_flight_requests (io_source w))"
      using p by (auto simp: io_poll_eq)
    show ?thesis
    proof (rule that[of jobs])
      show "\<forall>j \<in> set jobs. job_callbacks (Some j) = {#}" by (auto simp: jobs)
      show "only_timers ?w" using only by (simp add: only_timers_def w)
      show "same_counts w ?w" unfolding same_counts_def
      proof (intro allI impI)
        show "counted ?w k = counted w k \<and> goal ?w k = goal w k" for k by (cases k) (simp_all add: w)
      qed
      show "working ?w c" if wk: "working w c" for c
      proof -
        from wk consider "\<exists>j. Some j \<in># jobs_left w \<and> job_fills j = c" | "\<exists>p. p \<in># tps_dues (timers w) \<and> job_fills (snd p) = c"
          | r where "(c, r) \<in> set (in_flight_requests (io_source w))" unfolding working_def by force
        then show ?thesis
        proof cases
          case (3 r)
          show ?thesis
          proof (cases "is_completed ?st r")
            case True
            then have "FinishRead c r \<in> set jobs" using 3 by (force simp: jobs)
            then have "Some (FinishRead c r) \<in># jobs_left ?w" by (simp add: q ts)
            then show ?thesis unfolding working_def by (metis job_fills.simps(4))
          next
            case False
            then have "(c, r) \<in> set (in_flight_requests (io_source ?w))" using 3 by (simp add: w s)
            then show ?thesis unfolding working_def by force
          qed
        qed (auto simp: working_def q ts)
      qed
    qed (simp_all add: q, simp_all add: w)
  qed
  have "sum_mset (image_mset job_callbacks (mset (map Some jobs))) = {#}" using j(2) by (induction jobs) auto
  then have "callback_tokens ?w = callback_tokens w" by (simp add: callback_tokens_def pending_def queued_def j)
  then show ?thesis using st j wk by (intro keeps_same_cells[OF l])
qed

lemma poll_keeps:
  assumes l: "lively w" and t: "clock_range now"
  shows "keeps w (poll_source env now src w)"
  using poll_jobs_keeps[OF l t, of env src] hands_over_keeps[OF l queue_polled_hands_over[OF world_invD(1)[OF livelyD(1)[OF l]]]]
  by (simp add: poll_source_def)

subsection \<open>Runs\<close>

inductive live_run :: "('f, 'a, 'os) environment \<Rightarrow> address set \<Rightarrow> address set \<Rightarrow> ('f, 'a, 'os) world \<Rightarrow> bool" for env where
  start: "clock_range now \<Longrightarrow> live_run env {} {} (snd (factory_new now n_workers s))"
| client: "live_run env K U w \<Longrightarrow> live_client env (K, U, w) (K', U', w') \<Longrightarrow> live_run env K' U' w'"
| turn: "live_run env K U w \<Longrightarrow> i < length (workers (pool w)) \<Longrightarrow> worker_turn env i rnd w = Some w' \<Longrightarrow> live_run env K U w'"
| poll: "live_run env K U w \<Longrightarrow> clock_range now \<Longrightarrow> live_run env K U (poll_source env now src w)"

lemma factory_new_lively: "clock_range now \<Longrightarrow> lively (snd (factory_new now n_workers s))"
  using factory_new_inv[of now n_workers s]
  by (simp add: lively_def balanced_def only_timers_def callback_tokens_def pending_def queued_def factory_new_def create_scheduler_def
      split_def Let_def pool_new_correct jobs_left_def held_def tps_new_dues)

lemma live_run_served:
  assumes "live_run env K U w" "live_env env"
  shows "lively w \<and> served (K, U, w)"
  using assms(1)
proof (induction rule: live_run.induct)
  case (start now n_workers s)
  then show ?case by (simp add: factory_new_lively)
next
  case (client K U w K' U' w')
  then show ?case using live_client_keeps[OF client(2)] keepsD(2) by auto
next
  case (turn K U w i rnd w')
  then have "keeps w w'" using worker_turn_keeps[OF _ assms(2) turn(2,3)] by blast
  then show ?case using turn(4) by (simp add: keeps_def)
next
  case (poll K U w now src)
  then have "keeps w (poll_source env now src w)" using poll_keeps[OF _ poll(2)] by blast
  then show ?case using poll(3) by (simp add: keeps_def)
qed

lemma live_run_hands:
  assumes "live_run env K U w" "live_env env"
  shows "hands_ok w"
  using assms(1)
proof (induction rule: live_run.induct)
  case (start now n_workers s)
  show ?case by (simp add: hands_ok_def factory_new_def split_def Let_def)
next
  case (client K U w K' U' w')
  from live_client_keeps[OF client(2)] live_run_served[OF client(1) assms(2)] have "keeps w w'" by simp
  from hands_ok_mono[OF step_okD(2)[OF keepsD(1)[OF this]] client(3)] show ?case .
next
  case (turn K U w i rnd w')
  from worker_turn_keeps[OF _ assms(2) turn(2,3)] live_run_served[OF turn(1) assms(2)] have "keeps w w'" by blast
  from hands_ok_mono[OF step_okD(2)[OF keepsD(1)[OF this]] turn(4)] show ?case .
next
  case (poll K U w now src)
  from poll_keeps[OF _ poll(2)] live_run_served[OF poll(1) assms(2)] have "keeps w (poll_source env now src w)" by blast
  from hands_ok_mono[OF step_okD(2)[OF keepsD(1)[OF this]] poll(3)] show ?case .
qed

lemma relied_resolved:
  assumes "live_run env K U w" "live_env env" "relied K t" "idle w" "\<forall>a \<in> U. end_value w a \<noteq> None"
  shows "\<exists>r. cell_read (task_cell t) w = Some (Some r) \<and> cell_block (task_cell t) w = Some r"
proof -
  have l: "lively w" and c: "coming U w (task_cell t)" using live_run_served[OF assms(1,2)] assms(3) by auto
  obtain e r where "chain (link w) (task_cell t) e" "end_value w e = Some r"
    using coming_resolved[OF c livelyD(1)[OF l] assms(4,5)] by blast
  then show ?thesis using cell_read_chain[of w "task_cell t" e] cell_block_chain[of w "task_cell t" e] by simp
qed

subsection \<open>Awaits that overlap\<close>

text \<open>
  Two calls of \<open>await\<close> on one cell may overlap, and then one of the two callbacks may be missing
  afterwards (\<open>drop_callback\<close>). \<open>lossy_run\<close> lets that happen: at any time a callback that a cell has
  may turn out not to be there. \<open>lost\<close> are the callbacks missing so far.
\<close>

inductive lossy_run ::
  "('f, 'a, 'os) environment \<Rightarrow> 'f callback multiset \<Rightarrow> address set \<Rightarrow> address set \<Rightarrow> ('f, 'a, 'os) world \<Rightarrow> bool"
  for env
where
  start: "clock_range now \<Longrightarrow> lossy_run env {#} {} {} (snd (factory_new now n_workers s))"
| client: "lossy_run env lost K U w \<Longrightarrow> live_client env (K, U, w) (K', U', w') \<Longrightarrow> lossy_run env lost K' U' w'"
| turn: "lossy_run env lost K U w \<Longrightarrow> i < length (workers (pool w)) \<Longrightarrow> worker_turn env i rnd w = Some w' \<Longrightarrow>
    lossy_run env lost K U w'"
| poll: "lossy_run env lost K U w \<Longrightarrow> clock_range now \<Longrightarrow> lossy_run env lost K U (poll_source env now src w)"
| lose: "lossy_run env lost K U w \<Longrightarrow> e < length (cells w) \<Longrightarrow> cb \<in> set (cell_callbacks (cells w ! e)) \<Longrightarrow>
    lossy_run env (add_mset cb lost) K U (drop_callback e cb w)"

lemma lossless_run: "lossy_run env lost K U w \<Longrightarrow> lost = {#} \<Longrightarrow> live_run env K U w"
  by (induction rule: lossy_run.induct) (auto intro: live_run.intros)

lemma live_run_lossless: "live_run env K U w \<Longrightarrow> lossy_run env {#} K U w"
  by (induction rule: live_run.induct) (auto intro: lossy_run.intros)


lemma sample_env_live: "live_env sample_env"
proof -
  have "\<exists>K. (live_client sample_env)\<^sup>*\<^sup>* ({}, {}, w) (K, {}, w') \<and> relied K t" if "task_new f w = (t, w')"
    for f t and w w' :: "(nat, nat, unit) world"
  proof -
    have "live_client sample_env ({}, {}, w) (rely True t {}, {}, w')"
      using that by (intro live_client.create) (simp add: factory_create_def)
    then have "(live_client sample_env)\<^sup>*\<^sup>* ({}, {}, w) (rely True t {}, {}, w')" by (rule r_into_rtranclp)
    then show ?thesis by (intro exI[of _ "rely True t {}"]) (simp add: rely_def)
  qed
  then show ?thesis unfolding live_env_def sample_env_def by auto
qed

text \<open>One worker alone takes the only job there is, and runs it.\<close>

lemma lone_task_runs:
  fixes w :: "(nat, nat, unit) world"
  assumes inv: "pool_inv (pool w)" and i: "0 < length (workers (pool w))"
    and none: "at_hand w = []" and one: "pool_jobs (pool w) = {#Some (RunTask c f)#}"
  obtains p ctx where
    "worker_turn sample_env 0 0 w = Some (w\<lparr>pool := p, at_hand := [(0, Some (RunTask c f))]\<rparr>)"
    "worker_turn sample_env 0 0 (w\<lparr>pool := p, at_hand := [(0, Some (RunTask c f))]\<rparr>) =
       Some (snd (write_result_to_value ctx (Value (Plain f)) c (w\<lparr>pool := p, at_hand := []\<rparr>)))"
    "pool_jobs p = {#}" "length (workers p) = length (workers (pool w))"
proof -
  obtain res p where n: "worker_next 0 0 (pool w) = (res, p)" by (cases "worker_next 0 0 (pool w)")
  from worker_next_correct[OF inv i n] one have p: "res = Some (Some (RunTask c f))" "pool_jobs p = {#}"
    "length (workers p) = length (workers (pool w))" by (cases res; auto)+
  show ?thesis
  proof (rule that[of p "worker_context (workers p ! 0)"])
    show "worker_turn sample_env 0 0 w = Some (w\<lparr>pool := p, at_hand := [(0, Some (RunTask c f))]\<rparr>)"
      by (simp add: worker_turn_def fetch_job_def n p(1) none)
    show "worker_turn sample_env 0 0 (w\<lparr>pool := p, at_hand := [(0, Some (RunTask c f))]\<rparr>) =
        Some (snd (write_result_to_value (worker_context (workers p ! 0)) (Value (Plain f)) c (w\<lparr>pool := p, at_hand := []\<rparr>)))"
      by (simp add: worker_turn_def run_at_hand_def run_job_defs sample_env_def write_defs)
  qed (use p in simp_all)
qed

text \<open>A run of a client that has created one task.\<close>

lemma created_run:
  obtains t w where "live_run sample_env {0} {} (w :: (nat, nat, unit) world)" "t = \<lparr>task_cell = 0\<rparr>"
    "cells w = [WriteOnce \<lparr>wo_value = None, wo_callbacks = []\<rparr>]" "length (workers (pool w)) = 2"
    "pool_jobs (pool w) = {#Some (RunTask 0 7)#}" "at_hand w = []" "polled w = []"
    "tps_dues (timers w) = {#}" "in_flight_requests (io_source w) = []" "pool_inv (pool w)"
proof -
  define w0 where "w0 = (snd (factory_new 0 2 ()) :: (nat, nat, unit) world)"
  obtain t w1 where c: "factory_create 7 w0 = (t, w1)" by (cases "factory_create 7 w0")
  have c0: "cells w0 = []" "length (workers (pool w0)) = 2" "pool_jobs (pool w0) = {#}" "tps_dues (timers w0) = {#}"
    "in_flight_requests (io_source w0) = []" "at_hand w0 = []" "polled w0 = []" "pool_inv (pool w0)"
    by (simp_all add: w0_def factory_new_def create_scheduler_def split_def Let_def pool_new_correct tps_new_dues io_new_def)
  have t: "t = \<lparr>task_cell = 0\<rparr>" and w1: "w1 = queue_job ctx_empty (RunTask 0 7) (snd (write_once_new w0))"
    using c c0 by (auto simp: factory_create_def task_new_def write_once_new_def new_cell_def)
  let ?v = "snd (write_once_new w0)"
  have v: "pool ?v = pool w0" "timers ?v = timers w0" "io_source ?v = io_source w0" "at_hand ?v = []" "polled ?v = []"
    "cells ?v = [WriteOnce \<lparr>wo_value = None, wo_callbacks = []\<rparr>]" by (simp_all add: write_once_new_def new_cell_def c0)
  have h1: "at_hand w1 = []" "polled w1 = []" "cells w1 = cells ?v" "timers w1 = timers w0" "io_source w1 = io_source w0"
    using v by (simp_all add: w1 queue_job_def)
  have "pool_inv (pool ?v)" using v c0 by simp
  note q = queue_job_pool[OF this ctx_empty_ok, of "RunTask 0 7", folded w1]
  have "pool_jobs (pool w1) = {#Some (RunTask 0 7)#}" using q(2) h1 v c0 by (simp add: jobs_left_def held_def)
  moreover have "live_run sample_env {} {} w0" unfolding w0_def by (rule live_run.start) (simp add: clock_range_def)
  from live_run.client[OF this live_client.create[OF c]] have "live_run sample_env {0} {} w1" by (simp add: rely_def t)
  ultimately show ?thesis using that[of w1 t] q(1,3) h1 c0 v t by simp
qed


text \<open>
  The exception is needed: when a task's only callback is lost, here that of a \<open>map\<close>, everything
  can be done and the mapped task still be unresolved.
\<close>

lemma lost_callback_loses_result:
  "\<exists>w. lossy_run sample_env {#OnMap 1 3#} {0, 1} {} w \<and> idle w \<and> relied {0, 1} \<lparr>task_cell = 1\<rparr> \<and> cell_read 1 w = Some None"
proof -
  obtain t w where r: "live_run sample_env {0} {} w" and t: "t = \<lparr>task_cell = 0\<rparr>" and w: "length (workers (pool w)) = 2"
    "cells w = [WriteOnce \<lparr>wo_value = None, wo_callbacks = []\<rparr>]"
    "pool_jobs (pool w) = {#Some (RunTask 0 7)#}" "at_hand w = []" "polled w = []"
    "tps_dues (timers w) = {#}" "in_flight_requests (io_source w) = []" "pool_inv (pool w)" by (rule created_run)
  let ?e = "WriteOnce \<lparr>wo_value = None, wo_callbacks = []\<rparr> :: (nat, nat) cell"
  let ?m = "w\<lparr>cells := [WriteOnce \<lparr>wo_value = None, wo_callbacks = [OnMap 1 3]\<rparr>, ?e]\<rparr>" and ?d = "w\<lparr>cells := [?e, ?e]\<rparr>"
  have "task_map 3 t w = Some (\<lparr>task_cell = 1\<rparr>, ?m)"
    using w by (simp add: task_map_def t write_once_new_def new_cell_def cell_await.simps write_once_await_def set_cell_def)
  moreover have "task_ok w t" by (simp add: task_ok_def t w)
  ultimately have "live_client sample_env ({0}, {}, w) (rely (relied {0} t) \<lparr>task_cell = 1\<rparr> {0}, {}, ?m)"
    by (intro live_client.map_task)
  then have "live_client sample_env ({0}, {}, w) ({0, 1}, {}, ?m)" by (simp add: rely_def t insert_commute)
  from lossy_run.client[OF live_run_lossless[OF r] this] have "lossy_run sample_env {#} {0, 1} {} ?m" .
  from lossy_run.lose[OF this, of 0 "OnMap 1 3"] have d: "lossy_run sample_env {#OnMap 1 3#} {0, 1} {} ?d"
    by (simp add: drop_callback_def set_cell_def)
  obtain p ctx where
    take: "worker_turn sample_env 0 0 ?d = Some (?d\<lparr>pool := p, at_hand := [(0, Some (RunTask 0 7))]\<rparr>)" and
    run: "worker_turn sample_env 0 0 (?d\<lparr>pool := p, at_hand := [(0, Some (RunTask 0 7))]\<rparr>) =
      Some (snd (write_result_to_value ctx (Value (Plain 7)) 0 (?d\<lparr>pool := p, at_hand := []\<rparr>)))" and
    p: "pool_jobs p = {#}" "length (workers p) = length (workers (pool ?d))"
    by (rule lone_task_runs[of ?d 0 7]) (use w in simp_all)
  let ?w1 = "?d\<lparr>pool := p, at_hand := [(0, Some (RunTask 0 7))]\<rparr>"
  let ?w2 = "snd (write_result_to_value ctx (Value (Plain 7)) 0 (?d\<lparr>pool := p, at_hand := []\<rparr>))"
  have "lossy_run sample_env {#OnMap 1 3#} {0, 1} {} ?w1" by (rule lossy_run.turn[OF d _ take]) (simp add: w)
  then have r2: "lossy_run sample_env {#OnMap 1 3#} {0, 1} {} ?w2" by (rule lossy_run.turn[OF _ _ run]) (simp add: w p)
  have c: "cells ?w2 ! 1 = ?e" by (simp add: write_result_to_value_def set_cell_def)
  have "idle ?w2" using p w by (simp add: write_result_to_value_def set_cell_def idle_def jobs_left_def held_def)
  moreover have "cell_read 1 ?w2 = Some None" by (subst cell_read.simps) (simp only: c, simp)
  ultimately show ?thesis using r2 by (intro exI[of _ ?w2]) simp
qed

end
