(* ===== verification/Result_Soundness.thy ===== *)
theory Result_Soundness
  imports Client_Types
begin

text \<open>
  Type soundness for the workers and the poll thread: user functions that return what their
  signature says, and that use the library as typed clients do, keep every well-typed world well
  typed when the workers run them.
\<close>

text \<open>What the signature says of the user functions. They know of no tasks but those they make.\<close>

definition well_typed_env :: "('f, 'a) signature \<Rightarrow> ('f, 'a, 'os) environment \<Rightarrow> bool" where
  "well_typed_env G env \<longleftrightarrow>
     (\<forall>f w v w'. call_fn env f w = Some (v, w') \<longrightarrow>
        v \<in> call_type G f \<and> (\<exists>\<Delta>. (typed_client G env)\<^sup>*\<^sup>* (Map.empty, w) (\<Delta>, w')))
     \<and> (\<forall>f x w v w'. map_fn env f x w = Some (v, w') \<longrightarrow>
        v \<in> map_type G f x \<and> (\<exists>\<Delta>. (typed_client G env)\<^sup>*\<^sup>* (Map.empty, w) (\<Delta>, w')))
     \<and> (\<forall>f x w t w'. bind_fn env f x w = Some (t, w') \<longrightarrow>
        (\<exists>\<Delta> S. (typed_client G env)\<^sup>*\<^sup>* (Map.empty, w) (\<Delta>, w') \<and> task_type \<Delta> t = Some S \<and> S \<subseteq> bind_type G f x))"

lemma well_typed_envD:
  assumes "well_typed_env G env" "well_typed G \<Gamma> w"
  shows "call_fn env f w = Some (v, w') \<Longrightarrow> v \<in> call_type G f \<and> (\<exists>\<Gamma>'. advances G \<Gamma> w \<Gamma>' w')"
    and "map_fn env f x w = Some (v, w') \<Longrightarrow> v \<in> map_type G f x \<and> (\<exists>\<Gamma>'. advances G \<Gamma> w \<Gamma>' w')"
    and "bind_fn env f x w = Some (t, w') \<Longrightarrow>
      task_ok w' t \<and> (\<exists>\<Gamma>'. advances G \<Gamma> w \<Gamma>' w' \<and> cell_type \<Gamma>' (task_cell t) \<subseteq> bind_type G f x)"
proof -
  have cl: "claims_true G Map.empty \<Gamma> w" using assms(2) by (simp add: claims_true_def)
  have adv: "\<exists>\<Gamma>'. advances G \<Gamma> w \<Gamma>' w' \<and> claims_true G \<Delta> \<Gamma>' w'"
    if "(typed_client G env)\<^sup>*\<^sup>* (Map.empty, w) (\<Delta>, w')" for \<Delta>
    using typed_clients_claims[OF that] cl by simp
  note env = assms(1)[unfolded well_typed_env_def]
  show "call_fn env f w = Some (v, w') \<Longrightarrow> v \<in> call_type G f \<and> (\<exists>\<Gamma>'. advances G \<Gamma> w \<Gamma>' w')"
    using conjunct1[OF env] adv by blast
  show "map_fn env f x w = Some (v, w') \<Longrightarrow> v \<in> map_type G f x \<and> (\<exists>\<Gamma>'. advances G \<Gamma> w \<Gamma>' w')"
    using conjunct1[OF conjunct2[OF env]] adv by blast
  assume "bind_fn env f x w = Some (t, w')"
  then obtain \<Delta> S where \<Delta>: "(typed_client G env)\<^sup>*\<^sup>* (Map.empty, w) (\<Delta>, w')" "task_type \<Delta> t = Some S" "S \<subseteq> bind_type G f x"
    using conjunct2[OF conjunct2[OF env]] by blast
  obtain \<Gamma>' where g: "advances G \<Gamma> w \<Gamma>' w'" "claims_true G \<Delta> \<Gamma>' w'" using adv[OF \<Delta>(1)] by blast
  note t = task_typeD[OF g(2) \<Delta>(2)]
  show "task_ok w' t \<and> (\<exists>\<Gamma>'. advances G \<Gamma> w \<Gamma>' w' \<and> cell_type \<Gamma>' (task_cell t) \<subseteq> bind_type G f x)"
    using t g(1) \<Delta>(3) by blast
qed

subsection \<open>Callbacks and jobs\<close>

lemma wt_track:
  assumes wt: "well_typed G \<Gamma> w" and a: "is_tracking w a" and s: "s < length (cells w)"
    and sub: "cell_type \<Gamma> s \<subseteq> cell_type \<Gamma> a" and r: "cell_track s a w = Some (b, w')"
  shows "advances G \<Gamma> w \<Gamma> w'"
proof -
  note st = cell_track_step[OF well_typedD(1)[OF wt] a s r]
  obtain c where c: "a < length (cells w)" "cells w ! a = Tracking c" using is_trackingE[OF a] .
  have "same_rest w w'"
  proof (cases "tc_cell c")
    case (Some u)
    then show ?thesis using cell_track_again[OF c(2) Some, of s] r by simp
  next
    case None
    from await_each_same_rest[OF cell_track_first(2)[OF c(2) None c(1) r, unfolded await_callbacks_each]]
    show ?thesis using same_rest_trans[OF set_cell_frame(3)] by blast
  qed
  then have "well_typed G \<Gamma> w'"
    using st(2) typed_track[OF well_typedD(2,1)[OF wt] a s sub r] sure_track[OF well_typedD(2,1)[OF wt] a s sub r]
    by (intro well_typedI[OF wt st(1), of "{#}"]) (simp_all add: same_rest_def)
  then show ?thesis using st(1) by (rule advances_same)
qed

text \<open>The callback being run counts as not delivered yet.\<close>

definition running_typed ::
  "('f, 'a) signature \<Rightarrow> 'a typing \<Rightarrow> 'f callback \<Rightarrow> 'a outcome \<Rightarrow> ('f, 'a, 'os) world \<Rightarrow> bool"
where
  "running_typed G \<Gamma> cb r w \<longleftrightarrow> world_inv w \<and> typed G \<Gamma> w \<and> contexts_typed \<Gamma> {#cb#} w
     \<and> anys_typed \<Gamma> (Some (RunCallback cb r)) w"

lemma running_well_typed:
  assumes "running_typed G \<Gamma> cb r w" "\<forall>u x v. cb = OnWhenAny u x \<longrightarrow> r \<noteq> Value v"
  shows "well_typed G \<Gamma> w"
proof -
  have run: "contexts_typed \<Gamma> {#cb#} w" "anys_typed \<Gamma> (Some (RunCallback cb r)) w"
    using assms(1) by (simp_all add: running_typed_def)
  have "anys_typed \<Gamma> None w"
  proof (rule anys_typed_mono[OF run(2) world_le_refl refl])
    show "sure_token \<Gamma> u x w \<or> value_job u x None" if "sure_token \<Gamma> u x w \<or> value_job u x (Some (RunCallback cb r))" for u x
      using that assms(2) by (auto simp: value_job_def)
  qed simp
  moreover have "contexts_typed \<Gamma> {#} w" by (rule contexts_typed_mono[OF run(1) refl]) simp
  ultimately show ?thesis using assms(1) by (simp add: running_typed_def well_typed_def)
qed

text \<open>A value for a \<open>when_any\<close> fills its cell, whatever became of its other callbacks.\<close>

lemma write_no_effect: "is_write_once w a \<Longrightarrow> end_value w a \<noteq> None \<Longrightarrow> snd (write_result_to_value ctx r a w) = w"
  by (elim is_write_onceE) (auto simp: end_value_def write_filled)

lemma run_any_value:
  assumes run: "running_typed G \<Gamma> (OnWhenAny u x) (Value v) w" and ctx: "ctx_ok (pool w) ctx"
    and u: "is_write_once w u" "Value v \<in> cell_type \<Gamma> u"
  shows "advances G \<Gamma> w \<Gamma> (snd (write_result_to_value ctx (Value v) u w))" (is "advances G \<Gamma> w \<Gamma> ?w")
proof -
  have inv: "world_inv w" and t: "typed G \<Gamma> w" and all: "contexts_typed \<Gamma> {#OnWhenAny u x#} w"
    and any: "anys_typed \<Gamma> (Some (RunCallback (OnWhenAny u x) (Value v))) w" using run by (auto simp: running_typed_def)
  note p = world_invD(1)[OF inv]
  note s = write_result_step[OF inv ctx u(1), of "Value v"] and ctxs = write_contexts[OF p ctx u(1), of "Value v"]
  have filled: "is_write_once ?w u" "end_value ?w u \<noteq> None"
    using is_write_once_mono[OF step_okD(2)[OF s(1)] u(1)] end_value_write[OF p ctx u(1), of "Value v"] by (auto split: option.splits)
  have "any_typed \<Gamma> None ?w y u'" if y: "y < length (any_contexts w)" "any_sure \<Gamma> y = Some u'" for y u'
  proof (cases "u' = u")
    case False
    have "any_typed \<Gamma> (Some (RunCallback (OnWhenAny u x) (Value v))) w y u'" using any y by (simp add: anys_typed_def)
    then show ?thesis
      using False s(2) ctxs(1) sure_write[OF p ctx u]
      by (intro any_typed_mono[OF _ step_okD(2)[OF s(1)]]) (auto simp: sure_le_def value_job_def)
  qed (use filled in \<open>simp add: any_typed_filled\<close>)
  then have "anys_typed \<Gamma> None ?w" by (simp add: anys_typed_def ctxs(1))
  moreover have "contexts_typed \<Gamma> {#} ?w" using s(2) by (intro contexts_typed_mono[OF all ctxs(2)]) simp
  ultimately have "well_typed G \<Gamma> ?w"
    using typed_write[OF t p ctx u] s(1) by (simp add: well_typed_def step_okD(1))
  then show ?thesis using s(1) by (rule advances_same)
qed

lemma sure_token_counts: "sure_token \<Gamma> u x w \<Longrightarrow> 1 \<le> any_count x (callback_tokens w)"
proof -
  assume "sure_token \<Gamma> u x w"
  then consider a where "a < length (cells w)" "OnWhenAny u x \<in> set (cell_callbacks (cells w ! a))"
    | j where "j \<in># jobs_left w" "OnWhenAny u x \<in># job_callbacks j"
    by (auto simp: sure_token_def value_job_def)
  then have "OnWhenAny u x \<in># callback_tokens w"
    by cases (auto simp: callback_tokens_def pending_def queued_def mem_sum_mset)
  then obtain M where "callback_tokens w = add_mset (OnWhenAny u x) M" by (meson mset_add)
  then show ?thesis by simp
qed

text \<open>An error for a \<open>when_any\<close> is counted; one for which a value is still to come is not the last.\<close>

lemma run_any_error:
  assumes run: "running_typed G \<Gamma> (OnWhenAny u x) (Err e) w" and x: "x < length (any_contexts w)"
  shows "advances G \<Gamma> w \<Gamma> (snd (log_error x w))"
    and "fst (log_error x w) \<Longrightarrow> any_sure \<Gamma> x = Some u \<Longrightarrow> is_write_once w u \<and> end_value w u \<noteq> None"
proof -
  let ?w = "snd (log_error x w)" and ?n = "num_erroneous_cells (any_contexts w ! x)" and ?h = "Some (RunCallback (OnWhenAny u x) (Err e))"
  have inv: "world_inv w" and t: "typed G \<Gamma> w" and all: "contexts_typed \<Gamma> {#OnWhenAny u x#} w"
    and any: "anys_typed \<Gamma> ?h w" using run by (auto simp: running_typed_def)
  note s = log_error_step[OF inv, of x]
  have same: "callback_tokens ?w = callback_tokens w" "all_contexts ?w = all_contexts w" "sure_le \<Gamma> w ?w"
    "length (any_contexts ?w) = length (any_contexts w)" "cells ?w = cells w"
    by (simp_all add: log_error_def Let_def callback_tokens_def pending_def queued_def sure_same)
  have "any_typed \<Gamma> None ?w y u'" if y: "y < length (any_contexts w)" "any_sure \<Gamma> y = Some u'" for y u'
  proof -
    have ty: "any_typed \<Gamma> ?h w y u'" using any y by (simp add: anys_typed_def)
    show ?thesis
    proof (cases "y = x")
      case True
      then show ?thesis
        using ty same x unfolding any_typed_def
        by (auto simp: value_job_def sure_le_def log_error_def Let_def end_value_def is_write_once_def)
    next
      case False
      then have "any_contexts ?w ! y = any_contexts w ! y" by (simp add: log_error_def Let_def)
      then show ?thesis
        using same by (intro any_typed_mono[OF ty step_okD(2)[OF s]]) (auto simp: value_job_def sure_le_def)
    qed
  qed
  then have "anys_typed \<Gamma> None ?w" by (simp add: anys_typed_def same(4))
  moreover have "contexts_typed \<Gamma> {#} ?w" using same(1) by (intro contexts_typed_mono[OF all same(2)]) simp
  moreover have "typed G \<Gamma> ?w" using t by (simp add: typed_def log_error_def Let_def)
  ultimately have "well_typed G \<Gamma> ?w" using s by (simp add: well_typed_def step_okD(1))
  then show "advances G \<Gamma> w \<Gamma> ?w" using s by (rule advances_same)
  assume last: "fst (log_error x w)" and sure: "any_sure \<Gamma> x = Some u"
  have ty: "any_typed \<Gamma> ?h w x u" using any x sure by (simp add: anys_typed_def)
  have "end_value w u \<noteq> None"
  proof (rule ccontr)
    assume "\<not> end_value w u \<noteq> None"
    then have b: "sure_token \<Gamma> u x w" "?n + 1 + any_count x (callback_tokens w) \<le> any_total_cells (any_contexts w ! x)"
      "any_total_cells (any_contexts w ! x) < size_max1" using ty by (auto simp: any_typed_def value_job_def)
    then have "?n + 2 \<le> any_total_cells (any_contexts w ! x)" using sure_token_counts[OF b(1)] by simp
    then show False using last b(3) by (simp add: log_error_def Let_def)
  qed
  then show "is_write_once w u \<and> end_value w u \<noteq> None" using ty by (simp add: any_typed_def)
qed

lemma context_commit:
  assumes c: "context_typed Ss cnt c" and i: "cnt i = 1" "i < length Ss" and v: "v \<in> Ss ! i"
    and cnt': "\<forall>j. cnt' j = (if j = i then 0 else cnt j)"
  defines "c' \<equiv> c\<lparr>resolved_values := (resolved_values c)[i := v], num_resolved_cells := sz_add (num_resolved_cells c) 1\<rparr>"
  shows "context_typed Ss cnt' c'"
    and "all_total_cells c \<le> sz_add (num_resolved_cells c) 1 \<Longrightarrow> list_all2 (\<in>) (resolved_values c') Ss"
proof -
  obtain D where D: "D \<subseteq> {..<length Ss}" "num_resolved_cells c = card D"
    "\<forall>j \<in> D. resolved_values c ! j \<in> Ss ! j \<and> cnt j = 0" using c by (auto simp: context_typed_def)
  have len: "length (resolved_values c) = length Ss" "all_total_cells c = length Ss" "length Ss < size_max1"
    using c by (auto simp: context_typed_def)
  have "i \<notin> D" using D(3) i(1) by auto
  have fin: "finite D" using D(1) finite_subset by blast
  have D': "insert i D \<subseteq> {..<length Ss}" "card (insert i D) = Suc (card D)" using D(1) i(2) \<open>i \<notin> D\<close> fin by auto
  then have le: "Suc (card D) \<le> length Ss" using card_mono[OF _ D'(1)] by simp
  then have num: "num_resolved_cells c' = Suc (card D)" using len(3) D(2) by (simp add: c'_def)
  have vals: "resolved_values c' ! j \<in> Ss ! j" if "j \<in> insert i D" for j
    using that D v i(2) len(1) by (auto simp: c'_def nth_list_update)
  show "context_typed Ss cnt' c'"
    unfolding context_typed_def
  proof (intro conjI)
    show "\<exists>D \<subseteq> {..<length Ss}. num_resolved_cells c' = card D \<and> (\<forall>i \<in> D. resolved_values c' ! i \<in> Ss ! i \<and> cnt' i = 0)"
      using D' num vals D(3) cnt' by (intro exI[of _ "insert i D"]) auto
    show "\<forall>j. cnt' j \<le> 1" using c cnt' by (simp add: context_typed_def)
  qed (use len in \<open>simp_all add: c'_def\<close>)
  assume "all_total_cells c \<le> sz_add (num_resolved_cells c) 1"
  then have "length Ss \<le> Suc (card D)" using num len(2) by (simp add: c'_def)
  then have "insert i D = {..<length Ss}" using D' le by (intro card_subset_eq) auto
  then show "list_all2 (\<in>) (resolved_values c') Ss"
    using vals len(1) by (simp add: list_all2_conv_all_nth c'_def)
qed

lemma wt_commit:
  assumes run: "running_typed G \<Gamma> (OnWhenAll x i u) r w" and x: "x < length (all_contexts w)"
    and v: "i < length (slot_types \<Gamma> x)" "v \<in> slot_types \<Gamma> x ! i"
  defines "w1 \<equiv> snd (commit_resolved_value x i v w)"
  shows "advances G \<Gamma> w \<Gamma> w1"
    and "fst (commit_resolved_value x i v w) \<Longrightarrow> Value (Vector (resolved_values (all_contexts w1 ! x))) \<in> vectors (slot_types \<Gamma> x)"
proof -
  let ?c = "all_contexts w ! x" and ?Ss = "slot_types \<Gamma> x"
  let ?c' = "?c\<lparr>resolved_values := (resolved_values ?c)[i := v], num_resolved_cells := sz_add (num_resolved_cells ?c) 1\<rparr>"
  have w1: "w1 = w\<lparr>all_contexts := (all_contexts w)[x := ?c']\<rparr>" by (simp add: w1_def commit_resolved_value_def Let_def)
  have inv: "world_inv w" and t: "typed G \<Gamma> w" and ctxs: "contexts_typed \<Gamma> {#OnWhenAll x i u#} w"
    and any: "anys_typed \<Gamma> None w" using running_well_typed[OF run] run by (auto simp: running_typed_def well_typed_def)
  have tok: "callback_tokens w1 = callback_tokens w" by (simp add: w1 callback_tokens_def pending_def queued_def)
  have s: "step_ok w w1" unfolding w1_def by (rule commit_step[OF inv])
  let ?cnt = "\<lambda>j. slot_count x j ({#OnWhenAll x i u#} + callback_tokens w)" and ?cnt' = "\<lambda>j. slot_count x j (callback_tokens w)"
  have c: "context_typed ?Ss ?cnt ?c" by (rule ctxs[unfolded contexts_typed_def, rule_format, OF x])
  then have "\<forall>j. ?cnt j \<le> 1" by (simp add: context_typed_def)
  then have "?cnt' i = 0" "?cnt i = 1" by (auto dest: spec[of _ i])
  then have cnt': "\<forall>j. ?cnt' j = (if j = i then 0 else ?cnt j)" by simp
  note commit = context_commit[OF c \<open>?cnt i = 1\<close> v cnt']
  have "contexts_typed \<Gamma> {#} w1"
    unfolding contexts_typed_def
  proof (intro allI impI)
    fix y assume y: "y < length (all_contexts w1)"
    show "context_typed (slot_types \<Gamma> y) (\<lambda>i. slot_count y i ({#} + callback_tokens w1)) (all_contexts w1 ! y)"
    proof (cases "y = x")
      case True
      moreover have "all_contexts w1 ! x = ?c'" using x by (simp add: w1)
      ultimately show ?thesis using commit(1) by (simp add: tok)
    next
      case False
      have "y < length (all_contexts w)" using y by (simp add: w1)
      then have "context_typed (slot_types \<Gamma> y) (\<lambda>j. slot_count y j ({#OnWhenAll x i u#} + callback_tokens w)) (all_contexts w ! y)"
        by (rule ctxs[unfolded contexts_typed_def, rule_format])
      then have "context_typed (slot_types \<Gamma> y) (\<lambda>j. slot_count y j (callback_tokens w)) (all_contexts w ! y)"
        by (rule context_typed_mono) simp
      moreover have "all_contexts w1 ! y = all_contexts w ! y" using False by (simp add: w1)
      ultimately show ?thesis by (simp add: tok)
    qed
  qed
  moreover have "typed G \<Gamma> w1" using t by (simp add: typed_def w1)
  moreover have "sure_le \<Gamma> w w1" by (rule sure_same) (simp_all add: w1)
  then have "anys_typed \<Gamma> None w1"
    using tok by (intro anys_typed_mono[OF any step_okD(2)[OF s]]) (auto simp: sure_le_def value_job_def w1)
  ultimately show "advances G \<Gamma> w \<Gamma> w1" using s by (simp add: well_typed_def step_okD(1) advances_same)
  assume "fst (commit_resolved_value x i v w)"
  then have "list_all2 (\<in>) (resolved_values ?c') ?Ss" by (intro commit(2)) (simp add: commit_resolved_value_def Let_def)
  then show "Value (Vector (resolved_values (all_contexts w1 ! x))) \<in> vectors ?Ss"
    using x by (auto simp: vectors_def w1)
qed

lemma run_callback_typed:
  assumes run: "running_typed G \<Gamma> cb r w" and env: "well_typed_env G env" and ctx: "ctx_ok (pool w) ctx"
    and cb: "callback_ok w cb" "cb_typed G \<Gamma> cb r" and r: "run_callback env cb ctx r w = Some w'"
  shows "\<exists>\<Gamma>'. advances G \<Gamma> w \<Gamma>' w'"
proof -
  note wt = running_well_typed[OF run]
  show ?thesis
  proof (cases cb)
    case (OnMap c f)
    have c: "is_write_once w c" using cb OnMap by simp
    have wt': "well_typed G \<Gamma> w" using wt OnMap by simp
    note refl = advances_refl[OF wt']
    show ?thesis
    proof (cases r)
      case (Value v)
      then obtain g w1 where m: "map_fn env f v w = Some (g, w1)" and w': "w' = snd (cell_write_ctx ctx g c w1)"
        using r OnMap by (auto simp: run_callback_defs split: option.splits)
      from well_typed_envD(2)[OF env wt' m] obtain \<Gamma>' where g: "g \<in> map_type G f v" "advances G \<Gamma> w \<Gamma>' w1" by blast
      then have "Value g \<in> cell_type \<Gamma> c" using cb(2) OnMap Value by auto
      from advances_write[OF g(2) ctx c this] show ?thesis by (auto simp: w' write_defs)
    next
      case (Err e)
      then show ?thesis using r OnMap cb(2) advances_write[OF refl ctx c, of "Err e"] by (auto simp: run_callback_defs write_defs)
    qed
  next
    case (OnBind t e f)
    have t: "is_tracking w t" and e: "is_write_once w e" using cb OnBind by simp_all
    have wt': "well_typed G \<Gamma> w" using wt OnBind by simp
    note refl = advances_refl[OF wt']
    obtain a \<Gamma>' w1 b where a: "advances G \<Gamma> w \<Gamma>' w1" "a < length (cells w1)" "cell_type \<Gamma>' a \<subseteq> cell_type \<Gamma> t"
      and tr: "cell_track a t w1 = Some (b, w')"
    proof (cases r)
      case (Value v)
      then obtain tk w1 b where b: "bind_fn env f v w = Some (tk, w1)" "cell_track (task_cell tk) t w1 = Some (b, w')"
        using r OnBind by (auto simp: run_callback_defs bind_eq_Some_conv)
      from well_typed_envD(3)[OF env wt' b(1)] obtain \<Gamma>' where
        "task_ok w1 tk" "advances G \<Gamma> w \<Gamma>' w1" "cell_type \<Gamma>' (task_cell tk) \<subseteq> bind_type G f v" by blast
      then show ?thesis using that[of \<Gamma>' w1 "task_cell tk" b] b(2) cb(2) OnBind Value by (auto simp: task_ok_def)
    next
      case (Err er)
      let ?w1 = "snd (cell_error_ctx ctx er e w)"
      have adv: "advances G \<Gamma> w \<Gamma> ?w1"
        using advances_write[OF refl ctx e, of "Err er"] cb(2) OnBind Err by (simp add: write_defs)
      then have "e < length (cells ?w1)" using e by (auto simp: advances_def is_write_once_def dest: world_le_length)
      then show ?thesis
        using that[of \<Gamma> ?w1 e] r adv cb(2) OnBind Err by (auto simp: run_callback_defs bind_eq_Some_conv)
    qed
    have wt1: "well_typed G \<Gamma>' w1" and t1: "is_tracking w1 t" and same: "cell_type \<Gamma>' t = cell_type \<Gamma> t"
      using a(1) is_tracking_mono[OF _ t] typing_grows_cell[of w \<Gamma> \<Gamma>' t] t by (auto simp: advances_def is_tracking_def)
    from wt_track[OF wt1 t1 a(2) _ tr] a(1,3) same show ?thesis by (auto intro: advances_trans)
  next
    case (OnWhenAny u x)
    then have u: "is_write_once w u" and x: "x < length (any_contexts w)" using cb by simp_all
    show ?thesis
    proof (cases r)
      case (Value v)
      have "w' = snd (write_result_to_value ctx (Value v) u w)" "Value v \<in> cell_type \<Gamma> u"
        using r cb(2) OnWhenAny Value by (auto simp: run_callback_defs write_defs)
      then show ?thesis using run_any_value[OF run[unfolded OnWhenAny Value] ctx u] by blast
    next
      case (Err e)
      note er = run_any_error[OF run[unfolded OnWhenAny Err] x]
      let ?w1 = "snd (log_error x w)"
      have w': "w' = (if fst (log_error x w) then snd (write_result_to_value ctx (Err e) u ?w1) else ?w1)"
        using r OnWhenAny Err by (auto simp: run_callback_defs write_defs split_def Let_def split: if_splits)
      show ?thesis
      proof (cases "fst (log_error x w) \<and> any_sure \<Gamma> x = Some u")
        case True
        then have u1: "is_write_once ?w1 u" "end_value ?w1 u \<noteq> None"
          using er(2) by (auto simp: log_error_def Let_def is_write_once_def end_value_def)
        have "snd (write_result_to_value ctx (Err e) u ?w1) = ?w1" by (rule write_no_effect[OF u1])
        then show ?thesis using er(1) w' by auto
      next
        case False
        then show ?thesis using er(1) w' cb(2) OnWhenAny Err advances_write[OF er(1) ctx u, of "Err e"] by auto
      qed
    qed
  next
    case (OnWhenAll x i u)
    then have u: "is_write_once w u" and x: "x < length (all_contexts w)" using cb by simp_all
    have "well_typed G \<Gamma> w" using wt OnWhenAll by simp
    note refl = advances_refl[OF this]
    show ?thesis
    proof (cases r)
      case (Value v)
      have i: "i < length (slot_types \<Gamma> x)" "v \<in> slot_types \<Gamma> x ! i" and sub: "vectors (slot_types \<Gamma> x) \<subseteq> cell_type \<Gamma> u"
        using cb(2) OnWhenAll Value by auto
      note commit = wt_commit[OF run[unfolded OnWhenAll] x i]
      let ?w1 = "snd (commit_resolved_value x i v w)"
      have "w' = (if fst (commit_resolved_value x i v w)
          then snd (write_result_to_value ctx (Value (Vector (resolved_values (all_contexts ?w1 ! x)))) u ?w1) else ?w1)"
        using r OnWhenAll Value by (auto simp: run_callback_defs write_defs split_def Let_def split: if_splits)
      then show ?thesis
        using commit(1) advances_write[OF commit(1) ctx u] commit(2) sub by (auto split: if_splits)
    next
      case (Err e)
      then show ?thesis using r OnWhenAll cb(2) advances_write[OF refl ctx u, of "Err e"] by (auto simp: run_callback_defs write_defs)
    qed
  qed
qed

lemma run_job_typed:
  assumes t: "world_inv w" "typed G \<Gamma> w" "contexts_typed \<Gamma> (job_callbacks (Some j)) w" "anys_typed \<Gamma> (Some j) w" and env: "well_typed_env G env"
    and ctx: "ctx_ok (pool w) ctx" and j: "job_ok w j" "job_typed G \<Gamma> j" and r: "run_job env ctx j w = Some w'"
  shows "\<exists>\<Gamma>'. advances G \<Gamma> w \<Gamma>' w'"
proof -
  have wt: "well_typed G \<Gamma> w" if "job_callbacks (Some j) = {#}"
  proof -
    have "anys_typed \<Gamma> None w" using that by (intro anys_typed_mono[OF t(4)]) (auto simp: value_job_def)
    then show ?thesis using t that by (simp add: well_typed_def)
  qed
  show ?thesis
  proof (cases j)
    case (RunCallback cb res)
    then have "running_typed G \<Gamma> cb res w" using t by (simp add: running_typed_def)
    from run_callback_typed[OF this env ctx] show ?thesis using j r RunCallback by (simp add: run_job_defs)
  next
    case (RunTask c f)
    then obtain v w1 where m: "call_fn env f w = Some (v, w1)" and w': "w' = snd (cell_write_ctx ctx v c w1)"
      using r by (auto simp: run_job_defs split: option.splits)
    have "well_typed G \<Gamma> w" using wt RunTask by simp
    from well_typed_envD(1)[OF env this m] obtain \<Gamma>' where g: "v \<in> call_type G f" "advances G \<Gamma> w \<Gamma>' w1" by blast
    then have "Value v \<in> cell_type \<Gamma> c" using j(2) RunTask by auto
    from advances_write[OF g(2) ctx _ this] j(1) RunTask show ?thesis by (auto simp: w' write_defs)
  next
    case (CompleteTimer c)
    then have wt: "well_typed G \<Gamma> w" using wt by simp
    show ?thesis
      using r j CompleteTimer advances_write[OF advances_refl[OF wt] ctx, of c "Value Unit"]
      by (auto simp: run_job_defs write_defs)
  next
    case (FinishRead c rq)
    then have wt: "well_typed G \<Gamma> w" using wt by simp
    note wr = advances_write[OF advances_refl[OF wt] ctx_empty_ok, of c]
    show ?thesis
    proof (cases "read_result (aio_error_fn env (os_state w)) rq")
      case (AioValue q)
      then have "q = in_flight_read rq" by (auto simp: read_result_def Let_def split: if_splits)
      then show ?thesis
        using r j FinishRead AioValue wr[of "Value (Request q)"] by (auto simp: run_job_defs finish_read_def read_callback_def write_defs)
    next
      case (AioError e)
      then show ?thesis
        using r j FinishRead wr[of "Err IOError"] by (auto simp: run_job_defs finish_read_def read_callback_def write_defs)
    qed
  qed
qed

lemma hands_over_typed:
  assumes wt: "well_typed G \<Gamma> w" and h: "hands_over w w'"
  shows "advances G \<Gamma> w \<Gamma> w'"
proof -
  note st = hands_over_step[OF well_typedD(1)[OF wt] h]
  have "typed G \<Gamma> w'" using well_typedD(2)[OF wt] h by (simp add: typed_def hands_over_def)
  then have "well_typed G \<Gamma> w'"
    using h st(2) by (intro well_typedI[OF wt st(1), of "{#}"]) (simp_all add: hands_over_def sure_same)
  then show ?thesis using st(1) by (rule advances_same)
qed

lemma worker_turn_typed:
  assumes wt: "well_typed G \<Gamma> w" and env: "well_typed_env G env" and i: "i < length (workers (pool w))"
    and r: "worker_turn env i rnd w = Some w'"
  shows "\<exists>\<Gamma>'. advances G \<Gamma> w \<Gamma>' w'"
  using r
proof (cases rule: worker_turn_cases)
  case 1
  then show ?thesis using hands_over_typed[OF wt fetch_job_hands_over[OF well_typedD(4)[OF wt] i]] by blast
next
  case (2 f)
  obtain j w0 where j: "f = Some j" and w0: "w0 = w\<lparr>at_hand := remove1 (i, f) (at_hand w)\<rparr>" and st: "step_ok w w0"
    and jok: "job_ok w0 j" and left: "jobs_left w = add_mset f (jobs_left w0)"
    and ctx: "ctx_ok (pool w0) (worker_context (workers (pool w) ! i))"
    and run: "run_at_hand env i f w = run_job env (worker_context (workers (pool w) ! i)) j w0"
    using run_at_handE[OF 2(1) well_typedD(1)[OF wt] i] .
  have "job_typed G \<Gamma> j" using typedD(2)[OF well_typedD(2)[OF wt]] left j by simp
  moreover have "typed G \<Gamma> w0" using well_typedD(2)[OF wt] left by (simp add: typed_def w0)
  moreover have tok: "callback_tokens w = callback_tokens w0 + job_callbacks (Some j)"
    unfolding callback_tokens_def pending_def queued_def left j by (simp add: w0)
  then have "contexts_typed \<Gamma> (job_callbacks (Some j)) w0"
    by (intro contexts_typed_mono[OF well_typedD(3)[OF wt]]) (simp_all add: w0)
  moreover have "anys_typed \<Gamma> (Some j) w0"
  proof (rule anys_typed_mono[OF well_typedD(6)[OF wt] step_okD(2)[OF st]])
    show "\<forall>x. any_count x (job_callbacks (Some j) + callback_tokens w0) \<le> any_count x (job_callbacks None + callback_tokens w)"
      using tok by simp
    show "sure_token \<Gamma> u x w0 \<or> value_job u x (Some j)" if "sure_token \<Gamma> u x w \<or> value_job u x None" for u x
      using that left j by (auto simp: sure_token_def value_job_def w0)
  qed (simp add: w0)
  ultimately obtain \<Gamma>' where "advances G \<Gamma> w0 \<Gamma>' w'" using run_job_typed[OF step_okD(1)[OF st] _ _ _ env ctx] jok run[unfolded 2(2), symmetric] by blast
  then have "advances G \<Gamma> w \<Gamma>' w'"
    using step_okD(2)[OF st] by (auto simp: advances_def typing_grows_def w0 intro: world_le_trans)
  then show ?thesis by blast
qed

lemma expired_mem: "j \<in># expired n M \<Longrightarrow> \<exists>p. p \<in># M \<and> snd p = j"
  by (auto simp: expired_def)

lemma remaining_mem: "p \<in># remaining n M \<Longrightarrow> \<exists>q. q \<in># M \<and> snd q = snd p"
  by (auto simp: remaining_def)

lemma poll_jobs_typed:
  fixes w :: "('f, 'a, 'os) world"
  assumes wt: "well_typed G \<Gamma> w" and t: "clock_range now" and none: "polled w = []"
  shows "advances G \<Gamma> w \<Gamma> (poll_jobs env now src w)"
proof -
  note inv = well_typedD(1)[OF wt]
  note s = poll_jobs_step[OF inv t none, of env src]
  define js where "js = (case src of TimingSource \<Rightarrow> fst (tps_poll now (timers w))
    | IoSource \<Rightarrow> fst (io_poll (aio_error_fn env (os_state w)) FinishRead (io_source w)))"
  note poll = tps_poll_correct[OF sources_invD(1)[OF inv] t]
  have due: "\<exists>p. p \<in># tps_dues (timers w) \<and> snd p = j" if "j \<in> set (fst (tps_poll now (timers w)))" for j
    using that poll(2) by (metis (no_types, lifting) expired_mem set_mset_mset)
  have js: "job_typed G \<Gamma> j \<and> job_callbacks (Some j) = {#}" if "j \<in> set js" for j
    using that due typedD(3,4)[OF well_typedD(2)[OF wt]] by (cases src) (fastforce simp: js_def io_poll_eq)+
  let ?w = "poll_jobs env now src w"
  have w: "cells ?w = cells w" "all_contexts ?w = all_contexts w" "any_contexts ?w = any_contexts w" "jobs_left ?w = jobs_left w + mset (map Some js)"
    using poll_jobs_left[OF none, of env now src] by (cases src; simp add: poll_jobs_def split_def Let_def js_def)+
  have "tps_dues (timers ?w) = (case src of TimingSource \<Rightarrow> remaining (tps_ticks now (timers w)) (tps_dues (timers w)) | IoSource \<Rightarrow> tps_dues (timers w))"
    using poll(3) by (cases src) (simp_all add: poll_jobs_def split_def Let_def)
  then consider "tps_dues (timers ?w) = remaining (tps_ticks now (timers w)) (tps_dues (timers w))"
    | "tps_dues (timers ?w) = tps_dues (timers w)" by (cases src) simp_all
  then have dues: "\<exists>q. q \<in># tps_dues (timers w) \<and> snd q = snd p" if "p \<in># tps_dues (timers ?w)" for p
    using that by cases (metis remaining_mem, metis)
  have reads: "p \<in> set (in_flight_requests (io_source w))" if "p \<in> set (in_flight_requests (io_source ?w))" for p
    using that by (cases src) (auto simp: poll_jobs_def split_def Let_def io_poll_eq)
  have "typed G \<Gamma> ?w"
    unfolding typed_def
  proof (intro conjI allI impI ballI)
    show "cell_typed G \<Gamma> a (cells ?w ! a)" if "a < length (cells ?w)" for a
      using that typedD(1)[OF well_typedD(2)[OF wt]] by (simp add: w(1))
    show "job_typed G \<Gamma> j" if "Some j \<in># jobs_left ?w" for j
      using that typedD(2)[OF well_typedD(2)[OF wt]] js by (auto simp: w(4))
    show "job_typed G \<Gamma> (snd p)" "job_callbacks (Some (snd p)) = {#}" if "p \<in># tps_dues (timers ?w)" for p
      using dues[OF that] typedD(3)[OF well_typedD(2)[OF wt]] by metis+
    show "job_typed G \<Gamma> (FinishRead (fst p) (snd p))" if "p \<in> set (in_flight_requests (io_source ?w))" for p
      using typedD(4)[OF well_typedD(2)[OF wt] reads[OF that]] .
  qed
  moreover have "sum_mset (image_mset job_callbacks (mset (map Some js))) = {#}" using js by (induction js) simp_all
  then have "callback_tokens ?w = {#} + callback_tokens w"
    by (simp add: callback_tokens_def pending_def queued_def w)
  ultimately have "well_typed G \<Gamma> ?w" 
    using well_typedI[OF wt s, of "{#}"] w sure_le_frame[of w ?w \<Gamma>] by simp
  then show ?thesis using s by (rule advances_same)
qed

lemma poll_typed:
  assumes wt: "well_typed G \<Gamma> w" and t: "clock_range now"
  shows "advances G \<Gamma> w \<Gamma> (poll_source env now src w)"
  using poll_jobs_typed[OF assms, of env src] hands_over_typed[OF wt queue_polled_hands_over[OF well_typedD(4)[OF wt]]]
  by (simp add: poll_source_def)

end
