(* ===== verification/Typed_Runs.thy ===== *)
theory Typed_Runs
  imports Result_Soundness
begin

text \<open>
  Type soundness for whole runs: in every run, whatever the order of its steps, a task reads as
  an outcome of the type that its client computed for it.
\<close>

subsection \<open>Runs\<close>

text \<open>A client with what it knows, beside the workers and the poll thread. What the operating system
does meanwhile is the call \<open>system\<close> of the client.\<close>

inductive typed_run ::
  "('f, 'a) signature \<Rightarrow> ('f, 'a, 'os) environment \<Rightarrow> 'a claims \<Rightarrow> ('f, 'a, 'os) world \<Rightarrow> bool"
  for G env where
  start: "clock_range now \<Longrightarrow> typed_run G env Map.empty (snd (factory_new now n_workers s))"
| client: "typed_run G env \<Delta> w \<Longrightarrow> typed_client G env (\<Delta>, w) (\<Delta>', w') \<Longrightarrow> typed_run G env \<Delta>' w'"
| turn: "typed_run G env \<Delta> w \<Longrightarrow> i < length (workers (pool w)) \<Longrightarrow> worker_turn env i rnd w = Some w' \<Longrightarrow>
    typed_run G env \<Delta> w'"
| poll: "typed_run G env \<Delta> w \<Longrightarrow> clock_range now \<Longrightarrow> typed_run G env \<Delta> (poll_source env now src w)"

lemma typed_run_claims:
  assumes "typed_run G env \<Delta> w" "well_typed_env G env"
  shows "\<exists>\<Gamma>. claims_true G \<Delta> \<Gamma> w"
  using assms(1)
proof (induction rule: typed_run.induct)
  case (start now n_workers s)
  have "well_typed G \<Gamma> (snd (factory_new now n_workers s))" for \<Gamma>
    using factory_new_inv[OF start, of n_workers s]
    by (auto simp: well_typed_def typed_def contexts_typed_def anys_typed_def factory_new_def create_scheduler_def split_def Let_def
        pool_new_correct jobs_left_def held_def tps_new_dues io_new_def)
  then show ?case by (auto simp: claims_true_def)
next
  case (client \<Delta> w \<Delta>' w')
  then obtain \<Gamma> where "claims_true G \<Delta> \<Gamma> w" by blast
  then show ?case using typed_client_claims[OF client(2)] by auto
next
  case (turn \<Delta> w i rnd w')
  then obtain \<Gamma> where cl: "claims_true G \<Delta> \<Gamma> w" by blast
  from worker_turn_typed[OF claims_trueD(1)[OF cl] assms(2) turn(2,3)] obtain \<Gamma>' where "advances G \<Gamma> w \<Gamma>' w'" by blast
  from claims_true_advances[OF cl this] show ?case by blast
next
  case (poll \<Delta> w now src)
  then obtain \<Gamma> where cl: "claims_true G \<Delta> \<Gamma> w" by blast
  from claims_true_advances[OF cl poll_typed[OF claims_trueD(1)[OF cl] poll(2)]] show ?case by blast
qed

lemma typed_run_read:
  assumes "typed_run G env \<Delta> w" and "well_typed_env G env"
    and "task_type \<Delta> t = Some S" and "cell_read (task_cell t) w = Some (Some r)"
  shows "r \<in> S"
proof -
  obtain \<Gamma> where cl: "claims_true G \<Delta> \<Gamma> w" using typed_run_claims[OF assms(1,2)] by blast
  note t = task_typeD[OF cl assms(3)] and wt = claims_trueD(1)[OF cl]
  from typed_read[OF well_typedD(2,5)[OF wt] t(1) assms(4)] show ?thesis by (simp add: t(3))
qed

text \<open>
  C10: Results have their types: whatever the workers, the poll thread, the operating system and
  the client do, and in whatever order, a task that has a result reads as one of the outcomes
  that its type, computed from the calls that made it, allows. In particular a \<open>when_any\<close> with a
  task that cannot fail never reads an error, and a \<open>when_all\<close> never a vector with a slot that
  was not filled.
\<close>

theorem results_have_their_types:
  assumes "typed_run G env \<Delta> w" and "well_typed_env G env"
    and "task_type \<Delta> t = Some S" and "cell_read (task_cell t) w = Some (Some r)"
  shows "r \<in> S"
  by (rule typed_run_read[OF assms])

definition sample_types :: "(nat, nat) signature" where
  "sample_types = \<lparr>call_dom = (\<lambda>f. True), map_dom = (\<lambda>f v. True), bind_dom = (\<lambda>f v. True),
     call_type = (\<lambda>f. {Plain f}), map_type = (\<lambda>f v. {add_plain f v}), bind_type = (\<lambda>f v. {Value (Plain f)})\<rparr>"

lemma sample_env_typed: "well_typed_env sample_types sample_env"
proof -
  have "\<exists>\<Delta> S. (typed_client sample_types sample_env)\<^sup>*\<^sup>* (Map.empty, w) (\<Delta>, w') \<and> task_type \<Delta> t = Some S \<and> S \<subseteq> {Value (Plain f)}"
    if "task_new f w = (t, w')" for f t and w w' :: "(nat, nat, unit) world"
  proof -
    let ?\<Delta> = "Map.empty(task_cell t \<mapsto> TaskOf (create_outcomes sample_types f))"
    have "typed_client sample_types sample_env (Map.empty, w) (?\<Delta>, w')"
      using that by (intro typed_client.create) (simp_all add: factory_create_def sample_types_def)
    then have "(typed_client sample_types sample_env)\<^sup>*\<^sup>* (Map.empty, w) (?\<Delta>, w')" by (rule r_into_rtranclp)
    moreover have "create_outcomes sample_types f \<subseteq> {Value (Plain f)}" by (simp add: create_outcomes_def sample_types_def)
    ultimately show ?thesis using task_type_new by blast
  qed
  then show ?thesis by (auto simp: well_typed_env_def sample_env_def sample_types_def)
qed

theorem results_have_their_types_witness:
  "\<exists>\<Delta> w. typed_run sample_types sample_env \<Delta> w \<and> task_type \<Delta> \<lparr>task_cell = 0\<rparr> = Some {Value (Plain 3), Err IOError}
    \<and> cell_read 0 w = Some (Some (Value (Plain 3))) \<and> Value (Plain 3) \<in> {Value (Plain 3), Err IOError :: nat outcome}"
proof -
  let ?S = "{Value (Plain 3), Err IOError} :: nat outcome set"
  define w0 where "w0 = (snd (factory_new 0 2 ()) :: (nat, nat, unit) world)"
  define w1 where "w1 = snd (factory_value_source w0)"
  define w2 where "w2 = value_source_complete (Plain 3) \<lparr>source_cell = 0\<rparr> w1"
  let ?\<Delta> = "Map.empty(0 \<mapsto> SourceOf ?S)"
  have c0: "cells w0 = []" by (simp add: w0_def factory_new_def split_def Let_def)
  then have s: "factory_value_source w0 = (\<lparr>source_cell = 0\<rparr>, w1)"
    by (simp add: w1_def factory_value_source_def value_source_new_def write_once_new_def new_cell_def)
  have "typed_run sample_types sample_env Map.empty w0" unfolding w0_def by (rule typed_run.start) (simp add: clock_range_def)
  moreover have "typed_client sample_types sample_env (Map.empty, w0) (?\<Delta>, w1)"
    using typed_client.new_source[OF s] by simp
  moreover have "typed_client sample_types sample_env (?\<Delta>, w1) (?\<Delta>, w2)"
    unfolding w2_def by (rule typed_client.complete[where S = ?S]) simp_all
  ultimately have r: "typed_run sample_types sample_env ?\<Delta> w2" by (meson typed_run.client)
  have "cells w1 = [WriteOnce \<lparr>wo_value = None, wo_callbacks = []\<rparr>]"
    by (simp add: w1_def factory_value_source_def value_source_new_def write_once_new_def new_cell_def c0)
  then have "cells w2 = [WriteOnce \<lparr>wo_value = Some (Value (Plain 3)), wo_callbacks = []\<rparr>]"
    by (simp add: w2_def write_defs write_result_to_value_def set_cell_def)
  then have v: "cell_read 0 w2 = Some (Some (Value (Plain 3)))" by (simp add: cell_read.simps)
  have t: "task_type ?\<Delta> \<lparr>task_cell = 0\<rparr> = Some ?S" by (simp add: task_type_def)
  from results_have_their_types[OF r sample_env_typed t] r t v show ?thesis by auto
qed

end
