(* ===== verification/Client_Programs.thy ===== *)
theory Client_Programs
  imports Typed_Runs
begin

text \<open>
  Programs that use the library as the examples do: a \<open>main\<close> that makes a factory, calls the
  library and blocks on some of its tasks. A program is its list of calls, in the order in which
  C++ evaluates them; workers, poll thread and operating system run between any two. The types
  of the results can be computed from the text of the program, and blocking for a value, as
  \<open>std::get\<close> on the result does, throws in no run if the types say so.
\<close>

subsection \<open>Programs\<close>

text \<open>\<open>std::get<T>\<close>, \<open>std::get<Error>\<close>, or a result that is not looked at.\<close>

datatype alternative = AsValue | AsError | Ignored

fun holds_alternative :: "alternative \<Rightarrow> 'a outcome \<Rightarrow> bool" where
  "holds_alternative AsValue r \<longleftrightarrow> (\<exists>v. r = Value v)"
| "holds_alternative AsError r \<longleftrightarrow> (\<exists>e. r = Err e)"
| "holds_alternative Ignored r \<longleftrightarrow> True"

text \<open>
  The calls act on the value of the expression being evaluated, the initialiser list being
  filled, and the sources, requests and tasks the program has given names to, numbered in their
  order. The first argument of \<open>NewRequest\<close> is what the memory of its buffer held before.
\<close>

datatype ('f, 'a) call =
    NewSource
  | FromSource nat
  | NewRequest "nat \<Rightarrow> byte" size_t int
  | ReadFile int nat
  | MapWith 'f
  | BindWith 'f
  | IntoList
  | WhenAnyOf
  | WhenAllOf
  | Keep
  | CompleteSource nat "'a val"
  | ErrorSource nat async_error
  | BlockOn nat alternative

record 'a locals =
  sources :: "value_source list"
  requests :: "read_request list"
  expr :: "task option"
  listed :: "task list"
  named :: "task list"
  shown :: "'a outcome list"
  thrown :: bool

definition no_locals :: "'a locals" where
  "no_locals = \<lparr>sources = [], requests = [], expr = None, listed = [], named = [], shown = [], thrown = False\<rparr>"

fun exec ::
  "('f, 'a, 'os) environment \<Rightarrow> ('f, 'a) call \<Rightarrow> 'a locals \<Rightarrow> ('f, 'a, 'os) world \<Rightarrow> ('a locals \<times> ('f, 'a, 'os) world) option"
where
  "exec env NewSource l w = (let (s, w1) = factory_value_source w in Some (l\<lparr>sources := sources l @ [s]\<rparr>, w1))"
| "exec env (FromSource i) l w =
     (if i < length (sources l) then Some (l\<lparr>expr := Some (value_source_create (sources l ! i))\<rparr>, w) else None)"
| "exec env (NewRequest junk n off) l w =
     (let (req, heap) = request_new junk (Size n) (Offset off) (buffers w)
      in Some (l\<lparr>requests := requests l @ [req]\<rparr>, w\<lparr>buffers := heap\<rparr>))"
| "exec env (ReadFile fd i) l w =
     (if i < length (requests l) then let (t, w1) = io_read env fd (requests l ! i) w in Some (l\<lparr>expr := Some t\<rparr>, w1) else None)"
| "exec env (MapWith f) l w =
     Option.bind (expr l) (\<lambda>t. map_option (\<lambda>(t1, w1). (l\<lparr>expr := Some t1\<rparr>, w1)) (task_map f t w))"
| "exec env (BindWith f) l w =
     Option.bind (expr l) (\<lambda>t. map_option (\<lambda>(t1, w1). (l\<lparr>expr := Some t1\<rparr>, w1)) (task_bind f t w))"
| "exec env IntoList l w = map_option (\<lambda>t. (l\<lparr>expr := None, listed := listed l @ [t]\<rparr>, w)) (expr l)"
| "exec env WhenAnyOf l w = map_option (\<lambda>(t, w1). (l\<lparr>expr := Some t, listed := []\<rparr>, w1)) (factory_when_any (listed l) w)"
| "exec env WhenAllOf l w = map_option (\<lambda>(t, w1). (l\<lparr>expr := Some t, listed := []\<rparr>, w1)) (factory_when_all (listed l) w)"
| "exec env Keep l w = map_option (\<lambda>t. (l\<lparr>expr := None, named := named l @ [t]\<rparr>, w)) (expr l)"
| "exec env (CompleteSource i v) l w =
     (if i < length (sources l) then Some (l, value_source_complete v (sources l ! i) w) else None)"
| "exec env (ErrorSource i e) l w =
     (if i < length (sources l) then Some (l, value_source_error e (sources l ! i) w) else None)"
| "exec env (BlockOn i alt) l w =
     (if i < length (named l) then
        map_option (\<lambda>r. (if holds_alternative alt r then l\<lparr>shown := shown l @ [r]\<rparr> else l\<lparr>thrown := True\<rparr>, w))
          (task_block (named l ! i) w)
      else None)"

text \<open>
  A run has come to the \<open>k\<close>th call. A call that gives \<open>None\<close> cannot be made yet: it is a
  \<open>block\<close> on a task that has no result.
\<close>

inductive program_run ::
  "('f, 'a, 'os) environment \<Rightarrow> int \<Rightarrow> ('f, 'a) call list \<Rightarrow> nat \<Rightarrow> 'a locals \<Rightarrow> ('f, 'a, 'os) world \<Rightarrow> bool"
  for env n_workers P where
  start: "clock_range now \<Longrightarrow> program_run env n_workers P 0 no_locals (snd (factory_new now n_workers s))"
| exec: "program_run env n_workers P k l w \<Longrightarrow> k < length P \<Longrightarrow> \<not> thrown l \<Longrightarrow> exec env (P ! k) l w = Some (l', w') \<Longrightarrow>
    program_run env n_workers P (Suc k) l' w'"
| turn: "program_run env n_workers P k l w \<Longrightarrow> i < length (workers (pool w)) \<Longrightarrow> worker_turn env i rnd w = Some w' \<Longrightarrow>
    program_run env n_workers P k l w'"
| poll: "program_run env n_workers P k l w \<Longrightarrow> clock_range now \<Longrightarrow> program_run env n_workers P k l (poll_source env now src w)"
| os: "program_run env n_workers P k l w \<Longrightarrow> program_run env n_workers P k l (w\<lparr>buffers := b, os_state := s\<rparr>)"

subsection \<open>Types of programs\<close>

record 'a types =
  source_count :: nat
  request_count :: nat
  expr_type :: "'a outcome set option"
  listed_types :: "'a outcome set list"
  named_types :: "'a outcome set list"
  shown_types :: "'a outcome set list"

definition no_types :: "'a types" where
  "no_types = \<lparr>source_count = 0, request_count = 0, expr_type = None, listed_types = [], named_types = [], shown_types = []\<rparr>"

fun alternative_type :: "alternative \<Rightarrow> 'a outcome set \<Rightarrow> bool" where
  "alternative_type AsValue S \<longleftrightarrow> errors_of S = {}"
| "alternative_type AsError S \<longleftrightarrow> values_of S = {}"
| "alternative_type Ignored S \<longleftrightarrow> True"

definition any_read :: "'a outcome set" where
  "any_read = insert (Err IOError) (range (\<lambda>req. Value (Request req)))"

fun infer :: "('f, 'a) signature \<Rightarrow> (nat \<Rightarrow> 'a outcome set) \<Rightarrow> ('f, 'a) call \<Rightarrow> 'a types \<Rightarrow> 'a types option" where
  "infer G src NewSource T = Some (T\<lparr>source_count := source_count T + 1\<rparr>)"
| "infer G src (FromSource i) T = (if i < source_count T then Some (T\<lparr>expr_type := Some (src i)\<rparr>) else None)"
| "infer G src (NewRequest junk n off) T = Some (T\<lparr>request_count := request_count T + 1\<rparr>)"
| "infer G src (ReadFile fd i) T = (if i < request_count T then Some (T\<lparr>expr_type := Some any_read\<rparr>) else None)"
| "infer G src (MapWith f) T = Option.bind (expr_type T)
     (\<lambda>S. if \<forall>v \<in> values_of S. map_dom G f v then Some (T\<lparr>expr_type := Some (map_outcomes G f S)\<rparr>) else None)"
| "infer G src (BindWith f) T = Option.bind (expr_type T)
     (\<lambda>S. if \<forall>v \<in> values_of S. bind_dom G f v then Some (T\<lparr>expr_type := Some (bind_outcomes G f S)\<rparr>) else None)"
| "infer G src IntoList T = map_option (\<lambda>S. T\<lparr>expr_type := None, listed_types := listed_types T @ [S]\<rparr>) (expr_type T)"
| "infer G src WhenAnyOf T =
     (if length (listed_types T) < size_max1 then Some (T\<lparr>expr_type := Some (when_any_outcomes (listed_types T)), listed_types := []\<rparr>) else None)"
| "infer G src WhenAllOf T =
     (if length (listed_types T) < size_max1 then Some (T\<lparr>expr_type := Some (when_all_outcomes (listed_types T)), listed_types := []\<rparr>) else None)"
| "infer G src Keep T = map_option (\<lambda>S. T\<lparr>expr_type := None, named_types := named_types T @ [S]\<rparr>) (expr_type T)"
| "infer G src (CompleteSource i v) T = (if i < source_count T \<and> Value v \<in> src i then Some T else None)"
| "infer G src (ErrorSource i e) T = (if i < source_count T \<and> Err e \<in> src i then Some T else None)"
| "infer G src (BlockOn i alt) T =
     (if i < length (named_types T) \<and> alternative_type alt (named_types T ! i)
      then Some (T\<lparr>shown_types := shown_types T @ [named_types T ! i]\<rparr>) else None)"

fun infer_all :: "('f, 'a) signature \<Rightarrow> (nat \<Rightarrow> 'a outcome set) \<Rightarrow> ('f, 'a) call list \<Rightarrow> 'a types \<Rightarrow> 'a types option" where
  "infer_all G src [] T = Some T"
| "infer_all G src (c # cs) T = Option.bind (infer G src c T) (infer_all G src cs)"

lemma infer_all_append: "infer_all G src (xs @ ys) T = Option.bind (infer_all G src xs T) (infer_all G src ys)"
  by (induction xs arbitrary: T) (simp_all add: bind_assoc split: Option.bind_splits)

subsection \<open>Soundness\<close>

text \<open>New tasks and sources are new cells, so what the client knew stays known.\<close>

lemma typed_client_extends:
  assumes "typed_client G env p q" "claims_true G (fst p) \<Gamma> (snd p)"
  shows "fst p \<subseteq>\<^sub>m fst q"
proof -
  have fresh: "\<Delta> \<subseteq>\<^sub>m \<Delta>(a \<mapsto> c)" if "claims_true G \<Delta> \<Gamma> w" "length (cells w) \<le> a" for \<Delta> a c and w :: "('a, 'b, 'c) world"
    using that claims_trueD(2)[OF that(1)] by (force simp: map_le_def claim_true_def)
  show ?thesis
    using assms
  proof (induction rule: typed_client.induct)
    case (when_any \<Delta> ts Ss w t' w')
    then have cl: "claims_true G \<Delta> \<Gamma> w" and r: "task_when_any ts w = Some (t', w')" by (simp_all add: factory_when_any_def)
    from when_any_made(1)[OF well_typedD(1)[OF claims_trueD(1)[OF cl]] task_typesD(3)[OF cl when_any(1)] r] fresh[OF cl]
    show ?case by (simp del: fun_upd_apply)
  next
    case (when_all \<Delta> ts Ss w t' w')
    then have cl: "claims_true G \<Delta> \<Gamma> w" and r: "task_when_all ts w = Some (t', w')" by (simp_all add: factory_when_all_def)
    from when_all_made(1)[OF well_typedD(1)[OF claims_trueD(1)[OF cl]] task_typesD(3)[OF cl when_all(1)] r] fresh[OF cl]
    show ?case by (simp del: fun_upd_apply)
  qed (use fresh in \<open>simp_all add: made_at del: fun_upd_apply\<close>)
qed

definition agrees :: "(nat \<Rightarrow> 'a outcome set) \<Rightarrow> 'a locals \<Rightarrow> 'a types \<Rightarrow> 'a claims \<Rightarrow> bool" where
  "agrees src l T \<Delta> \<longleftrightarrow> length (sources l) = source_count T \<and> length (requests l) = request_count T
     \<and> (\<forall>i < source_count T. \<Delta> (source_cell (sources l ! i)) = Some (SourceOf (src i)))
     \<and> map_option (task_type \<Delta>) (expr l) = map_option Some (expr_type T)
     \<and> map (task_type \<Delta>) (listed l) = map Some (listed_types T)
     \<and> map (task_type \<Delta>) (named l) = map Some (named_types T)
     \<and> list_all2 (\<in>) (shown l) (shown_types T) \<and> \<not> thrown l"

lemma agreesD:
  assumes "agrees src l T \<Delta>"
  shows "length (sources l) = source_count T" "i < source_count T \<Longrightarrow> \<Delta> (source_cell (sources l ! i)) = Some (SourceOf (src i))"
    and "map_option (task_type \<Delta>) (expr l) = map_option Some (expr_type T)"
    and "map (task_type \<Delta>) (listed l) = map Some (listed_types T)" "map (task_type \<Delta>) (named l) = map Some (named_types T)"
    and "list_all2 (\<in>) (shown l) (shown_types T)" "\<not> thrown l" "length (requests l) = request_count T"
  using assms by (auto simp: agrees_def)

lemma task_type_le: "\<Delta> \<subseteq>\<^sub>m \<Delta>' \<Longrightarrow> task_type \<Delta> t = Some S \<Longrightarrow> task_type \<Delta>' t = Some S"
  by (force simp: task_type_def map_le_def)

lemma map_task_type_le: "\<Delta> \<subseteq>\<^sub>m \<Delta>' \<Longrightarrow> map (task_type \<Delta>) ts = map Some Ss \<Longrightarrow> map (task_type \<Delta>') ts = map Some Ss"
proof (induction ts arbitrary: Ss)
  case (Cons t ts)
  then show ?case by (cases Ss) (auto intro: task_type_le)
qed simp

lemma agrees_mono:
  assumes "agrees src l T \<Delta>" "\<Delta> \<subseteq>\<^sub>m \<Delta>'"
  shows "agrees src l T \<Delta>'"
proof -
  note a = agreesD[OF assms(1)]
  have "\<Delta>' (source_cell (sources l ! i)) = Some (SourceOf (src i))" if "i < source_count T" for i
    using a(2)[OF that] assms(2) by (force simp: map_le_def)
  moreover have "map_option (task_type \<Delta>') (expr l) = map_option Some (expr_type T)"
    using a(3) task_type_le[OF assms(2)] by (cases "expr l"; cases "expr_type T") auto
  ultimately show ?thesis using a map_task_type_le[OF assms(2)] by (simp add: agrees_def)
qed

text \<open>A call of the library with its effect on the names of the program.\<close>

lemma agrees_client:
  assumes run: "typed_run G env \<Delta> w" and env: "well_typed_env G env" and a: "agrees src l T \<Delta>"
    and c: "typed_client G env (\<Delta>, w) (\<Delta>', w')"
  shows "typed_run G env \<Delta>' w'" "agrees src l T \<Delta>'"
proof -
  obtain \<Gamma> where "claims_true G \<Delta> \<Gamma> w" using typed_run_claims[OF run env] by blast
  then have "\<Delta> \<subseteq>\<^sub>m \<Delta>'" using typed_client_extends[OF c] by simp
  from agrees_mono[OF a this] show "agrees src l T \<Delta>'" .
  show "typed_run G env \<Delta>' w'" using typed_run.client[OF run c] .
qed

lemma agrees_expr:
  "agrees src l T \<Delta> \<Longrightarrow> task_type \<Delta> t = Some S \<Longrightarrow> agrees src (l\<lparr>expr := Some t\<rparr>) (T\<lparr>expr_type := Some S\<rparr>) \<Delta>"
  by (simp add: agrees_def)

lemma exec_typed:
  assumes run: "typed_run G env \<Delta> w" and env: "well_typed_env G env" and a: "agrees src l T \<Delta>"
    and e: "exec env c l w = Some (l', w')" and T: "infer G src c T = Some T'"
  shows "\<exists>\<Delta>'. typed_run G env \<Delta>' w' \<and> agrees src l' T' \<Delta>'"
proof -
  note a' = agreesD[OF a] and client = agrees_client[OF run env a]
  have expr: "task_type \<Delta> t = Some S" if "expr l = Some t" "expr_type T = Some S" for t S using a'(3) that by simp
  show ?thesis
  proof (cases c)
    case NewSource
    obtain s where s: "factory_value_source w = (s, w')" "l' = l\<lparr>sources := sources l @ [s]\<rparr>"
      using e NewSource by (auto split: prod.splits)
    note cl = client[OF typed_client.new_source[OF s(1), where S = "src (source_count T)"]]
    have "agrees src l' T' (\<Delta>(source_cell s \<mapsto> SourceOf (src (source_count T))))"
      using cl(2) T NewSource s(2) by (auto simp: agrees_def nth_append less_Suc_eq)
    then show ?thesis using cl(1) by blast
  next
    case (FromSource i)
    then have i: "i < source_count T" using T by (auto split: if_splits)
    then have "task_type \<Delta> (value_source_create (sources l ! i)) = Some (src i)"
      using a'(2)[OF i] by (simp add: task_type_def value_source_create_def)
    from agrees_expr[OF a this] have "agrees src l' T' \<Delta>" "w' = w" using e T FromSource by (auto split: if_splits)
    then show ?thesis using run by blast
  next
    case (NewRequest junk n off)
    then obtain req b where r: "l' = l\<lparr>requests := requests l @ [req]\<rparr>" "w' = w\<lparr>buffers := b, os_state := os_state w\<rparr>"
      using e by (auto split: prod.splits)
    have "agrees src l' T' \<Delta>" using a T NewRequest by (auto simp: agrees_def r(1))
    then show ?thesis using typed_run.client[OF run typed_client.system[of G env \<Delta> w "os_state w" b]] r(2) by auto
  next
    case (ReadFile fd i)
    then have T': "T' = T\<lparr>expr_type := Some any_read\<rparr>" using T by (auto split: if_splits)
    obtain t where t: "io_read env fd (requests l ! i) w = (t, w')" "l' = l\<lparr>expr := Some t\<rparr>"
      using e ReadFile by (auto split: if_splits prod.splits)
    have "read_outcomes (requests l ! i) \<subseteq> any_read" by (simp add: read_outcomes_def any_read_def)
    note cl = client[OF typed_client.read[OF t(1) this]]
    show ?thesis using cl(1) agrees_expr[OF cl(2) task_type_new] t(2) T' by blast
  next
    case (MapWith f)
    obtain t S t' where t: "expr l = Some t" "expr_type T = Some S" "task_map f t w = Some (t', w')"
      "l' = l\<lparr>expr := Some t'\<rparr>" "T' = T\<lparr>expr_type := Some (map_outcomes G f S)\<rparr>"
      "\<forall>v \<in> values_of S. map_dom G f v"
      using e T MapWith by (auto simp: bind_eq_Some_conv split: if_splits)
    note cl = client[OF typed_client.map_task[OF expr[OF t(1,2)] t(6,3)]]
    show ?thesis using cl(1) agrees_expr[OF cl(2) task_type_new] t(4,5) by blast
  next
    case (BindWith f)
    obtain t S t' where t: "expr l = Some t" "expr_type T = Some S" "task_bind f t w = Some (t', w')"
      "l' = l\<lparr>expr := Some t'\<rparr>" "T' = T\<lparr>expr_type := Some (bind_outcomes G f S)\<rparr>"
      "\<forall>v \<in> values_of S. bind_dom G f v"
      using e T BindWith by (auto simp: bind_eq_Some_conv split: if_splits)
    note cl = client[OF typed_client.bind_task[OF expr[OF t(1,2)] t(6,3)]]
    show ?thesis using cl(1) agrees_expr[OF cl(2) task_type_new] t(4,5) by blast
  next
    case IntoList
    then obtain t S where t: "expr l = Some t" "expr_type T = Some S" "w' = w"
      "l' = l\<lparr>expr := None, listed := listed l @ [t]\<rparr>" "T' = T\<lparr>expr_type := None, listed_types := listed_types T @ [S]\<rparr>"
      using e T by auto
    have "agrees src l' T' \<Delta>" using a expr[OF t(1,2)] by (simp add: t(4,5) agrees_def)
    then show ?thesis using run t(3) by blast
  next
    case WhenAnyOf
    obtain t where t: "factory_when_any (listed l) w = Some (t, w')" "l' = l\<lparr>expr := Some t, listed := []\<rparr>"
      using e WhenAnyOf by auto
    have T': "length (listed l) < size_max1" "T' = T\<lparr>expr_type := Some (when_any_outcomes (listed_types T)), listed_types := []\<rparr>"
      using T WhenAnyOf arg_cong[OF a'(4), of length] by (auto split: if_splits)
    note cl = client[OF typed_client.when_any[OF a'(4) T'(1) t(1)]]
    have "agrees src l' T' (\<Delta>(task_cell t \<mapsto> TaskOf (when_any_outcomes (listed_types T))))"
      using agrees_expr[OF cl(2) task_type_new] by (simp add: t(2) T'(2) agrees_def)
    then show ?thesis using cl(1) by blast
  next
    case WhenAllOf
    obtain t where t: "factory_when_all (listed l) w = Some (t, w')" "l' = l\<lparr>expr := Some t, listed := []\<rparr>"
      using e WhenAllOf by auto
    have T': "length (listed l) < size_max1" "T' = T\<lparr>expr_type := Some (when_all_outcomes (listed_types T)), listed_types := []\<rparr>"
      using T WhenAllOf arg_cong[OF a'(4), of length] by (auto split: if_splits)
    note cl = client[OF typed_client.when_all[OF a'(4) T'(1) t(1)]]
    have "agrees src l' T' (\<Delta>(task_cell t \<mapsto> TaskOf (when_all_outcomes (listed_types T))))"
      using agrees_expr[OF cl(2) task_type_new] by (simp add: t(2) T'(2) agrees_def)
    then show ?thesis using cl(1) by blast
  next
    case Keep
    then obtain t S where t: "expr l = Some t" "expr_type T = Some S" "w' = w"
      "l' = l\<lparr>expr := None, named := named l @ [t]\<rparr>" "T' = T\<lparr>expr_type := None, named_types := named_types T @ [S]\<rparr>"
      using e T by auto
    have "agrees src l' T' \<Delta>" using a expr[OF t(1,2)] by (simp add: t(4,5) agrees_def)
    then show ?thesis using run t(3) by blast
  next
    case (CompleteSource i v)
    have i: "i < source_count T" "Value v \<in> src i" "T' = T" using T CompleteSource by (auto split: if_splits)
    then have w': "l' = l" "w' = value_source_complete v (sources l ! i) w" using e CompleteSource by (auto split: if_splits)
    have "typed_client G env (\<Delta>, w) (\<Delta>, w')" unfolding w' by (rule typed_client.complete) (rule a'(2)[OF i(1)] i(2))+
    from client[OF this] show ?thesis by (auto simp: i(3) w'(1))
  next
    case (ErrorSource i er)
    have i: "i < source_count T" "Err er \<in> src i" "T' = T" using T ErrorSource by (auto split: if_splits)
    then have w': "l' = l" "w' = value_source_error er (sources l ! i) w" using e ErrorSource by (auto split: if_splits)
    have "typed_client G env (\<Delta>, w) (\<Delta>, w')" unfolding w' by (rule typed_client.error) (rule a'(2)[OF i(1)] i(2))+
    from client[OF this] show ?thesis by (auto simp: i(3) w'(1))
  next
    case (BlockOn i alt)
    have i: "i < length (named_types T)" "alternative_type alt (named_types T ! i)"
      "T' = T\<lparr>shown_types := shown_types T @ [named_types T ! i]\<rparr>" using T BlockOn by (auto split: if_splits)
    obtain r where r: "task_block (named l ! i) w = Some r" "w' = w"
      "l' = (if holds_alternative alt r then l\<lparr>shown := shown l @ [r]\<rparr> else l\<lparr>thrown := True\<rparr>)"
      using e BlockOn by (auto split: if_splits)
    have len: "length (named l) = length (named_types T)" using arg_cong[OF a'(5), of length] by simp
    have ty: "task_type \<Delta> (named l ! i) = Some (named_types T ! i)"
      using arg_cong[OF a'(5), of "\<lambda>xs. xs ! i"] i(1) len by simp
    have "cell_read (task_cell (named l ! i)) w = Some (Some r)"
      using r(1) cell_block_iff_read by (auto simp: task_block_def result_unchanged)
    from typed_run_read[OF run env ty this] have "r \<in> named_types T ! i" .
    moreover from this i(2) have "holds_alternative alt r"
      by (cases alt; cases r) (auto simp: errors_of_def values_of_def)
    ultimately have "agrees src l' T' \<Delta>" using a by (simp add: r(3) i(3) agrees_def list_all2_appendI)
    then show ?thesis using run r(2) by blast
  qed
qed

lemma program_typed:
  assumes run: "program_run env n_workers P k l w" and env: "well_typed_env G env" and T: "infer_all G src P no_types = Some T"
  shows "\<exists>\<Delta> T'. typed_run G env \<Delta> w \<and> infer_all G src (take k P) no_types = Some T' \<and> agrees src l T' \<Delta>"
  using run
proof (induction rule: program_run.induct)
  case (start now s)
  have "agrees src no_locals no_types Map.empty" by (simp add: agrees_def no_locals_def no_types_def)
  then show ?case using typed_run.start[OF start, of G env n_workers s] by auto
next
  case (exec k l w l' w')
  then obtain \<Delta> T' where IH: "typed_run G env \<Delta> w" "infer_all G src (take k P) no_types = Some T'" "agrees src l T' \<Delta>" by blast
  have "P = take k P @ P ! k # drop (Suc k) P" using exec(2) by (simp add: Cons_nth_drop_Suc)
  then have "infer_all G src (take k P @ P ! k # drop (Suc k) P) no_types = Some T" using T by simp
  then obtain T'' where T'': "infer G src (P ! k) T' = Some T''" using IH(2) by (auto simp: infer_all_append bind_eq_Some_conv)
  then have "infer_all G src (take (Suc k) P) no_types = Some T''"
    using IH(2) exec(2) by (simp add: take_Suc_conv_app_nth infer_all_append)
  then show ?case using exec_typed[OF IH(1) env IH(3) exec(4) T''] by blast
next
  case (turn k l w i rnd w')
  then show ?case using typed_run.turn by blast
next
  case (poll k l w now src')
  then show ?case using typed_run.poll by blast
next
  case (os k l w s b)
  then obtain \<Delta> T' where "typed_run G env \<Delta> w" "infer_all G src (take k P) no_types = Some T'" "agrees src l T' \<Delta>" by blast
  then show ?case using typed_run.client[OF _ typed_client.system[of G env \<Delta> w s b]] by blast
qed

text \<open>What a program shows when it is over, and that it does not throw on the way.\<close>

lemma program_sound:
  assumes "program_run env n_workers P k l w" "well_typed_env G env" "infer_all G src P no_types = Some T"
  shows "\<not> thrown l" "k = length P \<Longrightarrow> list_all2 (\<in>) (shown l) (shown_types T)"
  using program_typed[OF assms] assms(3) by (auto dest: agreesD)

end
