(* ===== verification/Live_Programs.thy ===== *)
theory Live_Programs
  imports Liveness Client_Programs
begin

text \<open>
  Programs that never hang: a check of the text of a program, in the manner of its types, that
  every task it uses is one to rely on and that no source is open where it blocks. A program that
  passes is never stuck in a call, except in a \<open>block\<close> while a job, a timer or a read is under way.
\<close>

subsection \<open>The check\<close>

record status =
  n_sources :: nat
  n_requests :: nat
  open_sources :: "nat set"
  has_expr :: bool
  n_listed :: nat
  n_named :: nat

definition no_status :: status where
  "no_status = \<lparr>n_sources = 0, n_requests = 0, open_sources = {}, has_expr = False, n_listed = 0, n_named = 0\<rparr>"

fun check_call :: "('f, 'a) call \<Rightarrow> status \<Rightarrow> status option" where
  "check_call NewSource s = Some (s\<lparr>n_sources := n_sources s + 1, open_sources := insert (n_sources s) (open_sources s)\<rparr>)"
| "check_call (FromSource i) s = (if i < n_sources s then Some (s\<lparr>has_expr := True\<rparr>) else None)"
| "check_call (NewRequest junk n off) s = Some (s\<lparr>n_requests := n_requests s + 1\<rparr>)"
| "check_call (ReadFile fd i) s = (if i < n_requests s then Some (s\<lparr>has_expr := True\<rparr>) else None)"
| "check_call (MapWith f) s = (if has_expr s then Some s else None)"
| "check_call (BindWith f) s = (if has_expr s then Some s else None)"
| "check_call IntoList s = (if has_expr s then Some (s\<lparr>has_expr := False, n_listed := n_listed s + 1\<rparr>) else None)"
| "check_call WhenAnyOf s = (if 0 < n_listed s \<and> n_listed s < size_max1 then Some (s\<lparr>has_expr := True, n_listed := 0\<rparr>) else None)"
| "check_call WhenAllOf s = (if 0 < n_listed s \<and> n_listed s < size_max1 then Some (s\<lparr>has_expr := True, n_listed := 0\<rparr>) else None)"
| "check_call Keep s = (if has_expr s then Some (s\<lparr>has_expr := False, n_named := n_named s + 1\<rparr>) else None)"
| "check_call (CompleteSource i v) s = (if i < n_sources s then Some (s\<lparr>open_sources := open_sources s - {i}\<rparr>) else None)"
| "check_call (ErrorSource i e) s = (if i < n_sources s then Some (s\<lparr>open_sources := open_sources s - {i}\<rparr>) else None)"
| "check_call (BlockOn i alt) s = (if i < n_named s \<and> open_sources s = {} then Some s else None)"

fun check_calls :: "('f, 'a) call list \<Rightarrow> status \<Rightarrow> status option" where
  "check_calls [] s = Some s"
| "check_calls (c # cs) s = Option.bind (check_call c s) (check_calls cs)"

lemma check_calls_append: "check_calls (xs @ ys) s = Option.bind (check_calls xs s) (check_calls ys)"
  by (induction xs arbitrary: s) (auto split: Option.bind_splits)

subsection \<open>What the check says of a run\<close>

definition stands :: "status \<Rightarrow> 'a locals \<Rightarrow> address set \<Rightarrow> address set \<Rightarrow> ('f, 'a, 'os) world \<Rightarrow> bool" where
  "stands s l K U w \<longleftrightarrow> length (sources l) = n_sources s \<and> length (requests l) = n_requests s
     \<and> (\<forall>x \<in> set (sources l). is_write_once w (source_cell x) \<and> source_cell x \<in> K)
     \<and> U \<subseteq> (\<lambda>i. source_cell (sources l ! i)) ` open_sources s
     \<and> (has_expr s \<longrightarrow> expr l \<noteq> None) \<and> (\<forall>t. expr l = Some t \<longrightarrow> relied K t)
     \<and> length (listed l) = n_listed s \<and> (\<forall>t \<in> set (listed l). relied K t)
     \<and> length (named l) = n_named s \<and> (\<forall>t \<in> set (named l). relied K t)
     \<and> open_sources s \<subseteq> {..<n_sources s}"

lemma standsD:
  assumes "stands s l K U w"
  shows "length (sources l) = n_sources s" "length (requests l) = n_requests s" "length (listed l) = n_listed s" "length (named l) = n_named s"
    "\<And>x. x \<in> set (sources l) \<Longrightarrow> is_write_once w (source_cell x)" "\<And>x. x \<in> set (sources l) \<Longrightarrow> source_cell x \<in> K"
    "U \<subseteq> (\<lambda>i. source_cell (sources l ! i)) ` open_sources s" "has_expr s \<Longrightarrow> expr l \<noteq> None"
    "\<And>t. expr l = Some t \<Longrightarrow> relied K t" "\<And>t. t \<in> set (listed l) \<Longrightarrow> relied K t" "\<And>t. t \<in> set (named l) \<Longrightarrow> relied K t"
    "open_sources s \<subseteq> {..<n_sources s}"
  using assms by (auto simp: stands_def)

lemma stands_mono:
  assumes "stands s l K U w" "world_le w w'" "K \<subseteq> K'"
  shows "stands s l K' U w'"
  using assms by (auto simp: stands_def intro: is_write_once_mono)

lemma rely_mono: "K \<subseteq> rely b t K"
  by (auto simp: rely_def)

text \<open>The chain of a cell that is coming ends, so that awaiting and reading it return.\<close>

lemma coming_ends: "coming B w c \<Longrightarrow> \<exists>e. chain (link w) c e"
  by (induction rule: coming.induct) (blast intro: chain.intros)+

lemma stands_new_expr:
  assumes "stands s l K U w" "world_le w w'" "relied K' t" "K \<subseteq> K'" "s' = s\<lparr>has_expr := True\<rparr>" "l' = l\<lparr>expr := Some t\<rparr>"
  shows "stands s' l' K' U w'"
  using stands_mono[OF assms(1,2,4)] assms(3,5,6) by (simp add: stands_def)

lemma stands_fill:
  assumes st: "stands s l K U w" and i: "i < n_sources s" and le: "world_le w w'"
  shows "stands (s\<lparr>open_sources := open_sources s - {i}\<rparr>) l K (U - {source_cell (sources l ! i)}) w'"
proof -
  have "U - {source_cell (sources l ! i)} \<subseteq> (\<lambda>i. source_cell (sources l ! i)) ` (open_sources s - {i})"
    using standsD(7)[OF st] by blast
  then show ?thesis using stands_mono[OF st le order_refl] by (auto simp: stands_def)
qed

lemma listed_ok: "(\<And>t. t \<in> set ts \<Longrightarrow> relied K t) \<Longrightarrow> (\<And>c. c \<in> K \<Longrightarrow> c < length (cells w)) \<Longrightarrow> \<forall>t \<in> set ts. task_ok w t"
  by (simp add: task_ok_def)

lemma exec_stands:
  assumes run: "live_run env K U w" and env: "live_env env" and st: "stands s l K U w"
    and r: "exec env c l w = Some (l', w')" and c: "check_call c s = Some s'"
  shows "\<exists>K' U'. live_run env K' U' w' \<and> world_le w w' \<and> stands s' l' K' U' w'"
proof -
  note sv = live_run_served[OF run env]
  have l: "lively w" using sv by blast
  have K: "x < length (cells w)" if "x \<in> K" for x using sv that coming_in_range by auto
  have le: "world_le w w''" if "live_client env (K, U, w) (K', U', w'')" for K' U' w''
    using live_client_keeps[OF that] l step_okD(2) by (auto simp: keeps_def)
  note sD = standsD[OF st]
  have new_expr: "\<exists>K' U'. live_run env K' U' w' \<and> world_le w w' \<and> stands (s\<lparr>has_expr := True\<rparr>) (l\<lparr>expr := Some t\<rparr>) K' U' w'"
    if "live_client env (K, U, w) (rely True t K, U, w')" for t
    using live_run.client[OF run that] le[OF that] stands_new_expr[OF st le[OF that] _ rely_mono[of K True t] refl refl] by (auto simp: rely_def)
  have combined: "\<exists>K' U'. live_run env K' U' w' \<and> world_le w w' \<and> stands (s\<lparr>has_expr := True, n_listed := 0\<rparr>) (l\<lparr>expr := Some t, listed := []\<rparr>) K' U' w'"
    if "live_client env (K, U, w) (rely True t K, U, w')" for t
  proof -
    have "stands (s\<lparr>has_expr := True, n_listed := 0\<rparr>) (l\<lparr>expr := Some t, listed := []\<rparr>) (rely True t K) U w'"
      using stands_mono[OF st le[OF that] rely_mono[of K True t]] by (simp add: stands_def) (simp add: rely_def)
    then show ?thesis using live_run.client[OF run that] le[OF that] by blast
  qed
  have filled: "\<exists>K' U'. live_run env K' U' w' \<and> world_le w w' \<and> stands (s\<lparr>open_sources := open_sources s - {i}\<rparr>) l K' U' w'"
    if "live_client env (K, U, w) (K, U - {source_cell (sources l ! i)}, w')" "i < n_sources s" for i
    using live_run.client[OF run that(1)] le[OF that(1)] stands_fill[OF st that(2) le[OF that(1)]] by blast
  show ?thesis
  proof (cases c)
    case NewSource
    then obtain x where x: "factory_value_source w = (x, w')" and l': "l' = l\<lparr>sources := sources l @ [x]\<rparr>"
      using r by (auto split: prod.splits)
    have s': "s' = s\<lparr>n_sources := n_sources s + 1, open_sources := insert (n_sources s) (open_sources s)\<rparr>" using c NewSource by simp
    note step = live_client.new_source[OF x, of env K U]
    have "is_write_once w' (source_cell x)"
      using value_source_new_step(2)[OF livelyD(1)[OF l]] x by (simp add: factory_value_source_def)
    moreover have "insert (source_cell x) U \<subseteq> (\<lambda>i. source_cell ((sources l @ [x]) ! i)) ` insert (n_sources s) (open_sources s)"
    proof -
      have "(sources l @ [x]) ! i = sources l ! i" if "i \<in> open_sources s" for i using that sD(1,12) by (auto simp: nth_append)
      then have "(\<lambda>i. source_cell ((sources l @ [x]) ! i)) ` open_sources s = (\<lambda>i. source_cell (sources l ! i)) ` open_sources s" by simp
      then show ?thesis using sD(1,7) by (simp add: nth_append subset_insertI2)
    qed
    ultimately have "stands s' l' (rely True (value_source_create x) K) (insert (source_cell x) U) w'"
      using stands_mono[OF st le[OF step] rely_mono[of K True "value_source_create x"]]
      by (auto simp: stands_def s' l' rely_def value_source_create_def)
    then show ?thesis using live_run.client[OF run step] le[OF step] by blast
  next
    case (FromSource i)
    then have e: "i < n_sources s" "s' = s\<lparr>has_expr := True\<rparr>" "l' = l\<lparr>expr := Some (value_source_create (sources l ! i))\<rparr>" "w' = w"
      using r c by (auto split: if_splits)
    have "relied K (value_source_create (sources l ! i))" using e(1) sD(1,6) by (simp add: value_source_create_def)
    from stands_new_expr[OF st world_le_refl this order_refl e(2,3)] show ?thesis using run e(4) world_le_refl by blast
  next
    case (NewRequest junk n off)
    then obtain req heap where q: "request_new junk (Size n) (Offset off) (buffers w) = (req, heap)"
      and l': "l' = l\<lparr>requests := requests l @ [req]\<rparr>" "w' = w\<lparr>buffers := heap\<rparr>" using r by (auto split: prod.splits)
    have w': "w' = w\<lparr>buffers := heap, os_state := os_state w\<rparr>" by (simp add: l')
    have step: "live_client env (K, U, w) (K, U, w')" by (subst w') (rule live_client.system)
    have "stands s' l' K U w'"
      using stands_mono[OF st le[OF step] order_refl] c NewRequest by (auto simp: stands_def l'(1))
    then show ?thesis using live_run.client[OF run step] le[OF step] by blast
  next
    case (ReadFile fd i)
    then obtain t where t: "io_read env fd (requests l ! i) w = (t, w')" "l' = l\<lparr>expr := Some t\<rparr>" using r by (auto split: if_splits prod.splits)
    have s': "s' = s\<lparr>has_expr := True\<rparr>" using c ReadFile by (auto split: if_splits)
    have "live_client env (K, U, w) (rely True t K, U, w')" by (rule live_client.read[OF t(1)])
    then show ?thesis unfolding s' t(2) by (rule new_expr)
  next
    case (MapWith f)
    then obtain t t1 where t: "expr l = Some t" "task_map f t w = Some (t1, w')" "l' = l\<lparr>expr := Some t1\<rparr>" using r by (auto simp: bind_eq_Some_conv)
    have "relied K t" "task_ok w t" using sD(9)[OF t(1)] K by (auto simp: task_ok_def)
    from live_client.map_task[OF this(2) t(2), of env K U] this(1) have step: "live_client env (K, U, w) (rely True t1 K, U, w')" by simp
    have s': "s' = s\<lparr>has_expr := True\<rparr>" using c MapWith by (auto split: if_splits)
    from new_expr[OF step] show ?thesis unfolding s' t(3) .
  next
    case (BindWith f)
    then obtain t t1 where t: "expr l = Some t" "task_bind f t w = Some (t1, w')" "l' = l\<lparr>expr := Some t1\<rparr>" using r by (auto simp: bind_eq_Some_conv)
    have "relied K t" "task_ok w t" using sD(9)[OF t(1)] K by (auto simp: task_ok_def)
    from live_client.bind_task[OF this(2) t(2), of env K U] this(1) have step: "live_client env (K, U, w) (rely True t1 K, U, w')" by simp
    have s': "s' = s\<lparr>has_expr := True\<rparr>" using c BindWith by (auto split: if_splits)
    from new_expr[OF step] show ?thesis unfolding s' t(3) .
  next
    case IntoList
    then have "stands s' l' K U w'" "w' = w" using r c st by (auto simp: stands_def split: if_splits)
    then show ?thesis using run world_le_refl by blast
  next
    case WhenAnyOf
    then obtain t where t: "factory_when_any (listed l) w = Some (t, w')" "l' = l\<lparr>expr := Some t, listed := []\<rparr>" using r by auto
    have n: "0 < n_listed s" "n_listed s < size_max1" "s' = s\<lparr>has_expr := True, n_listed := 0\<rparr>" using c WhenAnyOf by (auto split: if_splits)
    have "live_client env (K, U, w) (rely (listed l \<noteq> [] \<and> (\<forall>t \<in> set (listed l). relied K t)) t K, U, w')"
      using n sD(3) by (intro live_client.when_any[OF listed_ok[OF sD(10) K] _ t(1)]) simp_all
    moreover have "listed l \<noteq> [] \<and> (\<forall>t \<in> set (listed l). relied K t)" using n(1) sD(3,10) by auto
    ultimately have step: "live_client env (K, U, w) (rely True t K, U, w')" by simp
    from combined[OF step] show ?thesis unfolding n(3) t(2) .
  next
    case WhenAllOf
    then obtain t where t: "factory_when_all (listed l) w = Some (t, w')" "l' = l\<lparr>expr := Some t, listed := []\<rparr>" using r by auto
    have n: "0 < n_listed s" "n_listed s < size_max1" "s' = s\<lparr>has_expr := True, n_listed := 0\<rparr>" using c WhenAllOf by (auto split: if_splits)
    have "live_client env (K, U, w) (rely (listed l \<noteq> [] \<and> (\<forall>t \<in> set (listed l). relied K t)) t K, U, w')"
      using n sD(3) by (intro live_client.when_all[OF listed_ok[OF sD(10) K] _ t(1)]) simp_all
    moreover have "listed l \<noteq> [] \<and> (\<forall>t \<in> set (listed l). relied K t)" using n(1) sD(3,10) by auto
    ultimately have step: "live_client env (K, U, w) (rely True t K, U, w')" by simp
    from combined[OF step] show ?thesis unfolding n(3) t(2) .
  next
    case Keep
    then have "stands s' l' K U w'" "w' = w" using r c st by (auto simp: stands_def split: if_splits)
    then show ?thesis using run world_le_refl by blast
  next
    case (CompleteSource i v)
    then have i: "i < n_sources s" "s' = s\<lparr>open_sources := open_sources s - {i}\<rparr>" and w': "w' = value_source_complete v (sources l ! i) w" "l' = l"
      using r c by (auto split: if_splits)
    have "is_write_once w (source_cell (sources l ! i))" using sD(1,5) i(1) by simp
    from filled[OF live_client.complete[OF this, of env K U v, folded w'(1)] i(1)] show ?thesis unfolding i(2) w'(2) .
  next
    case (ErrorSource i e)
    then have i: "i < n_sources s" "s' = s\<lparr>open_sources := open_sources s - {i}\<rparr>" and w': "w' = value_source_error e (sources l ! i) w" "l' = l"
      using r c by (auto split: if_splits)
    have "is_write_once w (source_cell (sources l ! i))" using sD(1,5) i(1) by simp
    from filled[OF live_client.error[OF this, of env K U e, folded w'(1)] i(1)] show ?thesis unfolding i(2) w'(2) .
  next
    case (BlockOn i alt)
    then have "s' = s" "w' = w" "sources l' = sources l \<and> requests l' = requests l \<and> expr l' = expr l \<and> listed l' = listed l \<and> named l' = named l"
      using r c by (auto split: if_splits)
    then have "stands s' l' K U w'" using st by (simp add: stands_def)
    then show ?thesis using run \<open>w' = w\<close> world_le_refl by blast
  qed
qed

subsection \<open>Calls return\<close>

lemma map_returns:
  assumes l: "lively w" and t: "coming B w (task_cell t)"
  shows "\<exists>r. task_map f t w = Some r"
proof -
  obtain a w1 where n: "write_once_new w = (a, w1)" by (cases "write_once_new w")
  obtain e where "chain (link w1) (task_cell t) e" using coming_ends[OF keepsD(3)[OF new_write_once(1)[OF l n] t]] by blast
  then show ?thesis using n by (simp add: task_map_def cell_await_chain)
qed

lemma bind_returns:
  assumes l: "lively w" and t: "coming B w (task_cell t)"
  shows "\<exists>r. task_bind f t w = Some r"
proof -
  obtain a w1 where n: "tracking_new w = (a, w1)" by (cases "tracking_new w")
  note k = new_tracking(1)[OF l n]
  obtain e w2 where n2: "write_once_new w1 = (e, w2)" by (cases "write_once_new w1")
  obtain d where "chain (link w2) (task_cell t) d"
    using coming_ends[OF keepsD(3)[OF new_write_once(1)[OF keepsD(2)[OF k] n2] keepsD(3)[OF k t]]] by blast
  then show ?thesis using n n2 by (simp add: task_bind_def cell_await_chain)
qed

lemma chains_after_new:
  assumes l: "lively w" and n: "write_once_new w = (u, w1)" and w2: "cells w2 = cells w1" and cs: "\<forall>c \<in> set cs. coming B w c"
  shows "\<forall>c \<in> set cs. \<exists>e. chain (link w2) c e"
proof
  fix c assume "c \<in> set cs"
  then obtain e where "chain (link w1) c e" using coming_ends[OF keepsD(3)[OF new_write_once(1)[OF l n]]] cs by blast
  moreover have "link w2 = link w1" by (rule ext) (simp add: link_def w2)
  ultimately show "\<exists>e. chain (link w2) c e" by auto
qed

lemma when_any_returns:
  assumes l: "lively w" and ts: "\<forall>t \<in> set ts. coming B w (task_cell t)"
  shows "\<exists>r. factory_when_any ts w = Some r"
proof -
  obtain u w1 where n: "write_once_new w = (u, w1)" by (cases "write_once_new w")
  let ?w = "w1\<lparr>any_contexts := any_contexts w1 @ [\<lparr>num_erroneous_cells = 0, any_total_cells = length (map task_cell ts)\<rparr>]\<rparr>"
  have "\<forall>c \<in> set (map task_cell ts). \<exists>e. chain (link ?w) c e" using ts by (intro chains_after_new[OF l n, of _ _ B]) auto
  then have "\<forall>p \<in> set (map (\<lambda>c. (c, OnWhenAny u (length (any_contexts w1)))) (map task_cell ts)). \<exists>e. chain (link ?w) (fst p) e" by auto
  from await_each_returns[OF this] show ?thesis
    by (auto simp: factory_when_any_def task_when_any_def task_list_to_cell_list_eq when_any_new_def new_cell_def n)
qed

lemma when_all_returns:
  assumes l: "lively w" and ts: "\<forall>t \<in> set ts. coming B w (task_cell t)"
  shows "\<exists>r. factory_when_all ts w = Some r"
proof -
  obtain u w1 where n: "write_once_new w = (u, w1)" by (cases "write_once_new w")
  let ?cs = "map task_cell ts"
  let ?w = "w1\<lparr>all_contexts := all_contexts w1 @ [\<lparr>resolved_values = replicate (length ?cs) DefaultInit, num_resolved_cells = 0,
    all_total_cells = length ?cs\<rparr>]\<rparr>"
  have "\<forall>c \<in> set ?cs. \<exists>e. chain (link ?w) c e" using ts by (intro chains_after_new[OF l n, of _ _ B]) auto
  then have "\<forall>p \<in> set (map (\<lambda>i. (?cs ! i, OnWhenAll (length (all_contexts w1)) i u)) [0..<length ?cs]). \<exists>e. chain (link ?w) (fst p) e" by auto
  from await_each_returns[OF this] show ?thesis
    by (auto simp: factory_when_all_def task_when_all_def task_list_to_cell_list_eq when_all_new_def new_cell_def n)
qed

fun is_block :: "('f, 'a) call \<Rightarrow> bool" where
  "is_block (BlockOn i alt) \<longleftrightarrow> True"
| "is_block c \<longleftrightarrow> False"

definition waits_rightly :: "('f, 'a) call \<Rightarrow> ('f, 'a, 'os) world \<Rightarrow> bool" where
  "waits_rightly c w \<longleftrightarrow> is_block c \<and> \<not> idle w"

lemma exec_possible:
  assumes run: "live_run env K U w" and env: "live_env env" and st: "stands s l K U w" and c: "check_call c s = Some s'"
  shows "exec env c l w \<noteq> None \<or> waits_rightly c w"
proof -
  note sv = live_run_served[OF run env] and sD = standsD[OF st]
  have l: "lively w" and K: "\<And>t. relied K t \<Longrightarrow> coming U w (task_cell t)" using sv by auto
  show ?thesis
  proof (cases c)
    case (MapWith f)
    then obtain t where t: "expr l = Some t" using c sD(8) by (auto split: if_splits)
    from map_returns[OF l K[OF sD(9)[OF t]]] MapWith t show ?thesis by auto
  next
    case (BindWith f)
    then obtain t where t: "expr l = Some t" using c sD(8) by (auto split: if_splits)
    from bind_returns[OF l K[OF sD(9)[OF t]]] BindWith t show ?thesis by auto
  next
    case WhenAnyOf
    have "\<forall>t \<in> set (listed l). coming U w (task_cell t)" using sD(10) K by blast
    from when_any_returns[OF l this] WhenAnyOf show ?thesis by auto
  next
    case WhenAllOf
    have "\<forall>t \<in> set (listed l). coming U w (task_cell t)" using sD(10) K by blast
    from when_all_returns[OF l this] WhenAllOf show ?thesis by auto
  next
    case (BlockOn i alt)
    then have i: "i < length (named l)" "U = {}" using c sD(4,7) by (auto split: if_splits)
    have "exec env c l w \<noteq> None" if "idle w"
      using relied_resolved[OF run env sD(11)[OF nth_mem[OF i(1)]] that] i BlockOn by (auto simp: task_block_def)
    then show ?thesis using BlockOn by (auto simp: waits_rightly_def)
  qed (use c sD in \<open>auto split: if_splits prod.splits\<close>)
qed

subsection \<open>Programs never hang\<close>

lemma check_calls_at:
  assumes "check_calls P s0 = Some S" "k < length P" "check_calls (take k P) s0 = Some s"
  shows "\<exists>s'. check_call (P ! k) s = Some s'"
proof -
  have "P = take k P @ P ! k # drop (Suc k) P" using assms(2) by (simp add: Cons_nth_drop_Suc)
  then have "check_calls (take k P @ P ! k # drop (Suc k) P) s0 = Some S" using assms(1) by simp
  then show ?thesis using assms(3) by (auto simp: check_calls_append bind_eq_Some_conv)
qed

lemma program_stands:
  assumes run: "program_run env n_workers P k l w" and env: "live_env env" and S: "check_calls P no_status = Some S"
  shows "\<exists>K U s. live_run env K U w \<and> check_calls (take k P) no_status = Some s \<and> stands s l K U w"
  using run
proof (induction rule: program_run.induct)
  case (start now s)
  have "stands no_status no_locals {} {} (snd (factory_new now n_workers s))" by (simp add: stands_def no_locals_def no_status_def)
  moreover have "live_run env {} {} (snd (factory_new now n_workers s))" by (rule live_run.start[OF start])
  moreover have "check_calls (take 0 P) no_status = Some no_status" by simp
  ultimately show ?case by blast
next
  case (exec k l w l' w')
  then obtain K U s where IH: "live_run env K U w" "check_calls (take k P) no_status = Some s" "stands s l K U w" by blast
  obtain s' where s': "check_call (P ! k) s = Some s'" using check_calls_at[OF S exec(2) IH(2)] by blast
  then have "check_calls (take (Suc k) P) no_status = Some s'"
    using IH(2) exec(2) by (simp add: take_Suc_conv_app_nth check_calls_append)
  then show ?case using exec_stands[OF IH(1) env IH(3) exec(4) s'] by blast
next
  case (turn k l w i rnd w')
  then obtain K U s where IH: "live_run env K U w" "check_calls (take k P) no_status = Some s" "stands s l K U w" by blast
  then have "keeps w w'" using worker_turn_keeps[OF _ env turn(2,3)] live_run_served[OF _ env] by blast
  then show ?case using live_run.turn[OF IH(1) turn(2,3)] IH stands_mono[OF IH(3) step_okD(2)[OF keepsD(1)] order_refl] by blast
next
  case (poll k l w now src)
  then obtain K U s where IH: "live_run env K U w" "check_calls (take k P) no_status = Some s" "stands s l K U w" by blast
  then have "keeps w (poll_source env now src w)" using poll_keeps[OF _ poll(2)] live_run_served[OF _ env] by blast
  then show ?case using live_run.poll[OF IH(1) poll(2)] IH stands_mono[OF IH(3) step_okD(2)[OF keepsD(1)] order_refl] by blast
next
  case (os k l w s b)
  then obtain K U st where IH: "live_run env K U w" "check_calls (take k P) no_status = Some st" "stands st l K U w" by blast
  let ?w = "w\<lparr>buffers := b, os_state := s\<rparr>"
  have step: "live_client env (K, U, w) (K, U, ?w)" by (rule live_client.system)
  have "keeps w ?w" using live_client_keeps[OF step] live_run_served[OF IH(1) env] by simp
  then show ?case using live_run.client[OF IH(1) step] IH(2) stands_mono[OF IH(3) step_okD(2)[OF keepsD(1)] order_refl] by blast
qed

lemma program_workers:
  assumes run: "program_run env n_workers P k l w" and env: "live_env env" and S: "check_calls P no_status = Some S"
  shows "length (workers (pool w)) = nat (n_workers mod 4294967296)"
  using run
proof (induction rule: program_run.induct)
  case (start now s)
  show ?case by (simp add: factory_new_def create_scheduler_def split_def Let_def pool_new_correct)
next
  case (exec k l w l' w')
  obtain K U s where IH: "live_run env K U w" "check_calls (take k P) no_status = Some s" "stands s l K U w"
    using program_stands[OF exec(1) env S] by blast
  obtain s' where "check_call (P ! k) s = Some s'" using check_calls_at[OF S exec(2) IH(2)] by blast
  from exec_stands[OF IH(1) env IH(3) exec(4) this] exec(5) show ?case by (auto simp: world_le_def)
next
  case (turn k l w i rnd w')
  obtain K U s where "live_run env K U w" using program_stands[OF turn(1) env S] by blast
  then have "keeps w w'" using worker_turn_keeps[OF _ env turn(2,3)] live_run_served[OF _ env] by blast
  then show ?case using turn(4) step_okD(2)[OF keepsD(1)] by (fastforce simp: world_le_def)
next
  case (poll k l w now src)
  obtain K U s where "live_run env K U w" using program_stands[OF poll(1) env S] by blast
  then have "keeps w (poll_source env now src w)" using poll_keeps[OF _ poll(2)] live_run_served[OF _ env] by blast
  then show ?case using poll(3) step_okD(2)[OF keepsD(1)] by (fastforce simp: world_le_def)
next
  case (os k l w s b)
  then show ?case by simp
qed

lemma program_waits_rightly:
  assumes run: "program_run env n_workers P k l w" and env: "live_env env" and S: "check_calls P no_status = Some S" and k: "k < length P"
  shows "exec env (P ! k) l w \<noteq> None \<or> waits_rightly (P ! k) w"
proof -
  obtain K U s where IH: "live_run env K U w" "check_calls (take k P) no_status = Some s" "stands s l K U w"
    using program_stands[OF run env S] by blast
  obtain s' where "check_call (P ! k) s = Some s'" using check_calls_at[OF S k IH(2)] by blast
  from exec_possible[OF IH(1) env IH(3) this] show ?thesis .
qed

definition runs_on :: "('f, 'a, 'os) environment \<Rightarrow> ('f, 'a) call list \<Rightarrow> nat \<Rightarrow> 'a locals \<Rightarrow> ('f, 'a, 'os) world \<Rightarrow> bool" where
  "runs_on env P k l w \<longleftrightarrow> k = length P \<or> exec env (P ! k) l w \<noteq> None \<or> waits_rightly (P ! k) w"

lemma program_run_length: "program_run env n P k l w \<Longrightarrow> k \<le> length P"
  by (induction rule: program_run.induct) auto

lemma checked_runs_on:
  assumes "live_env env" "\<exists>S. check_calls P no_status = Some S" "program_run env n P k l w"
  shows "runs_on env P k l w"
proof (cases "k = length P")
  case False
  then have "k < length P" using program_run_length[OF assms(3)] by simp
  then show ?thesis using program_waits_rightly[OF assms(3,1)] assms(2) by (auto simp: runs_on_def)
qed (simp add: runs_on_def)

text \<open>Up to its first \<open>block\<close> a program needs no worker.\<close>

lemma not_thrown: "\<not> is_block c \<Longrightarrow> exec env c l w = Some (l', w') \<Longrightarrow> thrown l' = thrown l"
  by (cases c) (auto split: if_splits prod.splits simp: bind_eq_Some_conv)

lemma reaches_block:
  assumes env: "live_env env" and S: "\<exists>S. check_calls P no_status = Some S" and k: "k \<le> length P" "\<forall>j < k. \<not> is_block (P ! j)"
  shows "\<exists>l w. program_run env n P k l w \<and> \<not> thrown l"
  using k
proof (induction k)
  case 0
  have "program_run env n P 0 no_locals (snd (factory_new 0 n undefined))" by (rule program_run.start) (simp add: clock_range_def)
  then show ?case by (auto simp: no_locals_def)
next
  case (Suc k)
  then obtain l w where r: "program_run env n P k l w" "\<not> thrown l" by auto
  have "exec env (P ! k) l w \<noteq> None"
    using checked_runs_on[OF env S r(1)] Suc.prems by (auto simp: runs_on_def waits_rightly_def)
  then obtain l' w' where e: "exec env (P ! k) l w = Some (l', w')" by auto
  from program_run.exec[OF r(1) _ r(2) e] not_thrown[OF _ e] r(2) Suc.prems show ?case by auto
qed

end
