(* ===== verification/Example_Programs.thy ===== *)
theory Example_Programs
  imports Client_Programs Concurrent_Sum
begin

text \<open>
  The other examples: \<open>examples/error_example.cpp\<close>, \<open>examples/main_example.cpp\<close> and
  \<open>examples/io_example.cpp\<close>. Their closures are the user functions, their \<open>main\<close>s are programs,
  and what they show on the terminal follows from the types of their tasks.
\<close>

subsection \<open>Closures on integers\<close>

text \<open>
  \<open>Linear k c\<close> is \<open>[](int x) { return k * x + c; }\<close>, \<open>Constant v\<close> is the closure of \<open>delay_by\<close> that
  has captured a value, and \<open>DelayBy amount\<close> is what \<open>delay_by\<close> returns. An \<open>int\<close> overflow is
  undefined: \<open>None\<close>.
\<close>

datatype 'a example_fn = Linear int int | Constant "'a val" | is_DelayBy: DelayBy int | ReadFileBody "nat \<Rightarrow> byte"

definition int_mul :: "int \<Rightarrow> int \<Rightarrow> int option" where
  "int_mul a b = (if - 2147483648 \<le> a * b \<and> a * b \<le> 2147483647 then Some (a * b) else None)"

fun apply_linear :: "int example_fn \<Rightarrow> int val \<Rightarrow> int val option" where
  "apply_linear (Linear k c) (Plain x) = map_option Plain (Option.bind (int_mul k x) (\<lambda>y. int_add y c))"
| "apply_linear (Constant v) _ = Some v"
| "apply_linear _ _ = None"

definition delay_by ::
  "int \<Rightarrow> 'a val \<Rightarrow> ('a example_fn, 'a, 'os) world \<Rightarrow> (task \<times> ('a example_fn, 'a, 'os) world) option"
where
  "delay_by amount v w = (let (t, w1) = timer_after amount w in task_map (Constant v) t w1)"

fun apply_delay ::
  "'a example_fn \<Rightarrow> 'a val \<Rightarrow> ('a example_fn, 'a, 'os) world \<Rightarrow> (task \<times> ('a example_fn, 'a, 'os) world) option"
where
  "apply_delay (DelayBy amount) v w = delay_by amount v w"
| "apply_delay _ v w = None"

definition int_env :: "(int example_fn, int, unit) environment" where
  "int_env =
     \<lparr>call_fn = (\<lambda>f w. None),
      map_fn = (\<lambda>f v w. map_option (\<lambda>g. (g, w)) (apply_linear f v)),
      bind_fn = apply_delay,
      aio_error_fn = (\<lambda>os a. EINPROGRESS), aio_read_fn = (\<lambda>a cb os. (0, os))\<rparr>"

definition int_types :: "(int example_fn, int) signature" where
  "int_types = \<lparr>call_dom = (\<lambda>f. False), map_dom = (\<lambda>f v. apply_linear f v \<noteq> None), bind_dom = (\<lambda>f v. is_DelayBy f),
     call_type = (\<lambda>f. {}), map_type = (\<lambda>f v. set_option (apply_linear f v)), bind_type = (\<lambda>f v. {Value v})\<rparr>"

text \<open>\<open>delay_by\<close> is a typed client, so the task it returns reads the value it was given.\<close>

lemma delay_by_typed:
  assumes "map_dom G (Constant v) Unit" "map_type G (Constant v) Unit = {v}" "delay_by amount v w = Some (t, w')"
  shows "\<exists>\<Delta> S. (typed_client G env)\<^sup>*\<^sup>* (Map.empty, w) (\<Delta>, w') \<and> task_type \<Delta> t = Some S \<and> S = {Value v}"
proof -
  obtain t1 w1 where t1: "timer_after amount w = (t1, w1)" by (cases "timer_after amount w")
  then have m: "task_map (Constant v) t1 w1 = Some (t, w')" using assms(3) by (simp add: delay_by_def)
  let ?\<Delta> = "Map.empty(task_cell t1 \<mapsto> TaskOf {Value Unit})"
  let ?S = "map_outcomes G (Constant v) {Value Unit}"
  have "typed_client G env (Map.empty, w) (?\<Delta>, w1)" by (rule typed_client.timer[OF t1])
  moreover have "typed_client G env (?\<Delta>, w1) (?\<Delta>(task_cell t \<mapsto> TaskOf ?S), w')"
    using assms(1) by (intro typed_client.map_task[OF task_type_new _ m]) (simp add: values_of_def)
  moreover have "?S = {Value v}" by (auto simp: map_outcomes_def values_of_def errors_of_def assms(2))
  ultimately show ?thesis using task_type_new by (metis (no_types, lifting) converse_rtranclp_into_rtranclp r_into_rtranclp)
qed

lemma apply_delay_typed:
  assumes "\<And>v. map_dom G (Constant v) Unit" "\<And>v. map_type G (Constant v) Unit = {v}" "\<And>f v. bind_type G f v = {Value v}" "apply_delay f x w = Some (t, w')"
  shows "\<exists>\<Delta> S. (typed_client G env)\<^sup>*\<^sup>* (Map.empty, w) (\<Delta>, w') \<and> task_type \<Delta> t = Some S \<and> S \<subseteq> bind_type G f x"
proof -
  obtain d where "f = DelayBy d" using assms(4) by (cases f) auto
  then have "delay_by d x w = Some (t, w')" using assms(4) by simp
  from delay_by_typed[OF assms(1,2) this, of env] obtain \<Delta> where
    "(typed_client G env)\<^sup>*\<^sup>* (Map.empty, w) (\<Delta>, w')" "task_type \<Delta> t = Some {Value x}" by blast
  then show ?thesis by (intro exI[of _ \<Delta>] exI[of _ "{Value x}"]) (simp add: assms(3))
qed

lemma int_env_typed: "well_typed_env int_types int_env"
  unfolding well_typed_env_def
proof (intro conjI allI impI)
  fix f x and w w' :: "(int example_fn, int, unit) world" and t
  assume "bind_fn int_env f x w = Some (t, w')"
  then show "\<exists>\<Delta> S. (typed_client int_types int_env)\<^sup>*\<^sup>* (Map.empty, w) (\<Delta>, w') \<and> task_type \<Delta> t = Some S
      \<and> S \<subseteq> bind_type int_types f x"
    by (intro apply_delay_typed) (simp_all add: int_types_def int_env_def)
qed (auto simp: int_env_def int_types_def)

subsection \<open>The error example\<close>

definition error_tasks :: "(int example_fn, int) call list" where
  "error_tasks =
     [FromSource 0, MapWith (Linear 1 5), IntoList,
      FromSource 0, MapWith (Linear 4 5), IntoList,
      FromSource 1, MapWith (Linear 3 5), IntoList]"

definition error_main :: "(int example_fn, int) call list" where
  "error_main =
     [NewSource, NewSource] @ error_tasks @ [WhenAnyOf, Keep] @ error_tasks @ [WhenAllOf, Keep]
     @ [CompleteSource 0 (Plain 100), ErrorSource 1 Rejected, BlockOn 0 AsValue, BlockOn 1 AsError]"

definition error_sources :: "nat \<Rightarrow> int outcome set" where
  "error_sources i = (if i = 0 then {Value (Plain 100)} else {Err Rejected})"

lemma outcome_simps [simp]:
  "values_of {} = {}" "errors_of {} = {}"
  "values_of (insert (Value v) S) = insert v (values_of S)" "values_of (insert (Err e) S) = values_of S"
  "errors_of (insert (Value v) S) = errors_of S" "errors_of (insert (Err e) S) = insert (Err e) (errors_of S)"
  by (auto simp: values_of_def errors_of_def)

text \<open>The vectors of singletons and empty sets, one slot at a time.\<close>

fun cons_outcome :: "'a val \<Rightarrow> 'a outcome \<Rightarrow> 'a outcome" where
  "cons_outcome v (Value (Vector vs)) = Value (Vector (v # vs))"
| "cons_outcome v r = r"

lemma vectors_simps [simp]:
  "vectors [] = {Value (Vector [])}"
  "vectors ({} # Ss) = {}"
  "vectors ({v} # Ss) = cons_outcome v ` vectors Ss"
proof -
  have "vectors Ss = (\<lambda>vs. Value (Vector vs)) ` {vs. list_all2 (\<in>) vs Ss}" by (auto simp: vectors_def)
  then show "vectors ({v} # Ss) = cons_outcome v ` vectors Ss"
    by (auto simp: image_image vectors_def list_all2_Cons2)
qed (auto simp: vectors_def list_all2_Cons2)

lemma apply_linear_small [simp]:
  "\<bar>k * x\<bar> \<le> 2147483647 \<Longrightarrow> \<bar>k * x + c\<bar> \<le> 2147483647 \<Longrightarrow> apply_linear (Linear k c) (Plain x) = Some (Plain (k * x + c))"
  by (auto simp: int_mul_def int_add_def)

lemmas outcome_defs = map_outcomes_def bind_outcomes_def when_any_outcomes_def when_all_outcomes_def may_fail_def int_types_def

lemma error_main_types: "\<exists>T. infer_all int_types error_sources error_main no_types = Some T
    \<and> shown_types T = [Value ` Plain ` {105, 405}, {Err Rejected}]"
  by (auto simp add: error_main_def error_tasks_def no_types_def outcome_defs error_sources_def simp del: apply_linear.simps)

subsection \<open>The main example\<close>

text \<open>The tasks of \<open>when_any_computation\<close> and \<open>when_all_computation\<close>, with the task they return.\<close>

definition when_any_computation :: "(int example_fn, int) call list" where
  "when_any_computation =
     [FromSource 0, BindWith (DelayBy 300), MapWith (Linear 1 5), IntoList,
      FromSource 0, BindWith (DelayBy 500), MapWith (Linear 4 5), IntoList,
      FromSource 0, BindWith (DelayBy 400), MapWith (Linear 3 5), IntoList,
      FromSource 0, BindWith (DelayBy 200), MapWith (Linear 2 5), IntoList,
      FromSource 0, BindWith (DelayBy 1500), MapWith (Linear 6 5), IntoList,
      FromSource 0, MapWith (Linear 1 5), MapWith (Linear 2 5), MapWith (Linear 2 0), BindWith (DelayBy 300), IntoList,
      WhenAnyOf]"

definition when_all_computation :: "(int example_fn, int) call list" where
  "when_all_computation =
     [FromSource 0, BindWith (DelayBy 300), MapWith (Linear 1 5), IntoList,
      FromSource 0, BindWith (DelayBy 500), MapWith (Linear 4 5), IntoList,
      FromSource 0, BindWith (DelayBy 400), MapWith (Linear 3 5), IntoList,
      WhenAllOf]"

definition main_main :: "(int example_fn, int) call list" where
  "main_main =
     [NewSource] @ when_any_computation @ [Keep] @ when_all_computation @ [Keep]
     @ [CompleteSource 0 (Plain 100), BlockOn 0 AsValue, BlockOn 1 AsValue]"

lemma main_main_types: "\<exists>T. infer_all int_types (\<lambda>i. {Value (Plain 100)}) main_main no_types = Some T
    \<and> shown_types T = [Value ` Plain ` {105, 405, 305, 205, 605, 430}, {Value (Vector [Plain 105, Plain 405, Plain 305])}]"
  by (auto simp add: main_main_def when_any_computation_def when_all_computation_def no_types_def outcome_defs
      simp del: apply_linear.simps)

subsection \<open>The I/O example\<close>

text \<open>
  What \<open>read_file_body\<close> writes to the terminal: the string that starts at the copy of the buffer
  and has the size of the request. The terminal is the list of the lines written.
\<close>

definition body_text :: "(nat \<Rightarrow> byte) \<Rightarrow> read_request \<Rightarrow> byte list list \<Rightarrow> byte list" where
  "body_text junk req heap = (let (copy, heap1) = copy_buffer junk req heap in take (request_size req) (heap1 ! copy))"

lemma body_text_correct: "request_ok heap req \<Longrightarrow> body_text junk req heap = heap ! request_buffer req"
  by (simp add: body_text_def copy_buffer_correct) (simp add: request_ok_def)

fun read_file_body ::
  "(nat \<Rightarrow> byte) \<Rightarrow> 'a val \<Rightarrow> ('f, 'a, byte list list) world \<Rightarrow> ('a val \<times> ('f, 'a, byte list list) world) option"
where
  "read_file_body junk (Request req) w =
     Some (Unit, w\<lparr>os_state := os_state w @ [body_text junk req (buffers w)]\<rparr>)"
| "read_file_body junk _ w = None"

fun io_map ::
  "'a example_fn \<Rightarrow> 'a val \<Rightarrow> ('f, 'a, byte list list) world \<Rightarrow> ('a val \<times> ('f, 'a, byte list list) world) option"
where
  "io_map (ReadFileBody junk) v w = read_file_body junk v w"
| "io_map (Constant u) v w = Some (u, w)"
| "io_map _ v w = None"

definition io_env ::
  "(byte list list \<Rightarrow> address \<Rightarrow> int) \<Rightarrow> (address \<Rightarrow> aiocb \<Rightarrow> byte list list \<Rightarrow> int \<times> byte list list)
    \<Rightarrow> (unit example_fn, unit, byte list list) environment"
where
  "io_env aio_error aio_read =
     \<lparr>call_fn = (\<lambda>f w. None), map_fn = io_map, bind_fn = apply_delay, aio_error_fn = aio_error, aio_read_fn = aio_read\<rparr>"

definition io_main :: "(nat \<Rightarrow> byte) \<Rightarrow> int \<Rightarrow> (unit example_fn, unit) call list" where
  "io_main junk fileno =
     [NewRequest junk 1024 0, ReadFile fileno 0, MapWith (ReadFileBody junk), BindWith (DelayBy 300), Keep, BlockOn 0 Ignored]"

fun io_map_type :: "'a example_fn \<Rightarrow> 'a val \<Rightarrow> 'a val set" where
  "io_map_type (Constant u) v = {u}"
| "io_map_type _ v = {Unit}"

fun io_map_takes :: "'a example_fn \<Rightarrow> 'a val \<Rightarrow> bool" where
  "io_map_takes (ReadFileBody junk) (Request req) \<longleftrightarrow> True"
| "io_map_takes (Constant u) v \<longleftrightarrow> True"
| "io_map_takes _ v \<longleftrightarrow> False"

definition io_types :: "(unit example_fn, unit) signature" where
  "io_types = \<lparr>call_dom = (\<lambda>f. False), map_dom = io_map_takes, bind_dom = (\<lambda>f v. is_DelayBy f),
     call_type = (\<lambda>f. {}), map_type = io_map_type, bind_type = (\<lambda>f v. {Value v})\<rparr>"

lemma io_env_typed: "well_typed_env io_types (io_env er rd)"
  unfolding well_typed_env_def
proof (intro conjI allI impI)
  fix f x and w w' :: "(unit example_fn, unit, byte list list) world" and v t
  show "v \<in> call_type io_types f" "\<exists>\<Delta>. (typed_client io_types (io_env er rd))\<^sup>*\<^sup>* (Map.empty, w) (\<Delta>, w')"
    if "call_fn (io_env er rd) f w = Some (v, w')" using that by (simp_all add: io_env_def)
  show "v \<in> map_type io_types f x" "\<exists>\<Delta>. (typed_client io_types (io_env er rd))\<^sup>*\<^sup>* (Map.empty, w) (\<Delta>, w')"
    if m: "map_fn (io_env er rd) f x w = Some (v, w')"
  proof -
    have "v \<in> io_map_type f x \<and> (\<exists>s. w' = w\<lparr>buffers := buffers w, os_state := s\<rparr>)"
      using m by (cases "(f, x)" rule: io_map_type.cases; cases x) (auto simp: io_env_def intro: exI[of _ "os_state w"])
    then show "v \<in> map_type io_types f x" "\<exists>\<Delta>. (typed_client io_types (io_env er rd))\<^sup>*\<^sup>* (Map.empty, w) (\<Delta>, w')"
      using typed_client.system[of io_types "io_env er rd" Map.empty w _ "buffers w"] by (auto simp: io_types_def)
  qed
  show "\<exists>\<Delta> S. (typed_client io_types (io_env er rd))\<^sup>*\<^sup>* (Map.empty, w) (\<Delta>, w') \<and> task_type \<Delta> t = Some S
      \<and> S \<subseteq> bind_type io_types f x" if "bind_fn (io_env er rd) f x w = Some (t, w')"
    using that by (intro apply_delay_typed) (simp_all add: io_types_def io_env_def)
qed

lemma any_read_parts: "values_of any_read = range Request" "errors_of any_read = {Err IOError}"
  by (auto simp: any_read_def values_of_def errors_of_def)

lemma io_main_types: "\<exists>T. infer_all io_types (\<lambda>i. {}) (io_main junk fileno) no_types = Some T
    \<and> shown_types T = [{Value Unit, Err IOError}]"
  by (auto simp: io_main_def no_types_def map_outcomes_def bind_outcomes_def io_types_def any_read_parts)

text \<open>
  Whatever the operating system reports for the read of the I/O example, the task that
  \<open>main\<close> blocks on can only give the unit value or \<open>IOError\<close>, which nothing looks at.
\<close>

theorem io_example_result:
  assumes "program_run (io_env aio_error aio_read) 3 (io_main junk fileno) k l w"
  shows "\<not> thrown l \<and> (k = length (io_main junk fileno) \<longrightarrow> (\<exists>r \<in> {Value Unit, Err IOError}. shown l = [r]))"
proof -
  obtain T where T: "infer_all io_types (\<lambda>i. {}) (io_main junk fileno) no_types = Some T"
    "shown_types T = [{Value Unit, Err IOError}]" using io_main_types by blast
  note sound = program_sound[OF assms io_env_typed T(1)]
  have "\<exists>r \<in> {Value Unit, Err IOError}. shown l = [r]" if "k = length (io_main junk fileno)"
    using sound(2)[OF that] by (auto simp: T(2) list_all2_Cons2)
  then show ?thesis using sound(1) by blast
qed

theorem io_example_result_witness:
  "\<exists>l w. program_run (io_env (\<lambda>s a. EINPROGRESS) (\<lambda>a cb s. (0, s))) 3 (io_main (\<lambda>i. 0) 3) 0 l w \<and> \<not> thrown l"
proof -
  have "program_run (io_env (\<lambda>s a. EINPROGRESS) (\<lambda>a cb s. (0, s))) 3 (io_main (\<lambda>i. 0) 3) 0 no_locals (snd (factory_new 0 3 []))"
    by (rule program_run.start) (simp add: clock_range_def)
  then show ?thesis using io_example_result by blast
qed

end
