(* ===== verification/Live_Examples.thy ===== *)
theory Live_Examples
  imports Live_Programs Example_Programs
begin

text \<open>
  The examples never hang: their closures are user functions to rely on, and their \<open>main\<close>s use
  no task before it can resolve and block with no source left open.
\<close>

subsection \<open>The closures of the examples\<close>

lemma delay_by_live:
  assumes "delay_by amount v w = Some (t, w')"
  shows "\<exists>K. (live_client env)\<^sup>*\<^sup>* ({}, {}, w) (K, {}, w') \<and> relied K t"
proof -
  obtain t1 w1 where t1: "timer_after amount w = (t1, w1)" by (cases "timer_after amount w")
  then have m: "task_map (Constant v) t1 w1 = Some (t, w')" using assms by (simp add: delay_by_def)
  let ?K = "rely True t1 {}"
  have s1: "live_client env ({}, {}, w) (?K, {}, w1)" by (rule live_client.timer[OF t1])
  have "task_ok w1 t1"
    using t1 by (auto simp: timer_after_def value_source_new_def write_once_new_def new_cell_def value_source_create_def task_ok_def Let_def)
  from live_client.map_task[OF this m, of env ?K "{}"]
  have s2: "live_client env (?K, {}, w1) (rely (relied ?K t1) t ?K, {}, w')" .
  from s1 s2 have "(live_client env)\<^sup>*\<^sup>* ({}, {}, w) (rely (relied ?K t1) t ?K, {}, w')"
    by (rule converse_rtranclp_into_rtranclp[OF _ r_into_rtranclp])
  moreover have "relied (rely (relied ?K t1) t ?K) t" by (simp add: rely_def)
  ultimately show ?thesis by blast
qed

lemma apply_delay_live:
  "apply_delay f x w = Some (t, w') \<Longrightarrow> \<exists>K. (live_client env)\<^sup>*\<^sup>* ({}, {}, w) (K, {}, w') \<and> relied K t"
  by (cases f) (auto intro: delay_by_live)

lemma int_env_live: "live_env int_env"
  unfolding live_env_def
proof (intro conjI allI impI)
  fix f x and w w' :: "(int example_fn, int, unit) world" and t
  assume "bind_fn int_env f x w = Some (t, w')"
  then show "\<exists>K. (live_client int_env)\<^sup>*\<^sup>* ({}, {}, w) (K, {}, w') \<and> relied K t"
    by (intro apply_delay_live) (simp add: int_env_def)
qed (auto simp: int_env_def)

lemma io_env_live: "live_env (io_env er rd)"
  unfolding live_env_def
proof (intro conjI allI impI)
  fix f x and w w' :: "(unit example_fn, unit, byte list list) world" and v t
  show "\<exists>K U. (live_client (io_env er rd))\<^sup>*\<^sup>* ({}, {}, w) (K, U, w')" if "call_fn (io_env er rd) f w = Some (v, w')"
    using that by (simp add: io_env_def)
  show "\<exists>K U. (live_client (io_env er rd))\<^sup>*\<^sup>* ({}, {}, w) (K, U, w')" if m: "map_fn (io_env er rd) f x w = Some (v, w')"
  proof -
    have "\<exists>s. w' = w\<lparr>buffers := buffers w, os_state := s\<rparr>"
      using m by (cases "(f, x)" rule: io_map_type.cases; cases x) (auto simp: io_env_def intro: exI[of _ "os_state w"])
    then obtain s where w': "w' = w\<lparr>buffers := buffers w, os_state := s\<rparr>" by blast
    have "live_client (io_env er rd) ({}, {}, w) ({}, {}, w')" unfolding w' by (rule live_client.system)
    then show ?thesis by blast
  qed
  show "\<exists>K. (live_client (io_env er rd))\<^sup>*\<^sup>* ({}, {}, w) (K, {}, w') \<and> relied K t" if "bind_fn (io_env er rd) f x w = Some (t, w')"
    using that by (intro apply_delay_live) (simp add: io_env_def)
qed

subsection \<open>The programs of the examples\<close>

lemma examples_checked:
  "\<exists>S. check_calls error_main no_status = Some S"
  "\<exists>S. check_calls main_main no_status = Some S"
  "\<exists>S. check_calls (io_main junk fileno) no_status = Some S"
  by (simp_all add: error_main_def error_tasks_def main_main_def when_any_computation_def when_all_computation_def io_main_def no_status_def
      insert_Diff_if)

text \<open>
  The error example, the main example and the I/O example never hang: wherever workers and
  poll thread have come to, the next call of \<open>main\<close> returns at once, or it is a \<open>block\<close> and a job,
  a timer or a read is still under way.
\<close>

theorem examples_never_hang:
  "(program_run int_env 3 error_main k l w \<longrightarrow> runs_on int_env error_main k l w)
    \<and> (program_run int_env 3 main_main k l w \<longrightarrow> runs_on int_env main_main k l w)
    \<and> (program_run (io_env aio_error aio_read) 3 (io_main junk fileno) k' l' w' \<longrightarrow>
        runs_on (io_env aio_error aio_read) (io_main junk fileno) k' l' w')"
  using checked_runs_on[OF int_env_live examples_checked(1)] checked_runs_on[OF int_env_live examples_checked(2)]
    checked_runs_on[OF io_env_live examples_checked(3)] by blast

text \<open>The error example comes to its first \<open>block\<close> without the help of any worker.\<close>

theorem examples_never_hang_witness:
  "\<exists>l w. program_run int_env 3 error_main 26 l w \<and> error_main ! 26 = BlockOn 0 AsValue \<and> runs_on int_env error_main 26 l w"
proof -
  have m: "length error_main = 28" "error_main ! 26 = BlockOn 0 AsValue" by (simp_all add: error_main_def error_tasks_def)
  have "\<forall>j < 26. \<not> is_block (error_main ! j)" by (simp add: error_main_def error_tasks_def All_less_Suc numeral_eq_Suc)
  then obtain l w where "program_run int_env 3 error_main 26 l w"
    using reaches_block[OF int_env_live examples_checked(1), of 26 3] m(1) by auto
  with examples_never_hang[of 26 l w] m(2) show ?thesis by blast
qed

end
