(* ===== verification/Returning_Jobs.thy ===== *)
theory Returning_Jobs
  imports Live_Examples
begin

text \<open>
  Jobs return: a worker that runs a job comes back, whatever the state of the cells the job
  touches. A callback of \<open>bind\<close> is the one that could stay away, since it follows the chain of the
  task it was given; that chain ends, and not at the cell that is about to track it. Nothing is
  said of user functions beyond that they return where the types say they are called.
\<close>

subsection \<open>Tracking\<close>

lemma track_returns:
  assumes l: "lively w" and t: "is_tracking w t" "binds t (callback_tokens w) = 0" and a: "coming {} w a"
  shows "cell_track a t w \<noteq> None"
proof -
  obtain c where c: "t < length (cells w)" "cells w ! t = Tracking c" using is_trackingE[OF t(1)] .
  show ?thesis
  proof (cases "tc_cell c")
    case (Some u)
    then show ?thesis using cell_track_again[OF c(2) Some, of a] by simp
  next
    case None
    obtain e where e: "chain (link w) a e" using coming_ends[OF a] by blast
    have "\<not> working w t" "\<And>e. \<not> placed w e t" using waits_token[OF livelyD(1,3)[OF l] t(1)] t(2) by auto
    moreover have "link w t = None" "end_value w t = None" using c(2) None by (simp_all add: link_def end_value_def)
    ultimately have "\<not> coming {} w t" by (auto elim: coming.cases)
    then have "e \<noteq> t" using coming_chain[OF e a] by blast
    from cell_track_returns[OF c(2) None c(1) e this] show ?thesis by auto
  qed
qed

subsection \<open>Jobs\<close>

text \<open>The user function of a job returns on what the job calls it with.\<close>

fun accepts :: "('f, 'a, 'os) environment \<Rightarrow> ('f, 'a, 'os) world \<Rightarrow> ('f, 'a) job \<Rightarrow> bool" where
  "accepts env w (RunTask c f) \<longleftrightarrow> call_fn env f w \<noteq> None"
| "accepts env w (RunCallback (OnMap c f) (Value v)) \<longleftrightarrow> map_fn env f v w \<noteq> None"
| "accepts env w (RunCallback (OnBind t e f) (Value v)) \<longleftrightarrow> bind_fn env f v w \<noteq> None"
| "accepts env w j \<longleftrightarrow> True"

lemma bind_returns_job:
  assumes l: "lively w" and env: "live_env env" and ctx: "ctx_ok (pool w0) ctx"
    and tk: "taken (RunCallback (OnBind t e f) r) w w0" and acc: "accepts env w0 (RunCallback (OnBind t e f) r)"
  shows "run_bind_callback env t e f ctx r w0 \<noteq> None"
proof -
  note s = bind_start[OF l tk]
  have tr: "cell_track a t w1 \<noteq> None"
    if "keeps w0 w1" "coming {} w1 a" "binds t (callback_tokens w1) = 0" for a w1
    using that is_tracking_mono[OF step_okD(2)[OF keepsD(1)[OF that(1)]] s(2)] by (intro track_returns) (auto dest: keepsD)
  show ?thesis
  proof (cases r)
    case (Value v)
    then obtain tk w1 where f: "bind_fn env f v w0 = Some (tk, w1)" using acc by auto
    from tr[OF bound_task_ready[OF s(1) env s(2,4) f]] show ?thesis by (auto simp: run_bind_callback_def Value f)
  next
    case (Err er)
    from tr[OF error_cell_ready[OF s(1) ctx s(3,4), of er]] show ?thesis by (auto simp: run_bind_callback_def Err write_defs)
  qed
qed

lemma run_job_returns:
  assumes l: "lively w" and env: "live_env env" and ctx: "ctx_ok (pool w0) ctx" and tk: "taken j w w0" and acc: "accepts env w0 j"
  shows "run_job env ctx j w0 \<noteq> None"
proof (cases j)
  case (RunCallback cb r)
  show ?thesis
  proof (cases cb)
    case (OnMap c f)
    then show ?thesis using acc RunCallback by (cases r) (auto simp: run_job_defs run_callback_defs)
  next
    case (OnBind t e f)
    then show ?thesis
      using bind_returns_job[OF l env ctx, of t e f r] tk acc RunCallback by (simp add: run_job_defs run_callback_def)
  qed (simp_all add: run_job_defs run_callback_defs RunCallback)
qed (use acc in \<open>auto simp: run_job_defs\<close>)

lemma worker_turn_returns:
  assumes l: "lively w" and env: "live_env env" and i: "i < length (workers (pool w))"
    and acc: "\<And>j w0. taken j w w0 \<Longrightarrow> accepts env w0 j"
  shows "worker_turn env i rnd w \<noteq> None"
proof (cases "map_of (at_hand w) i")
  case (Some f)
  obtain j w0 where "taken j w w0" "ctx_ok (pool w0) (worker_context (workers (pool w) ! i))"
    "run_at_hand env i f w = run_job env (worker_context (workers (pool w) ! i)) j w0"
    using run_at_hand_taken[OF Some livelyD(1)[OF l] i] .
  then show ?thesis using run_job_returns[OF l env _ _ acc] Some by (simp add: worker_turn_def)
qed (simp add: worker_turn_def)

subsection \<open>Well-typed programs\<close>

text \<open>The user functions return where the types let them be called.\<close>

definition returning_env :: "('f, 'a) signature \<Rightarrow> ('f, 'a, 'os) environment \<Rightarrow> bool" where
  "returning_env G env \<longleftrightarrow>
     (\<forall>f w. call_dom G f \<longrightarrow> call_fn env f w \<noteq> None)
     \<and> (\<forall>f v w. map_dom G f v \<longrightarrow> map_fn env f v w \<noteq> None)
     \<and> (\<forall>f v w. bind_dom G f v \<longrightarrow> lively w \<longrightarrow> bind_fn env f v w \<noteq> None)"

lemma typed_accepts:
  assumes "job_typed G \<Gamma> j" "returning_env G env" "lively w"
  shows "accepts env w j"
  using assms unfolding returning_env_def by (cases "(env, w, j)" rule: accepts.cases) auto

lemma taken_accepts:
  assumes l: "lively w" and t: "typed G \<Gamma> w" and ret: "returning_env G env" and tk: "taken j w w0"
  shows "accepts env w0 j"
proof -
  have "job_typed G \<Gamma> j" using typedD(2)[OF t] tk by (auto simp: taken_def)
  then show ?thesis
  proof (cases j)
    case (RunCallback cb r)
    show ?thesis
    proof (cases "counter cb")
      case None
      then have "lively w0" using taken_lively[OF l tk] RunCallback by simp
      then show ?thesis using typed_accepts[OF \<open>job_typed G \<Gamma> j\<close> ret] by blast
    next
      case (Some k)
      then show ?thesis using RunCallback by (cases cb) auto
    qed
  next
    case (RunTask c f)
    then have "lively w0" using taken_lively[OF l tk] by simp
    then show ?thesis using typed_accepts[OF \<open>job_typed G \<Gamma> j\<close> ret] by blast
  qed simp_all
qed

lemma program_jobs_return:
  assumes run: "program_run env n P k l w" and live: "live_env env" "check_calls P no_status = Some S"
    and types: "well_typed_env G env" "infer_all G src P no_types = Some T" and ret: "returning_env G env"
    and i: "i < length (workers (pool w))"
  shows "worker_turn env i rnd w \<noteq> None"
proof -
  obtain K U s where "live_run env K U w" using program_stands[OF run live] by blast
  then have l: "lively w" using live_run_served[OF _ live(1)] by blast
  obtain \<Delta> where "typed_run G env \<Delta> w" using program_typed[OF run types] by blast
  then obtain \<Gamma> where "claims_true G \<Delta> \<Gamma> w" using typed_run_claims[OF _ types(1)] by blast
  then have "typed G \<Gamma> w" using claims_trueD(1) well_typedD(2) by blast
  from worker_turn_returns[OF l live(1) i taken_accepts[OF l this ret]] show ?thesis .
qed

end
