(* ===== verification/Source_Free.thy ===== *)
theory Source_Free
  imports Returning_Jobs
begin

text \<open>
  Programs without timers and reads: a call that is not a read, and a job whose user function
  leaves the world alone and binds nothing, start none.
\<close>

definition same_sources :: "('f, 'a, 'os) world \<Rightarrow> ('f, 'a, 'os) world \<Rightarrow> bool" where
  "same_sources w w' \<longleftrightarrow> timers w' = timers w \<and> io_source w' = io_source w \<and> polled w' = polled w"

lemma same_sources_refl [simp]: "same_sources w w"
  by (simp add: same_sources_def)

lemma same_sources_trans: "same_sources u v \<Longrightarrow> same_sources v w \<Longrightarrow> same_sources u w"
  by (simp add: same_sources_def)

lemma same_sources_rest: "same_rest w w' \<Longrightarrow> same_sources w w'"
  by (simp add: same_sources_def same_rest_def)

subsection \<open>Operations on cells\<close>

lemma same_sources_await: "cell_await a cb w = Some w' \<Longrightarrow> same_sources w w'"
  using park_same_rest[of w] by (auto dest!: cell_await_Some intro: same_sources_rest)

lemma same_sources_fold: "same_sources w (fold (\<lambda>cb. queue_job ctx (f cb)) cbs w)"
proof (induction cbs arbitrary: w)
  case (Cons cb cbs)
  have "same_sources w (queue_job ctx (f cb) w)" by (rule same_sources_rest) simp
  then show ?case using same_sources_trans Cons.IH by (metis fold_simps(2))
qed simp

lemma same_sources_write: "same_sources w (snd (write_result_to_value ctx r a w))"
proof -
  have "same_sources w (set_cell a y (fold (\<lambda>cb. queue_job ctx (RunCallback cb r)) cbs (set_cell a x w)))" for x y cbs
  proof -
    have set: "same_sources u (set_cell a z u)" for z and u :: "('a, 'b, 'c) world" by (rule same_sources_rest) simp
    show ?thesis by (rule same_sources_trans[OF set same_sources_trans[OF same_sources_fold set]])
  qed
  then show ?thesis by (simp add: write_result_to_value_def Let_def split: cell.split)
qed

lemma same_sources_track: "cell_track t a w = Some (b, w') \<Longrightarrow> same_sources w w'"
proof -
  assume r: "cell_track t a w = Some (b, w')"
  have set: "same_sources u (set_cell a x u)" for x and u :: "('a, 'b, 'c) world" by (rule same_sources_rest) simp
  show ?thesis
    using r same_sources_trans[OF set same_sources_trans[OF same_sources_rest[OF await_each_same_rest] set]]
    by (auto simp: cell_track_def Let_def await_callbacks_each split: cell.splits if_splits option.splits)
qed

lemma same_sources_new [simp]:
  "write_once_new w = (a, w1) \<Longrightarrow> same_sources w w1" "tracking_new w = (a, w1) \<Longrightarrow> same_sources w w1"
  "new_cell c w = (a, w1) \<Longrightarrow> same_sources w w1"
  by (auto simp: write_once_new_def tracking_new_def new_cell_def same_sources_def)

lemma same_sources_contexts:
  "same_sources w (snd (log_error x w))" "same_sources w (snd (commit_resolved_value x i v w))"
  by (simp_all add: log_error_def commit_resolved_value_def Let_def same_sources_def)

subsection \<open>Calls\<close>

lemma same_sources_map:
  assumes "task_map f t w = Some (t', w')"
  shows "same_sources w w'"
proof -
  obtain a w1 where n: "write_once_new w = (a, w1)" by (cases "write_once_new w")
  have aw: "cell_await (task_cell t) (OnMap a f) w1 = Some w'" using assms n by (auto simp: task_map_def)
  show ?thesis by (rule same_sources_trans[OF same_sources_new(1)[OF n] same_sources_await[OF aw]])
qed

lemma same_sources_bind:
  assumes "task_bind f t w = Some (t', w')"
  shows "same_sources w w'"
proof -
  obtain a w1 where n: "tracking_new w = (a, w1)" by (cases "tracking_new w")
  obtain e w2 where n2: "write_once_new w1 = (e, w2)" by (cases "write_once_new w1")
  have aw: "cell_await (task_cell t) (OnBind a e f) w2 = Some w'" using assms n n2 by (auto simp: task_bind_def)
  show ?thesis
    by (rule same_sources_trans[OF same_sources_new(2)[OF n] same_sources_trans[OF same_sources_new(1)[OF n2] same_sources_await[OF aw]]])
qed

lemma same_sources_combined:
  assumes n: "write_once_new w = (u, w1)" and c: "same_sources w1 w2" and aw: "await_each ps w2 = Some w3"
  shows "same_sources w (snd (new_cell c w3))"
proof -
  have "same_sources w3 (snd (new_cell c w3))" by (rule same_sources_new(3)[of c w3 "fst (new_cell c w3)"]) (simp add: new_cell_def)
  from same_sources_trans[OF same_sources_rest[OF await_each_same_rest[OF aw]] this]
  show ?thesis by (rule same_sources_trans[OF same_sources_trans[OF same_sources_new(1)[OF n] c]])
qed

lemma same_sources_when_any:
  assumes "factory_when_any ts w = Some (t', w')"
  shows "same_sources w w'"
proof -
  obtain u w1 where n: "write_once_new w = (u, w1)" by (cases "write_once_new w")
  let ?w = "w1\<lparr>any_contexts := any_contexts w1 @ [\<lparr>num_erroneous_cells = 0, any_total_cells = length (map task_cell ts)\<rparr>]\<rparr>"
  obtain ps w3 where "await_each ps ?w = Some w3" "w' = snd (new_cell (WhenAny u (map task_cell ts)) w3)"
    using assms n by (auto simp: factory_when_any_def task_when_any_def task_list_to_cell_list_eq when_any_new_def new_cell_def)
  with same_sources_combined[OF n, of ?w ps w3] show ?thesis by (simp add: same_sources_def)
qed

lemma same_sources_when_all:
  assumes "factory_when_all ts w = Some (t', w')"
  shows "same_sources w w'"
proof -
  obtain u w1 where n: "write_once_new w = (u, w1)" by (cases "write_once_new w")
  let ?w = "w1\<lparr>all_contexts := all_contexts w1 @ [\<lparr>resolved_values = replicate (length (map task_cell ts)) DefaultInit,
    num_resolved_cells = 0, all_total_cells = length (map task_cell ts)\<rparr>]\<rparr>"
  obtain ps w3 where "await_each ps ?w = Some w3" "w' = snd (new_cell (WhenAll u (map task_cell ts)) w3)"
    using assms n by (auto simp: factory_when_all_def task_when_all_def task_list_to_cell_list_eq when_all_new_def new_cell_def)
  with same_sources_combined[OF n, of ?w ps w3] show ?thesis by (simp add: same_sources_def)
qed

fun is_read :: "('f, 'a) call \<Rightarrow> bool" where
  "is_read (ReadFile fd i) \<longleftrightarrow> True"
| "is_read c \<longleftrightarrow> False"

lemma same_sources_exec:
  assumes r: "exec env c l w = Some (l', w')" and c: "\<not> is_read c"
  shows "same_sources w w'"
proof (cases c)
  case NewSource
  then show ?thesis using r by (auto simp: factory_value_source_def value_source_new_def split: prod.splits)
next
  case (MapWith f)
  then show ?thesis using r same_sources_map by (auto simp: bind_eq_Some_conv)
next
  case (BindWith f)
  then show ?thesis using r same_sources_bind by (auto simp: bind_eq_Some_conv)
next
  case WhenAnyOf
  then show ?thesis using r same_sources_when_any by auto
next
  case WhenAllOf
  then show ?thesis using r same_sources_when_all by auto
next
  case (NewRequest junk n off)
  then show ?thesis using r by (auto simp: same_sources_def split: prod.splits)
qed (use r c same_sources_write in \<open>auto simp: write_defs split: if_splits\<close>)

subsection \<open>Jobs and turns of workers\<close>

text \<open>
  A relation between worlds that every operation without timers and reads respects: with user
  functions that respect it too, so do all jobs.
\<close>

definition functions_keep ::
  "(('f, 'a, 'os) world \<Rightarrow> ('f, 'a, 'os) world \<Rightarrow> bool) \<Rightarrow> ('f, 'a) signature \<Rightarrow> ('f, 'a, 'os) environment \<Rightarrow> bool"
where
  "functions_keep R G env \<longleftrightarrow>
     (\<forall>f w v w'. call_dom G f \<longrightarrow> call_fn env f w = Some (v, w') \<longrightarrow> R w w')
     \<and> (\<forall>f x w v w'. map_dom G f x \<longrightarrow> map_fn env f x w = Some (v, w') \<longrightarrow> R w w')
     \<and> (\<forall>f x w t w'. bind_dom G f x \<longrightarrow> bind_fn env f x w = Some (t, w') \<longrightarrow> R w w')"

locale source_relation =
  fixes R :: "('f, 'a, 'os) world \<Rightarrow> ('f, 'a, 'os) world \<Rightarrow> bool"
  assumes same: "same_sources w w' \<Longrightarrow> R w w'"
    and trans: "R u v \<Longrightarrow> R v w \<Longrightarrow> R u w"
begin

lemma kept_write: "R w (snd (write_result_to_value ctx r a w))"
  by (rule same[OF same_sources_write])

lemma kept_then: "R u w \<Longrightarrow> R u (snd (write_result_to_value ctx r a w))"
  by (rule trans[OF _ kept_write])

lemma kept_job:
  assumes run: "run_job env ctx j w = Some w'" and j: "job_typed G \<Gamma> j" and env: "functions_keep R G env"
  shows "R w w'"
proof (cases j)
  case (RunCallback cb r)
  note ctxs = same[OF same_sources_contexts(1)] same[OF same_sources_contexts(2)]
  show ?thesis
  proof (cases cb)
    case (OnMap c f)
    then show ?thesis
      using run RunCallback j env[unfolded functions_keep_def] kept_write kept_then
      by (cases r) (fastforce simp: run_job_defs run_callback_defs write_defs split: option.splits)+
  next
    case (OnBind t e f)
    show ?thesis
    proof (cases r)
      case (Value v)
      then obtain u w1 b where u: "bind_fn env f v w = Some (u, w1)" "cell_track (task_cell u) t w1 = Some (b, w')"
        using run RunCallback OnBind by (auto simp: run_job_defs run_callback_defs bind_eq_Some_conv)
      moreover have "bind_dom G f v" using j RunCallback OnBind Value by simp
      ultimately have "R w w1" using env by (auto simp: functions_keep_def)
      from trans[OF this same[OF same_sources_track[OF u(2)]]] show ?thesis .
    next
      case (Err er)
      then obtain b where "cell_track e t (snd (write_result_to_value ctx (Err er) e w)) = Some (b, w')"
        using run RunCallback OnBind by (auto simp: run_job_defs run_callback_defs write_defs bind_eq_Some_conv)
      from trans[OF kept_write same[OF same_sources_track[OF this]]] show ?thesis .
    qed
  next
    case (OnWhenAny u x)
    then show ?thesis
      using run RunCallback kept_write ctxs(1) kept_then[OF ctxs(1)]
      by (cases r) (auto simp: run_job_defs run_callback_defs write_defs split_def Let_def)
  next
    case (OnWhenAll x i u)
    then show ?thesis
      using run RunCallback kept_write ctxs(2) kept_then[OF ctxs(2)]
      by (cases r) (auto simp: run_job_defs run_callback_defs write_defs split_def Let_def)
  qed
next
  case (RunTask c f)
  then obtain v w1 where w1: "call_fn env f w = Some (v, w1)" "w' = snd (write_result_to_value ctx (Value v) c w1)"
    using run by (auto simp: run_job_defs run_task_def write_defs split: option.splits)
  moreover have "call_dom G f" using j RunTask by simp
  ultimately have "R w w1" using env by (auto simp: functions_keep_def)
  then show ?thesis unfolding w1(2) by (rule kept_then)
next
  case (CompleteTimer c)
  then show ?thesis using run kept_write by (auto simp: run_job_defs write_defs)
next
  case (FinishRead c rq)
  then show ?thesis
    using run kept_write by (cases "read_result (aio_error_fn env (os_state w)) rq")
      (auto simp: run_job_defs finish_read_def read_callback_def write_defs)
qed

lemma kept_turn:
  assumes t: "typed G \<Gamma> w" and inv: "world_inv w" and i: "i < length (workers (pool w))"
    and run: "worker_turn env i rnd w = Some w'" and env: "functions_keep R G env"
  shows "R w w'"
  using run
proof (cases rule: worker_turn_cases)
  case 1
  then show ?thesis by (intro same) (simp add: fetch_job_def same_sources_def split_def split: option.splits)
next
  case (2 f)
  obtain j w0 where j: "f = Some j" and w0: "w0 = w\<lparr>at_hand := remove1 (i, f) (at_hand w)\<rparr>"
    and left: "jobs_left w = add_mset f (jobs_left w0)"
    and eq: "run_at_hand env i f w = run_job env (worker_context (workers (pool w) ! i)) j w0"
    using run_at_handE[OF 2(1) inv i] .
  have "job_typed G \<Gamma> j" using typedD(2)[OF t] left j by simp
  from kept_job[OF _ this env] eq 2(2) have "R w0 w'" by simp
  moreover have "R w w0" by (intro same) (simp add: same_sources_def w0)
  ultimately show ?thesis by (rule trans[rotated])
qed

lemma kept_call: "exec env c l w = Some (l', w') \<Longrightarrow> \<not> is_read c \<Longrightarrow> R w w'"
  by (rule same[OF same_sources_exec])

text \<open>A turn in a run of a program whose tasks have types.\<close>

lemma kept_program_turn:
  assumes run: "program_run env n P k l w" and types: "well_typed_env G env" "infer_all G src P no_types = Some T"
    and turn: "i < length (workers (pool w))" "worker_turn env i rnd w = Some w'" and env: "functions_keep R G env"
  shows "R w w'"
proof -
  obtain \<Delta> where "typed_run G env \<Delta> w" using program_typed[OF run types] by blast
  then obtain \<Gamma> where "claims_true G \<Delta> \<Gamma> w" using typed_run_claims[OF _ types(1)] by blast
  then have "typed G \<Gamma> w" "world_inv w" using claims_trueD(1) well_typedD(1,2) by blast+
  from this turn env show ?thesis by (rule kept_turn)
qed

end

text \<open>
  Three such relations: nothing is scheduled or read at all, no read is started, and the clock of
  the timers, which is the time of their last advance, stands still.
\<close>

definition same_reads :: "('f, 'a, 'os) world \<Rightarrow> ('f, 'a, 'os) world \<Rightarrow> bool" where
  "same_reads w w' \<longleftrightarrow> io_source w' = io_source w"

definition same_clock :: "('f, 'a, 'os) world \<Rightarrow> ('f, 'a, 'os) world \<Rightarrow> bool" where
  "same_clock w w' \<longleftrightarrow> tps_last (timers w') = tps_last (timers w)"

interpretation sources: source_relation same_sources
  by unfold_locales (auto intro: same_sources_trans)

interpretation reads_kept: source_relation same_reads
  by unfold_locales (simp_all add: same_reads_def same_sources_def)

interpretation clock_kept: source_relation same_clock
  by unfold_locales (simp_all add: same_clock_def same_sources_def)

subsection \<open>Runs\<close>

definition source_free :: "('f, 'a, 'os) world \<Rightarrow> bool" where
  "source_free w \<longleftrightarrow> tps_dues (timers w) = {#} \<and> in_flight_requests (io_source w) = [] \<and> polled w = []"

lemma source_free_same: "same_sources w w' \<Longrightarrow> source_free w \<Longrightarrow> source_free w'"
  by (simp add: same_sources_def source_free_def)

lemma source_free_poll:
  assumes inv: "world_inv w" and t: "clock_range now" and free: "source_free w"
  shows "source_free (poll_source env now src w)"
proof (cases src)
  case TimingSource
  note poll = tps_poll_correct[OF sources_invD(1)[OF inv] t]
  have "tps_dues (snd (tps_poll now (timers w))) = {#}" "fst (tps_poll now (timers w)) = []"
    using poll(2,3) free by (simp_all add: source_free_def remaining_def expired_def)
  then show ?thesis
    using free TimingSource by (simp add: source_free_def poll_source_def poll_jobs_def split_def Let_def)
next
  case IoSource
  then show ?thesis
    using free by (simp add: source_free_def poll_source_def poll_jobs_def io_poll_eq split_def Let_def)
qed

lemma program_source_free:
  assumes run: "program_run env n P k l w" and types: "well_typed_env G env" "infer_all G src P no_types = Some T"
    and env: "functions_keep same_sources G env" and P: "\<forall>c \<in> set P. \<not> is_read c"
  shows "source_free w"
  using run
proof (induction rule: program_run.induct)
  case (start now s)
  show ?case by (simp add: source_free_def factory_new_def split_def Let_def tps_new_dues io_new_def)
next
  case (exec k l w l' w')
  have "\<not> is_read (P ! k)" using P exec(2) by simp
  from source_free_same[OF same_sources_exec[OF exec(4) this] exec(5)] show ?case .
next
  case (turn k l w i rnd w')
  from source_free_same[OF sources.kept_program_turn[OF turn(1) types turn(2,3) env] turn(4)] show ?case .
next
  case (poll k l w now src)
  obtain \<Delta> where "typed_run G env \<Delta> w" using program_typed[OF poll(1) types] by blast
  then obtain \<Gamma> where "claims_true G \<Delta> \<Gamma> w" using typed_run_claims[OF _ types(1)] by blast
  then have "world_inv w" using claims_trueD(1) well_typedD(1) by blast
  from source_free_poll[OF this poll(2,3)] show ?case .
next
  case (os k l w s b)
  then show ?case by (simp add: source_free_def)
qed

end
