(* ===== verification/Work.thy ===== *)
theory Work
  imports Live_Programs
begin

text \<open>
  How much there is left to do: the jobs that are queued or in some thread's hands, timers and reads under way, and the
  callbacks registered, each with the work that its user function can add. Nothing the library
  does of its own accord adds any, and every job that is run takes some away, so a program that
  makes finitely many calls is over after finitely many jobs.
\<close>

subsection \<open>Work\<close>

text \<open>\<open>c f\<close> bounds the jobs that a call of the user function \<open>f\<close> leads to.\<close>

fun cb_work :: "('f \<Rightarrow> nat) \<Rightarrow> 'f callback \<Rightarrow> nat" where
  "cb_work c (OnMap a f) = 1 + c f"
| "cb_work c (OnBind t e f) = 1 + c f"
| "cb_work c (OnWhenAny u x) = 1"
| "cb_work c (OnWhenAll x i u) = 1"

text \<open>The work of a job beside that of its callback.\<close>

fun own_work :: "('f \<Rightarrow> nat) \<Rightarrow> ('f, 'a) job fn \<Rightarrow> nat" where
  "own_work c (Some (RunTask a f)) = 1 + c f"
| "own_work c (Some (CompleteTimer a)) = 1"
| "own_work c (Some (FinishRead a rq)) = 1"
| "own_work c _ = 0"

definition other_work :: "('f \<Rightarrow> nat) \<Rightarrow> ('f, 'a, 'os) world \<Rightarrow> nat" where
  "other_work c w = sum_mset (image_mset (own_work c) (jobs_left w))
     + sum_mset (image_mset (\<lambda>p. own_work c (Some (snd p))) (tps_dues (timers w))) + length (in_flight_requests (io_source w))"

definition work :: "('f \<Rightarrow> nat) \<Rightarrow> ('f, 'a, 'os) world \<Rightarrow> nat" where
  "work c w = sum_mset (image_mset (cb_work c) (callback_tokens w)) + other_work c w"

lemma callbacks_own_work: "sum_mset (image_mset (own_work c) (mset (map (\<lambda>cb. Some (RunCallback cb r)) cbs))) = 0"
  by (induction cbs) auto

lemma other_work_same:
  "jobs_left w' = jobs_left w \<Longrightarrow> timers w' = timers w \<Longrightarrow> io_source w' = io_source w \<Longrightarrow> other_work c w' = other_work c w"
  by (simp add: other_work_def)

lemma other_work_write:
  assumes p: "pool_inv (pool w)" "ctx_ok (pool w) ctx" and a: "is_write_once w a"
  shows "other_work c (snd (write_result_to_value ctx r a w)) = other_work c w"
proof -
  obtain x where x: "a < length (cells w)" "cells w ! a = WriteOnce x" using is_write_onceE[OF a] .
  show ?thesis
  proof (cases "wo_value x")
    case None
    note wr = write_empty[OF p x None, of r]
    show ?thesis using callbacks_own_work[of c r "wo_callbacks x"] same_rest_sources[OF wr(3)] by (simp add: other_work_def wr(5))
  qed (simp add: write_filled[OF x(2)])
qed

lemma other_work_queue:
  "pool_inv (pool w) \<Longrightarrow> ctx_ok (pool w) ctx \<Longrightarrow> other_work c (queue_job ctx j w) = own_work c (Some j) + other_work c w"
  using queue_job_pool(2)[of w ctx j] queue_job_frame(2)[of w ctx j] by (simp add: other_work_def same_rest_def)

lemma other_work_park:
  "pool_inv (pool w) \<Longrightarrow> other_work c (park e cb w) = other_work c w"
  using other_work_queue[of w ctx_empty c] other_work_same[of "set_cell e _ w" w c]
  by (auto simp: park_def write_once_await_def set_cell_def ctx_empty_ok split: cell.splits option.splits intro!: other_work_same)

lemma other_work_await_each:
  "await_each ps w = Some w' \<Longrightarrow> world_inv w \<Longrightarrow> \<forall>p \<in> set ps. fst p < length (cells w) \<and> callback_ok w (snd p) \<Longrightarrow>
   other_work c w' = other_work c w"
proof (induction ps w rule: await_each.induct)
  case (2 a cb rest w)
  then obtain w1 where w1: "cell_await a cb w = Some w1" "await_each rest w1 = Some w'"
    by (auto simp: bind_eq_Some_conv)
  have p: "callback_ok w cb" "a < length (cells w)" using 2(4) by auto
  note s = cell_await_step(1)[OF 2(3) p w1(1)]
  obtain e where "w1 = park e cb w" using cell_await_Some[OF w1(1)] by blast
  then have "other_work c w1 = other_work c w" using other_work_park[OF world_invD(1)[OF 2(3)]] by simp
  moreover have "\<forall>p \<in> set rest. fst p < length (cells w1) \<and> callback_ok w1 (snd p)"
    using 2(4) step_okD(2)[OF s] by (auto intro: callback_ok_mono world_le_length)
  ultimately show ?case using 2(1)[OF w1 step_okD(1)[OF s]] by simp
qed simp

lemma other_work_await:
  "cell_await a cb w = Some w' \<Longrightarrow> world_inv w \<Longrightarrow> a < length (cells w) \<Longrightarrow> callback_ok w cb \<Longrightarrow> other_work c w' = other_work c w"
  using other_work_await_each[of "[(a, cb)]" w w' c] by simp

lemma other_work_new_cell [simp]: "other_work c (snd (new_cell x w)) = other_work c w"
  by (rule other_work_same) (simp_all add: new_cell_def)

lemma other_work_track:
  fixes w w' :: "('f, 'a, 'os) world"
  assumes inv: "world_inv w" and a: "is_tracking w a" and t: "t < length (cells w)" and r: "cell_track t a w = Some (b, w')"
  shows "other_work c w' = other_work c w"
proof -
  obtain x where x: "a < length (cells w)" "cells w ! a = Tracking x" using is_trackingE[OF a] .
  show ?thesis
  proof (cases "tc_cell x")
    case (Some u)
    then show ?thesis using cell_track_again[OF x(2) Some, of t] r by simp
  next
    case None
    let ?y = "Tracking \<lparr>tc_cell = Some t, tc_callbacks = []\<rparr> :: ('f, 'a) cell"
    let ?w = "set_cell a ?y w"
    note first = cell_track_first(2)[OF x(2) None x(1) r, unfolded await_callbacks_each]
    have le: "world_le w ?w" using x None by (intro world_le_update) auto
    have "timers ?w = timers w" "io_source ?w = io_source w" by (simp_all add: set_cell_def)
    then have taken: "step_ok w ?w"
      using world_invD(1)[OF inv] x(1) t by (intro step_okI[OF inv le]) (auto simp: nth_list_update)
    have "\<forall>cb \<in> set (tc_callbacks x). callback_ok w cb" using world_invD(2)[OF inv x(1)] x(2) None by simp
    then have "\<forall>p \<in> set (map (Pair t) (tc_callbacks x)). fst p < length (cells ?w) \<and> callback_ok ?w (snd p)"
      using t callback_ok_mono[OF le] by auto
    from other_work_await_each[OF first step_okD(1)[OF taken] this] have "other_work c w' = other_work c ?w" .
    also have "... = other_work c w" by (rule other_work_same) (simp_all add: set_cell_def)
    finally show ?thesis .
  qed
qed

lemma work_write:
  assumes "world_inv w" "ctx_ok (pool w) ctx" "is_write_once w a"
  shows "work c (snd (write_result_to_value ctx r a w)) = work c w"
  using write_result_step(2)[OF assms] other_work_write[OF world_invD(1)[OF assms(1)] assms(2,3)] by (simp add: work_def)

lemma work_track:
  assumes "world_inv w" "is_tracking w a" "t < length (cells w)" "cell_track t a w = Some (b, w')"
  shows "work c w' = work c w"
  using cell_track_step(2)[OF assms] other_work_track[OF assms] by (simp add: work_def)

lemma work_same: "callback_tokens w' = callback_tokens w \<Longrightarrow> other_work c w' = other_work c w \<Longrightarrow> work c w' = work c w"
  by (simp add: work_def)

lemma work_contexts [simp]:
  "work c (snd (log_error x w)) = work c w" "work c (snd (commit_resolved_value x i v w)) = work c w"
  by (rule work_same; simp add: log_error_def commit_resolved_value_def Let_def other_work_def callback_tokens_def pending_def queued_def)+

subsection \<open>Jobs take work away\<close>

definition bounded_env :: "('f \<Rightarrow> nat) \<Rightarrow> ('f, 'a, 'os) environment \<Rightarrow> bool" where
  "bounded_env c env \<longleftrightarrow>
     (\<forall>f w v w'. lively w \<longrightarrow> call_fn env f w = Some (v, w') \<longrightarrow> work c w' \<le> work c w + c f)
     \<and> (\<forall>f x w v w'. lively w \<longrightarrow> map_fn env f x w = Some (v, w') \<longrightarrow> work c w' \<le> work c w + c f)
     \<and> (\<forall>f x w t w'. lively w \<longrightarrow> bind_fn env f x w = Some (t, w') \<longrightarrow> work c w' \<le> work c w + c f)"

lemma bounded_envD:
  assumes "bounded_env c env" "lively w"
  shows "call_fn env f w = Some (v, w') \<Longrightarrow> work c w' \<le> work c w + c f"
    and "map_fn env f x w = Some (v, w') \<Longrightarrow> work c w' \<le> work c w + c f"
    and "bind_fn env f x w = Some (t, w') \<Longrightarrow> work c w' \<le> work c w + c f"
  using assms unfolding bounded_env_def by blast+

lemma taken_work:
  assumes l: "lively w" and tk: "taken j w w0"
  shows "work c w = sum_mset (image_mset (cb_work c) (job_callbacks (Some j))) + own_work c (Some j) + work c w0"
proof -
  obtain hs where w0: "w0 = w\<lparr>at_hand := hs\<rparr>" and p: "jobs_left w = add_mset (Some j) (jobs_left w0)" using tk by (auto simp: taken_def)
  have "other_work c w = own_work c (Some j) + other_work c w0" unfolding other_work_def p by (simp add: w0)
  then show ?thesis using taken_facts(3)[OF l tk] by (simp add: work_def)
qed

lemma write_after_work:
  assumes "keeps w0 w1" "ctx_ok (pool w0) ctx" "is_write_once w0 a"
  shows "work c (snd (write_result_to_value ctx r a w1)) = work c w1"
proof -
  note k = keepsD(1,2)[OF assms(1)]
  show ?thesis
    by (rule work_write[OF livelyD(1)[OF k(2)] ctx_ok_mono[OF step_okD(2)[OF k(1)] assms(2)] is_write_once_mono[OF step_okD(2)[OF k(1)] assms(3)]])
qed

lemma bind_work:
  assumes l: "lively w" and env: "live_env env" "bounded_env c env" and ctx: "ctx_ok (pool w0) ctx"
    and tk: "taken (RunCallback (OnBind t e f) r) w w0" and run: "run_bind_callback env t e f ctx r w0 = Some w'"
  shows "work c w' < work c w"
proof -
  note tf = taken_facts[OF l tk] and tw = taken_work[OF l tk, of c]
  have l0: "lively w0" by (rule taken_lively[OF l tk]) simp
  have t: "is_tracking w0 t" and e: "is_write_once w0 e" using tf(2) by simp_all
  obtain a w1 b where k: "keeps w0 w1" "a < length (cells w1)" "work c w1 \<le> work c w0 + c f" and tr: "cell_track a t w1 = Some (b, w')"
  proof (cases r)
    case (Value v)
    then obtain tk w1 b where fn: "bind_fn env f v w0 = Some (tk, w1)" and "cell_track (task_cell tk) t w1 = Some (b, w')"
      using run by (auto simp: run_bind_callback_def bind_eq_Some_conv)
    then show ?thesis
      using that live_envD(3)[OF env(1) l0 fn] coming_in_range[OF live_envD(4)[OF env(1) l0 fn]] bounded_envD(3)[OF env(2) l0 fn] by blast
  next
    case (Err er)
    let ?w1 = "snd (write_result_to_value ctx (Err er) e w0)"
    have k: "keeps w0 ?w1" by (rule keeps_write[OF l0 ctx e])
    have "e < length (cells ?w1)" using is_write_once_mono[OF step_okD(2)[OF keepsD(1)[OF k]] e] by (simp add: is_write_once_def)
    moreover obtain b where "cell_track e t ?w1 = Some (b, w')"
      using run Err by (auto simp: run_bind_callback_def write_defs bind_eq_Some_conv)
    ultimately show ?thesis using that k work_write[OF livelyD(1)[OF l0] ctx e, of c] by simp
  qed
  have t1: "is_tracking w1 t" by (rule is_tracking_mono[OF step_okD(2)[OF keepsD(1)[OF k(1)]] t])
  from work_track[OF livelyD(1)[OF keepsD(2)[OF k(1)]] t1 k(2) tr, of c] show ?thesis using tw k(3) by simp
qed

lemma run_callback_work:
  assumes l: "lively w" and env: "live_env env" "bounded_env c env" and ctx: "ctx_ok (pool w0) ctx"
    and tk: "taken (RunCallback cb r) w w0" and run: "run_callback env cb ctx r w0 = Some w'"
  shows "work c w' < work c w"
proof (cases cb)
  case (OnMap a f)
  note tk' = tk[unfolded OnMap]
  note tw = taken_work[OF l tk', of c]
  have l0: "lively w0" by (rule taken_lively[OF l tk']) simp
  have a: "is_write_once w0 a" using taken_facts(2)[OF l tk'] by simp
  show ?thesis
  proof (cases r)
    case (Value v)
    then obtain g w1 where m: "map_fn env f v w0 = Some (g, w1)" and w': "w' = snd (cell_write_ctx ctx g a w1)"
      using run OnMap by (auto simp: run_callback_defs split: option.splits)
    show ?thesis using write_after_work[OF live_envD(2)[OF env(1) l0 m] ctx a, of c] bounded_envD(2)[OF env(2) l0 m] tw
      by (simp add: w' write_defs)
  next
    case (Err e)
    then show ?thesis using run OnMap write_after_work[OF keeps_refl[OF l0] ctx a, of c] tw by (auto simp: run_callback_defs write_defs)
  qed
next
  case (OnBind t e f)
  then show ?thesis using bind_work[OF l env ctx tk[unfolded OnBind]] run by (simp add: run_callback_def)
next
  case (OnWhenAny u x)
  note tk' = tk[unfolded OnWhenAny]
  note tw = taken_work[OF l tk', of c] and inv0 = step_okD(1)[OF taken_facts(1)[OF l tk']]
  have u: "is_write_once w0 u" using taken_facts(2)[OF l tk'] by simp
  note s1 = log_error_step[OF inv0, of x]
  note wr = work_write[OF step_okD(1)[OF s1] ctx_ok_mono[OF step_okD(2)[OF s1] ctx] is_write_once_mono[OF step_okD(2)[OF s1] u], of c]
  show ?thesis
    using run OnWhenAny tw wr work_write[OF inv0 ctx u, of c]
    by (cases r) (auto simp: run_callback_defs write_defs split_def Let_def)
next
  case (OnWhenAll x i u)
  note tk' = tk[unfolded OnWhenAll]
  note tw = taken_work[OF l tk', of c] and inv0 = step_okD(1)[OF taken_facts(1)[OF l tk']]
  have u: "is_write_once w0 u" using taken_facts(2)[OF l tk'] by simp
  note s1 = commit_step[OF inv0, of x i]
  note wr = work_write[OF step_okD(1)[OF s1] ctx_ok_mono[OF step_okD(2)[OF s1] ctx] is_write_once_mono[OF step_okD(2)[OF s1] u], of c]
  show ?thesis
    using run OnWhenAll tw wr work_write[OF inv0 ctx u, of c]
    by (cases r) (auto simp: run_callback_defs write_defs split_def Let_def)
qed

lemma run_job_work:
  assumes l: "lively w" and env: "live_env env" "bounded_env c env" and ctx: "ctx_ok (pool w0) ctx"
    and tk: "taken j w w0" and run: "run_job env ctx j w0 = Some w'"
  shows "work c w' < work c w"
proof (cases j)
  case (RunCallback cb r)
  then show ?thesis using run_callback_work[OF l env ctx tk[unfolded RunCallback]] run by (simp add: run_job_def)
next
  case (RunTask a f)
  note tk' = tk[unfolded RunTask]
  have l0: "lively w0" by (rule taken_lively[OF l tk']) simp
  have a: "is_write_once w0 a" using taken_facts(2)[OF l tk'] by simp
  obtain v w1 where m: "call_fn env f w0 = Some (v, w1)" and w': "w' = snd (cell_write_ctx ctx v a w1)"
    using run RunTask by (auto simp: run_job_defs split: option.splits)
  show ?thesis using write_after_work[OF live_envD(1)[OF env(1) l0 m] ctx a, of c] bounded_envD(1)[OF env(2) l0 m] taken_work[OF l tk', of c]
    by (simp add: w' write_defs)
next
  case (CompleteTimer a)
  note tk' = tk[unfolded CompleteTimer]
  have a: "is_write_once w0 a" using taken_facts(2)[OF l tk'] by simp
  show ?thesis
    using run CompleteTimer work_write[OF step_okD(1)[OF taken_facts(1)[OF l tk']] ctx a, of c] taken_work[OF l tk', of c]
    by (auto simp: run_job_defs write_defs)
next
  case (FinishRead a rq)
  note tk' = tk[unfolded FinishRead]
  have a: "is_write_once w0 a" using taken_facts(2)[OF l tk'] by simp
  show ?thesis
    using run FinishRead work_write[OF step_okD(1)[OF taken_facts(1)[OF l tk']] ctx_empty_ok a, of c] taken_work[OF l tk', of c]
    by (cases "read_result (aio_error_fn env (os_state w0)) rq") (auto simp: run_job_defs finish_read_def read_callback_def write_defs)
qed

end
