(* ===== verification/Bounded_Programs.thy ===== *)
theory Bounded_Programs
  imports Work
begin

text \<open>
  Programs run a bounded number of jobs: what a call of a program adds to the work is known from
  its text, turns of the workers that run a job take work away, and polls leave it as it is.
\<close>

subsection \<open>Turns and polls\<close>

definition runs_job :: "nat \<Rightarrow> ('f, 'a, 'os) world \<Rightarrow> bool" where
  "runs_job i w \<longleftrightarrow> map_of (at_hand w) i \<noteq> None"

lemma hands_over_work:
  assumes "world_inv w" "hands_over w w'"
  shows "work c w' = work c w"
  using hands_over_step(2)[OF assms] assms(2) by (intro work_same other_work_same) (simp_all add: hands_over_def)

lemma worker_turn_work:
  assumes l: "lively w" and env: "live_env env" "bounded_env c env" and i: "i < length (workers (pool w))"
    and r: "worker_turn env i rnd w = Some w'"
  shows "if runs_job i w then work c w' < work c w else work c w' = work c w"
  using r
proof (cases rule: worker_turn_cases)
  case 1
  note inv = livelyD(1)[OF l]
  show ?thesis using hands_over_work[OF inv fetch_job_hands_over[OF world_invD(1)[OF inv] i]] 1 by (simp add: runs_job_def)
next
  case (2 f)
  obtain j w0 where "taken j w w0" "ctx_ok (pool w0) (worker_context (workers (pool w) ! i))"
    "run_at_hand env i f w = run_job env (worker_context (workers (pool w) ! i)) j w0"
    using run_at_hand_taken[OF 2(1) livelyD(1)[OF l] i] .
  then show ?thesis using run_job_work[OF l env] 2 by (simp add: runs_job_def)
qed

lemma sum_own_jobs: "sum_mset (image_mset (own_work c) (mset (map Some jobs))) = sum_mset (image_mset (\<lambda>j. own_work c (Some j)) (mset jobs))"
  by (induction jobs) auto

lemma poll_jobs_work:
  assumes l: "lively w" and t: "clock_range now" and none: "polled w = []"
  shows "work c (poll_jobs env now src w) = work c w"
proof -
  note inv = livelyD(1)[OF l]
  let ?w = "poll_jobs env now src w"
  have "callback_tokens ?w = callback_tokens w \<and> other_work c ?w = other_work c w"
  proof (cases src)
    case TimingSource
    obtain jobs s where p: "tps_poll now (timers w) = (jobs, s)" by (cases "tps_poll now (timers w)")
    note poll = tps_poll_correct(2,3)[OF sources_invD(1)[OF inv] t, unfolded p fst_conv snd_conv]
    have w: "?w = w\<lparr>timers := s, polled := map Some jobs\<rparr>"
      using p TimingSource by (simp add: poll_jobs_def)
    then have f: "timers ?w = s" "io_source ?w = io_source w" "cells ?w = cells w" by simp_all
    from w have q: "jobs_left ?w = jobs_left w + mset (map Some jobs)" using poll_jobs_left[OF none, of env now src] by simp
    have sum: "mset jobs + image_mset snd (tps_dues s) = image_mset snd (tps_dues (timers w))"
      using expired_remaining[of "tps_ticks now (timers w)" "tps_dues (timers w)"] poll by simp
    have ct: "\<forall>j \<in> set jobs. \<exists>a. j = CompleteTimer a"
    proof
      fix j assume "j \<in> set jobs"
      then have "j \<in># image_mset snd (tps_dues (timers w))" using arg_cong[OF sum, of set_mset] by auto
      then show "\<exists>a. j = CompleteTimer a" using livelyD(3)[OF l] by (auto simp: only_timers_def)
    qed
    have "sum_mset (image_mset job_callbacks (mset (map Some jobs))) = {#}" using ct by (induction jobs) auto
    then have "callback_tokens ?w = callback_tokens w" by (simp add: f q callback_tokens_def pending_def queued_def)
    moreover have "sum_mset (image_mset (own_work c) (mset (map Some jobs))) + sum_mset (image_mset (\<lambda>j. own_work c (Some j)) (image_mset snd (tps_dues s)))
        = sum_mset (image_mset (\<lambda>j. own_work c (Some j)) (image_mset snd (tps_dues (timers w))))"
      unfolding sum_own_jobs sum[symmetric] by simp
    ultimately show ?thesis by (simp add: other_work_def f q image_mset.compositionality comp_def)
  next
    case IoSource
    let ?st = "aio_error_fn env (os_state w)"
    let ?p = "io_poll ?st FinishRead (io_source w) :: ('a, 'b) job list \<times> address io_source"
    obtain jobs s where p: "?p = (jobs, s)" by (cases ?p)
    have w: "?w = w\<lparr>io_source := s, polled := map Some jobs\<rparr>"
      using p IoSource by (simp add: poll_jobs_def)
    then have f: "timers ?w = timers w" "io_source ?w = s" "cells ?w = cells w" by simp_all
    from w have q: "jobs_left ?w = jobs_left w + mset (map Some jobs)" using poll_jobs_left[OF none, of env now src] by simp
    have jobs: "jobs = map (\<lambda>(cb, r). FinishRead cb r) (filter (\<lambda>(cb, r). is_completed ?st r) (in_flight_requests (io_source w)))"
      and s: "in_flight_requests s = filter (\<lambda>(cb, r). \<not> is_completed ?st r) (in_flight_requests (io_source w))"
      using p by (auto simp: io_poll_eq)
    have "sum_mset (image_mset job_callbacks (mset (map Some (map (\<lambda>(cb, r). FinishRead cb r) rs)))) = {#}" for rs :: "(address \<times> in_flight_request) list"
      by (induction rs) auto
    then have "callback_tokens ?w = callback_tokens w" by (simp add: f q callback_tokens_def pending_def queued_def jobs)
    moreover have "sum_mset (image_mset (own_work c) (mset (map Some (map (\<lambda>(cb, r). FinishRead cb r) (filter (\<lambda>(cb, r). is_completed ?st r) rs)))))
        + length (filter (\<lambda>(cb, r). \<not> is_completed ?st r) rs) = length rs" for rs :: "(address \<times> in_flight_request) list"
      by (induction rs) auto
    ultimately show ?thesis using jobs s by (simp add: other_work_def f q)
  qed
  then show ?thesis by (simp add: work_def)
qed

lemma poll_work:
  assumes l: "lively w" and t: "clock_range now"
  shows "work c (poll_source env now src w) = work c w"
  using poll_jobs_work[OF l t, of c env src] hands_over_work[OF livelyD(1)[OF l] queue_polled_hands_over[OF world_invD(1)[OF livelyD(1)[OF l]]]]
  by (simp add: poll_source_def)

subsection \<open>Calls\<close>

lemma other_work_new: "write_once_new w = (a, w1) \<Longrightarrow> other_work c w1 = other_work c w"
  by (auto simp: write_once_new_def new_cell_def other_work_def)

lemma map_work:
  assumes l: "lively w" and ok: "task_ok w t" and r: "task_map f t w = Some (t', w')"
  shows "work c w' = work c w + 1 + c f"
proof -
  obtain a w1 where n: "write_once_new w = (a, w1)" by (cases "write_once_new w")
  note nw = new_write_once[OF l n]
  have "cell_await (task_cell t) (OnMap a f) w1 = Some w'" using r n by (auto simp: task_map_def)
  from other_work_await[OF this livelyD(1)[OF keepsD(2)[OF nw(1)]], of c] nw(3) task_ok_mono[OF step_okD(2)[OF keepsD(1)[OF nw(1)]] ok]
  have "other_work c w' = other_work c w" by (simp add: task_ok_def other_work_new[OF n])
  then show ?thesis using task_map_step(3)[OF livelyD(1)[OF l] ok r] by (simp add: work_def)
qed

lemma bind_task_work:
  assumes l: "lively w" and ok: "task_ok w t" and r: "task_bind f t w = Some (t', w')"
  shows "work c w' = work c w + 1 + c f"
proof -
  obtain a w1 where n: "tracking_new w = (a, w1)" by (cases "tracking_new w")
  note nt = new_tracking[OF l n]
  obtain e w2 where n2: "write_once_new w1 = (e, w2)" by (cases "write_once_new w1")
  note nw = new_write_once[OF keepsD(2)[OF nt(1)] n2]
  note k = keepsD[OF keeps_trans[OF nt(1) nw(1)]]
  have "is_tracking w2 a" by (rule is_tracking_mono[OF step_okD(2)[OF keepsD(1)[OF nw(1)]] nt(3)])
  moreover have "cell_await (task_cell t) (OnBind a e f) w2 = Some w'" using r n n2 by (auto simp: task_bind_def)
  moreover have "other_work c w1 = other_work c w" using n by (auto simp: tracking_new_def new_cell_def other_work_def)
  ultimately have "other_work c w' = other_work c w"
    using other_work_await[of "task_cell t" "OnBind a e f" w2 w' c] livelyD(1)[OF k(2)] nw(3) task_ok_mono[OF step_okD(2)[OF k(1)] ok]
    by (simp add: task_ok_def other_work_new[OF n2])
  then show ?thesis using task_bind_step(3)[OF livelyD(1)[OF l] ok r] by (simp add: work_def)
qed

lemma cb_work_any [simp]: "sum_mset (image_mset (cb_work c) (replicate_mset n (OnWhenAny u x))) = n"
  by (induction n) auto

lemma when_any_work:
  assumes l: "lively w" and ok: "\<forall>t \<in> set ts. task_ok w t" and r: "factory_when_any ts w = Some (t', w')"
  shows "work c w' = work c w + length ts"
proof -
  obtain a where a: "when_any_new (map task_cell ts) w = Some (a, w')"
    using r by (auto simp: factory_when_any_def task_when_any_def task_list_to_cell_list_eq)
  obtain u w1 where n: "write_once_new w = (u, w1)" by (cases "write_once_new w")
  note nw = new_write_once[OF l n]
  let ?w = "w1\<lparr>any_contexts := any_contexts w1 @ [\<lparr>num_erroneous_cells = 0, any_total_cells = length (map task_cell ts)\<rparr>]\<rparr>"
  let ?ps = "map (\<lambda>c. (c, OnWhenAny u (length (any_contexts w1)) :: 'a callback)) (map task_cell ts)"
  obtain w3 where w3: "await_each ?ps ?w = Some w3" and w': "w' = snd (new_cell (WhenAny u (map task_cell ts)) w3)"
    using a by (auto simp: when_any_new_def n new_cell_def)
  have st: "step_ok w1 ?w" using contexts_step(1)[OF livelyD(1)[OF keepsD(2)[OF nw(1)]], of ?w] by simp
  have "is_write_once ?w u" by (rule is_write_once_mono[OF step_okD(2)[OF st] nw(3)])
  then have "\<forall>p \<in> set ?ps. fst p < length (cells ?w) \<and> callback_ok ?w (snd p)"
    using ok world_le_length[OF step_okD(2)[OF keepsD(1)[OF nw(1)]]] by (auto simp: task_ok_def)
  from other_work_await_each[OF w3 step_okD(1)[OF st] this, of c] have "other_work c w3 = other_work c ?w" .
  moreover have "other_work c ?w = other_work c w1" by (rule other_work_same) simp_all
  ultimately have "other_work c w' = other_work c w" unfolding w' other_work_new_cell by (simp add: other_work_new[OF n])
  moreover have "\<forall>d \<in> set (map task_cell ts). d < length (cells w)" using ok by (simp add: task_ok_def)
  ultimately show ?thesis using when_any_new_step(3)[OF livelyD(1)[OF l] _ a] by (simp add: work_def)
qed

lemma cb_work_all [simp]: "sum_mset (image_mset (cb_work c) (mset (map (\<lambda>i. OnWhenAll x i u) is))) = length is"
  by (induction "is") auto

lemma when_all_work:
  assumes l: "lively w" and ok: "\<forall>t \<in> set ts. task_ok w t" and r: "factory_when_all ts w = Some (t', w')"
  shows "work c w' = work c w + length ts"
proof -
  obtain a where a: "when_all_new (map task_cell ts) w = Some (a, w')"
    using r by (auto simp: factory_when_all_def task_when_all_def task_list_to_cell_list_eq)
  obtain u w1 where n: "write_once_new w = (u, w1)" by (cases "write_once_new w")
  note nw = new_write_once[OF l n]
  let ?cs = "map task_cell ts"
  let ?w = "w1\<lparr>all_contexts := all_contexts w1
    @ [\<lparr>resolved_values = replicate (length ?cs) DefaultInit, num_resolved_cells = 0, all_total_cells = length ?cs\<rparr>]\<rparr>"
  let ?ps = "map (\<lambda>i. (?cs ! i, OnWhenAll (length (all_contexts w1)) i u :: 'a callback)) [0..<length ?cs]"
  obtain w3 where w3: "await_each ?ps ?w = Some w3" and w': "w' = snd (new_cell (WhenAll u ?cs) w3)"
    using a by (auto simp: when_all_new_def n new_cell_def)
  have st: "step_ok w1 ?w" using contexts_step(1)[OF livelyD(1)[OF keepsD(2)[OF nw(1)]], of ?w] by simp
  have "is_write_once ?w u" by (rule is_write_once_mono[OF step_okD(2)[OF st] nw(3)])
  then have "\<forall>p \<in> set ?ps. fst p < length (cells ?w) \<and> callback_ok ?w (snd p)"
    using ok world_le_length[OF step_okD(2)[OF keepsD(1)[OF nw(1)]]] by (auto simp: task_ok_def)
  from other_work_await_each[OF w3 step_okD(1)[OF st] this, of c] have "other_work c w3 = other_work c ?w" .
  moreover have "other_work c ?w = other_work c w1" by (rule other_work_same) simp_all
  ultimately have "other_work c w' = other_work c w" unfolding w' other_work_new_cell by (simp add: other_work_new[OF n])
  moreover have "\<forall>d \<in> set ?cs. d < length (cells w)" using ok by (simp add: task_ok_def)
  ultimately show ?thesis using when_all_new_step(3)[OF livelyD(1)[OF l] _ a] by (simp add: work_def del: mset_map)
qed

lemma timer_work:
  assumes l: "lively w" and r: "timer_after d w = (t, w')"
  shows "work c w' = work c w + 1"
proof -
  obtain a w1 where n: "write_once_new w = (a, w1)" by (cases "write_once_new w")
  note nw = new_write_once[OF l n]
  have w': "w' = w1\<lparr>timers := tps_schedule d (CompleteTimer a) (timers w1)\<rparr>"
    using r n by (auto simp: timer_after_def value_source_new_def value_source_create_def)
  have "tps_inv (timers w1)" by (rule sources_invD(1)[OF livelyD(1)[OF keepsD(2)[OF nw(1)]]])
  from tps_schedule_correct(2)[OF this, of d "CompleteTimer a"] have "other_work c w' = other_work c w1 + 1" by (simp add: other_work_def w')
  moreover have "callback_tokens w' = callback_tokens w1" by (simp add: w' callback_tokens_def pending_def queued_def)
  ultimately show ?thesis using nw(7) by (simp add: work_def other_work_new[OF n])
qed

lemma read_work:
  assumes l: "lively w" and r: "io_read env fd req w = (t, w')"
  shows "work c w' = work c w + 1"
proof -
  obtain a w1 where n: "write_once_new w = (a, w1)" by (cases "write_once_new w")
  note nw = new_write_once[OF l n]
  obtain cbs os where w': "w' = w1\<lparr>io_source := (io_source w1)\<lparr>in_flight_requests := in_flight_requests (io_source w1)
      @ [(a, \<lparr>in_flight_read = req, control_block = length (aiocbs w1)\<rparr>)]\<rparr>, aiocbs := cbs, os_state := os\<rparr>"
    using r n by (auto simp: io_read_def value_source_create_def value_source_new_def queue_read_def
        enqueue_and_start_read_def Let_def split: prod.splits)
  have "other_work c w' = other_work c w1 + 1" by (simp add: other_work_def w')
  moreover have "callback_tokens w' = callback_tokens w1" by (simp add: w' callback_tokens_def pending_def queued_def)
  ultimately show ?thesis using nw(7) by (simp add: work_def other_work_new[OF n])
qed

lemma source_work:
  assumes "lively w" "factory_value_source w = (s, w')"
  shows "work c w' = work c w"
proof -
  have n: "write_once_new w = (source_cell s, w')" using assms(2) by (auto simp: factory_value_source_def value_source_new_def split: prod.splits)
  show ?thesis using new_write_once(7)[OF assms(1) n] by (simp add: work_def other_work_new[OF n])
qed

subsection \<open>Programs\<close>

text \<open>The cost of a call, the callbacks of a combination being counted when its tasks are listed.\<close>

fun call_cost :: "('f \<Rightarrow> nat) \<Rightarrow> ('f, 'a) call \<Rightarrow> nat" where
  "call_cost c (MapWith f) = 1 + c f"
| "call_cost c (BindWith f) = 1 + c f"
| "call_cost c (ReadFile fd i) = 1"
| "call_cost c IntoList = 1"
| "call_cost c _ = 0"

lemma exec_work:
  assumes run: "live_run env K U w" and env: "live_env env" and st: "stands s l K U w" and r: "exec env x l w = Some (l', w')"
  shows "work c w' + length (listed l') \<le> work c w + length (listed l) + call_cost c x"
proof -
  note sv = live_run_served[OF run env]
  have l: "lively w" using sv by blast
  note inv = livelyD(1)[OF l]
  have ok: "task_ok w t" if "relied K t" for t using sv that coming_in_range by (auto simp: task_ok_def)
  have listed: "\<forall>t \<in> set (listed l). task_ok w t" using standsD(10)[OF st] ok by blast
  have filling: "work c (snd (write_result_to_value ctx_empty v (source_cell (sources l ! i)) w)) = work c w" if "i < length (sources l)" for i v
    using work_write[OF inv ctx_empty_ok standsD(5)[OF st]] that by simp
  show ?thesis
  proof (cases x)
    case NewSource
    then show ?thesis using r source_work[OF l, of _ w' c] by (auto split: prod.splits)
  next
    case (NewRequest junk n off)
    then obtain heap where "w' = w\<lparr>buffers := heap\<rparr>" "listed l' = listed l" using r by (auto split: prod.splits)
    moreover have "work c (w\<lparr>buffers := heap\<rparr>) = work c w" by (rule work_same) (simp_all add: callback_tokens_def pending_def queued_def other_work_def)
    ultimately show ?thesis by simp
  next
    case (ReadFile fd i)
    then show ?thesis using r read_work[OF l, of env fd _ _ w' c] by (auto split: prod.splits if_splits)
  next
    case (MapWith f)
    then obtain t t1 where t: "expr l = Some t" "task_map f t w = Some (t1, w')" "l' = l\<lparr>expr := Some t1\<rparr>" using r by (auto simp: bind_eq_Some_conv)
    show ?thesis using map_work[OF l ok[OF standsD(9)[OF st t(1)]] t(2), of c] t(3) MapWith by simp
  next
    case (BindWith f)
    then obtain t t1 where t: "expr l = Some t" "task_bind f t w = Some (t1, w')" "l' = l\<lparr>expr := Some t1\<rparr>" using r by (auto simp: bind_eq_Some_conv)
    show ?thesis using bind_task_work[OF l ok[OF standsD(9)[OF st t(1)]] t(2), of c] t(3) BindWith by simp
  next
    case WhenAnyOf
    then obtain t where t: "factory_when_any (listed l) w = Some (t, w')" "l' = l\<lparr>expr := Some t, listed := []\<rparr>" using r by auto
    show ?thesis using when_any_work[OF l listed t(1), of c] t(2) WhenAnyOf by simp
  next
    case WhenAllOf
    then obtain t where t: "factory_when_all (listed l) w = Some (t, w')" "l' = l\<lparr>expr := Some t, listed := []\<rparr>" using r by auto
    show ?thesis using when_all_work[OF l listed t(1), of c] t(2) WhenAllOf by simp
  qed (use r filling in \<open>auto simp: write_defs split: if_splits\<close>)
qed

text \<open>The runs of a program with the calls made and the jobs run so far.\<close>

inductive counted_run ::
  "('f, 'a, 'os) environment \<Rightarrow> int \<Rightarrow> ('f, 'a) call list \<Rightarrow> nat \<Rightarrow> 'a locals \<Rightarrow> ('f, 'a, 'os) world \<Rightarrow> nat \<Rightarrow> bool"
  for env n_workers P where
  start: "clock_range now \<Longrightarrow> counted_run env n_workers P 0 no_locals (snd (factory_new now n_workers s)) 0"
| exec: "counted_run env n_workers P k l w m \<Longrightarrow> k < length P \<Longrightarrow> \<not> thrown l \<Longrightarrow> exec env (P ! k) l w = Some (l', w') \<Longrightarrow>
    counted_run env n_workers P (Suc k) l' w' (Suc m)"
| turn: "counted_run env n_workers P k l w m \<Longrightarrow> i < length (workers (pool w)) \<Longrightarrow> worker_turn env i rnd w = Some w' \<Longrightarrow>
    counted_run env n_workers P k l w' (if runs_job i w then Suc m else m)"
| poll: "counted_run env n_workers P k l w m \<Longrightarrow> clock_range now \<Longrightarrow> counted_run env n_workers P k l (poll_source env now src w) m"
| os: "counted_run env n_workers P k l w m \<Longrightarrow> counted_run env n_workers P k l (w\<lparr>buffers := b, os_state := s\<rparr>) m"

lemma counted_is_run: "counted_run env n P k l w m \<Longrightarrow> program_run env n P k l w"
  by (induction rule: counted_run.induct) (blast intro: program_run.intros)+

lemma counted_run_bound:
  assumes run: "counted_run env n P k l w m" and env: "live_env env" "bounded_env c env" and S: "check_calls P no_status = Some S"
  shows "m + work c w + length (listed l) \<le> k + sum_list (map (call_cost c) (take k P))"
  using run
proof (induction rule: counted_run.induct)
  case (start now s)
  show ?case by (simp add: no_locals_def work_def other_work_def callback_tokens_def pending_def queued_def factory_new_def create_scheduler_def
      split_def Let_def pool_new_correct jobs_left_def held_def tps_new_dues io_new_def)
next
  case (exec k l w m l' w')
  obtain K U s where p: "live_run env K U w" "stands s l K U w"
    using program_stands[OF counted_is_run[OF exec(1)] env(1) S] by blast
  from exec_work[OF p(1) env(1) p(2) exec(4), of c] exec(2,5) show ?case by (simp add: take_Suc_conv_app_nth)
next
  case (turn k l w m i rnd w')
  obtain K U s where p: "live_run env K U w" using program_stands[OF counted_is_run[OF turn(1)] env(1) S] by blast
  then have "lively w" using live_run_served[OF _ env(1)] by blast
  from worker_turn_work[OF this env turn(2,3)] turn(4) show ?case by (auto split: if_splits)
next
  case (poll k l w m now src)
  obtain K U s where p: "live_run env K U w" using program_stands[OF counted_is_run[OF poll(1)] env(1) S] by blast
  then have "lively w" using live_run_served[OF _ env(1)] by blast
  from poll_work[OF this poll(2), of c env src] poll(3) show ?case by simp
next
  case (os k l w m b s)
  have "work c (w\<lparr>buffers := x, os_state := y\<rparr>) = work c w" for x y
    by (rule work_same) (simp_all add: callback_tokens_def pending_def queued_def other_work_def)
  then show ?case using os(2) by simp
qed

lemma counted_run_total:
  assumes run: "counted_run env n P k l w m" and env: "live_env env" "bounded_env c env" and S: "\<exists>S. check_calls P no_status = Some S"
  shows "m \<le> length P + sum_list (map (call_cost c) P)"
proof -
  obtain S where S: "check_calls P no_status = Some S" using S by blast
  have k: "k \<le> length P" by (rule program_run_length[OF counted_is_run[OF run]])
  have "sum_list (map (call_cost c) P) = sum_list (map (call_cost c) (take k P)) + sum_list (map (call_cost c) (drop k P))"
    by (metis append_take_drop_id map_append sum_list_append)
  then show ?thesis using counted_run_bound[OF run env S] k by simp
qed

end
