(* ===== verification/Bounded_Examples.thy ===== *)
theory Bounded_Examples
  imports Live_Examples Bounded_Programs
begin

text \<open>
  The examples run a bounded number of jobs, each known from the text of its \<open>main\<close>; since they
  also never hang, they finish on every schedule that lets workers take jobs and timers and reads
  fire.
\<close>

subsection \<open>The work of their closures\<close>

text \<open>What \<open>delay_by\<close> returns asks for a timer and maps it.\<close>

fun example_cost :: "'a example_fn \<Rightarrow> nat" where
  "example_cost (DelayBy amount) = 2"
| "example_cost _ = 0"

lemma apply_delay_work:
  assumes l: "lively w" and r: "apply_delay f v w = Some (t, w')"
  shows "work example_cost w' \<le> work example_cost w + example_cost f"
proof -
  obtain d where f: "f = DelayBy d" using r by (cases f) auto
  obtain t1 w1 where t1: "timer_after d w = (t1, w1)" by (cases "timer_after d w")
  then have m: "task_map (Constant v) t1 w1 = Some (t, w')" using r f by (simp add: delay_by_def)
  have "task_ok w1 t1" by (rule timer_after_step(2)[OF livelyD(1)[OF l] t1])
  from map_work[OF keepsD(2)[OF timer_waiting(1)[OF l t1]] this m, of example_cost] timer_work[OF l t1, of example_cost]
  show ?thesis by (simp add: f)
qed

lemma int_env_bounded: "bounded_env example_cost int_env"
  unfolding bounded_env_def
proof (intro conjI allI impI)
  fix f x and w w' :: "(int example_fn, int, unit) world" and t
  assume "lively w" "bind_fn int_env f x w = Some (t, w')"
  then show "work example_cost w' \<le> work example_cost w + example_cost f" using apply_delay_work[of w f x t w'] by (simp add: int_env_def)
qed (auto simp: int_env_def)

lemma io_env_bounded: "bounded_env example_cost (io_env er rd)"
  unfolding bounded_env_def
proof (intro conjI allI impI)
  fix f x and w w' :: "(unit example_fn, unit, byte list list) world" and v t
  assume l: "lively w"
  show "work example_cost w' \<le> work example_cost w + example_cost f" if "call_fn (io_env er rd) f w = Some (v, w')"
    using that by (simp add: io_env_def)
  show "work example_cost w' \<le> work example_cost w + example_cost f" if m: "map_fn (io_env er rd) f x w = Some (v, w')"
  proof -
    have "\<exists>s. w' = w\<lparr>os_state := s\<rparr>"
      using m by (cases "(f, x)" rule: io_map_type.cases; cases x) (auto simp: io_env_def intro: exI[of _ "os_state w"])
    then obtain s where w': "w' = w\<lparr>os_state := s\<rparr>" by blast
    have "work example_cost w' = work example_cost w"
      by (rule work_same) (simp_all add: w' callback_tokens_def pending_def queued_def other_work_def)
    then show ?thesis by simp
  qed
  show "work example_cost w' \<le> work example_cost w + example_cost f" if "bind_fn (io_env er rd) f x w = Some (t, w')"
    using apply_delay_work[OF l, of f x t w'] that by (simp add: io_env_def)
qed

subsection \<open>The number of calls and jobs\<close>

lemma run_is_counted: "program_run env n P k l w \<Longrightarrow> \<exists>m. counted_run env n P k l w m"
  by (induction rule: program_run.induct) (blast intro: counted_run.intros)+

lemma example_costs:
  "length error_main + sum_list (map (call_cost example_cost) error_main) = 40"
  "length main_main + sum_list (map (call_cost example_cost) main_main) = 93"
  "length (io_main junk fileno) + sum_list (map (call_cost example_cost) (io_main junk fileno)) = 11"
  by (simp_all add: error_main_def error_tasks_def main_main_def when_any_computation_def when_all_computation_def io_main_def)

text \<open>
  C11: The examples are over after finitely much work: in every run the calls made and the jobs run
  are at most 40 for the error example, 93 for the main example and 11 for the I/O example, however
  often workers and poll thread come round.
\<close>

theorem examples_do_bounded_work:
  "(counted_run int_env 3 error_main k l w m \<longrightarrow> m \<le> 40)
    \<and> (counted_run int_env 3 main_main k l w m \<longrightarrow> m \<le> 93)
    \<and> (counted_run (io_env aio_error aio_read) 3 (io_main junk fileno) k' l' w' m' \<longrightarrow> m' \<le> 11)"
  using counted_run_total[OF _ int_env_live int_env_bounded examples_checked(1)] counted_run_total[OF _ int_env_live int_env_bounded examples_checked(2)]
    counted_run_total[OF _ io_env_live io_env_bounded examples_checked(3)] unfolding example_costs by blast

theorem examples_do_bounded_work_witness:
  "\<exists>l w m. counted_run int_env 3 error_main 26 l w m \<and> m \<le> 40"
proof -
  have "length error_main = 28" by (simp add: error_main_def error_tasks_def)
  moreover have "\<forall>j < 26. \<not> is_block (error_main ! j)" by (simp add: error_main_def error_tasks_def All_less_Suc numeral_eq_Suc)
  ultimately obtain l w where "program_run int_env 3 error_main 26 l w"
    using reaches_block[OF int_env_live examples_checked(1), of 26 3] by auto
  from run_is_counted[OF this] obtain m where "counted_run int_env 3 error_main 26 l w m" ..
  with examples_do_bounded_work[of 26 l w m] show ?thesis by blast
qed

end
