(* ===== verification/Finished_Examples.thy ===== *)
theory Finished_Examples
  imports Source_Free Bounded_Examples
begin

text \<open>
  The examples come to their end. Every worker that takes a job comes back; so calls and turns of
  the workers alone bring a program to its end, or to a \<open>block\<close> with no job left and a timer or
  a read under way, or to where the poll thread has jobs to queue. The error example uses no timers
  and no reads, so it always finishes.
\<close>

subsection \<open>Calls and turns\<close>

inductive program_step ::
  "('f, 'a, 'os) environment \<Rightarrow> ('f, 'a) call list \<Rightarrow> nat \<times> 'a locals \<times> ('f, 'a, 'os) world
    \<Rightarrow> nat \<times> 'a locals \<times> ('f, 'a, 'os) world \<Rightarrow> bool"
  for env P where
  call: "k < length P \<Longrightarrow> \<not> thrown l \<Longrightarrow> exec env (P ! k) l w = Some (l', w') \<Longrightarrow> program_step env P (k, l, w) (Suc k, l', w')"
| turn: "i < length (workers (pool w)) \<Longrightarrow> worker_turn env i rnd w = Some w' \<Longrightarrow> program_step env P (k, l, w) (k, l, w')"

lemma program_step_run:
  "program_step env P (k, l, w) (k', l', w') \<Longrightarrow> program_run env n P k l w \<Longrightarrow> program_run env n P k' l' w'"
  by (erule program_step.cases) (auto intro: program_run.intros)

lemma program_steps_run:
  "(program_step env P)\<^sup>*\<^sup>* s s' \<Longrightarrow> (case s of (k, l, w) \<Rightarrow> program_run env n P k l w) \<Longrightarrow>
   (case s' of (k, l, w) \<Rightarrow> program_run env n P k l w)"
  by (induction rule: rtranclp_induct) (auto intro: program_step_run)

text \<open>Programs that pass both checks of their text, with user functions as the checks assume.\<close>

definition good_program :: "('f, 'a) signature \<Rightarrow> ('f \<Rightarrow> nat) \<Rightarrow> ('f, 'a, 'os) environment \<Rightarrow> ('f, 'a) call list \<Rightarrow> bool" where
  "good_program G c env P \<longleftrightarrow> live_env env \<and> well_typed_env G env \<and> returning_env G env \<and> bounded_env c env
     \<and> (\<exists>S. check_calls P no_status = Some S) \<and> (\<exists>src T. infer_all G src P no_types = Some T)"

lemma good_programD:
  assumes "good_program G c env P" "program_run env n P k l w"
  shows "\<not> thrown l" "k \<le> length P" "runs_on env P k l w" "lively w" "length (workers (pool w)) = nat (n mod 4294967296)"
    "i < length (workers (pool w)) \<Longrightarrow> worker_turn env i rnd w \<noteq> None" "hands_ok w"
proof -
  from assms(1) obtain S src T where live: "live_env env" "check_calls P no_status = Some S"
    and types: "well_typed_env G env" "infer_all G src P no_types = Some T" and ret: "returning_env G env"
    by (auto simp: good_program_def)
  show "\<not> thrown l" by (rule program_sound(1)[OF assms(2) types])
  show "k \<le> length P" by (rule program_run_length[OF assms(2)])
  show "runs_on env P k l w" using checked_runs_on[OF live(1) _ assms(2)] live(2) by blast
  show "lively w" using program_stands[OF assms(2) live] live_run_served[OF _ live(1)] by blast
  show "length (workers (pool w)) = nat (n mod 4294967296)" by (rule program_workers[OF assms(2) live])
  show "i < length (workers (pool w)) \<Longrightarrow> worker_turn env i rnd w \<noteq> None"
    by (rule program_jobs_return[OF assms(2) live types ret])
  show "hands_ok w" using program_stands[OF assms(2) live] live_run_hands[OF _ live(1)] by blast
qed

text \<open>Jobs are in the queues or in hands; a job in a worker's hands is run in one turn, another in two.\<close>

lemma good_run:
  assumes good: "good_program G c env P" and run: "counted_run env n P k l w m"
    and i: "i < length (workers (pool w))" "map_of (at_hand w) i \<noteq> None"
  obtains w' where "program_step env P (k, l, w) (k, l, w')" "counted_run env n P k l w' (Suc m)"
proof -
  note g = good_programD[OF good counted_is_run[OF run]]
  obtain w' where t: "worker_turn env i 0 w = Some w'" using g(6)[OF i(1)] by blast
  have "counted_run env n P k l w' (Suc m)" using counted_run.turn[OF run i(1) t] i(2) by (simp add: runs_job_def)
  from that[OF program_step.turn[OF i(1) t] this] show thesis .
qed

lemma good_turn:
  assumes good: "good_program G c env P" and n: "0 < n mod 4294967296" and run: "counted_run env n P k l w m"
    and ne: "jobs_left w \<noteq> {#}" "polled w = []"
  obtains w' where "(program_step env P)\<^sup>*\<^sup>* (k, l, w) (k, l, w')" "counted_run env n P k l w' (Suc m)"
proof (cases "at_hand w")
  case (Cons h hs)
  note g = good_programD[OF good counted_is_run[OF run]]
  have "fst h < length (workers (pool w))" using hands_okD[OF g(7), of "fst h" "snd h"] Cons by simp
  moreover have "map_of (at_hand w) (fst h) \<noteq> None" using Cons by (simp add: map_of_eq_None_iff)
  ultimately show ?thesis using good_run[OF good run] that by (metis (no_types) r_into_rtranclp)
next
  case Nil
  note g = good_programD[OF good counted_is_run[OF run]]
  note inv = world_invD(1)[OF livelyD(1)[OF g(4)]]
  have i: "0 < length (workers (pool w))" using g(5) n by simp
  have "pool_jobs (pool w) \<noteq> {#}" using ne Nil by (simp add: jobs_left_def held_def)
  then obtain j p where p: "worker_next 0 0 (pool w) = (Some j, p)"
    using worker_next_correct[OF inv i, of 0] by (cases "worker_next 0 0 (pool w)"; cases "fst (worker_next 0 0 (pool w))") auto
  let ?w = "fetch_job 0 0 w"
  have t: "worker_turn env 0 0 w = Some ?w" by (simp add: worker_turn_def Nil)
  have "counted_run env n P k l ?w m" using counted_run.turn[OF run i t] by (simp add: runs_job_def Nil)
  moreover have "0 < length (workers (pool ?w))" using fetch_job_hands_over[OF inv i] i by (simp add: hands_over_def)
  moreover have "map_of (at_hand ?w) 0 \<noteq> None" by (simp add: fetch_job_def p)
  ultimately obtain w' where w': "program_step env P (k, l, ?w) (k, l, w')" "counted_run env n P k l w' (Suc m)"
    using good_run[OF good] by blast
  have "program_step env P (k, l, w) (k, l, ?w)" by (rule program_step.turn[OF i t])
  from that[OF converse_rtranclp_into_rtranclp[where r = "program_step env P", OF this
      r_into_rtranclp[where r = "program_step env P", OF w'(1)]] w'(2)] show thesis .
qed

text \<open>Where a program stops if only it and the workers go on.\<close>

definition at_rest :: "('f, 'a) call list \<Rightarrow> nat \<Rightarrow> ('f, 'a, 'os) world \<Rightarrow> bool" where
  "at_rest P k w \<longleftrightarrow> k = length P \<or> polled w \<noteq> []
     \<or> k < length P \<and> is_block (P ! k) \<and> jobs_left w = {#} \<and> \<not> source_free w"

lemma good_program_goes_on:
  assumes good: "good_program G c env P" and n: "0 < n mod 4294967296"
  shows "counted_run env n P k l w m \<Longrightarrow> \<exists>k' l' w'. (program_step env P)\<^sup>*\<^sup>* (k, l, w) (k', l', w') \<and> at_rest P k' w'"
proof (induction "length P + sum_list (map (call_cost c) P) - m" arbitrary: k l w m rule: less_induct)
  case less
  let ?N = "length P + sum_list (map (call_cost c) P)"
  note run = counted_is_run[OF less.prems]
  note g = good_programD[OF good run]
  have more: "\<exists>k' l' w'. (program_step env P)\<^sup>*\<^sup>* (k, l, w) (k', l', w') \<and> at_rest P k' w'"
    if st: "(program_step env P)\<^sup>*\<^sup>* (k, l, w) (k2, l2, w2)" and c: "counted_run env n P k2 l2 w2 (Suc m)" for k2 l2 w2
  proof -
    have "Suc m \<le> ?N" using counted_run_total[OF c] good by (auto simp: good_program_def)
    then have "?N - Suc m < ?N - m" by simp
    from less.hyps[OF this c] obtain k' l' w' where s: "(program_step env P)\<^sup>*\<^sup>* (k2, l2, w2) (k', l', w')"
      "at_rest P k' w'" by blast
    from rtranclp_trans[OF st s(1)] s(2) show ?thesis by blast
  qed
  consider (call) l' w' where "k < length P" "exec env (P ! k) l w = Some (l', w')"
    | (none) "k = length P \<or> exec env (P ! k) l w = None" "polled w \<noteq> [] \<or> jobs_left w = {#}"
    | (job) "jobs_left w \<noteq> {#}" "polled w = []"
    using g(2) by (cases "k = length P"; cases "exec env (P ! k) l w") auto
  then show ?case
  proof cases
    case (call l' w')
    from more[OF r_into_rtranclp[where r = "program_step env P", OF program_step.call[OF call(1) g(1) call(2)]]
        counted_run.exec[OF less.prems call(1) g(1) call(2)]] show ?thesis .
  next
    case none
    then have "at_rest P k w"
      using g(2,3) by (auto simp: at_rest_def runs_on_def waits_rightly_def idle_def source_free_def)
    then show ?thesis by blast
  next
    case job
    obtain w' where "(program_step env P)\<^sup>*\<^sup>* (k, l, w) (k, l, w')" "counted_run env n P k l w' (Suc m)"
      using good_turn[OF good n less.prems job] .
    then show ?thesis by (rule more)
  qed
qed

subsection \<open>The closures of the examples return\<close>

lemma delay_by_returns:
  assumes l: "lively w"
  shows "delay_by amount v w \<noteq> None"
proof -
  obtain t w1 where t: "timer_after amount w = (t, w1)" by (cases "timer_after amount w")
  from map_returns[OF keepsD(2)[OF timer_waiting(1)[OF l t]] timer_waiting(2)[OF l t]] show ?thesis by (auto simp: delay_by_def t)
qed

lemma apply_delay_returns: "lively w \<Longrightarrow> is_DelayBy f \<Longrightarrow> apply_delay f v w \<noteq> None"
  by (cases f) (simp_all add: delay_by_returns)

lemma int_env_returns: "returning_env int_types int_env"
  by (auto simp: returning_env_def int_types_def int_env_def dest: apply_delay_returns simp del: not_None_eq)

lemma io_env_returns: "returning_env io_types (io_env er rd)"
proof -
  have "io_map f v w \<noteq> None" if "io_map_takes f v" for f and v :: "unit val" and w :: "('g, unit, byte list list) world"
    using that by (cases "(f, v)" rule: io_map_takes.cases) auto
  then show ?thesis
    by (auto simp: returning_env_def io_types_def io_env_def dest: apply_delay_returns simp del: not_None_eq)
qed

lemma good_examples:
  "good_program int_types example_cost int_env error_main"
  "good_program int_types example_cost int_env main_main"
  "good_program io_types example_cost (io_env er rd) (io_main junk fileno)"
proof -
  obtain A B C where T: "infer_all int_types error_sources error_main no_types = Some A"
    "infer_all int_types (\<lambda>i. {Value (Plain 100)}) main_main no_types = Some B"
    "infer_all io_types (\<lambda>i. {}) (io_main junk fileno) no_types = Some C"
    using error_main_types main_main_types io_main_types[of junk fileno] by blast
  note envs = int_env_live int_env_typed int_env_returns int_env_bounded io_env_live io_env_typed io_env_returns io_env_bounded
  show "good_program int_types example_cost int_env error_main" unfolding good_program_def by (intro conjI envs examples_checked, rule exI, rule exI, rule T(1))
  show "good_program int_types example_cost int_env main_main" unfolding good_program_def by (intro conjI envs examples_checked, rule exI, rule exI, rule T(2))
  show "good_program io_types example_cost (io_env er rd) (io_main junk fileno)" unfolding good_program_def by (intro conjI envs examples_checked, rule exI, rule exI, rule T(3))
qed

lemma example_goes_on:
  assumes "good_program G c env P" "program_run env 3 P k l w"
  obtains k' l' w' where "(program_step env P)\<^sup>*\<^sup>* (k, l, w) (k', l', w')" "program_run env 3 P k' l' w'"
    "at_rest P k' w'"
proof -
  obtain m where c: "counted_run env 3 P k l w m" using run_is_counted[OF assms(2)] ..
  have n: "0 < (3::int) mod 4294967296" by simp
  obtain k' l' w' where s: "(program_step env P)\<^sup>*\<^sup>* (k, l, w) (k', l', w')"
    "at_rest P k' w'"
    using good_program_goes_on[OF assms(1) n c] by blast
  from program_steps_run[OF s(1), of 3] assms(2) have "program_run env 3 P k' l' w'" by simp
  from that[OF s(1) this s(2)] show thesis .
qed

subsection \<open>The error example uses no timers and no reads\<close>

definition map_types :: "(int example_fn, int) signature" where
  "map_types = int_types\<lparr>bind_dom := (\<lambda>f v. False)\<rparr>"

lemma int_env_map_typed: "well_typed_env map_types int_env"
  unfolding well_typed_env_def
proof (intro conjI allI impI)
  fix f x and w w' :: "(int example_fn, int, unit) world" and t
  assume "bind_fn int_env f x w = Some (t, w')"
  then show "\<exists>\<Delta> S. (typed_client map_types int_env)\<^sup>*\<^sup>* (Map.empty, w) (\<Delta>, w') \<and> task_type \<Delta> t = Some S
      \<and> S \<subseteq> bind_type map_types f x"
    by (intro apply_delay_typed) (simp_all add: map_types_def int_types_def int_env_def)
qed (auto simp: int_env_def int_types_def map_types_def)

lemma error_main_map_types: "\<exists>T. infer_all map_types error_sources error_main no_types = Some T"
  by (auto simp add: error_main_def error_tasks_def no_types_def map_types_def outcome_defs error_sources_def simp del: apply_linear.simps)

lemma error_example_source_free:
  assumes "program_run int_env n error_main k l w"
  shows "source_free w"
proof -
  obtain T where T: "infer_all map_types error_sources error_main no_types = Some T" using error_main_map_types ..
  have "functions_keep same_sources map_types int_env" by (auto simp: functions_keep_def map_types_def int_types_def int_env_def)
  moreover have "\<forall>c \<in> set error_main. \<not> is_read c" by (simp add: error_main_def error_tasks_def)
  ultimately show ?thesis using program_source_free[OF assms int_env_map_typed T] by blast
qed

lemma error_example_ends:
  assumes "program_run int_env 3 error_main k l w"
  obtains l' w' where "(program_step int_env error_main)\<^sup>*\<^sup>* (k, l, w) (length error_main, l', w')"
    "program_run int_env 3 error_main (length error_main) l' w'"
proof (rule example_goes_on[OF good_examples(1) assms])
  fix k' l' w' assume s: "(program_step int_env error_main)\<^sup>*\<^sup>* (k, l, w) (k', l', w')"
    "program_run int_env 3 error_main k' l' w'" "at_rest error_main k' w'"
  then have "k' = length error_main"
    using error_example_source_free[OF s(2)] by (auto simp: at_rest_def source_free_def)
  then show thesis using that s(1,2) by simp
qed

lemma error_example_result:
  assumes "program_run int_env 3 error_main k l w"
  shows "\<not> thrown l \<and> (k = length error_main \<longrightarrow> (\<exists>x \<in> {105, 405}. shown l = [Value (Plain x), Err Rejected]))"
proof -
  obtain T where T: "infer_all int_types error_sources error_main no_types = Some T"
    "shown_types T = [Value ` Plain ` {105, 405}, {Err Rejected}]" using error_main_types by blast
  note sound = program_sound[OF assms int_env_typed T(1)]
  have "\<exists>x \<in> {105, 405}. shown l = [Value (Plain x), Err Rejected]" if "k = length error_main"
    using sound(2)[OF that] by (auto simp: T(2) list_all2_Cons2)
  then show ?thesis using sound(1) by blast
qed

lemma example_start: "program_run env n P 0 no_locals (snd (factory_new 0 n s))"
  by (rule program_run.start) (simp add: clock_range_def)

subsection \<open>Properties\<close>

text \<open>
  C26: However workers and poll thread interleave with the error example, \<open>std::get\<close> never throws
  in it, and once it is over it has shown \<open>105\<close> or \<open>405\<close> for the \<open>when_any\<close>, never the error of
  the rejected source, and \<open>Rejected\<close> for the \<open>when_all\<close>.
\<close>

theorem error_example_shows:
  assumes "program_run int_env 3 error_main k l w"
  shows "\<not> thrown l \<and> (k = length error_main \<longrightarrow> (\<exists>x \<in> {105, 405}. shown l = [Value (Plain x), Err Rejected]))"
  by (rule error_example_result[OF assms])

theorem error_example_shows_witness:
  "\<exists>l w. program_run int_env 3 error_main (length error_main) l w \<and> (\<exists>x \<in> {105, 405}. shown l = [Value (Plain x), Err Rejected])"
proof -
  obtain l w where r: "program_run int_env 3 error_main (length error_main) l w"
    by (rule error_example_ends[OF example_start])
  with error_example_shows[OF r] show ?thesis by blast
qed

text \<open>
  C12: The error example always finishes: from every point of every run there are calls of \<open>main\<close>
  and turns of the workers that bring it to its end, with its two results shown.
\<close>

theorem error_example_finishes:
  assumes "program_run int_env 3 error_main k l w"
  shows "\<exists>l' w'. (program_step int_env error_main)\<^sup>*\<^sup>* (k, l, w) (length error_main, l', w')
    \<and> (\<exists>x \<in> {105, 405}. shown l' = [Value (Plain x), Err Rejected])"
proof -
  obtain l' w' where s: "(program_step int_env error_main)\<^sup>*\<^sup>* (k, l, w) (length error_main, l', w')"
    "program_run int_env 3 error_main (length error_main) l' w'" by (rule error_example_ends[OF assms])
  with error_example_result[OF s(2)] show ?thesis by blast
qed

theorem error_example_finishes_witness:
  "\<exists>l' w'. (program_step int_env error_main)\<^sup>*\<^sup>* (0, no_locals, snd (factory_new 0 3 ())) (length error_main, l', w')"
  using error_example_finishes[OF example_start] by blast

text \<open>
  C15: In every run of the error, main and I/O examples every job returns: a worker that takes its
  turn comes back from it, with or without a job, whatever the cells that the job touches look
  like; no user function is called with something it is not defined on, no empty function is
  called, and no chain of tracking cells is followed for ever.
\<close>

theorem example_jobs_return:
  "(program_run int_env 3 error_main k l w \<and> i < length (workers (pool w)) \<longrightarrow> worker_turn int_env i rnd w \<noteq> None)
    \<and> (program_run int_env 3 main_main k l w \<and> i < length (workers (pool w)) \<longrightarrow> worker_turn int_env i rnd w \<noteq> None)
    \<and> (program_run (io_env aio_error aio_read) 3 (io_main junk fileno) k' l' v \<and> i < length (workers (pool v)) \<longrightarrow>
        worker_turn (io_env aio_error aio_read) i rnd v \<noteq> None)"
  by (intro conjI impI; elim conjE)
    (rule good_programD(6)[OF good_examples(1)] good_programD(6)[OF good_examples(2)] good_programD(6)[OF good_examples(3)]; assumption)+

text \<open>All calls made, and a worker about to take a job.\<close>

theorem example_jobs_return_witness:
  "\<exists>l w. program_run int_env 3 error_main 26 l w \<and> worker_turn int_env 2 0 w \<noteq> None"
proof -
  have "length error_main = 28" by (simp add: error_main_def error_tasks_def)
  moreover have "\<forall>j < 26. \<not> is_block (error_main ! j)" by (simp add: error_main_def error_tasks_def All_less_Suc numeral_eq_Suc)
  ultimately obtain l w where r: "program_run int_env 3 error_main 26 l w"
    using reaches_block[OF int_env_live examples_checked(1), of 26 3] by auto
  have "2 < length (workers (pool w))" using good_programD(5)[OF good_examples(1) r] by simp
  with example_jobs_return r show ?thesis by blast
qed

end
