(* ===== verification/Timed_Examples.thy ===== *)
theory Timed_Examples
  imports Finished_Examples
begin

text \<open>
  The examples with timers and reads come to their end too, once time passes and the operating
  system answers: at a \<open>block\<close> with no job left, a poll that comes late enough hands out every timer,
  and one that finds the reads completed hands out every read.
\<close>

subsection \<open>Polls that bring jobs\<close>

text \<open>The wheels hold nothing that is further away than all of them together, eleven days.\<close>

lemma tps_dues_small:
  assumes inv: "tps_inv s" and p: "p \<in># tps_dues s"
  shows "fst p < 19081200"
proof -
  let ?ws = "wheels (tps_wheel s)"
  have shape: "tps_shape ?ws" using inv by (simp add: tps_inv_def)
  note sh = tps_shapeD[OF shape]
  obtain k b e where k: "k < length ?ws" and b: "b < length (buckets (?ws ! k))" and e: "e \<in> set (buckets (?ws ! k) ! b)"
    and d: "fst p = due ?ws (length ?ws) k b (tick_offset_into_bucket e)"
    using p by (auto simp: tps_dues_def dues_def dues_pending_def bag_def entries_def set_mset_sum)
  note ok = wheels_okD[OF sh(1) k]
  have off: "tick_offset_into_bucket e < ticks_per_bucket (?ws ! k)" using ok(7) b ok(3) e by simp
  have rel: "ring_dist (num_buckets (?ws ! k)) (curr_bucket_index (?ws ! k)) b < num_buckets (?ws ! k)"
    using ring_dist_less ok(2,3) b by simp
  have "wheel_base ?ws 3 = 73200" "wheel_base ?ws 2 = 1200" "wheel_base ?ws 1 = 0"
    using sh(8,9) by (simp_all add: wheel_base_def numeral_3_eq_3 numeral_2_eq_2)
  moreover have "k = 0 \<or> k = 1 \<or> k = 2 \<or> k = 3" using k sh(2) by auto
  ultimately show ?thesis using sh(2-10) off rel k unfolding d by (auto simp: due_def Let_def)
qed

definition wheel_time :: int where
  "wheel_time = 19081200 * 50000000"

lemma late_poll:
  assumes inv: "tps_inv s" and ne: "tps_dues s \<noteq> {#}" and now: "now = tps_last s + wheel_time" "clock_range now"
  shows "fst (tps_poll now s) \<noteq> []" "tps_last (snd (tps_poll now s)) = now"
proof -
  note poll = tps_poll_correct[OF inv now(2)]
  have "tps_ticks now s = 19081200" by (simp add: tps_ticks_def now(1) wheel_time_def tps_last_def)
  moreover have "filter_mset (\<lambda>p. fst p < 19081200) (tps_dues s) = tps_dues s"
    unfolding filter_mset_eq_conv using tps_dues_small[OF inv] by auto
  ultimately have "expired (tps_ticks now s) (tps_dues s) = image_mset snd (tps_dues s)" by (simp add: expired_def)
  then show "fst (tps_poll now s) \<noteq> []" using poll(2) ne by force
  show "tps_last (snd (tps_poll now s)) = now" using poll(4) by (simp add: now(1) wheel_time_def)
qed

lemma timers_bring_jobs:
  assumes inv: "world_inv w" and ne: "tps_dues (timers w) \<noteq> {#}" and none: "polled w = []"
    and now: "now = tps_last (timers w) + wheel_time" "clock_range now"
  shows "jobs_left (poll_source env now TimingSource w) \<noteq> {#}"
    "tps_last (timers (poll_source env now TimingSource w)) = now"
proof -
  obtain jobs s where p: "tps_poll now (timers w) = (jobs, s)" by (cases "tps_poll now (timers w)")
  note late = late_poll[OF sources_invD(1)[OF inv] ne now, unfolded p fst_conv snd_conv]
  show "jobs_left (poll_source env now TimingSource w) \<noteq> {#}"
    using late(1) none by (simp add: poll_source_def poll_jobs_def p jobs_left_def held_def)
  show "tps_last (timers (poll_source env now TimingSource w)) = now"
    using late(2) none by (simp add: poll_source_def poll_jobs_def p)
qed

lemma reads_bring_jobs:
  assumes ne: "in_flight_requests (io_source w) \<noteq> []" and none: "polled w = []"
    and os: "\<forall>a. aio_error_fn env (os_state w) a \<noteq> EINPROGRESS"
  shows "jobs_left (poll_source env now IoSource w) \<noteq> {#}"
    "timers (poll_source env now IoSource w) = timers w"
proof -
  show "jobs_left (poll_source env now IoSource w) \<noteq> {#}"
    using ne os none by (simp add: poll_source_def poll_jobs_def io_poll_eq jobs_left_def held_def is_completed_def split_def)
  show "timers (poll_source env now IoSource w) = timers w"
    using none by (simp add: poll_source_def poll_jobs_def split_def Let_def)
qed

subsection \<open>Time passes\<close>

text \<open>Calls of the program, turns of workers, polls, and whatever the operating system does.\<close>

inductive timed_step ::
  "('f, 'a, 'os) environment \<Rightarrow> ('f, 'a) call list \<Rightarrow> nat \<times> 'a locals \<times> ('f, 'a, 'os) world
    \<Rightarrow> nat \<times> 'a locals \<times> ('f, 'a, 'os) world \<Rightarrow> bool"
  for env P where
  step: "program_step env P x y \<Longrightarrow> timed_step env P x y"
| poll: "clock_range now \<Longrightarrow> timed_step env P (k, l, w) (k, l, poll_source env now src w)"
| system: "timed_step env P (k, l, w) (k, l, w\<lparr>buffers := b, os_state := s\<rparr>)"

lemma timed_steps: "(program_step env P)\<^sup>*\<^sup>* x y \<Longrightarrow> (timed_step env P)\<^sup>*\<^sup>* x y"
  by (induction rule: rtranclp_induct) (auto intro: timed_step.step rtranclp.rtrancl_into_rtrancl)

lemma timed_step_run: "timed_step env P (k, l, w) (k', l', w') \<Longrightarrow> program_run env n P k l w \<Longrightarrow> program_run env n P k' l' w'"
  by (erule timed_step.cases) (auto intro: program_step_run program_run.intros)

lemma timed_steps_run:
  "(timed_step env P)\<^sup>*\<^sup>* x y \<Longrightarrow> (case x of (k, l, w) \<Rightarrow> program_run env n P k l w) \<Longrightarrow>
   (case y of (k, l, w) \<Rightarrow> program_run env n P k l w)"
  by (induction rule: rtranclp_induct) (auto intro: timed_step_run)

lemma program_step_counted:
  "program_step env P (k, l, w) (k', l', w') \<Longrightarrow> counted_run env n P k l w m \<Longrightarrow> \<exists>m'\<ge>m. counted_run env n P k' l' w' m'"
proof (erule program_step.cases, goal_cases)
  case 1
  then show ?case using counted_run.exec[of env n P k l w m l' w'] by (intro exI[of _ "Suc m"]) simp
next
  case (2 i w1 rnd w2)
  then show ?case using counted_run.turn[of env n P k l w m i rnd w'] by (intro exI[of _ "if runs_job i w then Suc m else m"]) simp
qed

lemma program_step_clock:
  assumes st: "program_step env P (k, l, w) (k', l', w')" and run: "program_run env n P k l w"
    and types: "well_typed_env G env" "infer_all G src P no_types = Some T" and keep: "functions_keep same_clock G env"
  shows "same_clock w w'"
  using st
proof cases
  case call
  show ?thesis
  proof (cases "is_read (P ! k)")
    case True
    then obtain fd i where "P ! k = ReadFile fd i" by (cases "P ! k") auto
    then show ?thesis
      using call by (auto simp: same_clock_def io_read_def value_source_create_def value_source_new_def write_once_new_def
          new_cell_def queue_read_def enqueue_and_start_read_def Let_def split: prod.splits if_splits)
  next
    case False
    then show ?thesis using clock_kept.kept_call call by blast
  qed
next
  case (turn i rnd)
  then show ?thesis using clock_kept.kept_program_turn[OF run types _ _ keep] by blast
qed

lemma program_steps_clock:
  assumes st: "(program_step env P)\<^sup>*\<^sup>* (k, l, w) (k', l', w')" and run: "counted_run env n P k l w m"
    and types: "well_typed_env G env" "infer_all G src P no_types = Some T" and keep: "functions_keep same_clock G env"
  shows "\<exists>m'\<ge>m. counted_run env n P k' l' w' m' \<and> same_clock w w'"
proof -
  have "case y of (k', l', w') \<Rightarrow> \<exists>m'\<ge>m. counted_run env n P k' l' w' m' \<and> same_clock w w'"
    if "(program_step env P)\<^sup>*\<^sup>* (k, l, w) y" for y
    using that
  proof (induction rule: rtranclp_induct)
    case base
    then show ?case using run by (auto simp: same_clock_def)
  next
    case (step y z)
    obtain k1 l1 w1 k2 l2 w2 where yz: "y = (k1, l1, w1)" "z = (k2, l2, w2)" by (cases y, cases z)
    from step(3) obtain m1 where m1: "m \<le> m1" "counted_run env n P k1 l1 w1 m1" "same_clock w w1" by (auto simp: yz)
    from program_step_counted[OF step(2)[unfolded yz] m1(2)] obtain m2 where "m1 \<le> m2" "counted_run env n P k2 l2 w2 m2" by blast
    moreover have "same_clock w1 w2" by (rule program_step_clock[OF step(2)[unfolded yz] counted_is_run[OF m1(2)] types keep])
    ultimately show ?case using m1(1,3) by (auto simp: yz same_clock_def intro: order_trans)
  qed
  from this[OF st] show ?thesis by simp
qed

text \<open>What a program waits for at a \<open>block\<close> is brought by one answer of the system and one poll.\<close>

lemma polled_queued:
  assumes l: "lively w" and ne: "jobs_left w \<noteq> {#}" and run: "counted_run env n P k l w m"
  obtains w' where "(timed_step env P)\<^sup>*\<^sup>* (k, l, w) (k, l, w')" "counted_run env n P k l w' m" "jobs_left w' \<noteq> {#}"
    "polled w' = []" "timers w' = timers w"
proof (cases "polled w = []")
  case True
  then show thesis using that[of w] run ne by simp
next
  case False
  have now: "clock_range 0" by (simp add: clock_range_def)
  have q: "poll_source env 0 IoSource w = queue_polled w" by (simp add: poll_source_def False)
  have "timed_step env P (k, l, w) (k, l, queue_polled w)" using timed_step.poll[OF now, of env P k l w IoSource] q by simp
  then have "(timed_step env P)\<^sup>*\<^sup>* (k, l, w) (k, l, queue_polled w)" by (rule r_into_rtranclp[where r = "timed_step env P"])
  moreover have "jobs_left (queue_polled w) = jobs_left w" "timers (queue_polled w) = timers w"
    using queue_polled_hands_over[OF world_invD(1)[OF livelyD(1)[OF l]]] by (simp_all add: hands_over_def)
  moreover have "polled (queue_polled w) = []" by (simp add: queue_polled_def)
  moreover have "counted_run env n P k l (queue_polled w) m" using counted_run.poll[OF run now, of IoSource] q by simp
  ultimately show thesis using that ne by simp
qed

lemma source_brings_jobs:
  assumes l: "lively w" and wait: "polled w \<noteq> [] \<or> \<not> source_free w"
    and answers: "in_flight_requests (io_source w) = [] \<or> (\<exists>s. \<forall>a. aio_error_fn env s a \<noteq> EINPROGRESS)"
    and time: "tps_last (timers w) + wheel_time \<le> 9223372036854775807" and run: "counted_run env n P k l w m"
  obtains w' where "(timed_step env P)\<^sup>*\<^sup>* (k, l, w) (k, l, w')" "counted_run env n P k l w' m" "jobs_left w' \<noteq> {#}"
    "lively w'" "tps_last (timers w') \<le> tps_last (timers w) + wheel_time"
proof -
  note inv = livelyD(1)[OF l]
  consider "polled w \<noteq> []" | (timers) "polled w = []" "tps_dues (timers w) \<noteq> {#}"
    | (reads) "polled w = []" "in_flight_requests (io_source w) \<noteq> []" using wait by (auto simp: source_free_def)
  then show thesis
  proof cases
    case 1
    then have "jobs_left w \<noteq> {#}" by (simp add: jobs_left_def held_def)
    with that[OF _ run this l] show thesis by (simp add: wheel_time_def)
  next
    case timers
    let ?now = "tps_last (timers w) + wheel_time"
    have now: "clock_range ?now"
      using sources_invD(1)[OF inv] time by (simp add: tps_inv_def clock_range_def tps_last_def wheel_time_def)
    note jobs = timers_bring_jobs[OF inv timers(2,1) refl now, of env]
    have "timed_step env P (k, l, w) (k, l, poll_source env ?now TimingSource w)" by (rule timed_step.poll[OF now])
    then have "(timed_step env P)\<^sup>*\<^sup>* (k, l, w) (k, l, poll_source env ?now TimingSource w)" by (rule r_into_rtranclp[where r = "timed_step env P"])
    from that[OF this counted_run.poll[OF run now] jobs(1) keepsD(2)[OF poll_keeps[OF l now]]] jobs(2) show thesis by simp
  next
    case reads
    then obtain s where s: "\<forall>a. aio_error_fn env s a \<noteq> EINPROGRESS" using answers by blast
    let ?w = "w\<lparr>buffers := buffers w, os_state := s\<rparr>"
    have c: "counted_run env n P k l ?w m" by (rule counted_run.os[OF run])
    have now: "clock_range 0" by (simp add: clock_range_def)
    have l': "lively ?w" by (rule keepsD(2)[OF system_waiting[OF l]])
    have "in_flight_requests (io_source ?w) \<noteq> []" "polled ?w = []" "\<forall>a. aio_error_fn env (os_state ?w) a \<noteq> EINPROGRESS"
      using reads s by simp_all
    note jobs = reads_bring_jobs[OF this, of 0]
    have "timed_step env P (k, l, w) (k, l, ?w)" by (rule timed_step.system)
    moreover have "timed_step env P (k, l, ?w) (k, l, poll_source env 0 IoSource ?w)" by (rule timed_step.poll[OF now])
    ultimately have "(timed_step env P)\<^sup>*\<^sup>* (k, l, w) (k, l, poll_source env 0 IoSource ?w)"
      by (rule converse_rtranclp_into_rtranclp[OF _ r_into_rtranclp[where r = "timed_step env P"]])
    from that[OF this counted_run.poll[OF c now] jobs(1) keepsD(2)[OF poll_keeps[OF l' now]]] jobs(2) show thesis
      by (simp add: wheel_time_def)
  qed
qed

lemma timed_program_ends:
  assumes good: "good_program G c env P" and n: "0 < n mod 4294967296" and keep: "functions_keep same_clock G env"
    and answers: "\<And>k l w. program_run env n P k l w \<Longrightarrow>
      in_flight_requests (io_source w) = [] \<or> (\<exists>s. \<forall>a. aio_error_fn env s a \<noteq> EINPROGRESS)"
  shows "counted_run env n P k l w m \<Longrightarrow>
    tps_last (timers w) + int (Suc (length P + sum_list (map (call_cost c) P)) - m) * wheel_time \<le> 9223372036854775807 \<Longrightarrow>
    \<exists>l' w'. (timed_step env P)\<^sup>*\<^sup>* (k, l, w) (length P, l', w')"
proof (induction "length P + sum_list (map (call_cost c) P) - m" arbitrary: k l w m rule: less_induct)
  case less
  let ?N = "length P + sum_list (map (call_cost c) P)"
  obtain src T where types: "well_typed_env G env" "infer_all G src P no_types = Some T" using good by (auto simp: good_program_def)
  obtain k1 l1 w1 where s1: "(program_step env P)\<^sup>*\<^sup>* (k, l, w) (k1, l1, w1)" "at_rest P k1 w1"
    using good_program_goes_on[OF good n less.prems(1)] by blast
  show ?case
  proof (cases "k1 = length P")
    case True
    then show ?thesis using timed_steps[OF s1(1)] by blast
  next
    case False
    then have wait: "polled w1 \<noteq> [] \<or> \<not> source_free w1" using s1(2) by (auto simp: at_rest_def)
    obtain m1 where m1: "m \<le> m1" "counted_run env n P k1 l1 w1 m1" "same_clock w w1"
      using program_steps_clock[OF s1(1) less.prems(1) types keep] by blast
    note run1 = counted_is_run[OF m1(2)]
    have total: "j \<le> ?N" if "counted_run env n P k2 l2 w2 j" for k2 l2 w2 j
      using counted_run_total[OF that] good by (auto simp: good_program_def)
    have "lively w1" by (rule good_programD(4)[OF good run1])
    have clock1: "tps_last (timers w1) = tps_last (timers w)" using m1(3) by (simp add: same_clock_def)
    have pos: "0 < wheel_time" by (simp add: wheel_time_def)
    have "m \<le> ?N" using total[OF less.prems(1)] .
    then have "1 * wheel_time \<le> int (Suc ?N - m) * wheel_time" using pos by (intro mult_right_mono) auto
    then have time: "tps_last (timers w1) + wheel_time \<le> 9223372036854775807" using less.prems(2) clock1 by simp
    obtain v where v: "(timed_step env P)\<^sup>*\<^sup>* (k1, l1, w1) (k1, l1, v)" "counted_run env n P k1 l1 v m1" "jobs_left v \<noteq> {#}"
      "lively v" "tps_last (timers v) \<le> tps_last (timers w1) + wheel_time"
      using source_brings_jobs[OF \<open>lively w1\<close> wait answers[OF run1] time m1(2)] by blast
    obtain w2 where w2: "(timed_step env P)\<^sup>*\<^sup>* (k1, l1, v) (k1, l1, w2)" "counted_run env n P k1 l1 w2 m1" "jobs_left w2 \<noteq> {#}"
      "polled w2 = []" "timers w2 = timers v" using polled_queued[OF v(4,3,2)] .
    obtain w3 where w3: "(program_step env P)\<^sup>*\<^sup>* (k1, l1, w2) (k1, l1, w3)" "counted_run env n P k1 l1 w3 (Suc m1)"
      using good_turn[OF good n w2(2-4)] .
    have "same_clock w2 w3" using program_steps_clock[OF w3(1) w2(2) types keep] by blast
    then have last: "tps_last (timers w3) \<le> tps_last (timers w) + wheel_time" using v(5) w2(5) clock1 by (simp add: same_clock_def)
    have bound: "Suc m1 \<le> ?N" using total[OF w3(2)] .
    then have "(int (Suc ?N - Suc m1) + 1) * wheel_time \<le> int (Suc ?N - m) * wheel_time" using pos m1(1) by (intro mult_right_mono) auto
    then have "tps_last (timers w3) + int (Suc ?N - Suc m1) * wheel_time \<le> 9223372036854775807"
      using last less.prems(2) by (simp add: distrib_right)
    moreover have "?N - Suc m1 < ?N - m" using bound m1(1) by simp
    ultimately obtain l' w' where "(timed_step env P)\<^sup>*\<^sup>* (k1, l1, w3) (length P, l', w')"
      using less.hyps[OF _ w3(2)] by blast
    then have "(timed_step env P)\<^sup>*\<^sup>* (k1, l1, w2) (length P, l', w')" by (rule rtranclp_trans[OF timed_steps[OF w3(1)]])
    from rtranclp_trans[OF timed_steps[OF s1(1)] rtranclp_trans[OF v(1) rtranclp_trans[OF w2(1) this]]] show ?thesis by blast
  qed
qed

subsection \<open>The examples\<close>

text \<open>No read is in flight in a program that starts none.\<close>

lemma program_no_reads:
  assumes run: "program_run env n P k l w" and types: "well_typed_env G env" "infer_all G src P no_types = Some T"
    and keep: "functions_keep same_reads G env" and P: "\<forall>c \<in> set P. \<not> is_read c"
  shows "in_flight_requests (io_source w) = []"
  using run
proof (induction rule: program_run.induct)
  case (start now s)
  show ?case by (simp add: factory_new_def split_def Let_def io_new_def)
next
  case (exec k l w l' w')
  have "\<not> is_read (P ! k)" using P exec(2) by simp
  from reads_kept.kept_call[OF exec(4) this] exec(5) show ?case by (simp add: same_reads_def)
next
  case (turn k l w i rnd w')
  from reads_kept.kept_program_turn[OF turn(1) types turn(2,3) keep] turn(4) show ?case by (simp add: same_reads_def)
next
  case (poll k l w now src)
  then show ?case
    by (cases src) (simp_all add: poll_source_def poll_jobs_def queue_polled_def io_poll_eq split_def Let_def)
next
  case (os k l w s b)
  then show ?case by simp
qed

lemma apply_delay_keeps:
  assumes "apply_delay f v w = Some (t, w')"
  shows "same_clock w w'" "same_reads w w'"
proof -
  obtain d where "f = DelayBy d" using assms by (cases f) auto
  then obtain u w1 where u: "timer_after d w = (u, w1)" "task_map (Constant v) u w1 = Some (t, w')"
    using assms by (auto simp: delay_by_def split: prod.splits)
  have "same_clock w w1" "same_reads w w1"
    using u(1) by (auto simp: timer_after_def value_source_new_def value_source_create_def write_once_new_def new_cell_def
        same_clock_def same_reads_def tps_last_def tps_schedule_def hw_schedule_def Let_def)
  moreover note same_sources_map[OF u(2)]
  ultimately show "same_clock w w'" "same_reads w w'" by (simp_all add: same_clock_def same_reads_def same_sources_def)
qed

lemma int_env_keeps: "functions_keep same_clock int_types int_env" "functions_keep same_reads int_types int_env"
  by (auto simp: functions_keep_def int_types_def int_env_def same_clock_def[of w w for w] same_reads_def[of w w for w]
      dest: apply_delay_keeps)

lemma io_env_keeps: "functions_keep same_clock io_types (io_env er rd)"
proof -
  have "same_clock w w'" if "io_map f x w = Some (v, w')" for f x v and w w' :: "(unit example_fn, unit, byte list list) world"
  proof -
    have "timers w' = timers w"
      using that by (cases "(f, x)" rule: io_map_type.cases; cases x) auto
    then show ?thesis by (simp add: same_clock_def)
  qed
  then show ?thesis by (auto simp: functions_keep_def io_types_def io_env_def dest: apply_delay_keeps)
qed

text \<open>The year 2255, and the work of the main example: 93 calls and jobs, each after all the wheels can wait.\<close>

lemma timed_example_ends:
  assumes good: "good_program G example_cost env P" and keep: "functions_keep same_clock G env"
    and answers: "\<And>k l w. program_run env 3 P k l w \<Longrightarrow>
      in_flight_requests (io_source w) = [] \<or> (\<exists>s. \<forall>a. aio_error_fn env s a \<noteq> EINPROGRESS)"
    and cost: "length P + sum_list (map (call_cost example_cost) P) \<le> 93"
    and run: "program_run env 3 P k l w" and time: "tps_last (timers w) \<le> 9000000000000000000"
  obtains l' w' where "(timed_step env P)\<^sup>*\<^sup>* (k, l, w) (length P, l', w')" "program_run env 3 P (length P) l' w'"
proof -
  obtain m where m: "counted_run env 3 P k l w m" using run_is_counted[OF run] ..
  have n: "0 < (3::int) mod 4294967296" by simp
  have "int (Suc (length P + sum_list (map (call_cost example_cost) P)) - m) \<le> 94" using cost by simp
  then have "int (Suc (length P + sum_list (map (call_cost example_cost) P)) - m) * wheel_time \<le> 94 * wheel_time"
    by (intro mult_right_mono) (auto simp: wheel_time_def)
  then have "tps_last (timers w) + int (Suc (length P + sum_list (map (call_cost example_cost) P)) - m) * wheel_time \<le> 9223372036854775807"
    using time by (simp add: wheel_time_def)
  have "\<exists>l' w'. (timed_step env P)\<^sup>*\<^sup>* (k, l, w) (length P, l', w')"
    by (rule timed_program_ends[OF good n keep _ m \<open>tps_last _ + _ \<le> _\<close>]) (rule answers)
  then obtain l' w' where s: "(timed_step env P)\<^sup>*\<^sup>* (k, l, w) (length P, l', w')" by blast
  from timed_steps_run[OF s, of 3] run that[OF s] show thesis by simp
qed

lemma main_example_ends:
  assumes run: "program_run int_env 3 main_main k l w" and time: "tps_last (timers w) \<le> 9000000000000000000"
  obtains l' w' where "(timed_step int_env main_main)\<^sup>*\<^sup>* (k, l, w) (length main_main, l', w')"
    "program_run int_env 3 main_main (length main_main) l' w'"
proof -
  obtain T where T: "infer_all int_types (\<lambda>i. {Value (Plain 100)}) main_main no_types = Some T" using main_main_types by blast
  have "\<forall>c \<in> set main_main. \<not> is_read c" by (simp add: main_main_def when_any_computation_def when_all_computation_def)
  from program_no_reads[OF _ int_env_typed T int_env_keeps(2) this]
  show thesis using timed_example_ends[OF good_examples(2) int_env_keeps(1) _ _ run time that] example_costs(2) by simp
qed

lemma io_example_ends:
  assumes run: "program_run (io_env er rd) 3 (io_main junk fileno) k l w" and time: "tps_last (timers w) \<le> 9000000000000000000"
    and os: "\<forall>a. er s a \<noteq> EINPROGRESS"
  obtains l' w' where "(timed_step (io_env er rd) (io_main junk fileno))\<^sup>*\<^sup>* (k, l, w) (length (io_main junk fileno), l', w')"
    "program_run (io_env er rd) 3 (io_main junk fileno) (length (io_main junk fileno)) l' w'"
proof -
  have "\<exists>s. \<forall>a. aio_error_fn (io_env er rd) s a \<noteq> EINPROGRESS" using os by (auto simp: io_env_def)
  then show thesis using timed_example_ends[OF good_examples(3) io_env_keeps _ _ run time that] example_costs(3)[of junk fileno] by simp
qed

lemma factory_clock: "tps_last (timers (snd (factory_new now n s))) = now"
  by (simp add: factory_new_def split_def Let_def tps_new_correct(2))

lemma main_example_result:
  assumes "program_run int_env 3 main_main k l w"
  shows "\<not> thrown l \<and> (k = length main_main \<longrightarrow> (\<exists>x \<in> {105, 405, 305, 205, 605, 430}.
    shown l = [Value (Plain x), Value (Vector [Plain 105, Plain 405, Plain 305])]))"
proof -
  obtain T where T: "infer_all int_types (\<lambda>i. {Value (Plain 100)}) main_main no_types = Some T"
    "shown_types T = [Value ` Plain ` {105, 405, 305, 205, 605, 430}, {Value (Vector [Plain 105, Plain 405, Plain 305])}]"
    using main_main_types by blast
  note sound = program_sound[OF assms int_env_typed T(1)]
  have "\<exists>x \<in> {105, 405, 305, 205, 605, 430}. shown l = [Value (Plain x), Value (Vector [Plain 105, Plain 405, Plain 305])]"
    if "k = length main_main"
    using sound(2)[OF that] by (auto simp: T(2) list_all2_Cons2)
  then show ?thesis using sound(1) by blast
qed

subsection \<open>Properties\<close>



text \<open>
  C13: The main example always finishes: from every point of every run, however many timers are
  waiting, there are calls of \<open>main\<close>, turns of the workers and polls that bring it to its end, with
  its two results shown. The timers must not yet have been advanced beyond the year 2255, so that
  the clock can represent the times the polls need.
\<close>

theorem main_example_finishes:
  assumes "program_run int_env 3 main_main k l w" and "tps_last (timers w) \<le> 9000000000000000000"
  shows "\<exists>l' w'. (timed_step int_env main_main)\<^sup>*\<^sup>* (k, l, w) (length main_main, l', w')
    \<and> (\<exists>x \<in> {105, 405, 305, 205, 605, 430}. shown l' = [Value (Plain x), Value (Vector [Plain 105, Plain 405, Plain 305])])"
proof -
  obtain l' w' where s: "(timed_step int_env main_main)\<^sup>*\<^sup>* (k, l, w) (length main_main, l', w')"
    "program_run int_env 3 main_main (length main_main) l' w'" by (rule main_example_ends[OF assms])
  with main_example_result[OF s(2)] show ?thesis by blast
qed

theorem main_example_finishes_witness:
  "\<exists>l' w'. (timed_step int_env main_main)\<^sup>*\<^sup>* (0, no_locals, snd (factory_new 0 3 ())) (length main_main, l', w')"
  using main_example_finishes[OF example_start[where s = "()"]] by (simp add: factory_clock) blast

text \<open>
  C14: The I/O example always finishes if the operating system can come to a state in which it
  answers for every read: from every point of every run there are calls of \<open>main\<close>, turns of the
  workers, polls and that answer of the system that bring it to its end, past the \<open>block\<close>.
\<close>

theorem io_example_finishes:
  assumes "program_run (io_env aio_error aio_read) 3 (io_main junk fileno) k l w"
    and "tps_last (timers w) \<le> 9000000000000000000" and "\<forall>a. aio_error s a \<noteq> EINPROGRESS"
  shows "\<exists>l' w'. (timed_step (io_env aio_error aio_read) (io_main junk fileno))\<^sup>*\<^sup>* (k, l, w) (length (io_main junk fileno), l', w')
    \<and> (\<exists>r \<in> {Value Unit, Err IOError}. shown l' = [r])"
proof -
  obtain l' w' where s: "(timed_step (io_env aio_error aio_read) (io_main junk fileno))\<^sup>*\<^sup>* (k, l, w) (length (io_main junk fileno), l', w')"
    "program_run (io_env aio_error aio_read) 3 (io_main junk fileno) (length (io_main junk fileno)) l' w'"
    by (rule io_example_ends[OF assms])
  with io_example_result[OF s(2)] show ?thesis by blast
qed

text \<open>A system that has nothing to report for a read until it has written a line.\<close>

theorem io_example_finishes_witness:
  "let env = io_env (\<lambda>s a. if s = [] then EINPROGRESS else 0) (\<lambda>a cb s. (0, s)); P = io_main (\<lambda>i. 0) 3
   in \<exists>l' w'. (timed_step env P)\<^sup>*\<^sup>* (0, no_locals, snd (factory_new 0 3 [])) (length P, l', w')"
  using io_example_finishes[OF example_start[where s = "[]"], where s = "[[]]"
      and aio_error = "\<lambda>s a. if s = [] then EINPROGRESS else 0" and aio_read = "\<lambda>a cb s. (0, s)" and junk = "\<lambda>i. 0" and fileno = 3]
  by (simp add: factory_clock EINPROGRESS_def Let_def) blast

end
