(* ===== verification/Spec2Isabelle.thy ===== *)
theory Spec2Isabelle
  imports Shutdown_Runs Spin_Lock Combinators Combinator_Races Task_Results Poll_Thread Cell_Blocking Sum_Main Timed_Examples
begin

text \<open>
  Async-ery is a C++ library of asynchronous tasks on a work-stealing scheduler. This is a
  model of its implementation, with the theorems that make it correct. Everything under
  \<open>include/async_lib\<close> and \<open>src\<close> of the repository that computes or keeps state is modelled, and
  so are the examples; the build files are not.

  \<^bold>\<open>The program.\<close> A \<open>Task\<close> is a reference to a \<^emph>\<open>cell\<close>: a place that a result is written to once
  and that callbacks can be registered on. \<open>map\<close>, \<open>bind\<close>, \<open>when_any\<close> and \<open>when_all\<close> make new
  cells and register library closures on the old ones. Filling a cell queues a job for every
  callback on it. Jobs are queued on the worker named by a scheduling context, or on a global
  queue, and a worker that runs out of its own jobs takes one from the global queue or steals
  one from another worker. A poll thread polls two sources, a hierarchical timing wheel of
  timers and the list of reads in flight, and queues the jobs they return; those jobs fill the
  cells of timer and read tasks.

  \<^bold>\<open>Theories\<close>, from the bottom up:

  \<^item> \<open>Prelude\<close>: \<open>size_t\<close> arithmetic with its wrap-around, the C++ quotient of durations, function
    objects, and the generic facts the components share.
  \<^item> \<open>Fifo_Spec\<close>, \<open>Job_Queue\<close>, \<open>Worker_Pool\<close>, \<open>Pool_Machine\<close> (\<open>src/scheduler\<close>): the contract of
    a queue as the locale \<open>fifo\<close>; the growing ring buffer of \<open>job_queue.cpp\<close>, which is an
    interpretation of it; workers, the pool and the search for work of \<open>worker.cpp\<close> and
    \<open>worker_pool.cpp\<close>; and the workers as threads that interleave.
  \<^item> \<open>Pool_Shutdown\<close>, \<open>Shutdown_Runs\<close> (\<open>scheduler.h\<close>, \<open>worker_pool.h\<close>, \<open>worker.h\<close>): the scheduler from its
    constructor to the end of its destructor, with the stop tokens, the joining of threads and the
    freeing of queues.
  \<^item> \<open>Timer_Spec\<close>, \<open>Timing_Wheel\<close>, \<open>Hierarchical_Wheel\<close>, \<open>Wheel_Dues\<close>, \<open>Wheel_Advance\<close>,
    \<open>Wheel_Schedule\<close>, \<open>Timing_Poll_Source\<close> (\<open>src/timing\<close>): the contract of a timing wheel as
    the locale \<open>timer_store\<close>; the two wheels, both interpretations of it; when a timer of the
    hierarchical wheel comes out (\<open>due\<close>), that \<open>advance\<close> agrees with it and where \<open>schedule\<close>
    puts a timer; and the wheel the library runs.
  \<^item> \<open>Poll_Source_Spec\<close>, \<open>Poll_Loop\<close> (\<open>poll_source.h\<close>, \<open>scheduler.cpp\<close>, \<open>scheduler_factory.cpp\<close>):
    the contract of a poll source as the locale \<open>poll_source\<close>, which the timing source and the
    source of reads interpret; and the poll thread, with poll sources as arguments.
  \<^item> \<open>Spin_Lock\<close> (\<open>src/concurrency\<close>): the lock, one access to the atomic flag at a time.
  \<^item> \<open>Io_Request\<close>, \<open>Io_Poll_Source\<close> (\<open>src/io\<close>): requests, buffers, results and the source of
    reads in flight.
  \<^item> \<open>Cells\<close>, \<open>Tasks\<close> (\<open>src/cell\<close>, \<open>include/async_lib\<close>, \<open>src/async_lib\<close>): the store of cells, the
    closures the library makes, tasks, sources and the factory; \<open>Cell_Laws\<close>, \<open>Cell_Steps\<close> and
    \<open>Task_Laws\<close>: the invariant of the store, and what every operation does to it.
  \<^item> \<open>Library_Machine\<close>: all of it as one step relation; \<open>Combinators\<close>, \<open>Task_Results\<close>: what tasks
    resolve to; \<open>Poll_Thread\<close>: the poll thread over the library's two sources, the third
    interpretation of \<open>poll_source\<close>.
  \<^item> \<open>Cell_Blocking\<close>, \<open>Combinator_Races\<close>: the places where a mutex does not make an operation of a
    cell one step, access by access: \<open>block\<close> and \<open>await\<close>, and the callbacks of \<open>when_all\<close> and
    \<open>when_any\<close> running on several workers.

  \<^item> \<open>Concurrent_Sum\<close>, \<open>Sum_View\<close>, \<open>Sum_Runs\<close>, \<open>Sum_Main\<close> (\<open>examples/concurrency.cpp\<close>): a client of
    the library with its closures, what the world looks like while it runs, all its runs, and the
    program from the numbers it reads to the number it prints.

  \<^item> \<open>Result_Types\<close>, \<open>Result_Contexts\<close>, \<open>Result_Clients\<close>, \<open>Client_Types\<close>, \<open>Result_Soundness\<close>,
    \<open>Typed_Runs\<close>: types for results, which stand for the \<open>T\<close> of \<open>Task<T>\<close> and may be as small as
    the one outcome a program means to compute: what every cell, callback, job and context must
    satisfy, the operations that keep it so, how a client computes the type of each task it
    makes, and that in every run results have their types.
  \<^item> \<open>Client_Programs\<close>, \<open>Example_Programs\<close> (\<open>examples/error_example.cpp\<close>, \<open>main_example.cpp\<close>,
    \<open>io_example.cpp\<close>): programs as lists of library calls between which everything else runs,
    their types and the arguments their closures may get, and the other three examples.
  \<^item> \<open>Waiting\<close>, \<open>Waiting_Steps\<close>, \<open>Waiting_Counts\<close>, \<open>Waiting_Calls\<close>, \<open>Waiting_Clients\<close>: when the result of
    a cell is \<open>coming\<close> (it is there, or a job, timer or read will fill it, or callbacks on cells
    that are coming), that the counters of combining cells never run past the callbacks left, and
    what each operation and each call does to both. \<open>Live_Clients\<close>, \<open>Live_Runs\<close>, \<open>Live_Jobs\<close>,
    \<open>Liveness\<close>: clients with the tasks they rely on, every job, and all runs. \<open>Live_Programs\<close>,
    \<open>Live_Examples\<close>: a check of the text of a program after which it cannot hang, passed by the
    examples.
  \<^item> \<open>Work\<close>, \<open>Bounded_Programs\<close>, \<open>Bounded_Examples\<close>: the work that is left (jobs, timers, reads and
    callbacks, each with what its user function may add), which every job run lessens and nothing
    but a call of the program increases; so the examples run a bounded number of jobs.
  \<^item> \<open>Returning_Jobs\<close>, \<open>Source_Free\<close>, \<open>Finished_Examples\<close>, \<open>Timed_Examples\<close>: every job of a typed
    program returns; what calls and jobs leave of timers, reads and the timers' clock, with the
    locale \<open>source_relation\<close>; and the examples brought to their end, by calls and turns of workers
    alone or with polls and answers of the operating system.

  \<^bold>\<open>How state corresponds.\<close> A class is a record with the source's fields, a member function a
  definition of the source's name that takes the object and returns it updated (with a prefix
  where several classes use a name: \<open>jq_\<close>, \<open>hw_\<close>, \<open>tw_\<close>, \<open>tps_\<close>, \<open>io_\<close>). Cells, buffers and control
  blocks are shared, so they are addresses into lists of the record \<open>world\<close>, which also holds
  the pool, the timers and the reads in flight. A closure is a constructor of \<open>callback\<close> or
  \<open>job\<close> with what it captures, and \<open>run_callback\<close> and \<open>run_job\<close> are their bodies. Every argument
  that the program cannot know is an argument of the model: the clock readings, the random
  start of the stealing loop, the user's functions and the operating system's asynchronous
  I/O calls (\<open>environment\<close>). A \<open>size_t\<close> that can leave its range is computed modulo \<open>2 ^ 64\<close>.

  \<^bold>\<open>What the theorems show.\<close>
  \<^item> The ring buffer is a first-in first-out queue through any number of resizes, and its
    resizing loop terminates. Queueing puts a job in exactly the queue its context names; a
    worker takes its own jobs first and comes back without one only when there is none; left
    alone it empties the pool. In every interleaving each job is queued, held by one worker or executed, exactly once.
  \<^item> A scheduler with one worker is destroyed in an orderly way; with two or more, a worker that is
    still scanning can take a job from the queue of one that is gone, and that is the only access
    to a freed queue there is. A worker asked to stop begins at most one more job, the destructor
    can always go on, and the jobs left in the queues are destroyed without having run.
  \<^item> Advancing either wheel hands out exactly the timers due in the ticks that have passed, in
    order, and every timer is handed out once. Scheduling is exact on aligned wheels, so a timer
    asked for before the first advance fires with the tick after its last whole one; in general a timer in a higher wheel comes out early by the position of the wheels below, and a
    timer of under a minute that crosses the end of the lowest wheel comes out nine days late,
    since the subtraction in \<open>determine_timer_wheel\<close> wraps. Ticks never run ahead of the clock,
    but the remainder of each advance is lost.
  \<^item> The poll thread keeps every source on its wheel exactly once for as long as it runs, polls
    the library's two sources in every iteration at which 10 ms have passed, and loses no job
    between the sources and the pool.
  \<^item> A read's control block names what was asked for, and the request comes back with its
    result.
  \<^item> The spin lock gives mutual exclusion, and operations under it take effect one after
    another; that is what lets the queues and sources be modelled with one step per operation.
  \<^item> The first result written to a cell is its result for ever, through client calls, jobs,
    polls and user code in any order; every callback is queued exactly once; all references are
    to cells of the right kind. \<open>map\<close>, \<open>bind\<close>, \<open>when_all\<close> and \<open>when_any\<close> resolve to what they promise for
    every order of deliveries, and the two combinators also when the deliveries' accesses
    interleave; \<open>map\<close> is \<open>bind\<close> to a resolved task; combining no tasks never resolves; created,
    timer and read tasks resolve when their job runs.
  \<^item> A thread in \<open>block\<close> gets the value written if waits wake only when notified, and can throw
    if they may wake spuriously; \<open>await\<close> under a shared lock can lose a callback.

  \<^item> The concurrent sum returns what a plain loop would, in every interleaving of its calls with
    the workers and the poll thread, after a number of steps linear in the number of values; it
    does not return from making tasks if it is told to give a task no values. So the program
    prints \<open>n (n + 1) / 2\<close> for every \<open>n\<close> from 1 to the largest whose sum is an \<open>int\<close>; for 0 it blocks
    for ever, and for a negative number it dies.

  \<^item> Results have the types computed from the calls that made them, in every run; a \<open>when_any\<close> one
    of whose tasks cannot fail never reads an error. So \<open>std::get\<close> does not throw in the examples,
    and they show what they were written to show.

  \<^item> No result is lost: in every run, a task that was made from tasks to rely on (any but a
    combination of no tasks) is resolved as soon as no job, timer or read is under way and the
    client has completed its sources. A user function must give such a task itself, so it cannot
    give back the task of its own \<open>bind\<close>. Hence the examples never hang: the next call of their
    \<open>main\<close> returns, or it blocks while some work is under way; and they make and run at most 40, 93
    and 11 calls and jobs.
  \<^item> Every job of the examples returns: their closures are called only with arguments they are
    defined on, the chains of tracking cells that a job follows end, and no worker calls an empty
    function. So calls and turns of the workers bring an example to its end, or to a \<open>block\<close> with
    no job left and a timer or a read under way. The error example starts neither and always
    finishes. The main example finishes with polls that come late enough: nothing is on the
    wheels for longer than eleven days, so that the at most 93 polls it may need are times the clock
    can represent unless it is past the year 2255 already. The I/O example also needs the operating system to answer. That a worker takes a job when there is one is a theorem of the pool; that the
    threads are scheduled, that time passes and that the operating system finishes a read is not
    proved: the theorems say that an end can be reached from every point of every run.

  \<^bold>\<open>Termination and partiality.\<close> The walks over the wheels are total functions, with the number
  of wheels left as measure; the resizing loop is a \<open>while_option\<close>, proved to return on every
  well-formed queue. Reading, awaiting and blocking on a cell follow a chain of tracking cells,
  which a client can close to a cycle; they are \<open>partial_function (option)\<close>, where \<open>None\<close> is a
  call that does not return, and \<open>await\<close> is proved to return exactly when the chain ends. Loops
  that the program runs for ever (workers, poll thread) are step relations, or take the list of
  clock readings they see.

  \<^bold>\<open>Not modelled.\<close> Relaxed memory orders: an access to an atomic takes effect at once, except
  that the unlocked reading of a queue's counter may be stale in \<open>Pool_Machine\<close>. Exceptions
  thrown by user functions, and \<open>bad_alloc\<close>. The destructors of cells and tasks (cells are never
  freed), and clients that use a scheduler which is being destroyed; outside \<open>Pool_Shutdown\<close> the
  scheduler never stops. A job is one step of \<open>Library_Machine\<close>; it
  takes the locks of the cells it touches one after the other, and other threads could run in
  between (\<open>Combinator_Races\<close> takes the combining callbacks apart, the other callbacks touch one
  shared cell). The bytes that the operating system writes into a buffer. What the examples print besides
  results, and the order in which output reaches the terminal. Hypotheses about the
  clock (\<open>clock_range\<close>) say that a reading is within what \<open>system_clock\<close> can represent.
\<close>

end
